(* ===== verification/C_Prelude.thy ===== *)
theory C_Prelude
  imports Main "HOL-Library.Word"
begin

text \<open>
  Shared vocabulary of the development: the C integer types, the byte arrays that model C
  buffers, and the generic facts on lists and words the component theories use.

  A C array of bytes is a list of its fixed length. \<open>mem_write off src dst\<close> is what
  \<^verbatim>\<open>memcpy(dst + off, src, n)\<close> leaves in \<open>dst\<close> when the \<open>n\<close> bytes fit;
  \<open>memset\<close> is the same with a constant source.  A block cipher or hash reads its message in
  blocks of a fixed size: \<open>full_blocks n xs\<close> are the complete blocks, \<open>rest_block n xs\<close>
  what is left over.
\<close>

unbundle bit_operations_syntax

type_synonym byte = "8 word"
type_synonym u16 = "16 word"
type_synonym u32 = "32 word"
type_synonym u64 = "64 word"

named_theorems mem_simps

section \<open>Byte arrays\<close>

definition mem_write :: "nat \<Rightarrow> 'a list \<Rightarrow> 'a list \<Rightarrow> 'a list" where
  "mem_write off src dst = take off dst @ src @ drop (off + length src) dst"

lemma length_mem_write [mem_simps]:
  "off + length src \<le> length dst \<Longrightarrow> length (mem_write off src dst) = length dst"
  by (simp add: mem_write_def)

lemma take_mem_write:
  "off + length src \<le> length dst \<Longrightarrow> n = off + length src \<Longrightarrow>
   take n (mem_write off src dst) = take off dst @ src"
  by (simp add: mem_write_def)

lemma mem_write_Nil [simp]: "mem_write off [] dst = dst"
  by (simp add: mem_write_def)

lemma mem_write_full: "length src = length dst \<Longrightarrow> mem_write 0 src dst = src"
  by (simp add: mem_write_def)

lemma mem_write_end:
  "off + length src = length dst \<Longrightarrow> mem_write off src dst = take off dst @ src"
  by (simp add: mem_write_def)

lemma mem_write_single:
  "off < length dst \<Longrightarrow> dst[off := x] = mem_write off [x] dst"
  by (simp add: mem_write_def upd_conv_take_nth_drop)

lemma mem_write_append:
  "off + length xs + length ys \<le> length dst \<Longrightarrow> off' = off + length xs \<Longrightarrow>
   mem_write off' ys (mem_write off xs dst) = mem_write off (xs @ ys) dst"
  by (simp add: mem_write_def ac_simps)

lemma takeWhile_shorter: "x \<in> set xs \<Longrightarrow> \<not> P x \<Longrightarrow> length (takeWhile P xs) < length xs"
  by (induction xs) auto

section \<open>Reading a message in blocks\<close>

function full_blocks :: "nat \<Rightarrow> 'a list \<Rightarrow> 'a list list" where
  "full_blocks n xs =
     (if n = 0 \<or> length xs < n then [] else take n xs # full_blocks n (drop n xs))"
  by pat_completeness auto
termination
  by (relation "measure (\<lambda>(n, xs). length xs)") auto

declare full_blocks.simps [simp del]

definition rest_block :: "nat \<Rightarrow> 'a list \<Rightarrow> 'a list" where
  "rest_block n xs = drop (length xs - length xs mod n) xs"

lemma full_blocks_short: "length xs < n \<Longrightarrow> full_blocks n xs = []"
  by (simp add: full_blocks.simps [of n xs])

lemma full_blocks_Nil [simp]: "full_blocks n [] = []"
  by (cases n) (simp_all add: full_blocks.simps [of _ "[]"])

lemma full_blocks_Cons:
  "0 < n \<Longrightarrow> n \<le> length xs \<Longrightarrow> full_blocks n xs = take n xs # full_blocks n (drop n xs)"
  by (simp add: full_blocks.simps [of n xs])

lemma full_blocks_block:
  "0 < n \<Longrightarrow> length xs = n \<Longrightarrow> full_blocks n (xs @ ys) = xs # full_blocks n ys"
  by (simp add: full_blocks_Cons)

lemma full_blocks_one: "0 < n \<Longrightarrow> length xs = n \<Longrightarrow> full_blocks n xs = [xs]"
  using full_blocks_block [of n xs "[]"] by simp

lemma length_rest_block [simp]: "length (rest_block n xs) = length xs mod n"
  by (simp add: rest_block_def)

lemma rest_block_short: "length xs < n \<Longrightarrow> rest_block n xs = xs"
  by (simp add: rest_block_def)

lemma rest_block_drop:
  assumes "n \<le> length xs"
  shows "rest_block n (drop n xs) = rest_block n xs"
proof -
  have m: "(length xs - n) mod n = length xs mod n"
    using assms by (simp add: le_mod_geq)
  have "length xs mod n \<le> length xs - n"
    using m [symmetric] by (simp add: mod_less_eq_dividend)
  then show ?thesis
    using assms by (simp add: rest_block_def m)
qed

lemma full_blocks_append:
  "0 < n \<Longrightarrow> full_blocks n (xs @ ys) = full_blocks n xs @ full_blocks n (rest_block n xs @ ys)"
proof (induction n xs rule: full_blocks.induct)
  case (1 n xs)
  show ?case
  proof (cases "length xs < n")
    case True
    then show ?thesis by (simp add: full_blocks_short rest_block_short)
  next
    case False
    with 1 show ?thesis
      by (simp add: full_blocks_Cons [of n xs] full_blocks_Cons [of n "xs @ ys"] rest_block_drop)
  qed
qed

lemma rest_block_append:
  "0 < n \<Longrightarrow> rest_block n (xs @ ys) = rest_block n (rest_block n xs @ ys)"
proof (induction n xs rule: full_blocks.induct)
  case (1 n xs)
  show ?case
  proof (cases "length xs < n")
    case True
    then show ?thesis by (simp add: rest_block_short)
  next
    case False
    with 1 have "rest_block n (drop n xs @ ys) = rest_block n (rest_block n xs @ ys)"
      by (simp add: rest_block_drop)
    moreover have "rest_block n (drop n xs @ ys) = rest_block n (xs @ ys)"
      using False rest_block_drop [of n "xs @ ys"] by simp
    ultimately show ?thesis by simp
  qed
qed

lemma full_blocks_lengths: "b \<in> set (full_blocks n xs) \<Longrightarrow> length b = n"
proof (induction n xs rule: full_blocks.induct)
  case (1 n xs)
  then show ?case
    by (cases "n = 0 \<or> length xs < n") (auto simp: full_blocks.simps [of n xs])
qed

section \<open>Reading words as numbers\<close>

lemma unat_lt: "unat (x :: 'a::len word) < 2 ^ LENGTH('a)"
  by (rule unsigned_less)

lemma byte_lt [simp]: "unat (x :: byte) < 256"
  using unat_lt [of x] by simp

lemma unat_ucast_up:
  "LENGTH('a::len) \<le> LENGTH('b::len) \<Longrightarrow> unat (ucast (x :: 'a word) :: 'b word) = unat x"
  by (simp add: unsigned_ucast_eq take_bit_nat_eq_self_iff)
    (rule less_le_trans [OF unat_lt], simp)

lemma unat_of_nat_small: "n < 2 ^ LENGTH('a) \<Longrightarrow> unat (of_nat n :: 'a::len word) = n"
  by (simp add: unat_of_nat)

lemma unat_mult_add_small:
  assumes "unat (x :: 'a::len word) * n + m < 2 ^ LENGTH('a)"
  shows "unat (x * of_nat n + of_nat m) = unat x * n + m"
proof -
  have "x * of_nat n + of_nat m = of_nat (unat x * n + m)" by simp
  then show ?thesis using assms by (simp only: unat_of_nat_small)
qed

section \<open>Rotations by shifts\<close>

lemma rotr_by_shifts:
  fixes x :: "'w::len word"
  assumes "0 < k" and "k < LENGTH('w)"
  shows "drop_bit k x OR push_bit (LENGTH('w) - k) x = word_rotr k x"
proof (rule bit_word_eqI)
  fix n assume n: "n < LENGTH('w)"
  show "bit (drop_bit k x OR push_bit (LENGTH('w) - k) x) n = bit (word_rotr k x) n"
  proof (cases "n + k < LENGTH('w)")
    case True
    then have "\<not> LENGTH('w) - k \<le> n" by simp
    then show ?thesis using True n
      by (simp add: bit_or_iff bit_drop_bit_eq bit_push_bit_iff bit_word_rotr_iff add.commute)
  next
    case False
    then have "(n + k) mod LENGTH('w) = n + k - LENGTH('w)" using n assms
      by (simp add: mod_if)
    moreover have "\<not> bit x (k + n)" using False by (metis add.commute bit_imp_le_length linorder_not_le)
    ultimately show ?thesis using False n assms
      by (auto simp: bit_or_iff bit_drop_bit_eq bit_push_bit_iff bit_word_rotr_iff)
  qed
qed

lemma rotl_by_shifts:
  fixes x :: "'w::len word"
  assumes "0 < k" and "k < LENGTH('w)"
  shows "push_bit k x OR drop_bit (LENGTH('w) - k) x = word_rotl k x"
proof -
  have "push_bit k x OR drop_bit (LENGTH('w) - k) x = word_rotr (LENGTH('w) - k) x"
    using rotr_by_shifts [of "LENGTH('w) - k" x] assms by (simp add: or.commute)
  also have "\<dots> = word_rotl k x"
    using assms by (intro bit_word_eqI) (simp add: bit_word_rotr_iff bit_word_rotl_iff)
  finally show ?thesis .
qed

section \<open>Byte order\<close>

definition be_word :: "byte list \<Rightarrow> 'w::len word" where
  "be_word bs = foldl (\<lambda>w b. push_bit 8 w OR ucast b) 0 bs"

definition be32 :: "u32 \<Rightarrow> byte list" where
  "be32 w = [ucast (drop_bit 24 w), ucast (drop_bit 16 w), ucast (drop_bit 8 w), ucast w]"

definition be64 :: "u64 \<Rightarrow> byte list" where
  "be64 w =
     [ucast (drop_bit 56 w), ucast (drop_bit 48 w), ucast (drop_bit 40 w), ucast (drop_bit 32 w),
      ucast (drop_bit 24 w), ucast (drop_bit 16 w), ucast (drop_bit 8 w), ucast w]"

definition be128 :: "nat \<Rightarrow> byte list" where
  "be128 n = be64 (of_nat (n div 2 ^ 64)) @ be64 (of_nat n)"

definition le32 :: "u32 \<Rightarrow> byte list" where
  "le32 w = rev (be32 w)"

definition le64 :: "u64 \<Rightarrow> byte list" where
  "le64 w = rev (be64 w)"

lemma length_be [simp]:
  "length (be32 x) = 4" "length (le32 x) = 4" "length (be64 y) = 8" "length (le64 y) = 8"
  by (simp_all add: be32_def le32_def be64_def le64_def)

definition be_words :: "nat \<Rightarrow> byte list \<Rightarrow> 'w::len word list" where
  "be_words n b = map (\<lambda>i. be_word (take n (drop (n * i) b))) [0..<16]"

lemma take_4_at:
  "k + 4 \<le> length b \<Longrightarrow> take 4 (drop k b) = [b ! k, b ! (k + 1), b ! (k + 2), b ! (k + 3)]"
  by (simp add: take_Suc_conv_app_nth numeral_eq_Suc)

lemma take_8_at:
  "k + 8 \<le> length b \<Longrightarrow>
   take 8 (drop k b) =
     [b ! k, b ! (k + 1), b ! (k + 2), b ! (k + 3), b ! (k + 4), b ! (k + 5), b ! (k + 6), b ! (k + 7)]"
  by (simp add: take_Suc_conv_app_nth numeral_eq_Suc)

lemma length_be_words [simp]: "length (be_words n b) = 16"
  by (simp add: be_words_def)

section \<open>Text\<close>

abbreviation bytes :: "string \<Rightarrow> byte list" where
  "bytes s \<equiv> map of_char s"

text \<open>\<^verbatim>\<open>sprintf(s, "%u", x)\<close> for a positive \<open>x\<close>: the loop of \<open>fmt_u\<close>.\<close>

fun fmt_u :: "nat \<Rightarrow> byte list \<Rightarrow> byte list" where
  "fmt_u y s = (if y = 0 then s else fmt_u (y div 10) ((48 + of_nat (y mod 10)) # s))"

declare fmt_u.simps [simp del]

text \<open>It prints the decimal notation of a positive number.\<close>

fun decimal :: "nat \<Rightarrow> byte list" where
  "decimal n = (if n < 10 then [48 + of_nat n] else decimal (n div 10) @ [48 + of_nat (n mod 10)])"

declare decimal.simps [simp del]

lemma fmt_u_acc: "fmt_u y s = fmt_u y [] @ s"
proof (induction y arbitrary: s rule: less_induct)
  case (less y)
  show ?case
  proof (cases "y = 0")
    case False
    then have lt: "y div 10 < y" by simp
    from less [OF lt, of "(48 + of_nat (y mod 10)) # s"] less [OF lt, of "[48 + of_nat (y mod 10)]"] False
    show ?thesis by (simp add: fmt_u.simps [of y])
  qed (simp add: fmt_u.simps [of 0])
qed

lemma fmt_u_step: "0 < y \<Longrightarrow> fmt_u y [] = fmt_u (y div 10) [] @ [48 + of_nat (y mod 10)]"
  by (subst fmt_u.simps) (simp add: fmt_u_acc [of "y div 10" "[_]"])

lemma decimal_fmt_u: "0 < n \<Longrightarrow> fmt_u n [] = decimal n"
proof (induction n rule: less_induct)
  case (less n)
  show ?case
  proof (cases "n < 10")
    case True
    then show ?thesis using less.prems by (simp add: fmt_u_step fmt_u.simps [of 0] decimal.simps [of n])
  next
    case False
    then show ?thesis using less.IH [of "n div 10"] by (simp add: fmt_u_step decimal.simps [of n] div_greater_zero_iff)
  qed
qed

end
