(* ===== verification/Hash_Stream.thy ===== *)
theory Hash_Stream
  imports C_Prelude
begin

text \<open>
  Iterated (Merkle-Damgard) hash functions as a streaming interface.

  \<^item> The reference: a message is padded with a one bit, zeros and its bit length up to a
    multiple of the block size, and the compression function is folded over the blocks
    (\<open>md_padding\<close>, \<open>md_digest\<close>).
  \<^item> \<open>hash_ctx\<close> is the interface the callers of a hash rely on: a context that has absorbed
    a message, however it was cut into pieces, produces the digest of that message.
  \<^item> \<open>md_update\<close>, \<open>md_pad\<close> and \<open>md_hash\<close> are the contracts of the buffering code that
    \<^verbatim>\<open>crypt_sha256.c\<close>, \<^verbatim>\<open>crypt_sha512.c\<close> and \<^verbatim>\<open>crypt_md5.c\<close> share
    (block sizes 64 and 128); the theories of those files interpret them, and
    \<open>md_hash\<close> is a \<open>hash_ctx\<close> by \<open>sublocale\<close>.
\<close>

section \<open>The reference\<close>

definition md_padding :: "nat \<Rightarrow> nat \<Rightarrow> (nat \<Rightarrow> byte list) \<Rightarrow> nat \<Rightarrow> byte list" where
  "md_padding bs lim enc n = 0x80 # replicate ((bs + lim - (n mod bs + 1)) mod bs) 0 @ enc n"

definition md_digest ::
    "nat \<Rightarrow> nat \<Rightarrow> (nat \<Rightarrow> byte list) \<Rightarrow> ('h \<Rightarrow> byte list \<Rightarrow> 'h) \<Rightarrow> 'h \<Rightarrow> byte list \<Rightarrow> 'h" where
  "md_digest bs lim enc compress iv msg =
     foldl compress iv (full_blocks bs (msg @ md_padding bs lim enc (length msg)))"

text \<open>The padded message consists of whole blocks, so the fold reads all of it.\<close>

lemma md_padding_whole_blocks:
  assumes "lim < bs" and "\<And>n. length (enc n) = bs - lim"
  shows "(n + length (md_padding bs lim enc n)) mod bs = 0"
proof -
  define r where "r = n mod bs"
  have r: "r < bs" using assms by (simp add: r_def)
  have "(bs + lim - (r + 1)) mod bs + (r + 1) = lim \<or> (bs + lim - (r + 1)) mod bs + (r + 1) = bs + lim"
  proof (cases "r + 1 \<le> lim")
    case True
    then have "bs + lim - (r + 1) = (lim - (r + 1)) + bs" by simp
    then have "(bs + lim - (r + 1)) mod bs = lim - (r + 1)" using assms by (simp only: mod_add_self2) simp
    with True show ?thesis by simp
  next
    case False
    then show ?thesis using r by simp
  qed
  then have "r + length (md_padding bs lim enc n) = bs \<or> r + length (md_padding bs lim enc n) = 2 * bs"
    using assms by (auto simp: md_padding_def r_def)
  then have "(r + length (md_padding bs lim enc n)) mod bs = 0" by auto
  then show ?thesis by (simp add: r_def mod_add_left_eq)
qed

lemma md_digest_cong:
  assumes "\<And>h b. length b = bs \<Longrightarrow> f h b = g h b"
  shows "md_digest bs lim enc f iv msg = md_digest bs lim enc g iv msg"
proof -
  have "foldl f h bl = foldl g h bl" if "\<forall>b\<in>set bl. length b = bs" for h bl
    using that assms by (induction bl arbitrary: h) simp_all
  then show ?thesis by (auto simp: md_digest_def dest: full_blocks_lengths)
qed

section \<open>What a caller of a streaming hash relies on\<close>

locale hash_ctx =
  fixes valid :: "'c \<Rightarrow> bool"
    and rep :: "'c \<Rightarrow> byte list \<Rightarrow> bool"
    and init :: "'c \<Rightarrow> 'c"
    and update :: "'c \<Rightarrow> byte list \<Rightarrow> 'c"
    and finish :: "'c \<Rightarrow> 'c \<times> byte list"
    and digest :: "byte list \<Rightarrow> byte list"
  assumes rep_init: "valid c \<Longrightarrow> rep (init c) []"
    and rep_update: "rep c m \<Longrightarrow> rep (update c x) (m @ x)"
    and finish_digest: "rep c m \<Longrightarrow> snd (finish c) = digest m"
    and valid_finish: "rep c m \<Longrightarrow> valid (fst (finish c))"
begin

lemma rep_updates: "rep c m \<Longrightarrow> rep (foldl update c xs) (m @ concat xs)"
proof (induction xs arbitrary: c m)
  case (Cons x xs)
  from Cons.IH [OF rep_update [OF Cons.prems]] show ?case by simp
qed simp

lemma finish_pair: "rep c m \<Longrightarrow> \<exists>c'. finish c = (c', digest m) \<and> valid c'"
  using finish_digest valid_finish by (metis prod.collapse)

lemma finish_after_updates: "valid c \<Longrightarrow> snd (finish (foldl update (init c) xs)) = digest (concat xs)"
  using finish_digest rep_updates [OF rep_init] by fastforce

lemma chunking_irrelevant:
  "valid c \<Longrightarrow> valid d \<Longrightarrow> concat xs = concat ys \<Longrightarrow>
   snd (finish (foldl update (init c) xs)) = snd (finish (foldl update (init d) ys))"
  by (simp add: finish_after_updates)

end

section \<open>The buffering scheme of the musl hashes\<close>

record 'h md_ctx =
  md_len :: u64
  md_h :: 'h
  md_buf :: "byte list"

locale md_update =
  fixes bs :: nat
    and compress :: "'h \<Rightarrow> byte list \<Rightarrow> 'h"
    and processblock :: "'h md_ctx \<Rightarrow> byte list \<Rightarrow> 'h md_ctx"
    and blocks :: "'h md_ctx \<Rightarrow> byte list \<Rightarrow> 'h md_ctx"
    and update :: "'h md_ctx \<Rightarrow> byte list \<Rightarrow> 'h md_ctx"
  assumes bs_dvd: "bs dvd 2 ^ 64"
    and processblock_compress: "processblock s b = s\<lparr>md_h := compress (md_h s) b\<rparr>"
    and blocks_eq: "blocks s p =
      (if bs \<le> length p then blocks (processblock s (take bs p)) (drop bs p)
       else s\<lparr>md_buf := mem_write 0 p (md_buf s)\<rparr>)"
    and update_eq: "update s m =
      (let r = unat (md_len s) mod bs;
           s = s\<lparr>md_len := md_len s + of_nat (length m)\<rparr>
       in if r \<noteq> 0
          then if length m < bs - r
               then s\<lparr>md_buf := mem_write r m (md_buf s)\<rparr>
               else let s = s\<lparr>md_buf := mem_write r (take (bs - r) m) (md_buf s)\<rparr>
                    in blocks (processblock s (md_buf s)) (drop (bs - r) m)
          else blocks s m)"
begin

definition absorbed :: "'h \<Rightarrow> 'h md_ctx \<Rightarrow> byte list \<Rightarrow> bool" where
  "absorbed iv s msg \<longleftrightarrow>
     length (md_buf s) = bs \<and> md_len s = of_nat (length msg) \<and>
     md_h s = foldl compress iv (full_blocks bs msg) \<and>
     take (length msg mod bs) (md_buf s) = rest_block bs msg"

lemma bs_pos: "0 < bs"
  using bs_dvd by (auto intro: Nat.gr0I)

lemma len_mod: "unat (of_nat n :: u64) mod bs = n mod bs"
  using bs_dvd by (simp add: unat_of_nat mod_mod_cancel)

lemma blocks_absorb:
  "length (md_buf s) = bs \<Longrightarrow>
   length (md_buf (blocks s p)) = bs \<and> md_len (blocks s p) = md_len s \<and>
   md_h (blocks s p) = foldl compress (md_h s) (full_blocks bs p) \<and>
   take (length p mod bs) (md_buf (blocks s p)) = rest_block bs p"
proof (induction "length p" arbitrary: s p rule: less_induct)
  case less
  show ?case
  proof (cases "bs \<le> length p")
    case True
    then have "length (drop bs p) < length p" using bs_pos by simp
    from less.hyps [OF this, of "processblock s (take bs p)"] show ?thesis
      using True less.prems bs_pos
      by (simp add: blocks_eq [of s p] processblock_compress full_blocks_Cons [of bs p]
          rest_block_drop le_mod_geq)
  next
    case False
    with less.prems show ?thesis
      by (simp add: blocks_eq [of s p] full_blocks_short rest_block_short length_mem_write
          take_mem_write)
  qed
qed

lemma update_absorbed:
  assumes "absorbed iv s msg"
  shows "absorbed iv (update s m) (msg @ m)"
proof -
  define r where "r = length msg mod bs"
  define s1 where "s1 = s\<lparr>md_len := md_len s + of_nat (length m)\<rparr>"
  have r: "r < bs" and buf: "length (md_buf s) = bs" "take r (md_buf s) = rest_block bs msg"
    and h: "md_h s = foldl compress iv (full_blocks bs msg)" and l: "md_len s = of_nat (length msg)"
    using assms bs_pos by (auto simp: absorbed_def r_def)
  have rr: "unat (md_len s) mod bs = r" by (simp add: l len_mod r_def)
  have fb: "full_blocks bs (msg @ m) = full_blocks bs msg @ full_blocks bs (rest_block bs msg @ m)"
    and rb: "rest_block bs (msg @ m) = rest_block bs (rest_block bs msg @ m)"
    using full_blocks_append [OF bs_pos] rest_block_append [OF bs_pos] by blast+
  have lm: "length (msg @ m) mod bs = (r + length m) mod bs" by (simp add: r_def mod_add_left_eq)
  have lr: "length (rest_block bs msg) = r" by (simp add: r_def)
  consider "r = 0" | "r \<noteq> 0" "length m < bs - r" | "r \<noteq> 0" "bs - r \<le> length m" by linarith
  then show ?thesis
  proof cases
    case 1
    then have "rest_block bs msg = []" using lr by (metis length_0_conv)
    moreover have "update s m = blocks s1 m" using 1 rr by (simp add: update_eq s1_def)
    ultimately show ?thesis
      using 1 blocks_absorb [of s1 m] buf h l fb rb lm by (simp add: absorbed_def s1_def)
  next
    case 2
    then have "update s m = s1\<lparr>md_buf := mem_write r m (md_buf s)\<rparr>"
      using rr by (simp add: update_eq s1_def)
    moreover have "(r + length m) mod bs = r + length m" using 2 by simp
    moreover have "length (rest_block bs msg @ m) < bs" using 2 lr by simp
    ultimately show ?thesis
      using 2 buf h l fb rb lm
      by (simp add: absorbed_def s1_def full_blocks_short rest_block_short length_mem_write
          take_mem_write)
  next
    case 3
    define b where "b = rest_block bs msg @ take (bs - r) m"
    have b: "mem_write r (take (bs - r) m) (md_buf s) = b" "length b = bs"
      using 3 r buf lr by (auto simp: mem_write_end b_def)
    define s2 where "s2 = s1\<lparr>md_buf := b, md_h := compress (md_h s) b\<rparr>"
    have up: "update s m = blocks s2 (drop (bs - r) m)"
      using 3 rr b by (simp add: update_eq s1_def s2_def processblock_compress)
    have rm: "rest_block bs msg @ m = b @ drop (bs - r) m" by (simp add: b_def)
    have "rest_block bs (b @ drop (bs - r) m) = rest_block bs (drop (bs - r) m)"
      using rest_block_drop [of bs "b @ drop (bs - r) m"] b by simp
    moreover have "(length m - (bs - r)) mod bs = (r + length m) mod bs"
    proof -
      have "r + length m = (length m - (bs - r)) + bs" using 3 r by simp
      then show ?thesis by (simp only: mod_add_self2)
    qed
    ultimately show ?thesis
      using blocks_absorb [of s2 "drop (bs - r) m"] b bs_pos h l fb rb lm up rm
      by (simp add: absorbed_def s1_def s2_def full_blocks_block)
  qed
qed

end

text \<open>
  The length field: the bit count in 64 bits, after \<open>fld - lim\<close> zero bytes that SHA-512 has
  in front of it.
\<close>

definition len_field :: "nat \<Rightarrow> nat \<Rightarrow> (u64 \<Rightarrow> byte list) \<Rightarrow> nat \<Rightarrow> byte list" where
  "len_field fld lim enc n = replicate (fld - lim) 0 @ enc (of_nat n * 8)"

locale md_pad = md_update +
  fixes lim :: nat and fld :: nat
    and enc :: "u64 \<Rightarrow> byte list"
    and pad :: "'a md_ctx \<Rightarrow> 'a md_ctx"
  assumes fld: "bs = fld + 8" and lim: "lim \<le> fld"
    and length_enc: "length (enc x) = 8"
    and pad_eq: "pad s =
      (let r = unat (md_len s) mod bs;
           s = s\<lparr>md_buf := (md_buf s)[r := 0x80]\<rparr>;
           r = r + 1;
           (s, r) =
             (if lim < r
              then let s = s\<lparr>md_buf := mem_write r (replicate (bs - r) 0) (md_buf s)\<rparr>
                   in (processblock s (md_buf s), 0)
              else (s, r));
           s = s\<lparr>md_buf := mem_write r (replicate (fld - r) 0) (md_buf s)\<rparr>;
           s = s\<lparr>md_len := md_len s * 8\<rparr>;
           s = s\<lparr>md_buf := mem_write fld (enc (md_len s)) (md_buf s)\<rparr>
       in processblock s (md_buf s))"
begin

lemma pad_absorbed:
  assumes "absorbed iv s msg"
  shows "md_h (pad s) = md_digest bs lim (len_field fld lim enc) compress iv msg \<and> length (md_buf (pad s)) = bs"
proof -
  define r where "r = length msg mod bs"
  define R where "R = rest_block bs msg"
  define E where "E = enc (of_nat (length msg) * 8)"
  have r: "r < bs" and buf: "length (md_buf s) = bs" "take r (md_buf s) = R"
    and h: "md_h s = foldl compress iv (full_blocks bs msg)" and l: "md_len s = of_nat (length msg)"
    using assms bs_pos by (auto simp: absorbed_def r_def R_def)
  have rr: "unat (md_len s) mod bs = r" by (simp add: l len_mod r_def)
  have lR: "length R = r" by (simp add: r_def R_def)
  have lE: "length E = 8" by (simp add: E_def length_enc)
  have b0: "(md_buf s)[r := 0x80] = mem_write r [0x80] (md_buf s)" using r buf by (simp add: mem_write_single)
  have P: "md_padding bs lim (len_field fld lim enc) (length msg) =
      0x80 # replicate ((bs + lim - (r + 1)) mod bs + (fld - lim)) 0 @ E"
    by (simp add: md_padding_def len_field_def r_def E_def replicate_add)
  have D: "md_digest bs lim (len_field fld lim enc) compress iv msg =
      foldl compress (md_h s) (full_blocks bs (R @ md_padding bs lim (len_field fld lim enc) (length msg)))"
    by (simp add: md_digest_def full_blocks_append [OF bs_pos, of msg] h R_def)
  show ?thesis
  proof (cases "lim < r + 1")
    case True
    define B1 where "B1 = R @ 0x80 # replicate (bs - (r + 1)) 0"
    define B2 where "B2 = replicate fld 0 @ E"
    have "(bs + lim - (r + 1)) mod bs + (fld - lim) = (bs - (r + 1)) + fld"
      using True r lim fld by simp
    then have "R @ md_padding bs lim (len_field fld lim enc) (length msg) = B1 @ B2"
      by (simp add: P B1_def B2_def replicate_add)
    moreover have "length B1 = bs" "length B2 = bs" using r lR lE fld by (auto simp: B1_def B2_def)
    ultimately have d: "md_digest bs lim (len_field fld lim enc) compress iv msg = compress (compress (md_h s) B1) B2"
      by (simp add: D full_blocks_block [OF bs_pos] full_blocks_one [OF bs_pos])
    have w1: "mem_write (r + 1) (replicate (bs - (r + 1)) 0) (mem_write r [0x80] (md_buf s)) = B1"
      using r buf by (subst mem_write_append) (auto simp: B1_def mem_write_end)
    have w2: "mem_write fld E (mem_write 0 (replicate fld 0) B1) = B2"
      using \<open>length B1 = bs\<close> fld lE by (subst mem_write_append) (auto simp: B2_def mem_write_end)
    show ?thesis
      using True rr w1 w2 \<open>length B2 = bs\<close>
      by (simp add: pad_eq b0 processblock_compress d E_def [symmetric] l)
  next
    case False
    define B where "B = R @ 0x80 # replicate (fld - (r + 1)) 0 @ E"
    have "bs + lim - (r + 1) = (lim - (r + 1)) + bs" and "lim - (r + 1) < bs"
      using False fld lim by simp_all
    then have "(bs + lim - (r + 1)) mod bs = lim - (r + 1)" by (simp only: mod_add_self2 mod_less)
    then have "(bs + lim - (r + 1)) mod bs + (fld - lim) = fld - (r + 1)" using False lim by simp
    then have "R @ md_padding bs lim (len_field fld lim enc) (length msg) = B" by (simp add: P B_def)
    moreover have lB: "length B = bs" using False lR lE fld lim by (simp add: B_def)
    ultimately have d: "md_digest bs lim (len_field fld lim enc) compress iv msg = compress (md_h s) B"
      by (simp add: D full_blocks_one [OF bs_pos])
    have w: "mem_write fld E (mem_write (r + 1) (replicate (fld - (r + 1)) 0)
        (mem_write r [0x80] (md_buf s))) = B"
      using False lim fld lE buf
      by (simp add: mem_write_append B_def mem_write_end)
    show ?thesis
      using False rr w lB
      by (simp add: pad_eq b0 processblock_compress d E_def [symmetric] l)
  qed
qed

end

locale md_hash = md_pad +
  fixes iv :: 'a
    and out :: "'a \<Rightarrow> byte list"
    and init :: "'a md_ctx \<Rightarrow> 'a md_ctx"
    and finish :: "'a md_ctx \<Rightarrow> 'a md_ctx \<times> byte list"
  assumes init_eq: "init s = s\<lparr>md_len := 0, md_h := iv\<rparr>"
    and finish_eq: "finish s = (let s = pad s in (s, out (md_h s)))"

begin

lemma init_absorbed: "length (md_buf s) = bs \<Longrightarrow> absorbed iv (init s) []"
  by (simp add: absorbed_def init_eq rest_block_def)

end

sublocale md_hash \<subseteq> ctx: hash_ctx "\<lambda>s. length (md_buf s) = bs" "absorbed iv" init update finish
    "\<lambda>msg. out (md_digest bs lim (len_field fld lim enc) compress iv msg)"
proof unfold_locales
  show "absorbed iv (init c) []" if "length (md_buf c) = bs" for c
    using that by (rule init_absorbed)
  show "absorbed iv (update c x) (m @ x)" if "absorbed iv c m" for c m x
    using that by (rule update_absorbed)
  show "snd (finish c) = out (md_digest bs lim (len_field fld lim enc) compress iv m)" if "absorbed iv c m" for c m
    using pad_absorbed [OF that] by (simp add: finish_eq Let_def)
  show "length (md_buf (fst (finish c))) = bs" if "absorbed iv c m" for c m
    using pad_absorbed [OF that] by (simp add: finish_eq Let_def)
qed

end
