(* ===== verification/Sha2_Spec.thy ===== *)
theory Sha2_Spec
  imports Hash_Stream
begin

text \<open>
  The compression functions of FIPS 180-4 (SHA-256 and SHA-512), generic in the word size and
  written as in the standard: the message schedule as a recurrence, the rounds as a recursion
  on the round number, rotations as \<open>word_rotr\<close>.  The C code rotates by two shifts, keeps the
  schedule in an array it fills from the front and writes \<open>Ch\<close> and \<open>Maj\<close> with fewer
  operations; the lemmas here bridge each of these differences once for all the
  implementations in the repository.
\<close>

section \<open>The reference functions\<close>

definition sha2_Ch :: "'w::len word \<Rightarrow> 'w word \<Rightarrow> 'w word \<Rightarrow> 'w word" where
  "sha2_Ch x y z = (x AND y) XOR (NOT x AND z)"

definition sha2_Maj :: "'w::len word \<Rightarrow> 'w word \<Rightarrow> 'w word \<Rightarrow> 'w word" where
  "sha2_Maj x y z = (x AND y) XOR (x AND z) XOR (y AND z)"

fun sha2_W :: "('w::len word \<Rightarrow> 'w word) \<Rightarrow> ('w word \<Rightarrow> 'w word) \<Rightarrow> 'w word list \<Rightarrow> nat \<Rightarrow> 'w word" where
  "sha2_W \<sigma>0 \<sigma>1 M t =
     (if t < 16 then M ! t
      else \<sigma>1 (sha2_W \<sigma>0 \<sigma>1 M (t - 2)) + sha2_W \<sigma>0 \<sigma>1 M (t - 7) +
           \<sigma>0 (sha2_W \<sigma>0 \<sigma>1 M (t - 15)) + sha2_W \<sigma>0 \<sigma>1 M (t - 16))"

declare sha2_W.simps [simp del]

type_synonym 'w vars = "'w word \<times> 'w word \<times> 'w word \<times> 'w word \<times> 'w word \<times> 'w word \<times> 'w word \<times> 'w word"

definition sha2_round ::
    "('w::len word \<Rightarrow> 'w word) \<Rightarrow> ('w word \<Rightarrow> 'w word) \<Rightarrow> 'w word \<Rightarrow> 'w word \<Rightarrow> 'w vars \<Rightarrow> 'w vars" where
  "sha2_round \<Sigma>0 \<Sigma>1 k w v =
     (case v of (a, b, c, d, e, f, g, h) \<Rightarrow>
        let t1 = h + \<Sigma>1 e + sha2_Ch e f g + k + w; t2 = \<Sigma>0 a + sha2_Maj a b c
        in (t1 + t2, a, b, c, d + t1, e, f, g))"

fun sha2_rounds ::
    "('w::len word \<Rightarrow> 'w word) \<Rightarrow> ('w word \<Rightarrow> 'w word) \<Rightarrow> (nat \<Rightarrow> 'w word) \<Rightarrow> (nat \<Rightarrow> 'w word) \<Rightarrow> nat \<Rightarrow>
     'w vars \<Rightarrow> 'w vars" where
  "sha2_rounds \<Sigma>0 \<Sigma>1 K W 0 v = v"
| "sha2_rounds \<Sigma>0 \<Sigma>1 K W (Suc t) v = sha2_round \<Sigma>0 \<Sigma>1 (K t) (W t) (sha2_rounds \<Sigma>0 \<Sigma>1 K W t v)"

definition vars_of :: "'w word list \<Rightarrow> 'w::len vars" where
  "vars_of H = (H ! 0, H ! 1, H ! 2, H ! 3, H ! 4, H ! 5, H ! 6, H ! 7)"

definition add_vars :: "'w::len word list \<Rightarrow> 'w vars \<Rightarrow> 'w word list" where
  "add_vars H v = (case v of (a, b, c, d, e, f, g, h) \<Rightarrow>
     [H ! 0 + a, H ! 1 + b, H ! 2 + c, H ! 3 + d, H ! 4 + e, H ! 5 + f, H ! 6 + g, H ! 7 + h])"

definition sha2_compress ::
    "('w::len word \<Rightarrow> 'w word) \<Rightarrow> ('w word \<Rightarrow> 'w word) \<Rightarrow> ('w word \<Rightarrow> 'w word) \<Rightarrow> ('w word \<Rightarrow> 'w word) \<Rightarrow>
     'w word list \<Rightarrow> 'w word list \<Rightarrow> 'w word list \<Rightarrow> 'w word list" where
  "sha2_compress \<Sigma>0 \<Sigma>1 \<sigma>0 \<sigma>1 K H M =
     add_vars H (sha2_rounds \<Sigma>0 \<Sigma>1 (\<lambda>t. K ! t) (sha2_W \<sigma>0 \<sigma>1 M) (length K) (vars_of H))"

text \<open>The two instances.\<close>

definition sha256_Sigma0 :: "u32 \<Rightarrow> u32" where
  "sha256_Sigma0 x = word_rotr 2 x XOR word_rotr 13 x XOR word_rotr 22 x"

definition sha256_Sigma1 :: "u32 \<Rightarrow> u32" where
  "sha256_Sigma1 x = word_rotr 6 x XOR word_rotr 11 x XOR word_rotr 25 x"

definition sha256_sigma0 :: "u32 \<Rightarrow> u32" where
  "sha256_sigma0 x = word_rotr 7 x XOR word_rotr 18 x XOR drop_bit 3 x"

definition sha256_sigma1 :: "u32 \<Rightarrow> u32" where
  "sha256_sigma1 x = word_rotr 17 x XOR word_rotr 19 x XOR drop_bit 10 x"

definition sha512_Sigma0 :: "u64 \<Rightarrow> u64" where
  "sha512_Sigma0 x = word_rotr 28 x XOR word_rotr 34 x XOR word_rotr 39 x"

definition sha512_Sigma1 :: "u64 \<Rightarrow> u64" where
  "sha512_Sigma1 x = word_rotr 14 x XOR word_rotr 18 x XOR word_rotr 41 x"

definition sha512_sigma0 :: "u64 \<Rightarrow> u64" where
  "sha512_sigma0 x = word_rotr 1 x XOR word_rotr 8 x XOR drop_bit 7 x"

definition sha512_sigma1 :: "u64 \<Rightarrow> u64" where
  "sha512_sigma1 x = word_rotr 19 x XOR word_rotr 61 x XOR drop_bit 6 x"

section \<open>Bridging lemmas\<close>

lemma Ch_optimised: "z XOR (x AND (y XOR z)) = sha2_Ch x y (z :: 'w::len word)"
  by (rule bit_eqI) (auto simp: sha2_Ch_def bit_simps)

lemma Maj_optimised: "(x AND y) OR (z AND (x OR y)) = sha2_Maj x y (z :: 'w::len word)"
  by (rule bit_eqI) (auto simp: sha2_Maj_def bit_simps)

text \<open>Filling the schedule array from the front computes the recurrence.\<close>

lemma sha2_W_early: "t < 16 \<Longrightarrow> sha2_W \<sigma>0 \<sigma>1 M t = M ! t"
  by (subst sha2_W.simps) simp

lemma schedule_array:
  assumes "16 \<le> n" and "length M = 16"
    and step: "\<And>W i. 16 \<le> i \<Longrightarrow> f W i = \<sigma>1 (W ! (i - 2)) + W ! (i - 7) + \<sigma>0 (W ! (i - 15)) + W ! (i - 16)"
  shows "foldl (\<lambda>W i. W @ [f W i]) M [16..<n] = map (sha2_W \<sigma>0 \<sigma>1 M) [0..<n]"
  using assms(1)
proof (induction n rule: nat_induct_at_least)
  case base
  have "map (sha2_W \<sigma>0 \<sigma>1 M) [0..<16] = map (\<lambda>t. M ! t) [0..<16]"
    by (rule map_cong) (simp_all add: sha2_W_early)
  also have "\<dots> = M" using map_nth [of M] by (simp add: assms(2))
  finally show ?case by simp
next
  case (Suc n)
  then show ?case
    by (simp add: step sha2_W.simps [of _ _ _ n])
qed

lemma rounds_array:
  assumes "\<And>i v. i < n \<Longrightarrow> f v i = sha2_round \<Sigma>0 \<Sigma>1 (K i) (W i) v"
  shows "foldl f v [0..<n] = sha2_rounds \<Sigma>0 \<Sigma>1 K W n v"
  using assms by (induction n) simp_all

lemma sha2_rounds_cong:
  "(\<And>i. i < n \<Longrightarrow> W i = W' i) \<Longrightarrow> sha2_rounds \<Sigma>0 \<Sigma>1 K W n v = sha2_rounds \<Sigma>0 \<Sigma>1 K W' n v"
  by (induction n) simp_all

end
