(* ===== verification/Musl_Sha256.thy ===== *)
theory Musl_Sha256
  imports Sha2_Spec
begin

text \<open>
  \<^verbatim>\<open>crypt_sha256.c\<close> of musl: the SHA-256 implementation below the password hash.
  \<^verbatim>\<open>struct sha256\<close> is the record \<open>sha256\<close>; \<open>processblock\<close>, \<open>pad\<close>, \<open>init\<close>,
  \<open>sum\<close> and \<open>update\<close> are one definition each.  The buffer is a list of 64 bytes, the
  message a list whose length is the C argument \<open>len\<close>, and the length counter is a 64-bit word
  that wraps.  The theory proves the compression function equal to the FIPS 180-4 one and
  interprets the streaming-hash locale, which gives the correctness of any sequence of updates.
\<close>

type_synonym sha256 = "u32 list md_ctx"

definition sha256_ror :: "u32 \<Rightarrow> nat \<Rightarrow> u32" where
  "sha256_ror n k = drop_bit k n OR push_bit (32 - k) n"

definition sha256_Ch :: "u32 \<Rightarrow> u32 \<Rightarrow> u32 \<Rightarrow> u32" where
  "sha256_Ch x y z = z XOR (x AND (y XOR z))"

definition sha256_Maj :: "u32 \<Rightarrow> u32 \<Rightarrow> u32 \<Rightarrow> u32" where
  "sha256_Maj x y z = (x AND y) OR (z AND (x OR y))"

definition sha256_S0 :: "u32 \<Rightarrow> u32" where
  "sha256_S0 x = sha256_ror x 2 XOR sha256_ror x 13 XOR sha256_ror x 22"

definition sha256_S1 :: "u32 \<Rightarrow> u32" where
  "sha256_S1 x = sha256_ror x 6 XOR sha256_ror x 11 XOR sha256_ror x 25"

definition sha256_R0 :: "u32 \<Rightarrow> u32" where
  "sha256_R0 x = sha256_ror x 7 XOR sha256_ror x 18 XOR drop_bit 3 x"

definition sha256_R1 :: "u32 \<Rightarrow> u32" where
  "sha256_R1 x = sha256_ror x 17 XOR sha256_ror x 19 XOR drop_bit 10 x"

definition sha256_K :: "u32 list" where
  "sha256_K = concat
    [[0x428a2f98, 0x71374491, 0xb5c0fbcf, 0xe9b5dba5, 0x3956c25b, 0x59f111f1, 0x923f82a4, 0xab1c5ed5],
     [0xd807aa98, 0x12835b01, 0x243185be, 0x550c7dc3, 0x72be5d74, 0x80deb1fe, 0x9bdc06a7, 0xc19bf174],
     [0xe49b69c1, 0xefbe4786, 0x0fc19dc6, 0x240ca1cc, 0x2de92c6f, 0x4a7484aa, 0x5cb0a9dc, 0x76f988da],
     [0x983e5152, 0xa831c66d, 0xb00327c8, 0xbf597fc7, 0xc6e00bf3, 0xd5a79147, 0x06ca6351, 0x14292967],
     [0x27b70a85, 0x2e1b2138, 0x4d2c6dfc, 0x53380d13, 0x650a7354, 0x766a0abb, 0x81c2c92e, 0x92722c85],
     [0xa2bfe8a1, 0xa81a664b, 0xc24b8b70, 0xc76c51a3, 0xd192e819, 0xd6990624, 0xf40e3585, 0x106aa070],
     [0x19a4c116, 0x1e376c08, 0x2748774c, 0x34b0bcb5, 0x391c0cb3, 0x4ed8aa4a, 0x5b9cca4f, 0x682e6ff3],
     [0x748f82ee, 0x78a5636f, 0x84c87814, 0x8cc70208, 0x90befffa, 0xa4506ceb, 0xbef9a3f7, 0xc67178f2]]"

text \<open>The message schedule: the array W, sixteen big-endian words and then the expansion loop.\<close>

definition sha256_W16 :: "byte list \<Rightarrow> u32 list" where
  "sha256_W16 b = map (\<lambda>i.
       push_bit 24 (ucast (b ! (4 * i))) OR push_bit 16 (ucast (b ! (4 * i + 1))) OR
       push_bit 8 (ucast (b ! (4 * i + 2))) OR ucast (b ! (4 * i + 3))) [0..<16]"

definition sha256_W :: "byte list \<Rightarrow> u32 list" where
  "sha256_W b =
     foldl (\<lambda>W i. W @ [sha256_R1 (W ! (i - 2)) + W ! (i - 7) + sha256_R0 (W ! (i - 15)) + W ! (i - 16)])
       (sha256_W16 b) [16..<64]"

definition sha256_round :: "u32 list \<Rightarrow> 32 vars \<Rightarrow> nat \<Rightarrow> 32 vars" where
  "sha256_round W v i =
     (case v of (a, b, c, d, e, f, g, h) \<Rightarrow>
        let t1 = h + sha256_S1 e + sha256_Ch e f g + sha256_K ! i + W ! i;
            t2 = sha256_S0 a + sha256_Maj a b c
        in (t1 + t2, a, b, c, d + t1, e, f, g))"

definition sha256_compress :: "u32 list \<Rightarrow> byte list \<Rightarrow> u32 list" where
  "sha256_compress h b =
     (let W = sha256_W b;
          (a', b', c', d', e', f', g', h') =
            foldl (sha256_round W) (h ! 0, h ! 1, h ! 2, h ! 3, h ! 4, h ! 5, h ! 6, h ! 7) [0..<64]
      in [h ! 0 + a', h ! 1 + b', h ! 2 + c', h ! 3 + d',
          h ! 4 + e', h ! 5 + f', h ! 6 + g', h ! 7 + h'])"

definition sha256_processblock :: "sha256 \<Rightarrow> byte list \<Rightarrow> sha256" where
  "sha256_processblock s b = s\<lparr>md_h := sha256_compress (md_h s) b\<rparr>"

definition sha256_pad :: "sha256 \<Rightarrow> sha256" where
  "sha256_pad s =
     (let r = unat (md_len s) mod 64;
          s = s\<lparr>md_buf := (md_buf s)[r := 0x80]\<rparr>;
          r = r + 1;
          (s, r) =
            (if 56 < r
             then let s = s\<lparr>md_buf := mem_write r (replicate (64 - r) 0) (md_buf s)\<rparr>
                  in (sha256_processblock s (md_buf s), 0)
             else (s, r));
          s = s\<lparr>md_buf := mem_write r (replicate (56 - r) 0) (md_buf s)\<rparr>;
          s = s\<lparr>md_len := md_len s * 8\<rparr>;
          s = s\<lparr>md_buf := mem_write 56 (be64 (md_len s)) (md_buf s)\<rparr>
      in sha256_processblock s (md_buf s))"

definition sha256_iv :: "u32 list" where
  "sha256_iv =
    [0x6a09e667, 0xbb67ae85, 0x3c6ef372, 0xa54ff53a,
     0x510e527f, 0x9b05688c, 0x1f83d9ab, 0x5be0cd19]"

definition sha256_init :: "sha256 \<Rightarrow> sha256" where
  "sha256_init s = s\<lparr>md_len := 0, md_h := sha256_iv\<rparr>"

definition sha256_out :: "u32 list \<Rightarrow> byte list" where
  "sha256_out h = concat (map (\<lambda>i. be32 (h ! i)) [0..<8])"

definition sha256_sum :: "sha256 \<Rightarrow> sha256 \<times> byte list" where
  "sha256_sum s = (let s = sha256_pad s in (s, sha256_out (md_h s)))"

text \<open>The loop over whole blocks and the final copy of the rest into the buffer.\<close>

function sha256_update_blocks :: "sha256 \<Rightarrow> byte list \<Rightarrow> sha256" where
  "sha256_update_blocks s p =
     (if 64 \<le> length p then sha256_update_blocks (sha256_processblock s (take 64 p)) (drop 64 p)
      else s\<lparr>md_buf := mem_write 0 p (md_buf s)\<rparr>)"
  by pat_completeness auto
termination
  by (relation "measure (\<lambda>(s, p). length p)") auto

declare sha256_update_blocks.simps [simp del]

definition sha256_update :: "sha256 \<Rightarrow> byte list \<Rightarrow> sha256" where
  "sha256_update s m =
     (let r = unat (md_len s) mod 64;
          s = s\<lparr>md_len := md_len s + of_nat (length m)\<rparr>
      in if r \<noteq> 0
         then if length m < 64 - r
              then s\<lparr>md_buf := mem_write r m (md_buf s)\<rparr>
              else let s = s\<lparr>md_buf := mem_write r (take (64 - r) m) (md_buf s)\<rparr>
                   in sha256_update_blocks (sha256_processblock s (md_buf s)) (drop (64 - r) m)
         else sha256_update_blocks s m)"

section \<open>The compression function is the standard's\<close>

definition fips_sha256_compress :: "u32 list \<Rightarrow> byte list \<Rightarrow> u32 list" where
  "fips_sha256_compress H b =
     sha2_compress sha256_Sigma0 sha256_Sigma1 sha256_sigma0 sha256_sigma1 sha256_K H (be_words 4 b)"

lemma length_sha256_K: "length sha256_K = 64"
  by (simp add: sha256_K_def)

lemma sha256_functions:
  "sha256_S0 = sha256_Sigma0" "sha256_S1 = sha256_Sigma1" "sha256_R0 = sha256_sigma0" "sha256_R1 = sha256_sigma1"
  "sha256_Ch = sha2_Ch" "sha256_Maj = sha2_Maj"
proof -
  have ror: "sha256_ror x k = word_rotr k x" if "0 < k" "k < 32" for x k
    using rotr_by_shifts [of k x] that by (simp add: sha256_ror_def)
  show "sha256_S0 = sha256_Sigma0" "sha256_S1 = sha256_Sigma1"
    by (rule ext; simp add: sha256_S0_def sha256_S1_def sha256_Sigma0_def sha256_Sigma1_def ror)+
  show "sha256_R0 = sha256_sigma0" "sha256_R1 = sha256_sigma1"
    by (rule ext; simp add: sha256_R0_def sha256_R1_def sha256_sigma0_def sha256_sigma1_def ror)+
  show "sha256_Ch = sha2_Ch" "sha256_Maj = sha2_Maj"
    by (intro ext; simp add: sha256_Ch_def sha256_Maj_def Ch_optimised Maj_optimised)+
qed

lemma sha256_word_be:
  "push_bit 24 (ucast x0) OR push_bit 16 (ucast x1) OR push_bit 8 (ucast x2) OR ucast x3 =
     (be_word [x0, x1, x2, x3] :: u32)"
  by (rule bit_eqI) (auto simp: be_word_def bit_simps)

lemma sha256_W16_be:
  assumes "length b = 64"
  shows "sha256_W16 b = be_words 4 b"
  unfolding sha256_W16_def be_words_def
proof (rule map_cong [OF refl])
  fix i assume "i \<in> set [0..<16]"
  then have i: "i < 16" by simp
  have "take 4 (drop (4 * i) b) = [b ! (4 * i), b ! (4 * i + 1), b ! (4 * i + 2), b ! (4 * i + 3)]"
    using assms i by (intro take_4_at) simp
  then show "push_bit 24 (ucast (b ! (4 * i))) OR push_bit 16 (ucast (b ! (4 * i + 1))) OR push_bit 8 (ucast (b ! (4 * i + 2))) OR ucast (b ! (4 * i + 3)) =
      (be_word (take 4 (drop (4 * i) b)) :: u32)"
    by (simp only: sha256_word_be)
qed

lemma sha256_compress_fips:
  assumes "length b = 64"
  shows "sha256_compress h b = fips_sha256_compress h b"
proof -
  define M :: "u32 list" where "M = be_words 4 b"
  have W: "sha256_W b = map (sha2_W sha256_sigma0 sha256_sigma1 M) [0..<64]"
    unfolding sha256_W_def sha256_W16_be [OF assms] M_def
    by (rule schedule_array) (simp_all add: sha256_functions)
  have "foldl (sha256_round (sha256_W b)) (vars_of h) [0..<64] =
      sha2_rounds sha256_Sigma0 sha256_Sigma1 (\<lambda>t. sha256_K ! t) (\<lambda>t. sha256_W b ! t) 64 (vars_of h)"
    by (rule rounds_array) (simp add: sha256_round_def sha2_round_def sha256_functions)
  also have "\<dots> = sha2_rounds sha256_Sigma0 sha256_Sigma1 (\<lambda>t. sha256_K ! t)
      (sha2_W sha256_sigma0 sha256_sigma1 M) (length sha256_K) (vars_of h)"
    unfolding W length_sha256_K by (rule sha2_rounds_cong) simp
  finally show ?thesis
    by (simp add: sha256_compress_def fips_sha256_compress_def sha2_compress_def add_vars_def
        vars_of_def M_def Let_def)
qed

section \<open>The streaming interface\<close>

interpretation sha256: md_hash 64 sha256_compress sha256_processblock sha256_update_blocks sha256_update
    56 56 be64 sha256_pad sha256_iv sha256_out sha256_init sha256_sum
proof unfold_locales
  show "(64::nat) dvd 2 ^ 64" by simp
qed (simp_all add: sha256_processblock_def sha256_update_blocks.simps [symmetric] sha256_update_def sha256_pad_def
    sha256_init_def sha256_sum_def Let_def)

definition sha256_digest :: "byte list \<Rightarrow> byte list" where
  "sha256_digest msg = sha256_out (md_digest 64 56 (len_field 56 56 be64) fips_sha256_compress sha256_iv msg)"

lemma sha256_digest_code:
  "sha256_out (md_digest 64 56 (len_field 56 56 be64) sha256_compress sha256_iv msg) = sha256_digest msg"
  unfolding sha256_digest_def
  by (rule arg_cong [where f = sha256_out], rule md_digest_cong) (rule sha256_compress_fips)

text \<open>
  The context absorbs a message in any pieces, starting from a context whose buffer holds
  anything, and the digest is the one FIPS 180-4 defines for the whole message.
\<close>

interpretation sha256_ctx: hash_ctx "\<lambda>s. length (md_buf s) = 64" "sha256.absorbed sha256_iv"
    sha256_init sha256_update sha256_sum sha256_digest
  using sha256.ctx.hash_ctx_axioms by (simp only: sha256_digest_code)

section \<open>Properties\<close>

text \<open>
  C5.  SHA-256 streaming: initialise a context (whatever its buffer held), feed a message in any
  pieces and finish: the 32 bytes are SHA-256 of the concatenation as FIPS 180-4 defines it
  (padding, message schedule, rounds), for every message the 64-bit bit counter can describe.
\<close>

theorem sha256_streaming:
  assumes "length (md_buf c) = 64"
  shows "snd (sha256_sum (foldl sha256_update (sha256_init c) ms)) = sha256_digest (concat ms)"
  by (rule sha256_ctx.finish_after_updates [OF assms])

theorem sha256_streaming_witness:
  "snd (sha256_sum (foldl sha256_update (sha256_init \<lparr>md_len = 5, md_h = [], md_buf = replicate 64 0xff\<rparr>)
     [[0x61], [], [0x62, 0x63]])) = sha256_digest [0x61, 0x62, 0x63]"
  using sha256_streaming [of "\<lparr>md_len = 5, md_h = [], md_buf = replicate 64 0xff\<rparr>" "[[0x61], [], [0x62, 0x63]]"]
  by simp

end
