(* ===== verification/Musl_Sha512.thy ===== *)
theory Musl_Sha512
  imports Sha2_Spec
begin

text \<open>
  \<^verbatim>\<open>crypt_sha512.c\<close> of musl: the SHA-512 implementation below the password hash.
  \<^verbatim>\<open>struct sha512\<close> is the record \<open>sha512\<close>; \<open>processblock\<close>, \<open>pad\<close>, \<open>init\<close>,
  \<open>sum\<close> and \<open>update\<close> are one definition each.  The buffer is a list of 128 bytes, the
  message a list whose length is the C argument \<open>len\<close>, and the length counter is a 64-bit word
  that wraps.  The theory proves the compression function equal to the FIPS 180-4 one and
  interprets the streaming-hash locale, which gives the correctness of any sequence of updates.
\<close>

type_synonym sha512 = "u64 list md_ctx"

definition sha512_ror :: "u64 \<Rightarrow> nat \<Rightarrow> u64" where
  "sha512_ror n k = drop_bit k n OR push_bit (64 - k) n"

definition sha512_Ch :: "u64 \<Rightarrow> u64 \<Rightarrow> u64 \<Rightarrow> u64" where
  "sha512_Ch x y z = z XOR (x AND (y XOR z))"

definition sha512_Maj :: "u64 \<Rightarrow> u64 \<Rightarrow> u64 \<Rightarrow> u64" where
  "sha512_Maj x y z = (x AND y) OR (z AND (x OR y))"

definition sha512_S0 :: "u64 \<Rightarrow> u64" where
  "sha512_S0 x = sha512_ror x 28 XOR sha512_ror x 34 XOR sha512_ror x 39"

definition sha512_S1 :: "u64 \<Rightarrow> u64" where
  "sha512_S1 x = sha512_ror x 14 XOR sha512_ror x 18 XOR sha512_ror x 41"

definition sha512_R0 :: "u64 \<Rightarrow> u64" where
  "sha512_R0 x = sha512_ror x 1 XOR sha512_ror x 8 XOR drop_bit 7 x"

definition sha512_R1 :: "u64 \<Rightarrow> u64" where
  "sha512_R1 x = sha512_ror x 19 XOR sha512_ror x 61 XOR drop_bit 6 x"

definition sha512_K :: "u64 list" where
  "sha512_K = concat
    [[0x428a2f98d728ae22, 0x7137449123ef65cd, 0xb5c0fbcfec4d3b2f, 0xe9b5dba58189dbbc],
     [0x3956c25bf348b538, 0x59f111f1b605d019, 0x923f82a4af194f9b, 0xab1c5ed5da6d8118],
     [0xd807aa98a3030242, 0x12835b0145706fbe, 0x243185be4ee4b28c, 0x550c7dc3d5ffb4e2],
     [0x72be5d74f27b896f, 0x80deb1fe3b1696b1, 0x9bdc06a725c71235, 0xc19bf174cf692694],
     [0xe49b69c19ef14ad2, 0xefbe4786384f25e3, 0x0fc19dc68b8cd5b5, 0x240ca1cc77ac9c65],
     [0x2de92c6f592b0275, 0x4a7484aa6ea6e483, 0x5cb0a9dcbd41fbd4, 0x76f988da831153b5],
     [0x983e5152ee66dfab, 0xa831c66d2db43210, 0xb00327c898fb213f, 0xbf597fc7beef0ee4],
     [0xc6e00bf33da88fc2, 0xd5a79147930aa725, 0x06ca6351e003826f, 0x142929670a0e6e70],
     [0x27b70a8546d22ffc, 0x2e1b21385c26c926, 0x4d2c6dfc5ac42aed, 0x53380d139d95b3df],
     [0x650a73548baf63de, 0x766a0abb3c77b2a8, 0x81c2c92e47edaee6, 0x92722c851482353b],
     [0xa2bfe8a14cf10364, 0xa81a664bbc423001, 0xc24b8b70d0f89791, 0xc76c51a30654be30],
     [0xd192e819d6ef5218, 0xd69906245565a910, 0xf40e35855771202a, 0x106aa07032bbd1b8],
     [0x19a4c116b8d2d0c8, 0x1e376c085141ab53, 0x2748774cdf8eeb99, 0x34b0bcb5e19b48a8],
     [0x391c0cb3c5c95a63, 0x4ed8aa4ae3418acb, 0x5b9cca4f7763e373, 0x682e6ff3d6b2b8a3],
     [0x748f82ee5defb2fc, 0x78a5636f43172f60, 0x84c87814a1f0ab72, 0x8cc702081a6439ec],
     [0x90befffa23631e28, 0xa4506cebde82bde9, 0xbef9a3f7b2c67915, 0xc67178f2e372532b],
     [0xca273eceea26619c, 0xd186b8c721c0c207, 0xeada7dd6cde0eb1e, 0xf57d4f7fee6ed178],
     [0x06f067aa72176fba, 0x0a637dc5a2c898a6, 0x113f9804bef90dae, 0x1b710b35131c471b],
     [0x28db77f523047d84, 0x32caab7b40c72493, 0x3c9ebe0a15c9bebc, 0x431d67c49c100d4c],
     [0x4cc5d4becb3e42b6, 0x597f299cfc657e2a, 0x5fcb6fab3ad6faec, 0x6c44198c4a475817]]"

text \<open>The message schedule: the array W, sixteen big-endian words and then the expansion loop.\<close>

definition sha512_W16 :: "byte list \<Rightarrow> u64 list" where
  "sha512_W16 b = map (\<lambda>i.
       push_bit 56 (ucast (b ! (8 * i))) OR push_bit 48 (ucast (b ! (8 * i + 1))) OR
       push_bit 40 (ucast (b ! (8 * i + 2))) OR push_bit 32 (ucast (b ! (8 * i + 3))) OR
       push_bit 24 (ucast (b ! (8 * i + 4))) OR push_bit 16 (ucast (b ! (8 * i + 5))) OR
       push_bit 8 (ucast (b ! (8 * i + 6))) OR ucast (b ! (8 * i + 7))) [0..<16]"

definition sha512_W :: "byte list \<Rightarrow> u64 list" where
  "sha512_W b =
     foldl (\<lambda>W i. W @ [sha512_R1 (W ! (i - 2)) + W ! (i - 7) + sha512_R0 (W ! (i - 15)) + W ! (i - 16)])
       (sha512_W16 b) [16..<80]"

definition sha512_round :: "u64 list \<Rightarrow> 64 vars \<Rightarrow> nat \<Rightarrow> 64 vars" where
  "sha512_round W v i =
     (case v of (a, b, c, d, e, f, g, h) \<Rightarrow>
        let t1 = h + sha512_S1 e + sha512_Ch e f g + sha512_K ! i + W ! i;
            t2 = sha512_S0 a + sha512_Maj a b c
        in (t1 + t2, a, b, c, d + t1, e, f, g))"

definition sha512_compress :: "u64 list \<Rightarrow> byte list \<Rightarrow> u64 list" where
  "sha512_compress h b =
     (let W = sha512_W b;
          (a', b', c', d', e', f', g', h') =
            foldl (sha512_round W) (h ! 0, h ! 1, h ! 2, h ! 3, h ! 4, h ! 5, h ! 6, h ! 7) [0..<80]
      in [h ! 0 + a', h ! 1 + b', h ! 2 + c', h ! 3 + d',
          h ! 4 + e', h ! 5 + f', h ! 6 + g', h ! 7 + h'])"

definition sha512_processblock :: "sha512 \<Rightarrow> byte list \<Rightarrow> sha512" where
  "sha512_processblock s b = s\<lparr>md_h := sha512_compress (md_h s) b\<rparr>"

definition sha512_pad :: "sha512 \<Rightarrow> sha512" where
  "sha512_pad s =
     (let r = unat (md_len s) mod 128;
          s = s\<lparr>md_buf := (md_buf s)[r := 0x80]\<rparr>;
          r = r + 1;
          (s, r) =
            (if 112 < r
             then let s = s\<lparr>md_buf := mem_write r (replicate (128 - r) 0) (md_buf s)\<rparr>
                  in (sha512_processblock s (md_buf s), 0)
             else (s, r));
          s = s\<lparr>md_buf := mem_write r (replicate (120 - r) 0) (md_buf s)\<rparr>;
          s = s\<lparr>md_len := md_len s * 8\<rparr>;
          s = s\<lparr>md_buf := mem_write 120 (be64 (md_len s)) (md_buf s)\<rparr>
      in sha512_processblock s (md_buf s))"

definition sha512_iv :: "u64 list" where
  "sha512_iv =
    [0x6a09e667f3bcc908, 0xbb67ae8584caa73b, 0x3c6ef372fe94f82b, 0xa54ff53a5f1d36f1,
     0x510e527fade682d1, 0x9b05688c2b3e6c1f, 0x1f83d9abfb41bd6b, 0x5be0cd19137e2179]"

definition sha512_init :: "sha512 \<Rightarrow> sha512" where
  "sha512_init s = s\<lparr>md_len := 0, md_h := sha512_iv\<rparr>"

definition sha512_out :: "u64 list \<Rightarrow> byte list" where
  "sha512_out h = concat (map (\<lambda>i. be64 (h ! i)) [0..<8])"

definition sha512_sum :: "sha512 \<Rightarrow> sha512 \<times> byte list" where
  "sha512_sum s = (let s = sha512_pad s in (s, sha512_out (md_h s)))"

text \<open>The loop over whole blocks and the final copy of the rest into the buffer.\<close>

function sha512_update_blocks :: "sha512 \<Rightarrow> byte list \<Rightarrow> sha512" where
  "sha512_update_blocks s p =
     (if 128 \<le> length p then sha512_update_blocks (sha512_processblock s (take 128 p)) (drop 128 p)
      else s\<lparr>md_buf := mem_write 0 p (md_buf s)\<rparr>)"
  by pat_completeness auto
termination
  by (relation "measure (\<lambda>(s, p). length p)") auto

declare sha512_update_blocks.simps [simp del]

definition sha512_update :: "sha512 \<Rightarrow> byte list \<Rightarrow> sha512" where
  "sha512_update s m =
     (let r = unat (md_len s) mod 128;
          s = s\<lparr>md_len := md_len s + of_nat (length m)\<rparr>
      in if r \<noteq> 0
         then if length m < 128 - r
              then s\<lparr>md_buf := mem_write r m (md_buf s)\<rparr>
              else let s = s\<lparr>md_buf := mem_write r (take (128 - r) m) (md_buf s)\<rparr>
                   in sha512_update_blocks (sha512_processblock s (md_buf s)) (drop (128 - r) m)
         else sha512_update_blocks s m)"

section \<open>The compression function is the standard's\<close>

definition fips_sha512_compress :: "u64 list \<Rightarrow> byte list \<Rightarrow> u64 list" where
  "fips_sha512_compress H b =
     sha2_compress sha512_Sigma0 sha512_Sigma1 sha512_sigma0 sha512_sigma1 sha512_K H (be_words 8 b)"

lemma length_sha512_K: "length sha512_K = 80"
  by (simp add: sha512_K_def)

lemma sha512_functions:
  "sha512_S0 = sha512_Sigma0" "sha512_S1 = sha512_Sigma1" "sha512_R0 = sha512_sigma0" "sha512_R1 = sha512_sigma1"
  "sha512_Ch = sha2_Ch" "sha512_Maj = sha2_Maj"
proof -
  have ror: "sha512_ror x k = word_rotr k x" if "0 < k" "k < 64" for x k
    using rotr_by_shifts [of k x] that by (simp add: sha512_ror_def)
  show "sha512_S0 = sha512_Sigma0" "sha512_S1 = sha512_Sigma1"
    by (rule ext; simp add: sha512_S0_def sha512_S1_def sha512_Sigma0_def sha512_Sigma1_def ror)+
  show "sha512_R0 = sha512_sigma0" "sha512_R1 = sha512_sigma1"
    by (rule ext; simp add: sha512_R0_def sha512_R1_def sha512_sigma0_def sha512_sigma1_def ror)+
  show "sha512_Ch = sha2_Ch" "sha512_Maj = sha2_Maj"
    by (intro ext; simp add: sha512_Ch_def sha512_Maj_def Ch_optimised Maj_optimised)+
qed

lemma sha512_word_be:
  "push_bit 56 (ucast x0) OR push_bit 48 (ucast x1) OR push_bit 40 (ucast x2) OR push_bit 32 (ucast x3) OR push_bit 24 (ucast x4) OR push_bit 16 (ucast x5) OR push_bit 8 (ucast x6) OR ucast x7 =
     (be_word [x0, x1, x2, x3, x4, x5, x6, x7] :: u64)"
  by (rule bit_eqI) (auto simp: be_word_def bit_simps)

lemma sha512_W16_be:
  assumes "length b = 128"
  shows "sha512_W16 b = be_words 8 b"
  unfolding sha512_W16_def be_words_def
proof (rule map_cong [OF refl])
  fix i assume "i \<in> set [0..<16]"
  then have i: "i < 16" by simp
  have "take 8 (drop (8 * i) b) = [b ! (8 * i), b ! (8 * i + 1), b ! (8 * i + 2), b ! (8 * i + 3), b ! (8 * i + 4), b ! (8 * i + 5), b ! (8 * i + 6), b ! (8 * i + 7)]"
    using assms i by (intro take_8_at) simp
  then show "push_bit 56 (ucast (b ! (8 * i))) OR push_bit 48 (ucast (b ! (8 * i + 1))) OR push_bit 40 (ucast (b ! (8 * i + 2))) OR push_bit 32 (ucast (b ! (8 * i + 3))) OR push_bit 24 (ucast (b ! (8 * i + 4))) OR push_bit 16 (ucast (b ! (8 * i + 5))) OR push_bit 8 (ucast (b ! (8 * i + 6))) OR ucast (b ! (8 * i + 7)) =
      (be_word (take 8 (drop (8 * i) b)) :: u64)"
    by (simp only: sha512_word_be)
qed

lemma sha512_compress_fips:
  assumes "length b = 128"
  shows "sha512_compress h b = fips_sha512_compress h b"
proof -
  define M :: "u64 list" where "M = be_words 8 b"
  have W: "sha512_W b = map (sha2_W sha512_sigma0 sha512_sigma1 M) [0..<80]"
    unfolding sha512_W_def sha512_W16_be [OF assms] M_def
    by (rule schedule_array) (simp_all add: sha512_functions)
  have "foldl (sha512_round (sha512_W b)) (vars_of h) [0..<80] =
      sha2_rounds sha512_Sigma0 sha512_Sigma1 (\<lambda>t. sha512_K ! t) (\<lambda>t. sha512_W b ! t) 80 (vars_of h)"
    by (rule rounds_array) (simp add: sha512_round_def sha2_round_def sha512_functions)
  also have "\<dots> = sha2_rounds sha512_Sigma0 sha512_Sigma1 (\<lambda>t. sha512_K ! t)
      (sha2_W sha512_sigma0 sha512_sigma1 M) (length sha512_K) (vars_of h)"
    unfolding W length_sha512_K by (rule sha2_rounds_cong) simp
  finally show ?thesis
    by (simp add: sha512_compress_def fips_sha512_compress_def sha2_compress_def add_vars_def
        vars_of_def M_def Let_def)
qed

section \<open>The streaming interface\<close>

interpretation sha512: md_hash 128 sha512_compress sha512_processblock sha512_update_blocks sha512_update
    112 120 be64 sha512_pad sha512_iv sha512_out sha512_init sha512_sum
proof unfold_locales
  show "(128::nat) dvd 2 ^ 64" by simp
qed (simp_all add: sha512_processblock_def sha512_update_blocks.simps [symmetric] sha512_update_def sha512_pad_def
    sha512_init_def sha512_sum_def Let_def)

definition sha512_digest :: "byte list \<Rightarrow> byte list" where
  "sha512_digest msg = sha512_out (md_digest 128 112 (len_field 120 112 be64) fips_sha512_compress sha512_iv msg)"

lemma sha512_digest_code:
  "sha512_out (md_digest 128 112 (len_field 120 112 be64) sha512_compress sha512_iv msg) = sha512_digest msg"
  unfolding sha512_digest_def
  by (rule arg_cong [where f = sha512_out], rule md_digest_cong) (rule sha512_compress_fips)

text \<open>
  The context absorbs a message in any pieces, starting from a context whose buffer holds
  anything, and the digest is the one FIPS 180-4 defines for the whole message.
\<close>

interpretation sha512_ctx: hash_ctx "\<lambda>s. length (md_buf s) = 128" "sha512.absorbed sha512_iv"
    sha512_init sha512_update sha512_sum sha512_digest
  using sha512.ctx.hash_ctx_axioms by (simp only: sha512_digest_code)

section \<open>Properties\<close>

text \<open>
  The standard has a 128-bit length field; the code writes 64 bits of it.
\<close>

definition fips_sha512 :: "byte list \<Rightarrow> byte list" where
  "fips_sha512 msg = sha512_out (md_digest 128 112 (\<lambda>n. be128 (8 * n)) fips_sha512_compress sha512_iv msg)"

lemma sha512_digest_fips:
  assumes "length msg < 2 ^ 61"
  shows "sha512_digest msg = fips_sha512 msg"
proof -
  have "be64 0 = replicate 8 0" by (simp add: be64_def eval_nat_numeral)
  moreover have "8 * length msg div 2 ^ 64 = 0" using assms by simp
  ultimately have "len_field 120 112 be64 (length msg) = be128 (8 * length msg)"
    by (simp add: len_field_def be128_def mult.commute)
  then show ?thesis
    by (simp only: sha512_digest_def fips_sha512_def md_digest_def md_padding_def)
qed

text \<open>
  SHA-512 streaming: for messages of fewer than $2^{61}$ bytes (the limit the source
  states), any sequence of updates produces the digest of FIPS 180-4 with its 128-bit length.
\<close>

theorem sha512_streaming:
  assumes "length (md_buf c) = 128" and "length (concat ms) < 2 ^ 61"
  shows "snd (sha512_sum (foldl sha512_update (sha512_init c) ms)) = fips_sha512 (concat ms)"
  using sha512_ctx.finish_after_updates [OF assms(1), of ms] sha512_digest_fips [OF assms(2)] by simp

theorem sha512_streaming_witness:
  "snd (sha512_sum (foldl sha512_update (sha512_init \<lparr>md_len = 5, md_h = [], md_buf = replicate 128 0xff\<rparr>)
     [[0x61], [], [0x62, 0x63]])) = fips_sha512 [0x61, 0x62, 0x63]"
  using sha512_streaming [of "\<lparr>md_len = 5, md_h = [], md_buf = replicate 128 0xff\<rparr>" "[[0x61], [], [0x62, 0x63]]"]
  by simp

end
