(* ===== verification/Musl_Md5.thy ===== *)
theory Musl_Md5
  imports Hash_Stream
begin

text \<open>
  \<^verbatim>\<open>crypt_md5.c\<close> of musl: the MD5 implementation below the password hash.  The four
  unrolled loops of \<open>processblock\<close> are four definitions, each one iteration that performs
  the macro \<open>FF\<close>, \<open>GG\<close>, \<open>HH\<close> or \<open>II\<close> four times with the working variables
  renamed as in the source.  The theory also states RFC 1321's compression function as a
  recursion on the step number over a rotating register tuple, proves the code equal to it, and
  interprets the streaming-hash locale.
\<close>

type_synonym md5 = "u32 list md_ctx"
type_synonym md5_vars = "u32 \<times> u32 \<times> u32 \<times> u32"

definition md5_rol :: "u32 \<Rightarrow> nat \<Rightarrow> u32" where
  "md5_rol n k = push_bit k n OR drop_bit (32 - k) n"

definition md5_F :: "u32 \<Rightarrow> u32 \<Rightarrow> u32 \<Rightarrow> u32" where
  "md5_F x y z = z XOR (x AND (y XOR z))"

definition md5_G :: "u32 \<Rightarrow> u32 \<Rightarrow> u32 \<Rightarrow> u32" where
  "md5_G x y z = y XOR (z AND (y XOR x))"

definition md5_H :: "u32 \<Rightarrow> u32 \<Rightarrow> u32 \<Rightarrow> u32" where
  "md5_H x y z = x XOR y XOR z"

definition md5_I :: "u32 \<Rightarrow> u32 \<Rightarrow> u32 \<Rightarrow> u32" where
  "md5_I x y z = y XOR (x OR NOT z)"

text \<open>
  \<^verbatim>\<open>FF(a,b,c,d,w,s,t)\<close> and its siblings: the new value of the first variable, for the
  mixing function given.
\<close>

definition md5_op :: "(u32 \<Rightarrow> u32 \<Rightarrow> u32 \<Rightarrow> u32) \<Rightarrow> u32 \<Rightarrow> u32 \<Rightarrow> u32 \<Rightarrow> u32 \<Rightarrow> u32 \<Rightarrow> nat \<Rightarrow> u32 \<Rightarrow> u32" where
  "md5_op f a b c d w s t = md5_rol (a + (f b c d + w + t)) s + b"

definition md5_tab :: "u32 list" where
  "md5_tab =
    [0xd76aa478, 0xe8c7b756, 0x242070db, 0xc1bdceee, 0xf57c0faf, 0x4787c62a, 0xa8304613, 0xfd469501,
     0x698098d8, 0x8b44f7af, 0xffff5bb1, 0x895cd7be, 0x6b901122, 0xfd987193, 0xa679438e, 0x49b40821,
     0xf61e2562, 0xc040b340, 0x265e5a51, 0xe9b6c7aa, 0xd62f105d, 0x02441453, 0xd8a1e681, 0xe7d3fbc8,
     0x21e1cde6, 0xc33707d6, 0xf4d50d87, 0x455a14ed, 0xa9e3e905, 0xfcefa3f8, 0x676f02d9, 0x8d2a4c8a,
     0xfffa3942, 0x8771f681, 0x6d9d6122, 0xfde5380c, 0xa4beea44, 0x4bdecfa9, 0xf6bb4b60, 0xbebfbc70,
     0x289b7ec6, 0xeaa127fa, 0xd4ef3085, 0x04881d05, 0xd9d4d039, 0xe6db99e5, 0x1fa27cf8, 0xc4ac5665,
     0xf4292244, 0x432aff97, 0xab9423a7, 0xfc93a039, 0x655b59c3, 0x8f0ccc92, 0xffeff47d, 0x85845dd1,
     0x6fa87e4f, 0xfe2ce6e0, 0xa3014314, 0x4e0811a1, 0xf7537e82, 0xbd3af235, 0x2ad7d2bb, 0xeb86d391]"

definition md5_W :: "byte list \<Rightarrow> u32 list" where
  "md5_W b = map (\<lambda>i.
     ucast (b ! (4 * i)) OR push_bit 8 (ucast (b ! (4 * i + 1))) OR
     push_bit 16 (ucast (b ! (4 * i + 2))) OR push_bit 24 (ucast (b ! (4 * i + 3)))) [0..<16]"

definition md5_loop1 :: "u32 list \<Rightarrow> md5_vars \<Rightarrow> nat \<Rightarrow> md5_vars" where
  "md5_loop1 W v i =
     (case v of (a, b, c, d) \<Rightarrow>
        let a = md5_op md5_F a b c d (W ! i) 7 (md5_tab ! i);
            d = md5_op md5_F d a b c (W ! (i + 1)) 12 (md5_tab ! (i + 1));
            c = md5_op md5_F c d a b (W ! (i + 2)) 17 (md5_tab ! (i + 2));
            b = md5_op md5_F b c d a (W ! (i + 3)) 22 (md5_tab ! (i + 3))
        in (a, b, c, d))"

definition md5_loop2 :: "u32 list \<Rightarrow> md5_vars \<Rightarrow> nat \<Rightarrow> md5_vars" where
  "md5_loop2 W v i =
     (case v of (a, b, c, d) \<Rightarrow>
        let a = md5_op md5_G a b c d (W ! ((5 * i + 1) mod 16)) 5 (md5_tab ! i);
            d = md5_op md5_G d a b c (W ! ((5 * (i + 1) + 1) mod 16)) 9 (md5_tab ! (i + 1));
            c = md5_op md5_G c d a b (W ! ((5 * (i + 2) + 1) mod 16)) 14 (md5_tab ! (i + 2));
            b = md5_op md5_G b c d a (W ! ((5 * (i + 3) + 1) mod 16)) 20 (md5_tab ! (i + 3))
        in (a, b, c, d))"

definition md5_loop3 :: "u32 list \<Rightarrow> md5_vars \<Rightarrow> nat \<Rightarrow> md5_vars" where
  "md5_loop3 W v i =
     (case v of (a, b, c, d) \<Rightarrow>
        let a = md5_op md5_H a b c d (W ! ((3 * i + 5) mod 16)) 4 (md5_tab ! i);
            d = md5_op md5_H d a b c (W ! ((3 * (i + 1) + 5) mod 16)) 11 (md5_tab ! (i + 1));
            c = md5_op md5_H c d a b (W ! ((3 * (i + 2) + 5) mod 16)) 16 (md5_tab ! (i + 2));
            b = md5_op md5_H b c d a (W ! ((3 * (i + 3) + 5) mod 16)) 23 (md5_tab ! (i + 3))
        in (a, b, c, d))"

definition md5_loop4 :: "u32 list \<Rightarrow> md5_vars \<Rightarrow> nat \<Rightarrow> md5_vars" where
  "md5_loop4 W v i =
     (case v of (a, b, c, d) \<Rightarrow>
        let a = md5_op md5_I a b c d (W ! (7 * i mod 16)) 6 (md5_tab ! i);
            d = md5_op md5_I d a b c (W ! (7 * (i + 1) mod 16)) 10 (md5_tab ! (i + 1));
            c = md5_op md5_I c d a b (W ! (7 * (i + 2) mod 16)) 15 (md5_tab ! (i + 2));
            b = md5_op md5_I b c d a (W ! (7 * (i + 3) mod 16)) 21 (md5_tab ! (i + 3))
        in (a, b, c, d))"

definition md5_compress :: "u32 list \<Rightarrow> byte list \<Rightarrow> u32 list" where
  "md5_compress h buf =
     (let W = md5_W buf;
          v = (h ! 0, h ! 1, h ! 2, h ! 3);
          v = foldl (md5_loop1 W) v [0, 4, 8, 12];
          v = foldl (md5_loop2 W) v [16, 20, 24, 28];
          v = foldl (md5_loop3 W) v [32, 36, 40, 44];
          (a, b, c, d) = foldl (md5_loop4 W) v [48, 52, 56, 60]
      in [h ! 0 + a, h ! 1 + b, h ! 2 + c, h ! 3 + d])"

definition md5_processblock :: "md5 \<Rightarrow> byte list \<Rightarrow> md5" where
  "md5_processblock s b = s\<lparr>md_h := md5_compress (md_h s) b\<rparr>"

definition md5_pad :: "md5 \<Rightarrow> md5" where
  "md5_pad s =
     (let r = unat (md_len s) mod 64;
          s = s\<lparr>md_buf := (md_buf s)[r := 0x80]\<rparr>;
          r = r + 1;
          (s, r) =
            (if 56 < r
             then let s = s\<lparr>md_buf := mem_write r (replicate (64 - r) 0) (md_buf s)\<rparr>
                  in (md5_processblock s (md_buf s), 0)
             else (s, r));
          s = s\<lparr>md_buf := mem_write r (replicate (56 - r) 0) (md_buf s)\<rparr>;
          s = s\<lparr>md_len := md_len s * 8\<rparr>;
          s = s\<lparr>md_buf := mem_write 56 (le64 (md_len s)) (md_buf s)\<rparr>
      in md5_processblock s (md_buf s))"

definition md5_iv :: "u32 list" where
  "md5_iv = [0x67452301, 0xefcdab89, 0x98badcfe, 0x10325476]"

definition md5_init :: "md5 \<Rightarrow> md5" where
  "md5_init s = s\<lparr>md_len := 0, md_h := md5_iv\<rparr>"

definition md5_out :: "u32 list \<Rightarrow> byte list" where
  "md5_out h = concat (map (\<lambda>i. le32 (h ! i)) [0..<4])"

definition md5_sum :: "md5 \<Rightarrow> md5 \<times> byte list" where
  "md5_sum s = (let s = md5_pad s in (s, md5_out (md_h s)))"

function md5_update_blocks :: "md5 \<Rightarrow> byte list \<Rightarrow> md5" where
  "md5_update_blocks s p =
     (if 64 \<le> length p then md5_update_blocks (md5_processblock s (take 64 p)) (drop 64 p)
      else s\<lparr>md_buf := mem_write 0 p (md_buf s)\<rparr>)"
  by pat_completeness auto
termination
  by (relation "measure (\<lambda>(s, p). length p)") auto

declare md5_update_blocks.simps [simp del]

definition md5_update :: "md5 \<Rightarrow> byte list \<Rightarrow> md5" where
  "md5_update s m =
     (let r = unat (md_len s) mod 64;
          s = s\<lparr>md_len := md_len s + of_nat (length m)\<rparr>
      in if r \<noteq> 0
         then if length m < 64 - r
              then s\<lparr>md_buf := mem_write r m (md_buf s)\<rparr>
              else let s = s\<lparr>md_buf := mem_write r (take (64 - r) m) (md_buf s)\<rparr>
                   in md5_update_blocks (md5_processblock s (md_buf s)) (drop (64 - r) m)
         else md5_update_blocks s m)"

section \<open>The compression function of RFC 1321\<close>

text \<open>
  Step \<open>i\<close> works on registers in the order (A, B, C, D) and renames them afterwards, so
  every step has the same shape; the mixing function, the message index and the rotation
  amount are the tables of the RFC.
\<close>

definition rfc_md5_f :: "nat \<Rightarrow> u32 \<Rightarrow> u32 \<Rightarrow> u32 \<Rightarrow> u32" where
  "rfc_md5_f i x y z =
     (if i < 16 then (x AND y) OR (NOT x AND z)
      else if i < 32 then (x AND z) OR (y AND NOT z)
      else if i < 48 then x XOR y XOR z
      else y XOR (x OR NOT z))"

definition rfc_md5_k :: "nat \<Rightarrow> nat" where
  "rfc_md5_k i =
     (if i < 16 then i
      else if i < 32 then (5 * i + 1) mod 16
      else if i < 48 then (3 * i + 5) mod 16
      else 7 * i mod 16)"

definition rfc_md5_s :: "nat \<Rightarrow> nat" where
  "rfc_md5_s i =
     (if i < 16 then [7, 12, 17, 22]
      else if i < 32 then [5, 9, 14, 20]
      else if i < 48 then [4, 11, 16, 23]
      else [6, 10, 15, 21]) ! (i mod 4)"

definition rfc_md5_step :: "u32 list \<Rightarrow> nat \<Rightarrow> md5_vars \<Rightarrow> md5_vars" where
  "rfc_md5_step X i v =
     (case v of (a, b, c, d) \<Rightarrow>
        (d, b + word_rotl (rfc_md5_s i) (a + rfc_md5_f i b c d + X ! rfc_md5_k i + md5_tab ! i), b, c))"

fun rfc_md5_steps :: "u32 list \<Rightarrow> nat \<Rightarrow> md5_vars \<Rightarrow> md5_vars" where
  "rfc_md5_steps X 0 v = v"
| "rfc_md5_steps X (Suc i) v = rfc_md5_step X i (rfc_md5_steps X i v)"

definition le_words :: "byte list \<Rightarrow> u32 list" where
  "le_words b = map (\<lambda>i. be_word (rev (take 4 (drop (4 * i) b)))) [0..<16]"

definition rfc_md5_compress :: "u32 list \<Rightarrow> byte list \<Rightarrow> u32 list" where
  "rfc_md5_compress h b =
     (case rfc_md5_steps (le_words b) 64 (h ! 0, h ! 1, h ! 2, h ! 3) of (a, b, c, d) \<Rightarrow>
        [h ! 0 + a, h ! 1 + b, h ! 2 + c, h ! 3 + d])"

lemma md5_mix_rfc:
  "i < 16 \<Longrightarrow> md5_F x y z = rfc_md5_f i x y z"
  "16 \<le> i \<Longrightarrow> i < 32 \<Longrightarrow> md5_G x y z = rfc_md5_f i x y z"
  "32 \<le> i \<Longrightarrow> i < 48 \<Longrightarrow> md5_H x y z = rfc_md5_f i x y z"
  "48 \<le> i \<Longrightarrow> md5_I x y z = rfc_md5_f i x y z"
  by (auto intro!: bit_eqI simp: md5_F_def md5_G_def md5_H_def md5_I_def rfc_md5_f_def bit_simps)

lemma md5_op_rfc:
  assumes "\<And>x y z. f x y z = rfc_md5_f i x y z" and "0 < s" and "s < 32"
    and "s = rfc_md5_s i" and "w = X ! rfc_md5_k i"
  shows "(d, md5_op f a b c d w s (md5_tab ! i), b, c) = rfc_md5_step X i (a, b, c, d)"
proof -
  have "md5_rol x s = word_rotl s x" for x
    using rotl_by_shifts [of s x] assms(2,3) by (simp add: md5_rol_def)
  then show ?thesis using assms by (simp add: md5_op_def rfc_md5_step_def algebra_simps)
qed

text \<open>Four operations with renamed variables are four steps of the RFC.\<close>

lemma md5_four:
  assumes "\<And>j x y z. j < 4 \<Longrightarrow> f x y z = rfc_md5_f (i + j) x y z"
    and "s0 = rfc_md5_s i" "s1 = rfc_md5_s (i + 1)" "s2 = rfc_md5_s (i + 2)" "s3 = rfc_md5_s (i + 3)"
    and "{s0, s1, s2, s3} \<subseteq> {0<..<32}"
    and "w0 = X ! rfc_md5_k i" "w1 = X ! rfc_md5_k (i + 1)"
      "w2 = X ! rfc_md5_k (i + 2)" "w3 = X ! rfc_md5_k (i + 3)"
  shows "(let a = md5_op f a b c d w0 s0 (md5_tab ! i);
              d = md5_op f d a b c w1 s1 (md5_tab ! (i + 1));
              c = md5_op f c d a b w2 s2 (md5_tab ! (i + 2));
              b = md5_op f b c d a w3 s3 (md5_tab ! (i + 3))
          in (a, b, c, d)) =
         rfc_md5_step X (i + 3) (rfc_md5_step X (i + 2) (rfc_md5_step X (i + 1) (rfc_md5_step X i (a, b, c, d))))"
proof -
  have f: "f x y z = rfc_md5_f i x y z" "f x y z = rfc_md5_f (i + 1) x y z"
    "f x y z = rfc_md5_f (i + 2) x y z" "f x y z = rfc_md5_f (i + 3) x y z" for x y z
    using assms(1) [of 0] assms(1) [of 1] assms(1) [of 2] assms(1) [of 3] by simp_all
  have s: "0 < s0" "s0 < 32" "0 < s1" "s1 < 32" "0 < s2" "s2 < 32" "0 < s3" "s3 < 32"
    using assms(6) by auto
  show ?thesis
    unfolding Let_def
    by (simp only: md5_op_rfc [OF f(1) s(1,2) assms(2,7), symmetric] md5_op_rfc [OF f(2) s(3,4) assms(3,8), symmetric]
        md5_op_rfc [OF f(3) s(5,6) assms(4,9), symmetric] md5_op_rfc [OF f(4) s(7,8) assms(5,10), symmetric])
qed

lemma rfc_md5_steps_4:
  "rfc_md5_steps X (i + 4) v =
     rfc_md5_step X (i + 3) (rfc_md5_step X (i + 2) (rfc_md5_step X (i + 1) (rfc_md5_step X i (rfc_md5_steps X i v))))"
  by (simp add: eval_nat_numeral)

lemma md5_loops:
  "i \<in> {0, 4, 8, 12} \<Longrightarrow> md5_loop1 X (rfc_md5_steps X i v) i = rfc_md5_steps X (i + 4) v"
  "i \<in> {16, 20, 24, 28} \<Longrightarrow> md5_loop2 X (rfc_md5_steps X i v) i = rfc_md5_steps X (i + 4) v"
  "i \<in> {32, 36, 40, 44} \<Longrightarrow> md5_loop3 X (rfc_md5_steps X i v) i = rfc_md5_steps X (i + 4) v"
  "i \<in> {48, 52, 56, 60} \<Longrightarrow> md5_loop4 X (rfc_md5_steps X i v) i = rfc_md5_steps X (i + 4) v"
proof -
  obtain a b c d where v: "rfc_md5_steps X i v = (a, b, c, d)" by (metis prod.collapse)
  show "md5_loop1 X (rfc_md5_steps X i v) i = rfc_md5_steps X (i + 4) v" if "i \<in> {0, 4, 8, 12}"
    unfolding rfc_md5_steps_4 v md5_loop1_def prod.case
    by (rule md5_four) (use that in \<open>auto simp: md5_mix_rfc rfc_md5_s_def rfc_md5_k_def\<close>)
  show "md5_loop2 X (rfc_md5_steps X i v) i = rfc_md5_steps X (i + 4) v" if "i \<in> {16, 20, 24, 28}"
    unfolding rfc_md5_steps_4 v md5_loop2_def prod.case
    by (rule md5_four) (use that in \<open>auto simp: md5_mix_rfc rfc_md5_s_def rfc_md5_k_def\<close>)
  show "md5_loop3 X (rfc_md5_steps X i v) i = rfc_md5_steps X (i + 4) v" if "i \<in> {32, 36, 40, 44}"
    unfolding rfc_md5_steps_4 v md5_loop3_def prod.case
    by (rule md5_four) (use that in \<open>auto simp: md5_mix_rfc rfc_md5_s_def rfc_md5_k_def\<close>)
  show "md5_loop4 X (rfc_md5_steps X i v) i = rfc_md5_steps X (i + 4) v" if "i \<in> {48, 52, 56, 60}"
    unfolding rfc_md5_steps_4 v md5_loop4_def prod.case
    by (rule md5_four) (use that in \<open>auto simp: md5_mix_rfc rfc_md5_s_def rfc_md5_k_def\<close>)
qed

lemma le_word_bytes:
  "ucast x0 OR push_bit 8 (ucast x1) OR push_bit 16 (ucast x2) OR push_bit 24 (ucast x3) =
     (be_word (rev [x0, x1, x2, x3]) :: u32)"
  by (rule bit_eqI) (auto simp: be_word_def bit_simps)

lemma md5_W_le:
  assumes "length b = 64"
  shows "md5_W b = le_words b"
  unfolding md5_W_def le_words_def
proof (rule map_cong [OF refl])
  fix i assume "i \<in> set [0..<16]"
  then have "take 4 (drop (4 * i) b) = [b ! (4 * i), b ! (4 * i + 1), b ! (4 * i + 2), b ! (4 * i + 3)]"
    using assms by (intro take_4_at) simp
  then show "ucast (b ! (4 * i)) OR push_bit 8 (ucast (b ! (4 * i + 1))) OR
      push_bit 16 (ucast (b ! (4 * i + 2))) OR push_bit 24 (ucast (b ! (4 * i + 3))) =
      (be_word (rev (take 4 (drop (4 * i) b))) :: u32)"
    by (simp only: le_word_bytes)
qed

lemma md5_compress_rfc:
  assumes "length b = 64"
  shows "md5_compress h b = rfc_md5_compress h b"
proof -
  define X where "X = md5_W b"
  define v where "v = (h ! 0, h ! 1, h ! 2, h ! 3)"
  have "foldl (md5_loop1 X) v [0, 4, 8, 12] = rfc_md5_steps X 16 v"
    using md5_loops(1) [of 0 X v] by (simp add: md5_loops(1))
  then have "foldl (md5_loop2 X) (foldl (md5_loop1 X) v [0, 4, 8, 12]) [16, 20, 24, 28] = rfc_md5_steps X 32 v"
    by (simp add: md5_loops(2))
  then have "foldl (md5_loop3 X) (foldl (md5_loop2 X) (foldl (md5_loop1 X) v [0, 4, 8, 12]) [16, 20, 24, 28])
      [32, 36, 40, 44] = rfc_md5_steps X 48 v"
    by (simp add: md5_loops(3) del: foldl_Cons) (simp add: md5_loops(3))
  then have "foldl (md5_loop4 X) (foldl (md5_loop3 X) (foldl (md5_loop2 X) (foldl (md5_loop1 X) v [0, 4, 8, 12])
      [16, 20, 24, 28]) [32, 36, 40, 44]) [48, 52, 56, 60] = rfc_md5_steps X 64 v"
    by (simp add: md5_loops(4) del: foldl_Cons) (simp add: md5_loops(4))
  then show ?thesis
    by (simp only: md5_compress_def rfc_md5_compress_def Let_def X_def v_def md5_W_le [OF assms])
qed

section \<open>The streaming interface\<close>

interpretation md5: md_hash 64 md5_compress md5_processblock md5_update_blocks md5_update
    56 56 le64 md5_pad md5_iv md5_out md5_init md5_sum
proof unfold_locales
  show "(64::nat) dvd 2 ^ 64" by simp
qed (simp_all add: md5_processblock_def md5_update_blocks.simps [symmetric] md5_update_def md5_pad_def
    md5_init_def md5_sum_def Let_def)

definition md5_digest :: "byte list \<Rightarrow> byte list" where
  "md5_digest msg = md5_out (md_digest 64 56 (len_field 56 56 le64) rfc_md5_compress md5_iv msg)"

lemma md5_digest_code: "md5_out (md_digest 64 56 (len_field 56 56 le64) md5_compress md5_iv msg) = md5_digest msg"
  unfolding md5_digest_def
  by (rule arg_cong [where f = md5_out], rule md_digest_cong) (rule md5_compress_rfc)

interpretation md5_ctx: hash_ctx "\<lambda>s. length (md_buf s) = 64" "md5.absorbed md5_iv"
    md5_init md5_update md5_sum md5_digest
  using md5.ctx.hash_ctx_axioms by (simp only: md5_digest_code)

section \<open>Properties\<close>

text \<open>
  C6.  MD5 streaming: any sequence of updates, from a context with any buffer, produces the MD5
  digest of RFC 1321 for the concatenated message.
\<close>

theorem md5_streaming:
  assumes "length (md_buf c) = 64"
  shows "snd (md5_sum (foldl md5_update (md5_init c) ms)) = md5_digest (concat ms)"
  by (rule md5_ctx.finish_after_updates [OF assms])

theorem md5_streaming_witness:
  "snd (md5_sum (foldl md5_update (md5_init \<lparr>md_len = 5, md_h = [], md_buf = replicate 64 0xff\<rparr>)
     [[0x61], [], [0x62, 0x63]])) = md5_digest [0x61, 0x62, 0x63]"
  using md5_streaming [of "\<lparr>md_len = 5, md_h = [], md_buf = replicate 64 0xff\<rparr>" "[[0x61], [], [0x62, 0x63]]"]
  by simp

end
