(* ===== verification/Musl_Intscan.thy ===== *)
theory Musl_Intscan
  imports C_Prelude
begin

text \<open>
  Integer scanning of musl: \<^verbatim>\<open>src/internal/intscan.c\<close> (\<open>__intscan\<close>) and the
  string front end of \<^verbatim>\<open>src/stdlib/strtol.c\<close> (\<open>strtox\<close>, \<open>strtoul\<close>,
  \<open>strtol\<close> on LP64), with \<open>atoi\<close>.

  The input is the string up to its terminating NUL, a list of bytes; reading at the end gives
  the NUL.  The current character \<open>c\<close> of the C code is the head of the list that is left:
  the \<open>shunget\<close> before every return makes the unread rest start at \<open>c\<close>.  The accumulators
  keep their widths, 32 bits in the first loop and 64 in the second, and the results carry the
  value, the rest of the string (the end pointer) and the errno that was set.
\<close>

datatype errno = EINVAL | ERANGE | ENOMEM | EILSEQ | EBUSY | EDEADLK | EPERM | EAGAIN | EOVERFLOW

definition isspace :: "byte \<Rightarrow> bool" where
  "isspace c \<longleftrightarrow> c = 32 \<or> c - 9 < 5"

definition isdigit :: "byte \<Rightarrow> bool" where
  "isdigit c \<longleftrightarrow> c - 48 < 10"

text \<open>The table of digit values: 255 marks a character that is no digit in any base.\<close>

definition digit_val :: "byte \<Rightarrow> nat" where
  "digit_val c =
     (if 48 \<le> c \<and> c \<le> 57 then unat c - 48
      else if 65 \<le> c \<and> c \<le> 90 then unat c - 55
      else if 97 \<le> c \<and> c \<le> 122 then unat c - 87
      else 255)"

definition cur :: "byte list \<Rightarrow> byte" where
  "cur s = (case s of [] \<Rightarrow> 0 | c # _ \<Rightarrow> c)"

fun skip_space :: "byte list \<Rightarrow> byte list" where
  "skip_space [] = []"
| "skip_space (c # s) = (if isspace c then skip_space s else c # s)"

text \<open>
  \<^verbatim>\<open>for (...; isd(c) && ok(x, c); c = shgetc(f)) x = step(x, c);\<close>
\<close>

fun scan_loop :: "(byte \<Rightarrow> bool) \<Rightarrow> ('w \<Rightarrow> byte \<Rightarrow> bool) \<Rightarrow> ('w \<Rightarrow> byte \<Rightarrow> 'w) \<Rightarrow> 'w \<Rightarrow> byte list \<Rightarrow> 'w \<times> byte list" where
  "scan_loop isd ok step x [] = (x, [])"
| "scan_loop isd ok step x (c # s) =
     (if isd c \<and> ok x c then scan_loop isd ok step (step x c) s else (x, c # s))"

definition scan_dec :: "byte list \<Rightarrow> u64 \<times> byte list" where
  "scan_dec s =
     (let (x, s) = scan_loop isdigit (\<lambda>x c. x \<le> (0xffffffff :: u32) div 10 - 1)
                     (\<lambda>x c. x * 10 + ucast (c - 48)) 0 s
      in scan_loop isdigit
           (\<lambda>y c. y \<le> 0xffffffffffffffff div 10 \<and> 10 * y \<le> 0xffffffffffffffff - ucast (c - 48))
           (\<lambda>y c. y * 10 + ucast (c - 48)) (ucast x) s)"

definition pow2_shift :: "nat \<Rightarrow> nat" where
  "pow2_shift base = [0, 1, 2, 4, 7, 3, 6, 5] ! (0x17 * base div 32 mod 8)"

definition scan_pow2 :: "nat \<Rightarrow> byte list \<Rightarrow> u64 \<times> byte list" where
  "scan_pow2 base s =
     (let bs = pow2_shift base;
          (x, s) = scan_loop (\<lambda>c. digit_val c < base) (\<lambda>x c. x \<le> (0xffffffff :: u32) div 32)
                     (\<lambda>x c. push_bit bs x OR of_nat (digit_val c)) 0 s
      in scan_loop (\<lambda>c. digit_val c < base) (\<lambda>y c. y \<le> drop_bit bs 0xffffffffffffffff)
           (\<lambda>y c. push_bit bs y OR of_nat (digit_val c)) (ucast x) s)"

definition scan_any :: "nat \<Rightarrow> byte list \<Rightarrow> u64 \<times> byte list" where
  "scan_any base s =
     (let (x, s) = scan_loop (\<lambda>c. digit_val c < base) (\<lambda>x c. x \<le> (0xffffffff :: u32) div 36 - 1)
                     (\<lambda>x c. x * of_nat base + of_nat (digit_val c)) 0 s
      in scan_loop (\<lambda>c. digit_val c < base)
           (\<lambda>y c. y \<le> 0xffffffffffffffff div of_nat base \<and>
                  of_nat base * y \<le> 0xffffffffffffffff - of_nat (digit_val c))
           (\<lambda>y c. y * of_nat base + of_nat (digit_val c)) (ucast x) s)"

definition intscan_digits :: "nat \<Rightarrow> bool \<Rightarrow> u64 \<Rightarrow> byte list \<Rightarrow> u64 \<times> byte list \<times> errno option" where
  "intscan_digits base neg lim s =
     (let (y, s) = (if base = 10 then scan_dec s
                    else if and base (base - 1) = 0 then scan_pow2 base s
                    else scan_any base s);
          (y, s, neg, e) =
            (if digit_val (cur s) < base
             then (lim, dropWhile (\<lambda>c. digit_val c < base) s, neg \<and> lim AND 1 = 0, Some ERANGE)
             else (y, s, neg, None));
          n = (if neg then - 1 else 0)
      in if lim \<le> y \<and> lim AND 1 = 0 \<and> \<not> neg then (lim - 1, s, Some ERANGE)
         else if lim < y then (lim, s, Some ERANGE)
         else ((y XOR n) - n, s, e))"

definition intscan :: "nat \<Rightarrow> bool \<Rightarrow> u64 \<Rightarrow> byte list \<Rightarrow> u64 \<times> byte list \<times> errno option" where
  "intscan base pok lim s0 =
     (if 36 < base \<or> base = 1 then (0, s0, Some EINVAL)
      else
        let s = skip_space s0;
            (neg, s) = (if cur s = 43 \<or> cur s = 45 then (cur s = 45, tl s) else (False, s))
        in if (base = 0 \<or> base = 16) \<and> cur s = 48
           then let s1 = tl s
                in if cur s1 OR 32 = 120
                   then let s2 = tl s1
                        in if 16 \<le> digit_val (cur s2) then (0, if pok then s1 else s0, None)
                           else intscan_digits 16 neg lim s2
                   else intscan_digits (if base = 0 then 8 else base) neg lim s1
           else let base = (if base = 0 then 10 else base)
                in if base \<le> digit_val (cur s) then (0, s0, Some EINVAL)
                   else intscan_digits base neg lim s)"

definition strtoul :: "byte list \<Rightarrow> nat \<Rightarrow> u64 \<times> byte list \<times> errno option" where
  "strtoul s base = intscan base True 0xffffffffffffffff s"

definition strtol :: "byte list \<Rightarrow> nat \<Rightarrow> u64 \<times> byte list \<times> errno option" where
  "strtol s base = intscan base True 0x8000000000000000 s"

section \<open>The value of a digit string\<close>

definition digits_value :: "nat \<Rightarrow> nat \<Rightarrow> byte list \<Rightarrow> nat" where
  "digits_value base a ds = foldl (\<lambda>a c. a * base + digit_val c) a ds"

lemma digits_value_Nil [simp]: "digits_value base a [] = a"
  and digits_value_Cons [simp]: "digits_value base a (c # ds) = digits_value base (a * base + digit_val c) ds"
  and digits_value_append [simp]: "digits_value base a (ds @ es) = digits_value base (digits_value base a ds) es"
  by (simp_all add: digits_value_def)

lemma digits_value_ge: "0 < base \<Longrightarrow> a \<le> digits_value base a ds"
proof (induction ds arbitrary: a)
  case (Cons c ds)
  have "a \<le> a * base + digit_val c" using Cons.prems by (cases base) auto
  also have "\<dots> \<le> digits_value base (a * base + digit_val c) ds" using Cons by blast
  finally show ?case by simp
qed simp

lemma isdigit_val: "isdigit c \<longleftrightarrow> digit_val c < 10"
  and digit_val_dec: "isdigit c \<Longrightarrow> unat (c - 48) = digit_val c"
proof -
  have c: "c = of_nat (unat c)" "unat c < 256" by simp_all
  have "c - 48 < 10 \<longleftrightarrow> 48 \<le> c \<and> c \<le> 57"
    by (simp add: word_less_nat_alt word_le_nat_alt unat_sub_if_size word_size) (use c in linarith)
  moreover have "48 \<le> c \<and> c \<le> 57 \<longleftrightarrow> digit_val c < 10"
    using c by (auto simp: digit_val_def word_le_nat_alt)
  ultimately show "isdigit c \<longleftrightarrow> digit_val c < 10" by (simp add: isdigit_def)
  then show "isdigit c \<Longrightarrow> unat (c - 48) = digit_val c"
    by (auto simp: digit_val_def word_le_nat_alt unat_sub_if_size word_size split: if_splits)
qed

section \<open>The scanning loops\<close>

lemma scan_loop_value:
  assumes "\<And>x c. isd c \<Longrightarrow> ok x c \<Longrightarrow> unat (step x c) = unat x * base + digit_val c"
    and "scan_loop isd ok step x s = (y, s')"
  shows "\<exists>ds. s = ds @ s' \<and> (\<forall>c\<in>set ds. isd c) \<and> unat y = digits_value base (unat x) ds \<and>
           (s' \<noteq> [] \<longrightarrow> isd (hd s') \<longrightarrow> \<not> ok y (hd s'))"
  using assms(2)
proof (induction s arbitrary: x)
  case (Cons c s)
  show ?case
  proof (cases "isd c \<and> ok x c")
    case True
    with Cons obtain ds where "s = ds @ s'" "\<forall>c\<in>set ds. isd c"
      "unat y = digits_value base (unat (step x c)) ds"
      "s' \<noteq> [] \<longrightarrow> isd (hd s') \<longrightarrow> \<not> ok y (hd s')" by auto
    then show ?thesis using True assms(1) by (intro exI [of _ "c # ds"]) auto
  next
    case False
    with Cons.prems show ?thesis by auto
  qed
qed auto

text \<open>
  A two-stage scan (a narrow accumulator first, then 64 bits) that only stops at a digit when
  the next value would not fit reads all the digits or stops at an overflow.
\<close>

lemma two_stage_scan:
  fixes ok1 :: "u32 \<Rightarrow> byte \<Rightarrow> bool" and ok2 :: "u64 \<Rightarrow> byte \<Rightarrow> bool"
  assumes "0 < base" and isd: "\<And>c. isd c \<longleftrightarrow> digit_val c < base"
    and st1: "\<And>x c. isd c \<Longrightarrow> ok1 x c \<Longrightarrow> unat (step1 x c) = unat x * base + digit_val c"
    and st2: "\<And>x c. isd c \<Longrightarrow> ok2 x c \<Longrightarrow> unat (step2 x c) = unat x * base + digit_val c"
    and over: "\<And>x c. isd c \<Longrightarrow> \<not> ok2 x c \<Longrightarrow> 2 ^ 64 \<le> unat x * base + digit_val c"
    and res: "(case scan_loop isd ok1 step1 0 s of (x, s) \<Rightarrow> scan_loop isd ok2 step2 (ucast x) s) = (y, s')"
  shows "\<exists>ds. s = ds @ s' \<and> (\<forall>c\<in>set ds. digit_val c < base) \<and> unat y = digits_value base 0 ds \<and>
           (s' \<noteq> [] \<longrightarrow> digit_val (hd s') < base \<longrightarrow> 2 ^ 64 \<le> digits_value base 0 (ds @ [hd s']))"
proof -
  obtain x s1 where s1: "scan_loop isd ok1 step1 0 s = (x, s1)" by fastforce
  with res have s2: "scan_loop isd ok2 step2 (ucast x) s1 = (y, s')" by simp
  from scan_loop_value [OF st1 s1] obtain d1 where d1: "s = d1 @ s1" "\<forall>c\<in>set d1. isd c"
    "unat x = digits_value base 0 d1" by auto
  from scan_loop_value [OF st2 s2] obtain d2 where d2: "s1 = d2 @ s'" "\<forall>c\<in>set d2. isd c"
    "unat y = digits_value base (unat (ucast x :: u64)) d2" "s' \<noteq> [] \<longrightarrow> isd (hd s') \<longrightarrow> \<not> ok2 y (hd s')"
    by auto
  have "unat (ucast x :: u64) = unat x" by (simp add: unat_ucast_up)
  with d1 d2 have "unat y = digits_value base 0 (d1 @ d2)" by simp
  moreover have "2 ^ 64 \<le> digits_value base 0 ((d1 @ d2) @ [hd s'])" if "s' \<noteq> []" "digit_val (hd s') < base"
    using over [of "hd s'" y] d2(4) that isd calculation by simp
  ultimately show ?thesis using d1 d2 isd by (intro exI [of _ "d1 @ d2"]) auto
qed

lemma digit_lt_iff:
  assumes "(d :: nat) < q"
  shows "u * q + d < p * q \<longleftrightarrow> u < p"
proof
  assume "u < p"
  then have "(u + 1) * q \<le> p * q" by (intro mult_le_mono1) simp
  with assms show "u * q + d < p * q" by simp
next
  assume "u * q + d < p * q"
  then have "u * q < p * q" by linarith
  then show "u < p" by simp
qed

lemma guard64:
  fixes y :: u64
  assumes "0 < b" "b \<le> 36" "d < b"
  shows "(y \<le> 0xffffffffffffffff div of_nat b \<and> of_nat b * y \<le> 0xffffffffffffffff - of_nat d)
    \<longleftrightarrow> unat y * b + d < 2 ^ 64"
proof -
  have b: "unat (of_nat b :: u64) = b" "unat (of_nat d :: u64) = d"
    using assms by (simp_all add: unat_of_nat_small)
  have m: "unat (0xffffffffffffffff - of_nat d :: u64) = 0xffffffffffffffff - d"
    using assms b by (simp add: unat_sub_if_size word_le_nat_alt)
  have 1: "y \<le> 0xffffffffffffffff div of_nat b \<longleftrightarrow> unat y * b < 2 ^ 64"
    using assms b by (simp add: word_le_nat_alt unat_div less_eq_div_iff_mult_less_eq) linarith
  have 2: "unat (of_nat b * y) = unat y * b" if "unat y * b < 2 ^ 64"
    using that unat_mult_add_small [of y b 0] by (simp add: mult.commute)
  show ?thesis
    using 1 2 m assms by (auto simp: word_le_nat_alt)
qed

lemma ucast_dec: "isdigit c \<Longrightarrow> (ucast (c - 48) :: 'w::len word) = of_nat (digit_val c)"
  using digit_val_dec [of c] by (metis of_nat_unat)

lemma scan_dec_value:
  assumes "scan_dec s = (y, s')"
  shows "\<exists>ds. s = ds @ s' \<and> (\<forall>c\<in>set ds. digit_val c < 10) \<and> unat y = digits_value 10 0 ds \<and>
           (s' \<noteq> [] \<longrightarrow> digit_val (hd s') < 10 \<longrightarrow> 2 ^ 64 \<le> digits_value 10 0 (ds @ [hd s']))"
proof (rule two_stage_scan [OF _ isdigit_val _ _ _ assms [unfolded scan_dec_def Let_def]])
  fix x :: u32 and c assume "isdigit c" "x \<le> 0xffffffff div 10 - 1"
  then show "unat (x * 10 + ucast (c - 48)) = unat x * 10 + digit_val c"
    using unat_mult_add_small [of x 10 "digit_val c"] isdigit_val [of c]
    by (simp add: ucast_dec word_le_nat_alt)
next
  fix x :: u64 and c
  assume c: "isdigit c" and "x \<le> 0xffffffffffffffff div 10 \<and> 10 * x \<le> 0xffffffffffffffff - ucast (c - 48)"
  then have "unat x * 10 + digit_val c < 2 ^ 64"
    using guard64 [of 10 "digit_val c" x] isdigit_val [of c] by (simp add: ucast_dec)
  then show "unat (x * 10 + ucast (c - 48)) = unat x * 10 + digit_val c"
    using unat_mult_add_small [of x 10 "digit_val c"] c by (simp add: ucast_dec)
next
  fix x :: u64 and c
  assume "isdigit c" and "\<not> (x \<le> 0xffffffffffffffff div 10 \<and> 10 * x \<le> 0xffffffffffffffff - ucast (c - 48))"
  then show "2 ^ 64 \<le> unat x * 10 + digit_val c"
    using guard64 [of 10 "digit_val c" x] isdigit_val [of c] by (auto simp: ucast_dec)
qed simp

lemma scan_any_value:
  assumes "scan_any base s = (y, s')" and base: "0 < base" "base \<le> 36"
  shows "\<exists>ds. s = ds @ s' \<and> (\<forall>c\<in>set ds. digit_val c < base) \<and> unat y = digits_value base 0 ds \<and>
           (s' \<noteq> [] \<longrightarrow> digit_val (hd s') < base \<longrightarrow> 2 ^ 64 \<le> digits_value base 0 (ds @ [hd s']))"
proof (rule two_stage_scan [OF base(1) refl _ _ _ assms(1) [unfolded scan_any_def Let_def]])
  fix x :: u32 and c assume c: "digit_val c < base" "x \<le> 0xffffffff div 36 - 1"
  then have "(unat x + 1) * base < 2 ^ 32"
    using base mult_le_mono [of "unat x + 1" "0xffffffff div 36" base 36] by (simp add: word_le_nat_alt)
  then show "unat (x * of_nat base + of_nat (digit_val c)) = unat x * base + digit_val c"
    using c by (intro unat_mult_add_small) simp
next
  fix x :: u64 and c
  assume "digit_val c < base" and
    "x \<le> 0xffffffffffffffff div of_nat base \<and> of_nat base * x \<le> 0xffffffffffffffff - of_nat (digit_val c)"
  then show "unat (x * of_nat base + of_nat (digit_val c)) = unat x * base + digit_val c"
    using guard64 [of base "digit_val c" x] base by (intro unat_mult_add_small) simp
next
  fix x :: u64 and c
  assume "digit_val c < base" and
    "\<not> (x \<le> 0xffffffffffffffff div of_nat base \<and> of_nat base * x \<le> 0xffffffffffffffff - of_nat (digit_val c))"
  then show "2 ^ 64 \<le> unat x * base + digit_val c"
    using guard64 [of base "digit_val c" x] base by simp
qed

lemma shift_or:
  fixes x :: "'w::len word"
  assumes "d < 2 ^ k" "unat x * 2 ^ k + d < 2 ^ LENGTH('w)"
  shows "unat (push_bit k x OR of_nat d) = unat x * 2 ^ k + d"
proof -
  have "push_bit k x AND of_nat d = 0"
  proof (rule bit_eqI)
    fix n assume "possible_bit TYPE('w word) n"
    have "\<not> bit (of_nat d :: 'w word) n" if "k \<le> n"
    proof -
      have "d < 2 ^ n" using assms(1) that by (meson less_le_trans one_le_numeral power_increasing)
      then have "\<not> bit d n" by (simp add: bit_iff_odd)
      then show ?thesis by (simp add: bit_of_nat_iff)
    qed
    then show "bit (push_bit k x AND of_nat d) n = bit 0 n" by (auto simp: bit_simps)
  qed
  then have "push_bit k x OR of_nat d = x * of_nat (2 ^ k) + of_nat d"
    by (simp add: disjunctive_add_eq_or [symmetric] push_bit_eq_mult)
  then show ?thesis using unat_mult_add_small [OF assms(2)] by simp
qed

lemma pow2_shift_log:
  assumes "and base (base - 1) = 0" "2 \<le> base" "base \<le> (36 :: nat)"
  shows "base = 2 ^ pow2_shift base" "pow2_shift base \<in> {1..5}"
proof -
  have "list_all (\<lambda>b. and b (b - 1) = (0 :: nat) \<longrightarrow> b \<in> {2, 4, 8, 16, 32}) [2..<37]" by code_simp
  moreover have "base \<in> set [2..<37]" unfolding set_upt using assms by simp
  ultimately have "base \<in> {2, 4, 8, 16, 32}" using assms(1) unfolding list_all_iff by blast
  then show "base = 2 ^ pow2_shift base" "pow2_shift base \<in> {1..5}" by (auto simp: pow2_shift_def)
qed

lemma scan_pow2_value:
  assumes "scan_pow2 base s = (y, s')" and base: "and base (base - 1) = 0" "2 \<le> base" "base \<le> 36"
  shows "\<exists>ds. s = ds @ s' \<and> (\<forall>c\<in>set ds. digit_val c < base) \<and> unat y = digits_value base 0 ds \<and>
           (s' \<noteq> [] \<longrightarrow> digit_val (hd s') < base \<longrightarrow> 2 ^ 64 \<le> digits_value base 0 (ds @ [hd s']))"
proof -
  define k where "k = pow2_shift base"
  have k: "base = 2 ^ k" "1 \<le> k" "k \<le> 5" using pow2_shift_log [OF base] by (simp_all add: k_def)
  have fit: "unat x * 2 ^ k + d < 2 ^ 64 \<longleftrightarrow> x \<le> drop_bit k 0xffffffffffffffff" if "d < 2 ^ k" for x :: u64 and d
  proof -
    have e: "(2 ^ 64 :: nat) = 2 ^ (64 - k) * 2 ^ k" using k by (simp flip: power_add)
    have "k \<in> {1, 2, 3, 4, 5}" using k by auto
    then have "unat (drop_bit k (0xffffffffffffffff :: u64)) = 2 ^ (64 - k) - 1"
      by (elim insertE) (simp_all add: unat_drop_bit_eq drop_bit_eq_div)
    then have "x \<le> drop_bit k 0xffffffffffffffff \<longleftrightarrow> unat x + 1 \<le> 2 ^ (64 - k)"
      by (simp add: word_le_nat_alt le_diff_conv2 Suc_leI flip: Suc_le_eq)
    also have "\<dots> \<longleftrightarrow> unat x * 2 ^ k + d < 2 ^ 64"
      unfolding e using digit_lt_iff [OF that] by (simp add: Suc_le_eq)
    finally show ?thesis by simp
  qed
  show ?thesis
  proof (rule two_stage_scan [OF _ refl _ _ _ assms(1) [unfolded scan_pow2_def Let_def, folded k_def]])
    show "0 < base" using base by simp
  next
    fix x :: u32 and c assume c: "digit_val c < base" "x \<le> 0xffffffff div 32"
    then have "(unat x + 1) * 2 ^ k \<le> 2 ^ 27 * 2 ^ 5"
      using power_increasing [of k 5 "2 :: nat"] k by (intro mult_le_mono) (simp_all add: word_le_nat_alt)
    then show "unat (push_bit k x OR of_nat (digit_val c)) = unat x * base + digit_val c"
      using c k by (subst shift_or) simp_all
  next
    fix x :: u64 and c
    assume "digit_val c < base" "x \<le> drop_bit k 0xffffffffffffffff"
    then show "unat (push_bit k x OR of_nat (digit_val c)) = unat x * base + digit_val c"
      using fit [of "digit_val c" x] k by (subst shift_or) simp_all
  next
    fix x :: u64 and c
    assume "digit_val c < base" "\<not> x \<le> drop_bit k 0xffffffffffffffff"
    then show "2 ^ 64 \<le> unat x * base + digit_val c"
      using fit [of "digit_val c" x] k by simp
  qed
qed

section \<open>What the scan returns\<close>

text \<open>
  The result for the digit string \<open>ds\<close>: its value with the sign applied, or the saturated
  limit and \<open>ERANGE\<close>.  For \<open>strtoul\<close> the limit is the largest 64-bit word; for \<open>strtol\<close>
  it is the word of the least long, reached only by negative numbers.
\<close>

definition saturate :: "bool \<Rightarrow> u64 \<Rightarrow> nat \<Rightarrow> u64 \<times> errno option" where
  "saturate neg lim n =
     (if lim AND 1 = 0 \<and> \<not> neg then if n < unat lim then (of_nat n, None) else (lim - 1, Some ERANGE)
      else if n \<le> unat lim then (if neg then - of_nat n else of_nat n, None)
      else (lim, Some ERANGE))"

lemma scan_value:
  assumes "(if base = 10 then scan_dec s else if and base (base - 1) = 0 then scan_pow2 base s
            else scan_any base s) = (y, s')" and "2 \<le> base" "base \<le> 36"
  shows "\<exists>ds. s = ds @ s' \<and> (\<forall>c\<in>set ds. digit_val c < base) \<and> unat y = digits_value base 0 ds \<and>
           (s' \<noteq> [] \<longrightarrow> digit_val (hd s') < base \<longrightarrow> 2 ^ 64 \<le> digits_value base 0 (ds @ [hd s']))"
  using assms scan_dec_value scan_pow2_value scan_any_value by (auto split: if_splits)

lemma cur_nodigit: "digit_val (cur s) < base \<Longrightarrow> base \<le> 36 \<Longrightarrow> s \<noteq> [] \<and> digit_val (hd s) < base"
  by (cases s) (auto simp: cur_def digit_val_def)

lemma negate_mask: "(y XOR (if neg then - 1 else 0)) - (if neg then - 1 else 0) = (if neg then - y else (y :: u64))"
  by (cases neg) (simp_all add: not_eq_complement)

lemma intscan_digits_value:
  assumes base: "2 \<le> base" "base \<le> 36" and lim: "lim \<in> {0xffffffffffffffff, 0x8000000000000000}"
    and ds: "\<forall>c\<in>set ds. digit_val c < base" and rest: "base \<le> digit_val (cur rest)"
  shows "intscan_digits base neg lim (ds @ rest) =
           (case saturate neg lim (digits_value base 0 ds) of (v, e) \<Rightarrow> (v, rest, e))"
proof -
  define S where "S = (if base = 10 then scan_dec (ds @ rest) else if and base (base - 1) = 0
    then scan_pow2 base (ds @ rest) else scan_any base (ds @ rest))"
  obtain y s' where S: "S = (y, s')" by fastforce
  with scan_value [of base "ds @ rest" y s'] base obtain ds1 where d1: "ds @ rest = ds1 @ s'"
    "\<forall>c\<in>set ds1. digit_val c < base" "unat y = digits_value base 0 ds1"
    "s' \<noteq> [] \<longrightarrow> digit_val (hd s') < base \<longrightarrow> 2 ^ 64 \<le> digits_value base 0 (ds1 @ [hd s'])"
    unfolding S_def by blast
  have L: "unat lim \<in> {2 ^ 64 - 1, 2 ^ 63}" "- (0x8000000000000000 :: u64) = 0x8000000000000000"
    using lim by auto
  have tw: "takeWhile (\<lambda>c. digit_val c < base) (ds @ rest) = ds"
    "dropWhile (\<lambda>c. digit_val c < base) (ds @ rest) = rest"
    using ds rest by (cases rest; simp add: takeWhile_append dropWhile_append cur_def)+
  show ?thesis
  proof (cases "digit_val (cur s') < base")
    case True
    with cur_nodigit base(2) have s': "s' \<noteq> []" "digit_val (hd s') < base" by blast+
    then obtain c t where ct: "s' = c # t" by (cases s') auto
    have "ds = ds1 @ c # takeWhile (\<lambda>c. digit_val c < base) t" "dropWhile (\<lambda>c. digit_val c < base) s' = rest"
      using tw d1 s' ct by (auto simp: takeWhile_append dropWhile_append)
    moreover from this have "digits_value base 0 (ds1 @ [hd s']) \<le> digits_value base 0 ds"
      using digits_value_ge [of base "digits_value base 0 (ds1 @ [c])"] base ct by simp
    ultimately have "2 ^ 64 \<le> digits_value base 0 ds" "dropWhile (\<lambda>c. digit_val c < base) s' = rest"
      using d1(4) s' by auto
    then show ?thesis
      using True S L lim by (auto simp: intscan_digits_def S_def [symmetric] saturate_def Let_def)
  next
    case False
    have "s' = rest \<and> ds1 = ds"
    proof -
      have "takeWhile (\<lambda>c. digit_val c < base) (ds1 @ s') = ds1" using d1(2) False
        by (cases s') (auto simp: takeWhile_append cur_def)
      then show ?thesis using tw d1(1) by auto
    qed
    then have y: "unat y = digits_value base 0 ds" "s' = rest" using d1 by auto
    have "y = of_nat (digits_value base 0 ds)" using y(1) by (metis of_nat_unat ucast_id)
    then show ?thesis
      using False S L lim y
      by (auto simp: intscan_digits_def S_def [symmetric] saturate_def Let_def negate_mask word_le_nat_alt
          word_less_nat_alt)
  qed
qed

lemma cur_Cons [simp]: "cur (c # s) = c" and cur_Nil [simp]: "cur [] = 0"
  by (simp_all add: cur_def)

section \<open>Prefixes: blanks, a sign, and the base\<close>

lemma digit_not_blank_or_sign:
  "digit_val c < 36 \<Longrightarrow> \<not> isspace c \<and> c \<noteq> 43 \<and> c \<noteq> 45"
  by (auto simp: isspace_def digit_val_def word_le_nat_alt word_less_nat_alt unat_sub_if_size word_size
      split: if_splits)

lemma sign_not_blank: "\<not> isspace 43" "\<not> isspace 45"
  by (simp_all add: isspace_def)

lemma skip_space_append: "\<forall>c\<in>set sp. isspace c \<Longrightarrow> s = [] \<or> \<not> isspace (hd s) \<Longrightarrow> skip_space (sp @ s) = s"
  by (induction sp) (auto, cases s, auto)

lemma skip_to_sign:
  assumes "\<forall>c\<in>set sp. isspace c" and "sg \<in> {[], [43], [45]}" and "digit_val c < 36"
  shows "skip_space (sp @ sg @ c # t) = sg @ c # t"
  using assms digit_not_blank_or_sign [of c] sign_not_blank
  by (intro skip_space_append) auto

text \<open>
  A number without a base prefix: blanks, an optional sign, a non-empty digit string, then
  something that is no digit.  With base 16 a leading zero may not be followed by an x.
\<close>

lemma intscan_plain:
  assumes base: "2 \<le> base" "base \<le> 36" and lim: "lim \<in> {0xffffffffffffffff, 0x8000000000000000}"
    and sp: "\<forall>c\<in>set sp. isspace c" and sg: "sg \<in> {[], [43], [45]}"
    and ds: "ds \<noteq> []" "\<forall>c\<in>set ds. digit_val c < base" and rest: "base \<le> digit_val (cur rest)"
    and nox: "base = 16 \<Longrightarrow> hd ds = 48 \<Longrightarrow> cur (tl ds @ rest) OR 32 \<noteq> 120"
  shows "intscan base pok lim (sp @ sg @ ds @ rest) =
           (case saturate (sg = [45]) lim (digits_value base 0 ds) of (v, e) \<Rightarrow> (v, rest, e))"
proof -
  obtain c t where ct: "ds = c # t" using ds by (cases ds) auto
  have c: "digit_val c < base" "digit_val c < 36" using ds ct base by auto
  note D = intscan_digits_value [OF base lim ds(2) rest, of "sg = [45]"]
  have skip: "skip_space (sp @ sg @ ds @ rest) = sg @ ds @ rest"
    using skip_to_sign [OF sp sg c(2)] ct by simp
  have signs: "cur (ds @ rest) \<noteq> 43" "cur (ds @ rest) \<noteq> 45"
    using digit_not_blank_or_sign [OF c(2)] ct by (auto simp: cur_def)
  have sgn: "(if cur (sg @ ds @ rest) = 43 \<or> cur (sg @ ds @ rest) = 45
      then (cur (sg @ ds @ rest) = 45, tl (sg @ ds @ rest)) else (False, sg @ ds @ rest)) = (sg = [45], ds @ rest)"
    using sg signs by (auto simp: cur_def)
  show ?thesis
  proof (cases "base = 16 \<and> c = 48")
    case True
    then have b: "base = 16" and c48: "c = 48" by auto
    have "digit_val 48 = 0" by (simp add: digit_val_def)
    moreover have "cur (t @ rest) OR 32 \<noteq> 120" using nox True ct by simp
    moreover have "intscan_digits 16 (sg = [45]) lim (t @ rest) =
        (case saturate (sg = [45]) lim (digits_value 16 0 t) of (v, e) \<Rightarrow> (v, rest, e))"
      using intscan_digits_value [OF base lim, of t rest "sg = [45]"] ds rest ct True by simp
    ultimately show ?thesis
      unfolding intscan_def Let_def skip sgn by (simp add: b c48 ct)
  next
    case False
    then show ?thesis
      using D c ct base unfolding intscan_def Let_def skip sgn by (auto simp: ct)
  qed
qed

text \<open>Base 0 and base 16 accept a hexadecimal prefix; base 0 reads a leading zero as octal.\<close>

lemma intscan_hex_prefix:
  assumes b: "base \<in> {0, 16}" and lim: "lim \<in> {0xffffffffffffffff, 0x8000000000000000}"
    and sp: "\<forall>c\<in>set sp. isspace c" and sg: "sg \<in> {[], [43], [45]}" and x: "x \<in> {120, 88}"
    and ds: "ds \<noteq> []" "\<forall>c\<in>set ds. digit_val c < 16" and rest: "16 \<le> digit_val (cur rest)"
  shows "intscan base pok lim (sp @ sg @ 48 # x # ds @ rest) =
           (case saturate (sg = [45]) lim (digits_value 16 0 ds) of (v, e) \<Rightarrow> (v, rest, e))"
proof -
  have skip: "skip_space (sp @ sg @ 48 # x # ds @ rest) = sg @ 48 # x # ds @ rest"
    using skip_to_sign [OF sp sg, of 48] by (simp add: digit_val_def)
  have sgn: "(if cur (sg @ 48 # x # ds @ rest) = 43 \<or> cur (sg @ 48 # x # ds @ rest) = 45
      then (cur (sg @ 48 # x # ds @ rest) = 45, tl (sg @ 48 # x # ds @ rest))
      else (False, sg @ 48 # x # ds @ rest)) = (sg = [45], 48 # x # ds @ rest)"
    using sg by (auto simp: cur_def)
  have "x OR 32 = 120" using x by auto
  moreover have "digit_val (cur (ds @ rest)) < 16" using ds by (cases ds) (auto simp: cur_def)
  ultimately show ?thesis
    using intscan_digits_value [OF _ _ lim ds(2) rest, of "sg = [45]"] b
    unfolding intscan_def Let_def skip sgn by auto
qed

section \<open>Properties\<close>

text \<open>
  C7.  \<open>strtol\<close> in any base from 2 to 36: blanks, an optional sign and a maximal non-empty digit
  string are consumed, the end pointer is just behind the digits, and the value is the number
  with its sign, or \<open>LONG_MAX\<close> / \<open>LONG_MIN\<close> with \<open>ERANGE\<close> when it does not fit, however many
  digits follow.  The two-stage accumulators never wrap.
\<close>

theorem strtol_value:
  assumes "2 \<le> base" "base \<le> 36" "\<forall>c\<in>set sp. isspace c" "sg \<in> {[], [43], [45]}"
    and "ds \<noteq> []" "\<forall>c\<in>set ds. digit_val c < base" "base \<le> digit_val (cur rest)"
    and "base = 16 \<Longrightarrow> hd ds = 48 \<Longrightarrow> cur (tl ds @ rest) OR 32 \<noteq> 120"
  shows "strtol (sp @ sg @ ds @ rest) base =
    (let n = digits_value base 0 ds
     in if sg = [45]
        then if n \<le> 2 ^ 63 then (- of_nat n, rest, None) else (0x8000000000000000, rest, Some ERANGE)
        else if n < 2 ^ 63 then (of_nat n, rest, None) else (0x7fffffffffffffff, rest, Some ERANGE))"
proof -
  have "intscan base True 0x8000000000000000 (sp @ sg @ ds @ rest) =
      (case saturate (sg = [45]) 0x8000000000000000 (digits_value base 0 ds) of (v, e) \<Rightarrow> (v, rest, e))"
    using assms by (intro intscan_plain) simp_all
  then show ?thesis by (simp add: strtol_def saturate_def Let_def)
qed

theorem strtol_value_witness:
  "strtol [32, 45, 0x34, 0x32, 0x78] 10 = (- 42, [0x78], None)"
  using strtol_value [of 10 "[32]" "[45]" "[0x34, 0x32]" "[0x78]"]
  by (simp add: isspace_def digit_val_def Let_def)

text \<open>
  Base detection: with base 0 or 16, a \<^verbatim>\<open>0x\<close> or \<^verbatim>\<open>0X\<close> prefix followed by a
  hexadecimal digit makes \<open>strtoul\<close> read the digits behind the prefix in base 16, saturating at
  \<open>ULONG_MAX\<close> with \<open>ERANGE\<close>.
\<close>

theorem strtoul_hex_prefix:
  assumes "base \<in> {0, 16}" "\<forall>c\<in>set sp. isspace c" "x \<in> {120, 88}"
    and "ds \<noteq> []" "\<forall>c\<in>set ds. digit_val c < 16" "16 \<le> digit_val (cur rest)"
  shows "strtoul (sp @ 48 # x # ds @ rest) base =
    (let n = digits_value 16 0 ds
     in if n < 2 ^ 64 then (of_nat n, rest, None) else (0xffffffffffffffff, rest, Some ERANGE))"
proof -
  have "intscan base True 0xffffffffffffffff (sp @ [] @ 48 # x # ds @ rest) =
      (case saturate ([] = [45 :: byte]) 0xffffffffffffffff (digits_value 16 0 ds) of (v, e) \<Rightarrow> (v, rest, e))"
    using assms by (intro intscan_hex_prefix) simp_all
  then show ?thesis by (auto simp: strtoul_def saturate_def Let_def)
qed

theorem strtoul_hex_prefix_witness:
  "strtoul [48, 0x78, 0x66, 0x46, 0x67] 0 = (255, [0x67], None)"
  using strtoul_hex_prefix [where base = 0 and sp = "[]" and x = "0x78" and ds = "[0x66, 0x46]" and rest = "[0x67]"]
  by (simp add: digit_val_def Let_def)

end
