(* ===== verification/Musl_Crypt.thy ===== *)
theory Musl_Crypt
  imports Musl_Sha256 Musl_Sha512 Musl_Md5 Musl_Intscan
begin

text \<open>
  Password hashing of musl: \<^verbatim>\<open>sha256crypt\<close>, \<^verbatim>\<open>sha512crypt\<close> and
  \<^verbatim>\<open>md5crypt\<close> with their entry points \<open>__crypt_sha256\<close>, \<open>__crypt_sha512\<close>,
  \<open>__crypt_md5\<close>, and the dispatch of \<^verbatim>\<open>crypt_r.c\<close>.

  Keys and settings are C strings: byte lists without NUL.  A function that returns a null
  pointer for a rejected input returns \<open>None\<close>; otherwise the result is the string written to
  the output buffer.  The hash context is a stack variable that is not initialised, so every
  function takes the context it finds as an argument.

  Each C function is modelled in the pieces it has: parsing the setting, the digest iteration,
  and formatting.  The locale \<open>sha_crypt\<close> states the iteration scheme that the SHA-256 and
  SHA-512 versions share, over the interface \<open>hash_ctx\<close>, and proves it equal to the reference
  \<open>shacrypt_ref\<close>, in which every digest is the digest of one concatenated message.
\<close>

section \<open>Pieces common to the three files\<close>

definition b64 :: "byte list" where
  "b64 = bytes ''./0123456789ABCDEFGHIJKLMNOPQRSTUVWXYZabcdefghijklmnopqrstuvwxyz''"

fun to64 :: "u32 \<Rightarrow> nat \<Rightarrow> byte list" where
  "to64 u 0 = []"
| "to64 u (Suc n) = b64 ! (unat u mod 64) # to64 (u div 64) n"

definition pack3 :: "byte list \<Rightarrow> nat \<times> nat \<times> nat \<Rightarrow> u32" where
  "pack3 md p = (case p of (i, j, k) \<Rightarrow>
     push_bit 16 (ucast (md ! i)) OR push_bit 8 (ucast (md ! j)) OR ucast (md ! k))"

text \<open>The key of the self test, the same in the three files.\<close>

definition crypt_testkey :: "byte list" where
  "crypt_testkey = bytes ''Xy01@#'' @ [0x01, 0x02, 0x80, 0x7f, 0xff, 13, 10, 0x81, 9, 32, 33]"

text \<open>The scan for the end of the salt: it stops at NUL, at a dollar sign or after \<open>n\<close> bytes.\<close>

fun salt_scan :: "nat \<Rightarrow> byte list \<Rightarrow> nat option" where
  "salt_scan 0 s = Some 0"
| "salt_scan (Suc n) [] = Some 0"
| "salt_scan (Suc n) (c # s) =
     (if c = 0 \<or> c = 36 then Some 0
      else if c = 10 \<or> c = 58 then None
      else map_option Suc (salt_scan n s))"


section \<open>sha256crypt\<close>

definition sha256crypt_parse :: "byte list \<Rightarrow> (byte list \<times> nat \<times> byte list) option" where
  "sha256crypt_parse setting =
     (if take 3 setting \<noteq> bytes ''$5$'' then None
      else
        let salt = drop 3 setting;
            parsed =
              (if take 7 salt = bytes ''rounds=''
               then let salt = drop 7 salt
                    in if \<not> isdigit (cur salt) then None
                       else case strtoul salt 10 of (u, end, e) \<Rightarrow>
                         if cur end \<noteq> 36 then None
                         else if 9999999 < u then None
                         else let r = (if u < 1000 then 1000 else unat u)
                              in Some (bytes ''rounds='' @ fmt_u r [] @ [36], r, tl end)
               else Some ([], 5000, salt))
        in case parsed of None \<Rightarrow> None
           | Some (rounds, r, salt) \<Rightarrow>
               (case salt_scan 16 salt of None \<Rightarrow> None
                | Some slen \<Rightarrow> Some (rounds, r, take slen salt)))"

function sha256crypt_hashmd :: "sha256 \<Rightarrow> nat \<Rightarrow> byte list \<Rightarrow> sha256" where
  "sha256crypt_hashmd s i md =
     (if 32 < i then sha256crypt_hashmd (sha256_update s md) (i - 32) md
      else sha256_update s (take i md))"
  by pat_completeness auto
termination
  by (relation "measure (\<lambda>(s, i, md). i)") auto

declare sha256crypt_hashmd.simps [simp del]

fun sha256crypt_alternate :: "sha256 \<Rightarrow> nat \<Rightarrow> byte list \<Rightarrow> byte list \<Rightarrow> sha256" where
  "sha256crypt_alternate s i md key =
     (if i = 0 then s
      else sha256crypt_alternate (sha256_update s (if odd i then md else key)) (i div 2) md key)"

declare sha256crypt_alternate.simps [simp del]

definition sha256crypt_round ::
    "nat \<Rightarrow> byte list \<Rightarrow> byte list \<Rightarrow> nat \<Rightarrow> sha256 \<times> byte list \<Rightarrow> nat \<Rightarrow> sha256 \<times> byte list" where
  "sha256crypt_round klen kmd smd slen s i =
     (case s of (ctx, md) \<Rightarrow>
        let ctx = sha256_init ctx;
            ctx = (if i mod 2 \<noteq> 0 then sha256crypt_hashmd ctx klen kmd else sha256_update ctx md);
            ctx = (if i mod 3 \<noteq> 0 then sha256_update ctx (take slen smd) else ctx);
            ctx = (if i mod 7 \<noteq> 0 then sha256crypt_hashmd ctx klen kmd else ctx);
            ctx = (if i mod 2 \<noteq> 0 then sha256_update ctx md else sha256crypt_hashmd ctx klen kmd)
        in sha256_sum ctx)"

definition sha256crypt_hash :: "sha256 \<Rightarrow> byte list \<Rightarrow> byte list \<Rightarrow> nat \<Rightarrow> byte list" where
  "sha256crypt_hash ctx key salt r =
     (let klen = length key; slen = length salt;
          ctx = sha256_update (sha256_update (sha256_update (sha256_init ctx) key) salt) key;
          (ctx, md) = sha256_sum ctx;
          ctx = sha256_update (sha256_update (sha256_init ctx) key) salt;
          ctx = sha256crypt_hashmd ctx klen md;
          ctx = sha256crypt_alternate ctx klen md key;
          (ctx, md) = sha256_sum ctx;
          ctx = foldl (\<lambda>ctx i. sha256_update ctx key) (sha256_init ctx) [0..<klen];
          (ctx, kmd) = sha256_sum ctx;
          ctx = foldl (\<lambda>ctx i. sha256_update ctx salt) (sha256_init ctx) [0..<16 + unat (md ! 0)];
          (ctx, smd) = sha256_sum ctx
      in snd (foldl (sha256crypt_round klen kmd smd slen) (ctx, md) [0..<r]))"

definition sha256crypt_perm :: "(nat \<times> nat \<times> nat) list" where
  "sha256crypt_perm =
    [(0, 10, 20), (21, 1, 11), (12, 22, 2), (3, 13, 23), (24, 4, 14), (15, 25, 5),
     (6, 16, 26), (27, 7, 17), (18, 28, 8), (9, 19, 29)]"

definition sha256crypt_format :: "byte list \<Rightarrow> byte list \<Rightarrow> byte list \<Rightarrow> byte list" where
  "sha256crypt_format rounds salt md =
     bytes ''$5$'' @ rounds @ salt @ [36] @
     concat (map (\<lambda>p. to64 (pack3 md p) 4) sha256crypt_perm) @ to64 (push_bit 8 (ucast (md ! 31)) OR ucast (md ! 30)) 3"

definition sha256crypt :: "sha256 \<Rightarrow> byte list \<Rightarrow> byte list \<Rightarrow> byte list option" where
  "sha256crypt ctx key setting =
     (if 256 < min (length key) 257 then None
      else case sha256crypt_parse setting of None \<Rightarrow> None
        | Some (rounds, r, salt) \<Rightarrow>
            Some (sha256crypt_format rounds salt (sha256crypt_hash ctx key salt r)))"

text \<open>The entry point computes a known hash after the requested one and checks it.\<close>

definition sha256_testsetting :: "byte list" where
  "sha256_testsetting = bytes ''$5$rounds=1234$abc0123456789$''"

definition sha256_testhash :: "byte list" where
  "sha256_testhash = bytes
     ''$5$rounds=1234$abc0123456789$3VfDjPt05VHFn47C/ojFZ6KRPYrOjj1lLbH.dkF3bZ6''"

definition crypt_sha256 :: "sha256 \<Rightarrow> byte list \<Rightarrow> byte list \<Rightarrow> byte list" where
  "crypt_sha256 ctx key setting =
     (let p = sha256crypt ctx key setting;
          q = sha256crypt ctx crypt_testkey sha256_testsetting
      in case p of None \<Rightarrow> bytes ''*''
         | Some out \<Rightarrow> if q \<noteq> Some sha256_testhash then bytes ''*'' else out)"

section \<open>sha512crypt\<close>

definition sha512crypt_parse :: "byte list \<Rightarrow> (byte list \<times> nat \<times> byte list) option" where
  "sha512crypt_parse setting =
     (if take 3 setting \<noteq> bytes ''$6$'' then None
      else
        let salt = drop 3 setting;
            parsed =
              (if take 7 salt = bytes ''rounds=''
               then let salt = drop 7 salt
                    in if \<not> isdigit (cur salt) then None
                       else case strtoul salt 10 of (u, end, e) \<Rightarrow>
                         if cur end \<noteq> 36 then None
                         else if 9999999 < u then None
                         else let r = (if u < 1000 then 1000 else unat u)
                              in Some (bytes ''rounds='' @ fmt_u r [] @ [36], r, tl end)
               else Some ([], 5000, salt))
        in case parsed of None \<Rightarrow> None
           | Some (rounds, r, salt) \<Rightarrow>
               (case salt_scan 16 salt of None \<Rightarrow> None
                | Some slen \<Rightarrow> Some (rounds, r, take slen salt)))"

function sha512crypt_hashmd :: "sha512 \<Rightarrow> nat \<Rightarrow> byte list \<Rightarrow> sha512" where
  "sha512crypt_hashmd s i md =
     (if 64 < i then sha512crypt_hashmd (sha512_update s md) (i - 64) md
      else sha512_update s (take i md))"
  by pat_completeness auto
termination
  by (relation "measure (\<lambda>(s, i, md). i)") auto

declare sha512crypt_hashmd.simps [simp del]

fun sha512crypt_alternate :: "sha512 \<Rightarrow> nat \<Rightarrow> byte list \<Rightarrow> byte list \<Rightarrow> sha512" where
  "sha512crypt_alternate s i md key =
     (if i = 0 then s
      else sha512crypt_alternate (sha512_update s (if odd i then md else key)) (i div 2) md key)"

declare sha512crypt_alternate.simps [simp del]

definition sha512crypt_round ::
    "nat \<Rightarrow> byte list \<Rightarrow> byte list \<Rightarrow> nat \<Rightarrow> sha512 \<times> byte list \<Rightarrow> nat \<Rightarrow> sha512 \<times> byte list" where
  "sha512crypt_round klen kmd smd slen s i =
     (case s of (ctx, md) \<Rightarrow>
        let ctx = sha512_init ctx;
            ctx = (if i mod 2 \<noteq> 0 then sha512crypt_hashmd ctx klen kmd else sha512_update ctx md);
            ctx = (if i mod 3 \<noteq> 0 then sha512_update ctx (take slen smd) else ctx);
            ctx = (if i mod 7 \<noteq> 0 then sha512crypt_hashmd ctx klen kmd else ctx);
            ctx = (if i mod 2 \<noteq> 0 then sha512_update ctx md else sha512crypt_hashmd ctx klen kmd)
        in sha512_sum ctx)"

definition sha512crypt_hash :: "sha512 \<Rightarrow> byte list \<Rightarrow> byte list \<Rightarrow> nat \<Rightarrow> byte list" where
  "sha512crypt_hash ctx key salt r =
     (let klen = length key; slen = length salt;
          ctx = sha512_update (sha512_update (sha512_update (sha512_init ctx) key) salt) key;
          (ctx, md) = sha512_sum ctx;
          ctx = sha512_update (sha512_update (sha512_init ctx) key) salt;
          ctx = sha512crypt_hashmd ctx klen md;
          ctx = sha512crypt_alternate ctx klen md key;
          (ctx, md) = sha512_sum ctx;
          ctx = foldl (\<lambda>ctx i. sha512_update ctx key) (sha512_init ctx) [0..<klen];
          (ctx, kmd) = sha512_sum ctx;
          ctx = foldl (\<lambda>ctx i. sha512_update ctx salt) (sha512_init ctx) [0..<16 + unat (md ! 0)];
          (ctx, smd) = sha512_sum ctx
      in snd (foldl (sha512crypt_round klen kmd smd slen) (ctx, md) [0..<r]))"

definition sha512crypt_perm :: "(nat \<times> nat \<times> nat) list" where
  "sha512crypt_perm =
    [(0, 21, 42), (22, 43, 1), (44, 2, 23), (3, 24, 45), (25, 46, 4), (47, 5, 26),
     (6, 27, 48), (28, 49, 7), (50, 8, 29), (9, 30, 51), (31, 52, 10), (53, 11, 32),
     (12, 33, 54), (34, 55, 13), (56, 14, 35), (15, 36, 57), (37, 58, 16), (59, 17, 38),
     (18, 39, 60), (40, 61, 19), (62, 20, 41)]"

definition sha512crypt_format :: "byte list \<Rightarrow> byte list \<Rightarrow> byte list \<Rightarrow> byte list" where
  "sha512crypt_format rounds salt md =
     bytes ''$6$'' @ rounds @ salt @ [36] @
     concat (map (\<lambda>p. to64 (pack3 md p) 4) sha512crypt_perm) @ to64 (ucast (md ! 63)) 2"

definition sha512crypt :: "sha512 \<Rightarrow> byte list \<Rightarrow> byte list \<Rightarrow> byte list option" where
  "sha512crypt ctx key setting =
     (if 256 < min (length key) 257 then None
      else case sha512crypt_parse setting of None \<Rightarrow> None
        | Some (rounds, r, salt) \<Rightarrow>
            Some (sha512crypt_format rounds salt (sha512crypt_hash ctx key salt r)))"

text \<open>The entry point computes a known hash after the requested one and checks it.\<close>

definition sha512_testsetting :: "byte list" where
  "sha512_testsetting = bytes ''$6$rounds=1234$abc0123456789$''"

definition sha512_testhash :: "byte list" where
  "sha512_testhash = bytes
     ''$6$rounds=1234$abc0123456789$BCpt8zLrc/RcyuXmCDOE1ALqMXB2MH6n1g891HhFj8.w7LxGv.FTkqq6Vxc/km3Y0jE0j24jY5PIv/oOu6reg1''"

definition crypt_sha512 :: "sha512 \<Rightarrow> byte list \<Rightarrow> byte list \<Rightarrow> byte list" where
  "crypt_sha512 ctx key setting =
     (let p = sha512crypt ctx key setting;
          q = sha512crypt ctx crypt_testkey sha512_testsetting
      in case p of None \<Rightarrow> bytes ''*''
         | Some out \<Rightarrow> if q \<noteq> Some sha512_testhash then bytes ''*'' else out)"

section \<open>md5crypt\<close>

fun md5_salt_scan :: "nat \<Rightarrow> byte list \<Rightarrow> nat" where
  "md5_salt_scan 0 s = 0"
| "md5_salt_scan (Suc n) [] = 0"
| "md5_salt_scan (Suc n) (c # s) = (if c = 0 \<or> c = 36 then 0 else Suc (md5_salt_scan n s))"

function md5crypt_hashmd :: "md5 \<Rightarrow> nat \<Rightarrow> byte list \<Rightarrow> md5" where
  "md5crypt_hashmd s i md =
     (if 16 < i then md5crypt_hashmd (md5_update s md) (i - 16) md else md5_update s (take i md))"
  by pat_completeness auto
termination
  by (relation "measure (\<lambda>(s, i, md). i)") auto

declare md5crypt_hashmd.simps [simp del]

fun md5crypt_weird :: "md5 \<Rightarrow> nat \<Rightarrow> byte list \<Rightarrow> byte list \<Rightarrow> md5" where
  "md5crypt_weird s i md key =
     (if i = 0 then s
      else md5crypt_weird (md5_update s (take 1 (if odd i then md else key))) (i div 2) md key)"

declare md5crypt_weird.simps [simp del]

definition md5crypt_round :: "byte list \<Rightarrow> byte list \<Rightarrow> md5 \<times> byte list \<Rightarrow> nat \<Rightarrow> md5 \<times> byte list" where
  "md5crypt_round key salt s i =
     (case s of (ctx, md) \<Rightarrow>
        let ctx = md5_init ctx;
            ctx = md5_update ctx (if i mod 2 \<noteq> 0 then key else md);
            ctx = (if i mod 3 \<noteq> 0 then md5_update ctx salt else ctx);
            ctx = (if i mod 7 \<noteq> 0 then md5_update ctx key else ctx);
            ctx = md5_update ctx (if i mod 2 \<noteq> 0 then md else key)
        in md5_sum ctx)"

definition md5crypt_hash :: "md5 \<Rightarrow> byte list \<Rightarrow> byte list \<Rightarrow> byte list" where
  "md5crypt_hash ctx key salt =
     (let klen = length key;
          ctx = md5_update (md5_update (md5_update (md5_init ctx) key) salt) key;
          (ctx, md) = md5_sum ctx;
          ctx = md5_update (md5_update (md5_init ctx) key) (bytes ''$1$'' @ salt);
          ctx = md5crypt_hashmd ctx klen md;
          md = md[0 := 0];
          ctx = md5crypt_weird ctx klen md key;
          s = md5_sum ctx
      in snd (foldl (md5crypt_round key salt) s [0..<1000]))"

definition md5crypt_perm :: "(nat \<times> nat \<times> nat) list" where
  "md5crypt_perm = [(0, 6, 12), (1, 7, 13), (2, 8, 14), (3, 9, 15), (4, 10, 5)]"

definition md5crypt :: "md5 \<Rightarrow> byte list \<Rightarrow> byte list \<Rightarrow> byte list option" where
  "md5crypt ctx key setting =
     (if 30000 < min (length key) 30001 then None
      else if take 3 setting \<noteq> bytes ''$1$'' then None
      else
        let salt = drop 3 setting;
            slen = md5_salt_scan 8 salt;
            md = md5crypt_hash ctx key (take slen salt)
        in Some (take (3 + slen) setting @ [36] @
                 concat (map (\<lambda>p. to64 (pack3 md p) 4) md5crypt_perm) @ to64 (ucast (md ! 11)) 2))"

definition md5_testsetting :: "byte list" where
  "md5_testsetting = bytes ''$1$abcd0123$''"

definition md5_testhash :: "byte list" where
  "md5_testhash = bytes ''$1$abcd0123$9Qcg8DyviekV3tDGMZynJ1''"

definition crypt_md5 :: "md5 \<Rightarrow> byte list \<Rightarrow> byte list \<Rightarrow> byte list" where
  "crypt_md5 ctx key setting =
     (let p = md5crypt ctx key setting;
          q = md5crypt ctx crypt_testkey md5_testsetting
      in case p of None \<Rightarrow> bytes ''*''
         | Some out \<Rightarrow> if q \<noteq> Some md5_testhash then bytes ''*'' else out)"

section \<open>The dispatch of crypt\_r\<close>

text \<open>
  The bcrypt and DES hashes are separate files of the library; the dispatch takes them as the
  functions \<open>blowfish\<close> and \<open>des\<close>.  A position past the end of the setting reads as NUL, and
  \<open>salt[3]\<close> is only read behind two non-NUL bytes.
\<close>

definition nth0 :: "byte list \<Rightarrow> nat \<Rightarrow> byte" where
  "nth0 s i = (if i < length s then s ! i else 0)"

definition crypt_r ::
    "(byte list \<Rightarrow> byte list \<Rightarrow> byte list) \<Rightarrow> (byte list \<Rightarrow> byte list \<Rightarrow> byte list) \<Rightarrow>
     md5 \<Rightarrow> sha256 \<Rightarrow> sha512 \<Rightarrow> byte list \<Rightarrow> byte list \<Rightarrow> byte list" where
  "crypt_r blowfish des c1 c5 c6 key salt =
     (if nth0 salt 0 = 36 \<and> nth0 salt 1 \<noteq> 0 \<and> nth0 salt 2 \<noteq> 0
      then if nth0 salt 1 = 49 \<and> nth0 salt 2 = 36 then crypt_md5 c1 key salt
           else if nth0 salt 1 = 50 \<and> nth0 salt 3 = 36 then blowfish key salt
           else if nth0 salt 1 = 53 \<and> nth0 salt 2 = 36 then crypt_sha256 c5 key salt
           else if nth0 salt 1 = 54 \<and> nth0 salt 2 = 36 then crypt_sha512 c6 key salt
           else des key salt
      else des key salt)"

section \<open>The iteration against its reference\<close>

text \<open>
  The reference writes every digest over one message: \<open>cycled n md\<close> is \<open>n\<close> bytes of a
  repeated digest, and the bits of the key length, least significant first, choose between the
  digest and the key.
\<close>

definition cycled :: "nat \<Rightarrow> byte list \<Rightarrow> byte list" where
  "cycled n md = map (\<lambda>i. md ! (i mod length md)) [0..<n]"

fun bin_bits :: "nat \<Rightarrow> bool list" where
  "bin_bits n = (if n = 0 then [] else odd n # bin_bits (n div 2))"

declare bin_bits.simps [simp del]

definition shacrypt_ref :: "(byte list \<Rightarrow> byte list) \<Rightarrow> byte list \<Rightarrow> byte list \<Rightarrow> nat \<Rightarrow> byte list" where
  "shacrypt_ref D key salt r =
     (let B = D (key @ salt @ key);
          A = D (key @ salt @ cycled (length key) B @
                 concat (map (\<lambda>b. if b then B else key) (bin_bits (length key))));
          P = cycled (length key) (D (concat (replicate (length key) key)));
          S = take (length salt) (D (concat (replicate (16 + unat (A ! 0)) salt)))
      in foldl (\<lambda>A i. D ((if odd i then P else A) @ (if i mod 3 \<noteq> 0 then S else []) @
                         (if i mod 7 \<noteq> 0 then P else []) @ (if odd i then A else P))) A [0..<r])"

lemma cycled_short: "n \<le> length md \<Longrightarrow> cycled n md = take n md"
  by (rule nth_equalityI) (auto simp: cycled_def)

lemma cycled_long:
  assumes "length md < n"
  shows "cycled n md = md @ cycled (n - length md) md"
proof (rule nth_equalityI)
  fix i assume i: "i < length (cycled n md)"
  have "(i - length md) mod length md = i mod length md" if "length md \<le> i"
    using that by (simp add: le_mod_geq)
  then show "cycled n md ! i = (md @ cycled (n - length md) md) ! i"
    using i assms by (auto simp: cycled_def nth_append)
qed (use assms in \<open>simp add: cycled_def\<close>)

text \<open>Feeding a repeated digest, over any streaming hash with digests of \<open>hlen\<close> bytes.\<close>

locale hash_cycle = hash_ctx +
  fixes hlen :: nat
    and hashmd :: "'a \<Rightarrow> nat \<Rightarrow> byte list \<Rightarrow> 'a"
  assumes length_digest: "length (digest m) = hlen" and hlen_pos: "0 < hlen"
    and hashmd_eq: "hashmd s i md =
      (if hlen < i then hashmd (update s md) (i - hlen) md else update s (take i md))"
begin

lemma rep_hashmd: "rep c m \<Longrightarrow> length md = hlen \<Longrightarrow> rep (hashmd c i md) (m @ cycled i md)"
proof (induction i arbitrary: c m rule: less_induct)
  case (less i)
  show ?case
  proof (cases "hlen < i")
    case True
    from less.IH [OF _ rep_update [OF less.prems(1), of md] less.prems(2), of "i - hlen"] show ?thesis
      using True less.prems(2) hlen_pos by (simp add: hashmd_eq [of c i] cycled_long)
  next
    case False
    then show ?thesis using rep_update [OF less.prems(1), of "take i md"] less.prems(2)
      by (simp add: hashmd_eq [of c i] cycled_short)
  qed
qed

lemma rep_repeat: "rep c m \<Longrightarrow> rep (foldl (\<lambda>c i. update c x) c [0..<n]) (m @ concat (replicate n x))"
proof (induction n)
  case (Suc n)
  from rep_update [OF Suc.IH [OF Suc.prems], of x] show ?case
    by (simp add: replicate_append_same [symmetric])
qed simp

lemma rep_if:
  "rep c (m @ x) \<Longrightarrow> rep d (m @ y) \<Longrightarrow> rep (if b then c else d) (m @ (if b then x else y))"
  by simp

lemma rep_when: "rep c (m @ x) \<Longrightarrow> rep d m \<Longrightarrow> rep (if b then c else d) (m @ (if b then x else []))"
  by simp

end

text \<open>What \<open>sha256crypt\<close> and \<open>sha512crypt\<close> have in common, over any streaming hash.\<close>

locale sha_crypt = hash_cycle +
  fixes alternate :: "'a \<Rightarrow> nat \<Rightarrow> byte list \<Rightarrow> byte list \<Rightarrow> 'a"
    and round :: "nat \<Rightarrow> byte list \<Rightarrow> byte list \<Rightarrow> nat \<Rightarrow> 'a \<times> byte list \<Rightarrow> nat \<Rightarrow> 'a \<times> byte list"
    and hash :: "'a \<Rightarrow> byte list \<Rightarrow> byte list \<Rightarrow> nat \<Rightarrow> byte list"
  assumes alternate_eq: "alternate s i md key =
      (if i = 0 then s else alternate (update s (if odd i then md else key)) (i div 2) md key)"
    and round_eq: "round klen kmd smd slen (ctx, md) i =
      (let ctx = init ctx;
           ctx = (if i mod 2 \<noteq> 0 then hashmd ctx klen kmd else update ctx md);
           ctx = (if i mod 3 \<noteq> 0 then update ctx (take slen smd) else ctx);
           ctx = (if i mod 7 \<noteq> 0 then hashmd ctx klen kmd else ctx);
           ctx = (if i mod 2 \<noteq> 0 then update ctx md else hashmd ctx klen kmd)
       in finish ctx)"
    and hash_eq: "hash ctx key salt r =
      (let klen = length key; slen = length salt;
           ctx = update (update (update (init ctx) key) salt) key;
           (ctx, md) = finish ctx;
           ctx = update (update (init ctx) key) salt;
           ctx = hashmd ctx klen md;
           ctx = alternate ctx klen md key;
           (ctx, md) = finish ctx;
           ctx = foldl (\<lambda>ctx i. update ctx key) (init ctx) [0..<klen];
           (ctx, kmd) = finish ctx;
           ctx = foldl (\<lambda>ctx i. update ctx salt) (init ctx) [0..<16 + unat (md ! 0)];
           (ctx, smd) = finish ctx
       in snd (foldl (round klen kmd smd slen) (ctx, md) [0..<r]))"
begin

lemma rep_alternate:
  "rep c m \<Longrightarrow> rep (alternate c i md key) (m @ concat (map (\<lambda>b. if b then md else key) (bin_bits i)))"
proof (induction i arbitrary: c m rule: less_induct)
  case (less i)
  show ?case
  proof (cases "i = 0")
    case True
    then show ?thesis using less.prems by (simp add: alternate_eq [of c 0] bin_bits.simps [of 0])
  next
    case False
    from less.IH [OF _ rep_update [OF less.prems, of "if odd i then md else key"], of "i div 2"] show ?thesis
      using False by (simp add: alternate_eq [of c i] bin_bits.simps [of i])
  qed
qed

lemma round_digest:
  assumes "valid ctx" "length kmd = hlen"
  shows "\<exists>ctx'. valid ctx' \<and> round klen kmd smd slen (ctx, md) i =
     (ctx', digest ((if odd i then cycled klen kmd else md) @ (if i mod 3 \<noteq> 0 then take slen smd else []) @
        (if i mod 7 \<noteq> 0 then cycled klen kmd else []) @ (if odd i then md else cycled klen kmd)))"
proof -
  define c1 where "c1 = (if i mod 2 \<noteq> 0 then hashmd (init ctx) klen kmd else update (init ctx) md)"
  define c2 where "c2 = (if i mod 3 \<noteq> 0 then update c1 (take slen smd) else c1)"
  define c3 where "c3 = (if i mod 7 \<noteq> 0 then hashmd c2 klen kmd else c2)"
  define c4 where "c4 = (if i mod 2 \<noteq> 0 then update c3 md else hashmd c3 klen kmd)"
  let ?P = "cycled klen kmd"
  have "rep c1 ([] @ (if i mod 2 \<noteq> 0 then ?P else md))"
    unfolding c1_def
    by (rule rep_if) (simp_all only: rep_hashmd [OF rep_init [OF assms(1)] assms(2)] rep_update [OF rep_init [OF assms(1)]])
  then have "rep c2 (([] @ (if i mod 2 \<noteq> 0 then ?P else md)) @ (if i mod 3 \<noteq> 0 then take slen smd else []))"
    unfolding c2_def by (intro rep_when rep_update)
  then have "rep c3 ((([] @ (if i mod 2 \<noteq> 0 then ?P else md)) @ (if i mod 3 \<noteq> 0 then take slen smd else [])) @
      (if i mod 7 \<noteq> 0 then ?P else []))"
    unfolding c3_def by (intro rep_when rep_hashmd assms(2))
  then have "rep c4 (((([] @ (if i mod 2 \<noteq> 0 then ?P else md)) @ (if i mod 3 \<noteq> 0 then take slen smd else [])) @
      (if i mod 7 \<noteq> 0 then ?P else [])) @ (if i mod 2 \<noteq> 0 then md else ?P))"
    unfolding c4_def by (intro rep_if rep_hashmd rep_update assms(2))
  then have "rep c4 ((((if odd i then ?P else md) @ (if i mod 3 \<noteq> 0 then take slen smd else [])) @
      (if i mod 7 \<noteq> 0 then ?P else [])) @ (if odd i then md else ?P))"
    by (simp add: odd_iff_mod_2_eq_one)
  then obtain ctx' where "valid ctx'" "finish c4 = (ctx', digest ((((if odd i then ?P else md) @
      (if i mod 3 \<noteq> 0 then take slen smd else [])) @ (if i mod 7 \<noteq> 0 then ?P else [])) @ (if odd i then md else ?P)))"
    using finish_pair by blast
  then show ?thesis
    by (auto simp: round_eq c1_def c2_def c3_def c4_def Let_def)
qed

lemma rounds_digest:
  assumes "valid ctx" "length kmd = hlen"
  shows "\<exists>ctx'. valid ctx' \<and> foldl (round klen kmd smd slen) (ctx, md) [0..<r] = (ctx',
    foldl (\<lambda>A i. digest ((if odd i then cycled klen kmd else A) @ (if i mod 3 \<noteq> 0 then take slen smd else []) @
        (if i mod 7 \<noteq> 0 then cycled klen kmd else []) @ (if odd i then A else cycled klen kmd))) md [0..<r])"
proof (induction r)
  case (Suc r)
  then obtain ctx' where "valid ctx'" "foldl (round klen kmd smd slen) (ctx, md) [0..<r] = (ctx',
    foldl (\<lambda>A i. digest ((if odd i then cycled klen kmd else A) @ (if i mod 3 \<noteq> 0 then take slen smd else []) @
        (if i mod 7 \<noteq> 0 then cycled klen kmd else []) @ (if odd i then A else cycled klen kmd))) md [0..<r])"
    by blast
  then show ?case using round_digest [OF _ assms(2), of ctx'] by simp
qed (use assms in simp)

theorem hash_ref:
  assumes "valid ctx"
  shows "hash ctx key salt r = shacrypt_ref digest key salt r"
proof -
  define B where "B = digest (key @ salt @ key)"
  define A where "A = digest (key @ salt @ cycled (length key) B @
      concat (map (\<lambda>b. if b then B else key) (bin_bits (length key))))"
  define K where "K = digest (concat (replicate (length key) key))"
  define S where "S = digest (concat (replicate (16 + unat (A ! 0)) salt))"
  have rep2: "rep (update (update (init c) key) salt) (key @ salt)" if "valid c" for c
    using rep_update [OF rep_update [OF rep_init [OF that], of key], of salt] by simp
  obtain c1 where c1: "valid c1" "finish (update (update (update (init ctx) key) salt) key) = (c1, B)"
    using finish_pair [OF rep_update [OF rep2 [OF assms], of key]] by (auto simp: B_def)
  have lB: "length B = hlen" by (simp add: B_def length_digest)
  obtain c2 where c2: "valid c2" "finish (alternate (hashmd (update (update (init c1) key) salt) (length key) B)
      (length key) B key) = (c2, A)"
    using finish_pair [OF rep_alternate [OF rep_hashmd [OF rep2 [OF c1(1)] lB, of "length key"],
        of "length key" B key]] by (auto simp: A_def)
  obtain c3 where c3: "valid c3" "finish (foldl (\<lambda>ctx i. update ctx key) (init c2) [0..<length key]) = (c3, K)"
    using finish_pair [OF rep_repeat [OF rep_init [OF c2(1)], of key "length key"]] by (auto simp: K_def)
  obtain c4 where c4: "valid c4" "finish (foldl (\<lambda>ctx i. update ctx salt) (init c3) [0..<16 + unat (A ! 0)]) = (c4, S)"
    using finish_pair [OF rep_repeat [OF rep_init [OF c3(1)], of salt "16 + unat (A ! 0)"]] by (auto simp: S_def)
  have lK: "length K = hlen" by (simp add: K_def length_digest)
  obtain c5 where "foldl (round (length key) K S (length salt)) (c4, A) [0..<r] = (c5, shacrypt_ref digest key salt r)"
    using rounds_digest [OF c4(1) lK, of "length key" S "length salt" A r]
    unfolding shacrypt_ref_def Let_def B_def [symmetric] A_def [symmetric] K_def [symmetric] S_def [symmetric]
    by blast
  then show ?thesis
    unfolding hash_eq Let_def c1(2) c2(2) c3(2) c4(2) prod.case by (simp only: snd_conv)
qed

end

lemma length_sha256_digest: "length (sha256_digest m) = 32"
  by (simp add: sha256_digest_def sha256_out_def upt_rec)

interpretation sha256_crypt: sha_crypt "\<lambda>s. length (md_buf s) = 64" "sha256.absorbed sha256_iv"
    sha256_init sha256_update sha256_sum sha256_digest 32 sha256crypt_hashmd sha256crypt_alternate
    sha256crypt_round sha256crypt_hash
proof unfold_locales
  show "sha256crypt_hashmd s i md =
      (if 32 < i then sha256crypt_hashmd (sha256_update s md) (i - 32) md else sha256_update s (take i md))" for s i md
    by (rule sha256crypt_hashmd.simps)
  show "sha256crypt_alternate s i md key =
      (if i = 0 then s else sha256crypt_alternate (sha256_update s (if odd i then md else key)) (i div 2) md key)"
    for s i md key
    by (rule sha256crypt_alternate.simps)
qed (simp_all add: length_sha256_digest sha256crypt_round_def sha256crypt_hash_def)

lemma length_sha512_digest: "length (sha512_digest m) = 64"
  by (simp add: sha512_digest_def sha512_out_def upt_rec)

interpretation sha512_crypt: sha_crypt "\<lambda>s. length (md_buf s) = 128" "sha512.absorbed sha512_iv"
    sha512_init sha512_update sha512_sum sha512_digest 64 sha512crypt_hashmd sha512crypt_alternate
    sha512crypt_round sha512crypt_hash
proof unfold_locales
  show "sha512crypt_hashmd s i md =
      (if 64 < i then sha512crypt_hashmd (sha512_update s md) (i - 64) md else sha512_update s (take i md))" for s i md
    by (rule sha512crypt_hashmd.simps)
  show "sha512crypt_alternate s i md key =
      (if i = 0 then s else sha512crypt_alternate (sha512_update s (if odd i then md else key)) (i div 2) md key)"
    for s i md key
    by (rule sha512crypt_alternate.simps)
qed (simp_all add: length_sha512_digest sha512crypt_round_def sha512crypt_hash_def)


section \<open>md5crypt against its reference\<close>

definition md5crypt_ref :: "(byte list \<Rightarrow> byte list) \<Rightarrow> byte list \<Rightarrow> byte list \<Rightarrow> byte list" where
  "md5crypt_ref D key salt =
     (let B = D (key @ salt @ key);
          A = D (key @ bytes ''$1$'' @ salt @ cycled (length key) B @
                 concat (map (\<lambda>b. if b then [0] else take 1 key) (bin_bits (length key))))
      in foldl (\<lambda>A i. D ((if odd i then key else A) @ (if i mod 3 \<noteq> 0 then salt else []) @
                         (if i mod 7 \<noteq> 0 then key else []) @ (if odd i then A else key))) A [0..<1000])"

lemma length_md5_digest: "length (md5_digest m) = 16"
  by (simp add: md5_digest_def md5_out_def upt_rec)

interpretation md5_cycle: hash_cycle "\<lambda>s. length (md_buf s) = 64" "md5.absorbed md5_iv"
    md5_init md5_update md5_sum md5_digest 16 md5crypt_hashmd
  by unfold_locales (simp_all add: length_md5_digest md5crypt_hashmd.simps [symmetric])

lemma md5_rep_weird:
  assumes "take 1 md = [0]"
  shows "md5.absorbed md5_iv c m \<Longrightarrow> md5.absorbed md5_iv (md5crypt_weird c i md key)
     (m @ concat (map (\<lambda>b. if b then [0] else take 1 key) (bin_bits i)))"
proof (induction i arbitrary: c m rule: less_induct)
  case (less i)
  show ?case
  proof (cases "i = 0")
    case True
    then show ?thesis using less.prems by (simp add: md5crypt_weird.simps [of c 0] bin_bits.simps [of 0])
  next
    case False
    have "md5.absorbed md5_iv (md5_update c (take 1 (if odd i then md else key)))
        (m @ (if odd i then [0] else take 1 key))"
      using md5_ctx.rep_update [OF less.prems, of "take 1 (if odd i then md else key)"] assms by (simp split: if_splits)
    from less.IH [OF _ this, of "i div 2"] show ?thesis
      using False by (simp add: md5crypt_weird.simps [of c i] bin_bits.simps [of i])
  qed
qed

lemma md5crypt_round_digest:
  assumes "length (md_buf ctx) = 64"
  shows "\<exists>ctx'. length (md_buf ctx') = 64 \<and> md5crypt_round key salt (ctx, md) i =
     (ctx', md5_digest ((if odd i then key else md) @ (if i mod 3 \<noteq> 0 then salt else []) @
        (if i mod 7 \<noteq> 0 then key else []) @ (if odd i then md else key)))"
proof -
  define c1 where "c1 = md5_update (md5_init ctx) (if i mod 2 \<noteq> 0 then key else md)"
  define c2 where "c2 = (if i mod 3 \<noteq> 0 then md5_update c1 salt else c1)"
  define c3 where "c3 = (if i mod 7 \<noteq> 0 then md5_update c2 key else c2)"
  note up = md5_ctx.rep_update
  have "md5.absorbed md5_iv c1 ([] @ (if i mod 2 \<noteq> 0 then key else md))"
    unfolding c1_def by (intro up md5_ctx.rep_init assms)
  then have "md5.absorbed md5_iv c2 (([] @ (if i mod 2 \<noteq> 0 then key else md)) @ (if i mod 3 \<noteq> 0 then salt else []))"
    unfolding c2_def by (intro md5_cycle.rep_when up)
  then have "md5.absorbed md5_iv c3 ((([] @ (if i mod 2 \<noteq> 0 then key else md)) @
      (if i mod 3 \<noteq> 0 then salt else [])) @ (if i mod 7 \<noteq> 0 then key else []))"
    unfolding c3_def by (intro md5_cycle.rep_when up)
  then have "md5.absorbed md5_iv (md5_update c3 (if i mod 2 \<noteq> 0 then md else key)) (((([] @
      (if i mod 2 \<noteq> 0 then key else md)) @ (if i mod 3 \<noteq> 0 then salt else [])) @ (if i mod 7 \<noteq> 0 then key else [])) @
      (if i mod 2 \<noteq> 0 then md else key))"
    by (rule up)
  from md5_ctx.finish_pair [OF this] show ?thesis
    by (auto simp: md5crypt_round_def c1_def c2_def c3_def Let_def odd_iff_mod_2_eq_one)
qed

lemma md5crypt_rounds_digest:
  assumes "length (md_buf ctx) = 64"
  shows "\<exists>ctx'. length (md_buf ctx') = 64 \<and> foldl (md5crypt_round key salt) (ctx, md) [0..<r] = (ctx',
    foldl (\<lambda>A i. md5_digest ((if odd i then key else A) @ (if i mod 3 \<noteq> 0 then salt else []) @
        (if i mod 7 \<noteq> 0 then key else []) @ (if odd i then A else key))) md [0..<r])"
proof (induction r)
  case (Suc r)
  then obtain ctx' where "length (md_buf ctx') = 64" "foldl (md5crypt_round key salt) (ctx, md) [0..<r] = (ctx',
    foldl (\<lambda>A i. md5_digest ((if odd i then key else A) @ (if i mod 3 \<noteq> 0 then salt else []) @
        (if i mod 7 \<noteq> 0 then key else []) @ (if odd i then A else key))) md [0..<r])"
    by blast
  then show ?case using md5crypt_round_digest [of ctx'] by simp
qed (use assms in simp)

lemma md5crypt_hash_ref:
  assumes "length (md_buf ctx) = 64"
  shows "md5crypt_hash ctx key salt = md5crypt_ref md5_digest key salt"
proof -
  define B where "B = md5_digest (key @ salt @ key)"
  define A where "A = md5_digest (key @ bytes ''$1$'' @ salt @ cycled (length key) B @
      concat (map (\<lambda>b. if b then [0] else take 1 key) (bin_bits (length key))))"
  note up = md5_ctx.rep_update and ini = md5_ctx.rep_init
  have lB: "length B = 16" by (simp add: B_def length_md5_digest)
  obtain c1 where c1: "length (md_buf c1) = 64"
      "md5_sum (md5_update (md5_update (md5_update (md5_init ctx) key) salt) key) = (c1, B)"
    using md5_ctx.finish_pair [OF up [OF up [OF up [OF ini [OF assms], of key], of salt], of key]] by (auto simp: B_def)
  have "take 1 (B[0 := 0]) = [0]" using lB by (cases B) auto
  from md5_ctx.finish_pair [OF md5_rep_weird [OF this md5_cycle.rep_hashmd [OF up [OF up [OF ini [OF c1(1)], of key],
        of "bytes ''$1$'' @ salt"] lB, of "length key"], of "length key" key]]
  obtain c2 where c2: "length (md_buf c2) = 64"
      "md5_sum (md5crypt_weird (md5crypt_hashmd (md5_update (md5_update (md5_init c1) key) (bytes ''$1$'' @ salt))
        (length key) B) (length key) (B[0 := 0]) key) = (c2, A)"
    by (auto simp: A_def)
  obtain c3 where "foldl (md5crypt_round key salt) (c2, A) [0..<1000] = (c3, md5crypt_ref md5_digest key salt)"
    using md5crypt_rounds_digest [OF c2(1), of key salt A 1000]
    unfolding md5crypt_ref_def Let_def B_def [symmetric] A_def [symmetric] by blast
  then show ?thesis
    unfolding md5crypt_hash_def Let_def c1(2) prod.case c2(2) by (simp only: snd_conv)
qed

section \<open>Printing and reading back a hash string\<close>

lemma fmt_u_Nil_iff: "fmt_u y [] = [] \<longleftrightarrow> y = 0"
  by (cases "y = 0") (simp_all add: fmt_u_step fmt_u.simps [of 0])

lemma digit_char: "d < 10 \<Longrightarrow> digit_val (48 + of_nat d) = d"
proof -
  assume d: "d < 10"
  have "48 + of_nat d = (of_nat (48 + d) :: byte)" by simp
  moreover have "unat (of_nat (48 + d) :: byte) = 48 + d" by (rule unat_of_nat_small) (use d in simp)
  ultimately have "unat (48 + of_nat d :: byte) = 48 + d" by (simp only:)
  then show ?thesis using d by (simp add: digit_val_def word_le_nat_alt)
qed

lemma fmt_u_digits: "digits_value 10 0 (fmt_u y []) = y \<and> (\<forall>c\<in>set (fmt_u y []). digit_val c < 10)"
proof (induction y rule: less_induct)
  case (less y)
  show ?case
  proof (cases "y = 0")
    case False
    then have "y div 10 < y" by simp
    from less [OF this] False show ?thesis by (simp add: fmt_u_step digit_char)
  qed (simp add: fmt_u.simps [of 0])
qed

lemma fmt_u_length: "y < 10 ^ k \<Longrightarrow> length (fmt_u y []) \<le> k"
proof (induction k arbitrary: y)
  case (Suc k)
  then have "y div 10 < 10 ^ k" by (simp add: div_less_iff_less_mult mult.commute)
  from Suc.IH [OF this] show ?case by (cases "y = 0") (simp_all add: fmt_u_step fmt_u.simps [of 0])
qed (simp add: fmt_u.simps [of 0])

lemma strtoul_fmt_u:
  assumes "0 < y" and "y < 2 ^ 64"
  shows "strtoul (fmt_u y [] @ 36 # t) 10 = (of_nat y, 36 # t, None)"
    and "isdigit (cur (fmt_u y [] @ 36 # t))"
proof -
  have ne: "fmt_u y [] \<noteq> []" using assms by (simp add: fmt_u_Nil_iff)
  have "intscan 10 True 0xffffffffffffffff ([] @ [] @ fmt_u y [] @ 36 # t) =
      (case saturate ([] = [45 :: byte]) 0xffffffffffffffff (digits_value 10 0 (fmt_u y [])) of (v, e) \<Rightarrow> (v, 36 # t, e))"
    by (rule intscan_plain) (use ne fmt_u_digits in \<open>auto simp: digit_val_def\<close>)
  then show "strtoul (fmt_u y [] @ 36 # t) 10 = (of_nat y, 36 # t, None)"
    using assms by (simp add: strtoul_def fmt_u_digits saturate_def)
  show "isdigit (cur (fmt_u y [] @ 36 # t))"
    using ne fmt_u_digits [of y] by (cases "fmt_u y []") (auto simp: isdigit_val)
qed

text \<open>The salt that was accepted is read back whole.\<close>

lemma salt_scan_Some:
  "salt_scan n s = Some k \<Longrightarrow> k \<le> n \<and> k \<le> length s \<and> (\<forall>c\<in>set (take k s). c \<notin> {0, 36, 10, 58})"
proof (induction n s arbitrary: k rule: salt_scan.induct)
  case (3 n c s)
  show ?case
  proof (cases "c \<in> {0, 36, 10, 58}")
    case True
    with "3.prems" show ?thesis by (auto split: if_splits)
  next
    case False
    with "3.prems" obtain j where j: "salt_scan n s = Some j" "k = Suc j" by auto
    have "\<not> (c = 0 \<or> c = 36)" "\<not> (c = 10 \<or> c = 58)" using False by auto
    from "3.IH" [OF this j(1)] show ?thesis using False j(2) by simp
  qed
qed auto

lemma salt_scan_read_back:
  "length s \<le> n \<Longrightarrow> \<forall>c\<in>set s. c \<notin> {0, 36, 10, 58} \<Longrightarrow> salt_scan n (s @ 36 # t) = Some (length s)"
proof (induction s arbitrary: n)
  case Nil
  then show ?case by (cases n) auto
next
  case (Cons c s)
  then show ?case by (cases n) auto
qed

lemma md5_salt_scan_Some:
  "md5_salt_scan n s \<le> n \<and> md5_salt_scan n s \<le> length s \<and> (\<forall>c\<in>set (take (md5_salt_scan n s) s). c \<notin> {0, 36})"
proof (induction n s rule: md5_salt_scan.induct)
  case (3 n c s)
  then show ?case by (cases "c \<in> {0, 36}") fastforce+
qed auto

lemma md5_salt_scan_read_back:
  "length s \<le> n \<Longrightarrow> \<forall>c\<in>set s. c \<notin> {0, 36} \<Longrightarrow> md5_salt_scan n (s @ 36 # t) = length s"
proof (induction s arbitrary: n)
  case Nil
  then show ?case by (cases n) auto
next
  case (Cons c s)
  then show ?case by (cases n) auto
qed

text \<open>The two SHA parsers are one function of the tag.\<close>

definition shacrypt_parse :: "byte list \<Rightarrow> byte list \<Rightarrow> (byte list \<times> nat \<times> byte list) option" where
  "shacrypt_parse tag setting =
     (if take 3 setting \<noteq> tag then None
      else
        let salt = drop 3 setting;
            parsed =
              (if take 7 salt = bytes ''rounds=''
               then let salt = drop 7 salt
                    in if \<not> isdigit (cur salt) then None
                       else case strtoul salt 10 of (u, end, e) \<Rightarrow>
                         if cur end \<noteq> 36 then None
                         else if 9999999 < u then None
                         else let r = (if u < 1000 then 1000 else unat u)
                              in Some (bytes ''rounds='' @ fmt_u r [] @ [36], r, tl end)
               else Some ([], 5000, salt))
        in case parsed of None \<Rightarrow> None
           | Some (rounds, r, salt) \<Rightarrow>
               (case salt_scan 16 salt of None \<Rightarrow> None
                | Some slen \<Rightarrow> Some (rounds, r, take slen salt)))"

lemma sha_parsers:
  "sha256crypt_parse = shacrypt_parse (bytes ''$5$'')" "sha512crypt_parse = shacrypt_parse (bytes ''$6$'')"
  by (rule ext, simp only: sha256crypt_parse_def sha512crypt_parse_def shacrypt_parse_def)+

lemma shacrypt_parse_Some:
  assumes "shacrypt_parse tag setting = Some (rounds, r, salt)"
  shows "length salt \<le> 16" "\<forall>c\<in>set salt. c \<notin> {0, 36, 10, 58}"
    and "(rounds = [] \<and> r = 5000 \<and> (\<exists>k. salt = take k (drop 3 setting)) \<and> take 7 (drop 3 setting) \<noteq> bytes ''rounds='')
       \<or> (rounds = bytes ''rounds='' @ fmt_u r [] @ [36] \<and> 1000 \<le> r \<and> r \<le> 9999999)"
proof -
  from assms obtain salt0 k where k: "salt_scan 16 salt0 = Some k" "salt = take k salt0"
    and R: "rounds = [] \<and> r = 5000 \<and> salt0 = drop 3 setting \<and> take 7 (drop 3 setting) \<noteq> bytes ''rounds='' \<or>
      rounds = bytes ''rounds='' @ fmt_u r [] @ [36] \<and> 1000 \<le> r \<and> r \<le> 9999999"
    by (auto simp: shacrypt_parse_def Let_def word_less_nat_alt split: if_splits option.splits prod.splits)
  from salt_scan_Some [OF k(1)] k(2) show "length salt \<le> 16" "\<forall>c\<in>set salt. c \<notin> {0, 36, 10, 58}" by auto
  from R k(2) show "(rounds = [] \<and> r = 5000 \<and> (\<exists>k. salt = take k (drop 3 setting)) \<and>
      take 7 (drop 3 setting) \<noteq> bytes ''rounds='')
       \<or> (rounds = bytes ''rounds='' @ fmt_u r [] @ [36] \<and> 1000 \<le> r \<and> r \<le> 9999999)" by blast
qed

lemma no_rounds_prefix:
  assumes "take 7 s \<noteq> bytes ''rounds=''"
  shows "take 7 (take k s @ 36 # t) \<noteq> bytes ''rounds=''"
proof
  assume eq: "take 7 (take k s @ 36 # t) = bytes ''rounds=''"
  show False
  proof (cases "7 \<le> length (take k s)")
    case True
    then have "7 \<le> k" by simp
    then have "take 7 (take k s) = take 7 s" by (simp add: min_absorb1)
    with True eq assms show False by simp
  next
    case False
    then obtain n where "7 - length (take k s) = Suc n" by (metis not_less_eq_eq Suc_diff_Suc not_le)
    then have "36 \<in> set (take 7 (take k s @ 36 # t))" by (simp add: take_append)
    then have "36 \<in> set (bytes ''rounds='')" by (simp only: eq)
    then show False by simp
  qed
qed

lemma shacrypt_parse_read_back:
  assumes tag: "length tag = 3" and "shacrypt_parse tag setting = Some (rounds, r, salt)"
  shows "shacrypt_parse tag (tag @ rounds @ salt @ 36 # t) = Some (rounds, r, salt)"
proof -
  note S = shacrypt_parse_Some [OF assms(2)]
  have scan: "salt_scan 16 (salt @ 36 # t) = Some (length salt)" using S by (intro salt_scan_read_back) auto
  from S(3) show ?thesis
  proof
    assume r: "rounds = [] \<and> r = 5000 \<and> (\<exists>k. salt = take k (drop 3 setting)) \<and>
      take 7 (drop 3 setting) \<noteq> bytes ''rounds=''"
    then have "take 7 (salt @ 36 # t) \<noteq> bytes ''rounds=''" using no_rounds_prefix by metis
    then show ?thesis using r tag scan by (simp add: shacrypt_parse_def Let_def)
  next
    assume r: "rounds = bytes ''rounds='' @ fmt_u r [] @ [36] \<and> 1000 \<le> r \<and> r \<le> 9999999"
    then have "0 < r" "r < 2 ^ 64" by auto
    note P = strtoul_fmt_u [OF this, of "salt @ 36 # t"]
    have "\<not> (9999999 :: u64) < of_nat r" "\<not> of_nat r < (1000 :: u64)" "unat (of_nat r :: u64) = r"
      using r by (simp_all add: word_less_nat_alt unat_of_nat_small)
    then show ?thesis using r tag scan P by (simp add: shacrypt_parse_def Let_def)
  qed
qed

section \<open>The encoded digest\<close>

lemma length_to64 [simp]: "length (to64 u n) = n"
  by (induction n arbitrary: u) simp_all

lemma length_encoded: "length (concat (map (\<lambda>p. to64 (f p) 4) ps)) = 4 * length ps"
  by (induction ps) simp_all

lemma shacrypt_rounds_length:
  "shacrypt_parse tag setting = Some (rounds, r, salt) \<Longrightarrow> length rounds \<le> 15"
  using shacrypt_parse_Some(3) [of tag setting rounds r salt] fmt_u_length [of r 7] by auto

text \<open>What each hash function returns, in terms of the parsed setting and the reference.\<close>

lemma sha256crypt_result:
  assumes "length (md_buf c) = 64"
  shows "sha256crypt c key setting =
    (if 256 < length key then None
     else map_option (\<lambda>(rounds, r, salt). sha256crypt_format rounds salt (shacrypt_ref sha256_digest key salt r))
            (sha256crypt_parse setting))"
  using sha256_crypt.hash_ref [OF assms] by (auto simp: sha256crypt_def split: option.splits)

lemma sha512crypt_result:
  assumes "length (md_buf c) = 128"
  shows "sha512crypt c key setting =
    (if 256 < length key then None
     else map_option (\<lambda>(rounds, r, salt). sha512crypt_format rounds salt (shacrypt_ref sha512_digest key salt r))
            (sha512crypt_parse setting))"
  using sha512_crypt.hash_ref [OF assms] by (auto simp: sha512crypt_def split: option.splits)

lemma md5crypt_result:
  assumes "length (md_buf c) = 64"
  shows "md5crypt c key setting =
    (if 30000 < length key \<or> take 3 setting \<noteq> bytes ''$1$'' then None
     else let salt = take (md5_salt_scan 8 (drop 3 setting)) (drop 3 setting);
              md = md5crypt_ref md5_digest key salt
          in Some (bytes ''$1$'' @ salt @ [36] @
               concat (map (\<lambda>p. to64 (pack3 md p) 4) md5crypt_perm) @ to64 (ucast (md ! 11)) 2))"
  using md5crypt_hash_ref [OF assms]
  by (auto simp: md5crypt_def Let_def take_add)

lemma sha256crypt_again:
  assumes "length (md_buf c) = 64" and "length (md_buf c') = 64" and "sha256crypt c key setting = Some out"
  shows "sha256crypt c' key out = Some out" and "length out \<le> 78" and "take 3 out = bytes ''$5$''"
proof -
  from assms(3) obtain rounds r salt where P: "shacrypt_parse (bytes ''$5$'') setting = Some (rounds, r, salt)"
    and key: "length key \<le> 256"
    and out: "out = sha256crypt_format rounds salt (shacrypt_ref sha256_digest key salt r)"
    by (auto simp: sha256crypt_result [OF assms(1)] sha_parsers split: if_splits)
  have "sha256crypt_parse out = Some (rounds, r, salt)"
    using shacrypt_parse_read_back [OF _ P] by (simp add: out sha256crypt_format_def sha_parsers)
  then show "sha256crypt c' key out = Some out"
    using key by (simp add: sha256crypt_result [OF assms(2)] out)
  show "length out \<le> 78" "take 3 out = bytes ''$5$''"
    using shacrypt_parse_Some(1) [OF P] shacrypt_rounds_length [OF P]
    by (simp_all add: out sha256crypt_format_def length_encoded sha256crypt_perm_def)
qed

lemma sha512crypt_again:
  assumes "length (md_buf c) = 128" and "length (md_buf c') = 128" and "sha512crypt c key setting = Some out"
  shows "sha512crypt c' key out = Some out" and "length out \<le> 121" and "take 3 out = bytes ''$6$''"
proof -
  from assms(3) obtain rounds r salt where P: "shacrypt_parse (bytes ''$6$'') setting = Some (rounds, r, salt)"
    and key: "length key \<le> 256"
    and out: "out = sha512crypt_format rounds salt (shacrypt_ref sha512_digest key salt r)"
    by (auto simp: sha512crypt_result [OF assms(1)] sha_parsers split: if_splits)
  have "sha512crypt_parse out = Some (rounds, r, salt)"
    using shacrypt_parse_read_back [OF _ P] by (simp add: out sha512crypt_format_def sha_parsers)
  then show "sha512crypt c' key out = Some out"
    using key by (simp add: sha512crypt_result [OF assms(2)] out)
  show "length out \<le> 121" "take 3 out = bytes ''$6$''"
    using shacrypt_parse_Some(1) [OF P] shacrypt_rounds_length [OF P]
    by (simp_all add: out sha512crypt_format_def length_encoded sha512crypt_perm_def)
qed

lemma md5crypt_again:
  assumes "length (md_buf c) = 64" and "length (md_buf c') = 64" and "md5crypt c key setting = Some out"
  shows "md5crypt c' key out = Some out" and "length out \<le> 34" and "take 3 out = bytes ''$1$''"
proof -
  define salt where "salt = take (md5_salt_scan 8 (drop 3 setting)) (drop 3 setting)"
  define md where "md = md5crypt_ref md5_digest key salt"
  from assms(3) have key: "length key \<le> 30000" and out: "out = bytes ''$1$'' @ salt @ 36 #
      concat (map (\<lambda>p. to64 (pack3 md p) 4) md5crypt_perm) @ to64 (ucast (md ! 11)) 2"
    by (auto simp: md5crypt_result [OF assms(1)] salt_def md_def Let_def split: if_splits)
  have s: "length salt \<le> 8" "\<forall>c\<in>set salt. c \<notin> {0, 36}"
    using md5_salt_scan_Some [of 8 "drop 3 setting"] by (auto simp: salt_def)
  have "md5_salt_scan 8 (drop 3 out) = length salt"
    using md5_salt_scan_read_back [OF s] by (simp add: out)
  then show "md5crypt c' key out = Some out"
    using key by (simp add: md5crypt_result [OF assms(2)] out md_def Let_def)
  show "length out \<le> 34" "take 3 out = bytes ''$1$''"
    using s(1) by (simp_all add: out length_encoded md5crypt_perm_def)
qed

lemma crypt_r_tagged:
  "take 3 s = bytes ''$1$'' \<Longrightarrow> crypt_r blowfish des c1 c5 c6 key s = crypt_md5 c1 key s"
  "take 3 s = bytes ''$5$'' \<Longrightarrow> crypt_r blowfish des c1 c5 c6 key s = crypt_sha256 c5 key s"
  "take 3 s = bytes ''$6$'' \<Longrightarrow> crypt_r blowfish des c1 c5 c6 key s = crypt_sha512 c6 key s"
proof -
  have t: "nth0 s 0 = t ! 0" "nth0 s 1 = t ! 1" "nth0 s 2 = t ! 2" if "take 3 s = t" "length t = 3" for t
    using that by (auto simp: nth0_def)
  show "crypt_r blowfish des c1 c5 c6 key s = crypt_md5 c1 key s" if "take 3 s = bytes ''$1$''"
    using t [OF that] by (simp add: crypt_r_def)
  show "crypt_r blowfish des c1 c5 c6 key s = crypt_sha256 c5 key s" if "take 3 s = bytes ''$5$''"
    using t [OF that] by (simp add: crypt_r_def)
  show "crypt_r blowfish des c1 c5 c6 key s = crypt_sha512 c6 key s" if "take 3 s = bytes ''$6$''"
    using t [OF that] by (simp add: crypt_r_def)
qed

section \<open>Specification of settings and hash strings\<close>

text \<open>
  What a setting and a hash string look like, without reference to the code: a relation between a
  setting and the parameters it carries, the decimal notation of the rounds, and the base-64 notation
  of a digest.

  A \<^verbatim>\<open>$5$\<close> or \<^verbatim>\<open>$6$\<close> setting is the tag, an optional field \<^verbatim>\<open>rounds=\<close> with a non-empty decimal
  number of at most 9999999 and a dollar sign, and the salt: at most 16 characters, none of them a
  dollar sign, a newline or a colon, ended by a dollar sign, by the end of the setting or by its
  length.
\<close>

definition decimal_value :: "byte list \<Rightarrow> nat" where
  "decimal_value ds = foldl (\<lambda>v d. 10 * v + (unat d - 48)) 0 ds"

definition ends_salt :: "nat \<Rightarrow> byte list \<Rightarrow> byte list \<Rightarrow> bool" where
  "ends_salt n salt rest \<longleftrightarrow> length salt \<le> n \<and> (length salt = n \<or> rest = [] \<or> hd rest \<in> {0, 36})"

definition rounds_field :: "nat option \<Rightarrow> byte list \<Rightarrow> byte list \<Rightarrow> bool" where
  "rounds_field rd field text =
     (case rd of
        None \<Rightarrow> field = [] \<and> take 7 text \<noteq> bytes ''rounds=''
      | Some n \<Rightarrow> \<exists>ds. field = bytes ''rounds='' @ ds @ [36] \<and> ds \<noteq> [] \<and> (\<forall>d\<in>set ds. 48 \<le> d \<and> d \<le> 57) \<and>
          n = decimal_value ds \<and> n \<le> 9999999)"

definition sha_setting :: "byte list \<Rightarrow> byte list \<Rightarrow> nat option \<Rightarrow> byte list \<Rightarrow> bool" where
  "sha_setting tag setting rd salt \<longleftrightarrow>
     (\<exists>field rest. setting = tag @ field @ salt @ rest \<and> rounds_field rd field (salt @ rest) \<and>
        set salt \<inter> {0, 36, 10, 58} = {} \<and> ends_salt 16 salt rest)"

text \<open>A \<^verbatim>\<open>$1$\<close> setting has no rounds, a salt of at most 8 characters, and no forbidden characters.\<close>

definition md5_setting :: "byte list \<Rightarrow> byte list \<Rightarrow> bool" where
  "md5_setting setting salt \<longleftrightarrow>
     (\<exists>rest. setting = bytes ''$1$'' @ salt @ rest \<and> set salt \<inter> {0, 36} = {} \<and> ends_salt 8 salt rest)"

text \<open>Without a field there are 5000 rounds, and there are never fewer than 1000.\<close>

definition rounds_of :: "nat option \<Rightarrow> nat" where
  "rounds_of rd = (case rd of None \<Rightarrow> 5000 | Some n \<Rightarrow> max 1000 n)"

text \<open>A number in base 64, least significant digit first, and the value of a group of bytes.\<close>

definition crypt64_alphabet :: "byte list" where
  "crypt64_alphabet = bytes ''./'' @ map of_nat [48..<58] @ map of_nat [65..<91] @ map of_nat [97..<123]"

definition crypt64 :: "nat \<Rightarrow> nat \<Rightarrow> byte list" where
  "crypt64 v n = map (\<lambda>k. crypt64_alphabet ! (v div 64 ^ k mod 64)) [0..<n]"

definition group_value :: "byte list \<Rightarrow> nat list \<Rightarrow> nat" where
  "group_value md is = foldl (\<lambda>v i. 256 * v + unat (md ! i)) 0 is"

text \<open>The digests are written in groups of three bytes that lie a third of the digest apart, turned
  by two positions (SHA-256), by one (SHA-512) or not at all (MD5) from one group to the next; the
  bytes left over come last.\<close>

definition sha256_encoding :: "byte list \<Rightarrow> byte list" where
  "sha256_encoding md =
     concat (map (\<lambda>j. crypt64 (group_value md (rotate (2 * j) [j, j + 10, j + 20])) 4) [0..<10]) @
     crypt64 (group_value md [31, 30]) 3"

definition sha512_encoding :: "byte list \<Rightarrow> byte list" where
  "sha512_encoding md =
     concat (map (\<lambda>j. crypt64 (group_value md (rotate j [j, j + 21, j + 42])) 4) [0..<21]) @
     crypt64 (group_value md [63]) 2"

definition md5_encoding :: "byte list \<Rightarrow> byte list" where
  "md5_encoding md =
     concat (map (\<lambda>j. crypt64 (group_value md [j, j + 6, j + 12]) 4) [0..<4]) @
     crypt64 (group_value md [4, 10, 5]) 4 @ crypt64 (group_value md [11]) 2"

definition rounds_text :: "nat option \<Rightarrow> byte list" where
  "rounds_text rd = (case rd of None \<Rightarrow> [] | Some n \<Rightarrow> bytes ''rounds='' @ decimal (max 1000 n) @ [36])"

definition hash_text :: "byte list \<Rightarrow> nat option \<Rightarrow> byte list \<Rightarrow> byte list \<Rightarrow> byte list" where
  "hash_text tag rd salt code =
     tag @ rounds_text rd @ salt @ [36] @ code"

text \<open>The hash strings of a key and a setting.\<close>

definition sha256_hashes :: "byte list \<Rightarrow> byte list \<Rightarrow> byte list \<Rightarrow> bool" where
  "sha256_hashes key setting h \<longleftrightarrow> length key \<le> 256 \<and>
     (\<exists>rd salt. sha_setting (bytes ''$5$'') setting rd salt \<and>
        h = hash_text (bytes ''$5$'') rd salt (sha256_encoding (shacrypt_ref sha256_digest key salt (rounds_of rd))))"

definition sha512_hashes :: "byte list \<Rightarrow> byte list \<Rightarrow> byte list \<Rightarrow> bool" where
  "sha512_hashes key setting h \<longleftrightarrow> length key \<le> 256 \<and>
     (\<exists>rd salt. sha_setting (bytes ''$6$'') setting rd salt \<and>
        h = hash_text (bytes ''$6$'') rd salt (sha512_encoding (shacrypt_ref sha512_digest key salt (rounds_of rd))))"

definition md5_hashes :: "byte list \<Rightarrow> byte list \<Rightarrow> byte list \<Rightarrow> bool" where
  "md5_hashes key setting h \<longleftrightarrow> length key \<le> 30000 \<and>
     (\<exists>salt. md5_setting setting salt \<and>
        h = hash_text (bytes ''$1$'') None salt (md5_encoding (md5crypt_ref md5_digest key salt)))"

section \<open>The code meets the specification\<close>

lemma alphabet: "b64 = crypt64_alphabet"
  by code_simp

lemma to64_crypt64: "to64 u n = crypt64 (unat u) n"
proof (induction n arbitrary: u)
  case (Suc n)
  have "[0..<Suc n] = 0 # map Suc [0..<n]" by (simp add: upt_conv_Cons map_Suc_upt del: upt_Suc)
  then show ?case
    by (simp add: Suc crypt64_def alphabet unat_div div_mult2_eq del: upt_Suc)
qed (simp add: crypt64_def)

lemma or_bytes:
  "unat (push_bit 8 (ucast (a :: byte)) OR ucast (b :: byte) :: u32) = 256 * unat a + unat b"
  "unat (push_bit 16 (ucast (a :: byte)) OR push_bit 8 (ucast b) OR ucast (c :: byte) :: u32) =
     256 * (256 * unat a + unat b) + unat c"
proof -
  have lt: "256 * unat a + unat b < 4294967296" "65536 * unat a + (256 * unat b + unat c) < 4294967296"
    "256 * unat b + unat c < 4294967296" "65536 * unat a < 4294967296" "256 * unat a < 4294967296" "256 * unat b < 4294967296"
    using byte_lt [of a] byte_lt [of b] byte_lt [of c] by linarith+
  have "push_bit 8 (ucast a) OR ucast b = (push_bit 8 (ucast a) + ucast b :: u32)"
    by (rule disjunctive_add_eq_or [symmetric], rule bit_eqI) (auto simp: bit_simps dest!: bit_imp_le_length)
  then show "unat (push_bit 8 (ucast a) OR ucast b :: u32) = 256 * unat a + unat b"
    using lt by (simp add: push_bit_eq_mult unat_word_ariths unat_ucast_up mult.commute)
  have "push_bit 16 (ucast a) OR push_bit 8 (ucast b) OR ucast c =
      (push_bit 16 (ucast a) + (push_bit 8 (ucast b) + ucast c) :: u32)"
  proof -
    have "push_bit 8 (ucast b) OR ucast c = (push_bit 8 (ucast b) + ucast c :: u32)"
      by (rule disjunctive_add_eq_or [symmetric], rule bit_eqI) (auto simp: bit_simps dest!: bit_imp_le_length)
    moreover have "push_bit 16 (ucast a) OR (push_bit 8 (ucast b) OR ucast c) =
        (push_bit 16 (ucast a) + (push_bit 8 (ucast b) OR ucast c) :: u32)"
      by (rule disjunctive_add_eq_or [symmetric], rule bit_eqI) (auto simp: bit_simps dest!: bit_imp_le_length)
    ultimately show ?thesis by (simp add: or.assoc)
  qed
  then show "unat (push_bit 16 (ucast a) OR push_bit 8 (ucast b) OR ucast c :: u32) = 256 * (256 * unat a + unat b) + unat c"
    using lt by (simp add: push_bit_eq_mult unat_word_ariths unat_ucast_up mult.commute)
qed

lemma pack3_crypt64: "to64 (pack3 md p) n = crypt64 (group_value md (case p of (i, j, k) \<Rightarrow> [i, j, k])) n"
  by (cases p) (simp add: to64_crypt64 pack3_def or_bytes group_value_def)

lemma encoding_groups:
  assumes "map (\<lambda>(i, j, k). [i, j, k]) ps = map f js"
  shows "concat (map (\<lambda>p. to64 (pack3 md p) 4) ps) = concat (map (\<lambda>j. crypt64 (group_value md (f j)) 4) js)"
proof -
  have "map (\<lambda>p. to64 (pack3 md p) 4) ps = map (\<lambda>is. crypt64 (group_value md is) 4) (map (\<lambda>(i, j, k). [i, j, k]) ps)"
    by (simp add: pack3_crypt64)
  then show ?thesis unfolding assms by (simp add: comp_def)
qed

lemma sha256_encoded:
  "concat (map (\<lambda>p. to64 (pack3 md p) 4) sha256crypt_perm) @ to64 (push_bit 8 (ucast (md ! 31)) OR ucast (md ! 30)) 3 =
     sha256_encoding md"
proof -
  have "map (\<lambda>(i, j, k). [i, j, k]) sha256crypt_perm = map (\<lambda>j. rotate (2 * j) [j, j + 10, j + 20]) [0..<10]"
    by code_simp
  note encoding_groups [OF this]
  then show ?thesis by (simp add: sha256_encoding_def to64_crypt64 or_bytes group_value_def)
qed

lemma sha512_encoded:
  "concat (map (\<lambda>p. to64 (pack3 md p) 4) sha512crypt_perm) @ to64 (ucast (md ! 63)) 2 = sha512_encoding md"
proof -
  have "map (\<lambda>(i, j, k). [i, j, k]) sha512crypt_perm = map (\<lambda>j. rotate j [j, j + 21, j + 42]) [0..<21]"
    by code_simp
  note encoding_groups [OF this]
  then show ?thesis by (simp add: sha512_encoding_def to64_crypt64 unat_ucast_up group_value_def)
qed

lemma md5_encoded:
  "concat (map (\<lambda>p. to64 (pack3 md p) 4) md5crypt_perm) @ to64 (ucast (md ! 11)) 2 = md5_encoding md"
proof -
  have "map (\<lambda>(i, j, k). [i, j, k]) md5crypt_perm = map (\<lambda>j. if j < 4 then [j, j + 6, j + 12] else [4, 10, 5]) [0..<5]"
    by code_simp
  from encoding_groups [OF this] show ?thesis
    by (simp add: md5_encoding_def to64_crypt64 unat_ucast_up group_value_def upt_rec)
qed

lemma decimal_digit: "isdigit d \<longleftrightarrow> 48 \<le> d \<and> d \<le> 57"
  by (auto simp: isdigit_val digit_val_def word_le_nat_alt split: if_splits)

lemma decimal_value_digits: "\<forall>d\<in>set ds. isdigit d \<Longrightarrow> digits_value 10 v ds = foldl (\<lambda>v d. 10 * v + (unat d - 48)) v ds"
  by (induction ds arbitrary: v) (simp_all add: decimal_digit digit_val_def mult.commute)

text \<open>Reading a decimal number of any length.\<close>

lemma strtoul_decimal:
  assumes "ds \<noteq> []" "\<forall>d\<in>set ds. isdigit d" "\<not> isdigit (cur rest)"
  shows "\<exists>u e. strtoul (ds @ rest) 10 = (u, rest, e) \<and> unat u = min (decimal_value ds) (2 ^ 64 - 1)"
proof -
  have "intscan 10 True 0xffffffffffffffff ([] @ [] @ ds @ rest) =
      (case saturate ([] = [45 :: byte]) 0xffffffffffffffff (digits_value 10 0 ds) of (v, e) \<Rightarrow> (v, rest, e))"
    by (rule intscan_plain) (use assms in \<open>auto simp: isdigit_val\<close>)
  then show ?thesis
    using decimal_value_digits [OF assms(2), of 0]
    by (auto simp: strtoul_def saturate_def decimal_value_def unat_of_nat_small min_def)
qed

lemma salt_scan_iff: "salt_scan n s = Some k \<longleftrightarrow>
   (\<exists>salt rest. s = salt @ rest \<and> k = length salt \<and> set salt \<inter> {0, 36, 10, 58} = {} \<and> ends_salt n salt rest)"
proof (induction n s arbitrary: k rule: salt_scan.induct)
  case (1 s)
  then show ?case by (auto simp: ends_salt_def)
next
  case (2 n)
  then show ?case by (auto simp: ends_salt_def)
next
  case (3 n c s)
  have nil: "(\<exists>salt rest. c # s = salt @ rest \<and> k = length salt \<and> set salt \<inter> {0, 36, 10, 58} = {} \<and> ends_salt (Suc n) salt rest) \<longleftrightarrow>
    (c = 0 \<or> c = 36) \<and> k = 0 \<or> c \<notin> {0, 36, 10, 58} \<and> (\<exists>j. k = Suc j \<and>
       (\<exists>salt rest. s = salt @ rest \<and> j = length salt \<and> set salt \<inter> {0, 36, 10, 58} = {} \<and> ends_salt n salt rest))"
    (is "?l = ?r")
  proof
    assume ?l
    then obtain salt rest where l: "c # s = salt @ rest" "k = length salt" "set salt \<inter> {0, 36, 10, 58} = {}" "ends_salt (Suc n) salt rest"
      by blast
    then show ?r by (cases salt) (auto simp: ends_salt_def)
  next
    assume ?r
    then show ?l
    proof
      assume "(c = 0 \<or> c = 36) \<and> k = 0"
      then show ?l by (intro exI [of _ "[]"] exI [of _ "c # s"]) (auto simp: ends_salt_def)
    next
      assume "c \<notin> {0, 36, 10, 58} \<and> (\<exists>j. k = Suc j \<and>
       (\<exists>salt rest. s = salt @ rest \<and> j = length salt \<and> set salt \<inter> {0, 36, 10, 58} = {} \<and> ends_salt n salt rest))"
      then obtain salt rest where "c \<notin> {0, 36, 10, 58}" "s = salt @ rest" "k = Suc (length salt)"
        "set salt \<inter> {0, 36, 10, 58} = {}" "ends_salt n salt rest" by blast
      then show ?l by (intro exI [of _ "c # salt"] exI [of _ rest]) (auto simp: ends_salt_def)
    qed
  qed
  show ?case
  proof (cases "c \<in> {0, 36, 10, 58}")
    case True
    then show ?thesis unfolding nil by auto
  next
    case False
    then have c: "\<not> (c = 0 \<or> c = 36)" "\<not> (c = 10 \<or> c = 58)" by auto
    then show ?thesis unfolding nil "3.IH" [OF c, symmetric] using False by auto
  qed
qed

text \<open>The part of the parsers that reads the rounds.\<close>

definition parse_rounds :: "byte list \<Rightarrow> (byte list \<times> nat \<times> byte list) option" where
  "parse_rounds salt =
     (if take 7 salt = bytes ''rounds=''
      then let salt = drop 7 salt
           in if \<not> isdigit (cur salt) then None
              else case strtoul salt 10 of (u, end, e) \<Rightarrow>
                if cur end \<noteq> 36 then None
                else if 9999999 < u then None
                else let r = (if u < 1000 then 1000 else unat u)
                     in Some (bytes ''rounds='' @ fmt_u r [] @ [36], r, tl end)
      else Some ([], 5000, salt))"

lemma shacrypt_parse_rounds:
  "shacrypt_parse tag setting =
     (if take 3 setting \<noteq> tag then None
      else case parse_rounds (drop 3 setting) of None \<Rightarrow> None
       | Some (rounds, r, salt) \<Rightarrow> map_option (\<lambda>slen. (rounds, r, take slen salt)) (salt_scan 16 salt))"
  by (simp add: shacrypt_parse_def parse_rounds_def Let_def split: option.split prod.split)

lemma parse_rounds_number:
  assumes "ds \<noteq> []" "\<forall>d\<in>set ds. isdigit d" "\<not> isdigit (cur rest)"
  shows "parse_rounds (bytes ''rounds='' @ ds @ rest) =
    (if cur rest \<noteq> 36 \<or> 9999999 < decimal_value ds then None
     else Some (rounds_text (Some (decimal_value ds)), rounds_of (Some (decimal_value ds)), tl rest))"
proof -
  obtain u e where u: "strtoul (ds @ rest) 10 = (u, rest, e)" "unat u = min (decimal_value ds) (2 ^ 64 - 1)"
    using strtoul_decimal [OF assms] by blast
  have "isdigit (cur (ds @ rest))" using assms(1,2) by (cases ds) (auto simp: cur_def)
  moreover have "9999999 < u \<longleftrightarrow> 9999999 < decimal_value ds" using u(2) by (simp add: word_less_nat_alt min_def)
  moreover have "(if u < 1000 then 1000 else unat u) = max 1000 (decimal_value ds)" if "decimal_value ds \<le> 9999999"
    using u(2) that by (auto simp: word_less_nat_alt)
  moreover have "fmt_u (max 1000 n) [] = decimal (max 1000 n)" for n by (rule decimal_fmt_u) simp
  ultimately show ?thesis
    using u(1) by (auto simp: parse_rounds_def rounds_text_def rounds_of_def Let_def)
qed

lemma parse_rounds_iff:
  "parse_rounds s = Some (rounds, r, t) \<longleftrightarrow>
     (\<exists>rd field. s = field @ t \<and> rounds_field rd field t \<and> rounds = rounds_text rd \<and> r = rounds_of rd)"
    (is "?l \<longleftrightarrow> ?r")
proof (cases "take 7 s = bytes ''rounds=''")
  case False
  have some: "take 7 s = bytes ''rounds=''" if "s = field @ t" "rounds_field (Some n) field t" for n field
    using that by (auto simp: rounds_field_def)
  have eq: "s = field @ t \<and> rounds_field rd field t \<longleftrightarrow> rd = None \<and> field = [] \<and> s = t" for rd field
  proof (cases rd)
    case None
    have "rounds_field None field t \<longleftrightarrow> field = [] \<and> take 7 t \<noteq> bytes ''rounds=''" by (simp only: rounds_field_def option.case)
    then show ?thesis using False None by auto
  next
    case (Some n)
    have "\<not> (s = field @ t \<and> rounds_field (Some n) field t)" using some [of field n] False by iprover
    then show ?thesis using Some by simp
  qed
  have "?r \<longleftrightarrow> (\<exists>rd field. (s = field @ t \<and> rounds_field rd field t) \<and> rounds = rounds_text rd \<and> r = rounds_of rd)"
    by (simp only: conj_assoc)
  then have "?r \<longleftrightarrow> s = t \<and> rounds = rounds_text None \<and> r = rounds_of None" unfolding eq by simp
  moreover have "?l \<longleftrightarrow> s = t \<and> rounds = [] \<and> r = 5000" using False by (auto simp: parse_rounds_def)
  ultimately show ?thesis by (simp add: rounds_text_def rounds_of_def)
next
  case True
  obtain q where s: "s = bytes ''rounds='' @ q" using True by (metis append_take_drop_id)
  define ds rest where "ds = takeWhile isdigit q" "rest = dropWhile isdigit q"
  have q: "q = ds @ rest" "\<forall>d\<in>set ds. isdigit d" by (auto simp: ds_rest_def dest: set_takeWhileD)
  have nd: "\<not> isdigit (cur rest)"
  proof (cases rest)
    case Nil
    then show ?thesis by (simp add: cur_def isdigit_def)
  next
    case (Cons c cs)
    then show ?thesis using hd_dropWhile [of isdigit q] by (simp add: ds_rest_def cur_def)
  qed
  show ?thesis
  proof
    assume l: ?l
    have "ds \<noteq> []"
    proof
      assume "ds = []"
      then show False using l q nd by (simp add: s parse_rounds_def)
    qed
    note P = parse_rounds_number [OF this q(2) nd]
    have "cur rest = 36" "decimal_value ds \<le> 9999999" using l P by (auto simp: s q(1) split: if_splits)
    moreover obtain t' where "rest = 36 # t'" using calculation(1) by (cases rest) (auto simp: cur_def)
    ultimately have "t = t'" "rounds = rounds_text (Some (decimal_value ds))" "r = rounds_of (Some (decimal_value ds))"
      using l P by (auto simp: s q(1))
    then show ?r
      using \<open>ds \<noteq> []\<close> q(2) \<open>rest = 36 # t'\<close> \<open>decimal_value ds \<le> 9999999\<close>
      by (intro exI [of _ "Some (decimal_value ds)"] exI [of _ "bytes ''rounds='' @ ds @ [36]"])
        (auto simp: rounds_field_def s q(1) decimal_digit)
  next
    assume ?r
    then obtain rd field where r: "s = field @ t" "rounds_field rd field t" "rounds = rounds_text rd" "r = rounds_of rd" by blast
    then obtain n es where n: "rd = Some n" "field = bytes ''rounds='' @ es @ [36]" "es \<noteq> []" "\<forall>d\<in>set es. isdigit d"
      "n = decimal_value es" "n \<le> 9999999"
      using True by (cases rd) (auto simp: rounds_field_def decimal_digit)
    have "\<not> isdigit (cur (36 # t))" by (simp add: isdigit_def cur_def)
    from parse_rounds_number [OF n(3,4) this] show ?l using r n by (simp add: cur_def)
  qed
qed

lemma shacrypt_parse_iff:
  assumes "length tag = 3"
  shows "shacrypt_parse tag setting = Some (rounds, r, salt) \<longleftrightarrow>
    (\<exists>rd. sha_setting tag setting rd salt \<and> rounds = rounds_text rd \<and> r = rounds_of rd)"
proof -
  have "shacrypt_parse tag setting = Some (rounds, r, salt) \<longleftrightarrow>
    (\<exists>t k. take 3 setting = tag \<and> parse_rounds (drop 3 setting) = Some (rounds, r, t) \<and> salt_scan 16 t = Some k \<and> salt = take k t)"
    unfolding shacrypt_parse_rounds by (auto split: option.splits)
  also have "\<dots> \<longleftrightarrow> (\<exists>rd field rest. setting = tag @ field @ salt @ rest \<and> rounds_field rd field (salt @ rest) \<and>
      rounds = rounds_text rd \<and> r = rounds_of rd \<and> set salt \<inter> {0, 36, 10, 58} = {} \<and> ends_salt 16 salt rest)" (is "?l \<longleftrightarrow> ?r")
  proof
    assume ?l
    then obtain t k where l: "take 3 setting = tag" "parse_rounds (drop 3 setting) = Some (rounds, r, t)"
      "salt_scan 16 t = Some k" "salt = take k t" by blast
    obtain rest where t: "t = salt @ rest" "set salt \<inter> {0, 36, 10, 58} = {}" "ends_salt 16 salt rest"
      using l(3,4) unfolding salt_scan_iff by auto
    obtain rd field where "drop 3 setting = field @ t" "rounds_field rd field t" "rounds = rounds_text rd" "r = rounds_of rd"
      using l(2) unfolding parse_rounds_iff by blast
    moreover have "setting = tag @ drop 3 setting" using l(1) by (metis append_take_drop_id)
    ultimately show ?r using t by auto
  next
    assume ?r
    then obtain rd field rest where r: "setting = tag @ field @ salt @ rest" "rounds_field rd field (salt @ rest)"
      "rounds = rounds_text rd" "r = rounds_of rd" "set salt \<inter> {0, 36, 10, 58} = {}" "ends_salt 16 salt rest" by blast
    have "parse_rounds (drop 3 setting) = Some (rounds, r, salt @ rest)"
      unfolding parse_rounds_iff using r assms by auto
    moreover have "salt_scan 16 (salt @ rest) = Some (length salt)" unfolding salt_scan_iff using r by blast
    ultimately show ?l using r(1) assms by (intro exI [of _ "salt @ rest"] exI [of _ "length salt"]) simp
  qed
  finally show ?thesis unfolding sha_setting_def by blast
qed

lemma hash_texts:
  "sha256crypt_format (rounds_text rd) salt md = hash_text (bytes ''$5$'') rd salt (sha256_encoding md)"
  "sha512crypt_format (rounds_text rd) salt md = hash_text (bytes ''$6$'') rd salt (sha512_encoding md)"
  by (simp_all add: sha256crypt_format_def sha256_encoded sha512crypt_format_def sha512_encoded hash_text_def
      rounds_text_def)

lemma sha256crypt_hashes:
  assumes "length (md_buf c) = 64"
  shows "sha256crypt c key setting = Some h \<longleftrightarrow> sha256_hashes key setting h"
proof -
  have tag: "length (bytes ''$5$'') = 3" by simp
  have "sha256crypt c key setting = Some h \<longleftrightarrow> length key \<le> 256 \<and> (\<exists>rounds r salt.
      shacrypt_parse (bytes ''$5$'') setting = Some (rounds, r, salt) \<and>
      h = sha256crypt_format rounds salt (shacrypt_ref sha256_digest key salt r))"
    unfolding sha256crypt_result [OF assms] sha_parsers by (auto simp: not_less)
  then show ?thesis
    unfolding sha256_hashes_def shacrypt_parse_iff [OF tag] hash_texts [symmetric] by blast
qed

lemma sha512crypt_hashes:
  assumes "length (md_buf c) = 128"
  shows "sha512crypt c key setting = Some h \<longleftrightarrow> sha512_hashes key setting h"
proof -
  have tag: "length (bytes ''$6$'') = 3" by simp
  have "sha512crypt c key setting = Some h \<longleftrightarrow> length key \<le> 256 \<and> (\<exists>rounds r salt.
      shacrypt_parse (bytes ''$6$'') setting = Some (rounds, r, salt) \<and>
      h = sha512crypt_format rounds salt (shacrypt_ref sha512_digest key salt r))"
    unfolding sha512crypt_result [OF assms] sha_parsers by (auto simp: not_less)
  then show ?thesis
    unfolding sha512_hashes_def shacrypt_parse_iff [OF tag] hash_texts [symmetric] by blast
qed

lemma md5_salt_scan_iff: "set salt \<inter> {0, 36} = {} \<Longrightarrow> ends_salt n salt rest \<Longrightarrow> md5_salt_scan n (salt @ rest) = length salt"
proof (induction salt arbitrary: n)
  case Nil
  then show ?case by (cases n; cases rest) (auto simp: ends_salt_def)
next
  case (Cons c salt)
  then show ?case by (cases n) (auto simp: ends_salt_def)
qed

lemma md5_salt_scan_ends:
  "set (take (md5_salt_scan n s) s) \<inter> {0, 36} = {} \<and> ends_salt n (take (md5_salt_scan n s) s) (drop (md5_salt_scan n s) s)"
proof (induction n s rule: md5_salt_scan.induct)
  case (3 n c s)
  then show ?case by (cases "c = 0 \<or> c = 36") (auto simp: ends_salt_def)
qed (simp_all add: ends_salt_def)

lemma md5_setting_iff:
  "md5_setting setting salt \<longleftrightarrow>
     take 3 setting = bytes ''$1$'' \<and> salt = take (md5_salt_scan 8 (drop 3 setting)) (drop 3 setting)" (is "?l \<longleftrightarrow> ?r")
proof
  assume ?l
  then show ?r unfolding md5_setting_def using md5_salt_scan_iff by auto
next
  assume r: ?r
  have "setting = bytes ''$1$'' @ drop 3 setting" using r by (metis append_take_drop_id)
  moreover have "drop 3 setting = salt @ drop (md5_salt_scan 8 (drop 3 setting)) (drop 3 setting)"
    using r by (simp only: append_take_drop_id)
  ultimately show ?l unfolding md5_setting_def using r md5_salt_scan_ends [of 8 "drop 3 setting"] by metis
qed

lemma md5crypt_hashes:
  assumes "length (md_buf c) = 64"
  shows "md5crypt c key setting = Some h \<longleftrightarrow> md5_hashes key setting h"
  unfolding md5_hashes_def md5_setting_iff md5crypt_result [OF assms] md5_encoded hash_text_def Let_def
  by (auto simp: not_less rounds_text_def)

section \<open>The self test of the entry points\<close>

text \<open>
  The three entry points hash a fixed key with a fixed setting after the requested hash and return
  the error string unless the result is the fixed hash string they carry.  \<open>self_test\<close> is that
  condition in terms of the specification: it depends neither on the arguments of the call nor on
  the stack.  That the known hash strings are the right ones is not shown here; it takes more than a
  thousand rounds of the digest, which are out of reach of evaluation in the kernel.
\<close>

definition crypt_hashes :: "byte list \<Rightarrow> byte list \<Rightarrow> byte list \<Rightarrow> bool" where
  "crypt_hashes key setting h \<longleftrightarrow>
     md5_hashes key setting h \<or> sha256_hashes key setting h \<or> sha512_hashes key setting h"

definition self_test :: "byte list \<Rightarrow> bool" where
  "self_test tag \<longleftrightarrow>
     (if tag = bytes ''$1$'' then md5_hashes crypt_testkey md5_testsetting md5_testhash
      else if tag = bytes ''$5$'' then sha256_hashes crypt_testkey sha256_testsetting sha256_testhash
      else sha512_hashes crypt_testkey sha512_testsetting sha512_testhash)"

text \<open>The hash function behind each tag, without the self test.\<close>

definition crypt_hash :: "md5 \<Rightarrow> sha256 \<Rightarrow> sha512 \<Rightarrow> byte list \<Rightarrow> byte list \<Rightarrow> byte list option" where
  "crypt_hash c1 c5 c6 key s =
     (if take 3 s = bytes ''$1$'' then md5crypt c1 key s
      else if take 3 s = bytes ''$5$'' then sha256crypt c5 key s
      else if take 3 s = bytes ''$6$'' then sha512crypt c6 key s else None)"

lemma crypt_md5_selftest:
  "crypt_md5 c key s =
     (case md5crypt c key s of None \<Rightarrow> bytes ''*''
      | Some out \<Rightarrow> if md5crypt c crypt_testkey md5_testsetting = Some md5_testhash then out else bytes ''*'')"
  by (simp only: crypt_md5_def Let_def if_not_P if_P not_not if_False if_True split: option.split if_split, simp)

lemma crypt_md5_length:
  assumes "length (md_buf c) = 64"
  shows "length (crypt_md5 c key s) \<le> 34"
  unfolding crypt_md5_selftest
  using md5crypt_again(2) [OF assms assms, of key s] by (cases "md5crypt c key s") (simp_all split: if_split)

lemma crypt_sha256_selftest:
  "crypt_sha256 c key s =
     (case sha256crypt c key s of None \<Rightarrow> bytes ''*''
      | Some out \<Rightarrow> if sha256crypt c crypt_testkey sha256_testsetting = Some sha256_testhash then out else bytes ''*'')"
  by (simp only: crypt_sha256_def Let_def if_not_P if_P not_not if_False if_True split: option.split if_split, simp)

lemma crypt_sha256_length:
  assumes "length (md_buf c) = 64"
  shows "length (crypt_sha256 c key s) \<le> 78"
  unfolding crypt_sha256_selftest
  using sha256crypt_again(2) [OF assms assms, of key s] by (cases "sha256crypt c key s") (simp_all split: if_split)

lemma crypt_sha512_selftest:
  "crypt_sha512 c key s =
     (case sha512crypt c key s of None \<Rightarrow> bytes ''*''
      | Some out \<Rightarrow> if sha512crypt c crypt_testkey sha512_testsetting = Some sha512_testhash then out else bytes ''*'')"
  by (simp only: crypt_sha512_def Let_def if_not_P if_P not_not if_False if_True split: option.split if_split, simp)

lemma crypt_sha512_length:
  assumes "length (md_buf c) = 128"
  shows "length (crypt_sha512 c key s) \<le> 121"
  unfolding crypt_sha512_selftest
  using sha512crypt_again(2) [OF assms assms, of key s] by (cases "sha512crypt c key s") (simp_all split: if_split)

text \<open>What a call of \<open>crypt_r\<close> does, from the hash function of its tag.\<close>

definition valid_contexts :: "md5 \<Rightarrow> sha256 \<Rightarrow> sha512 \<Rightarrow> bool" where
  "valid_contexts c1 c5 c6 \<longleftrightarrow> length (md_buf c1) = 64 \<and> length (md_buf c5) = 64 \<and> length (md_buf c6) = 128"

lemma hashes_tags:
  "md5_hashes key s h \<Longrightarrow> take 3 s = bytes ''$1$''" "sha256_hashes key s h \<Longrightarrow> take 3 s = bytes ''$5$''"
  "sha512_hashes key s h \<Longrightarrow> take 3 s = bytes ''$6$''"
  by (auto simp: md5_hashes_def md5_setting_def sha256_hashes_def sha512_hashes_def sha_setting_def)

lemma tags_differ:
  "bytes ''$1$'' \<noteq> bytes ''$5$''" "bytes ''$1$'' \<noteq> bytes ''$6$''" "bytes ''$5$'' \<noteq> bytes ''$6$''"
  by simp_all

lemma crypt_hash_hashes:
  assumes "valid_contexts c1 c5 c6"
  shows "crypt_hash c1 c5 c6 key s = Some h \<longleftrightarrow> crypt_hashes key s h"
proof -
  note V = assms [unfolded valid_contexts_def]
  have "crypt_hash c1 c5 c6 key s = Some h \<longleftrightarrow>
      take 3 s = bytes ''$1$'' \<and> md5_hashes key s h \<or> take 3 s = bytes ''$5$'' \<and> sha256_hashes key s h \<or>
      take 3 s = bytes ''$6$'' \<and> sha512_hashes key s h"
    using V tags_differ by (simp add: crypt_hash_def md5crypt_hashes sha256crypt_hashes sha512crypt_hashes)
  then show ?thesis unfolding crypt_hashes_def using hashes_tags by blast
qed

lemma crypt_hash_again:
  assumes "valid_contexts c1 c5 c6" "valid_contexts c1' c5' c6'" "crypt_hash c1 c5 c6 key s = Some h"
  shows "crypt_hash c1' c5' c6' key h = Some h" and "take 3 h = take 3 s"
proof -
  note V = assms(1,2) [unfolded valid_contexts_def]
  have m: "md5crypt c1' key h = Some h \<and> take 3 h = bytes ''$1$''" if "md5crypt c1 key s = Some h"
    using md5crypt_again(1,3) [OF _ _ that, of c1'] V by blast
  have s2: "sha256crypt c5' key h = Some h \<and> take 3 h = bytes ''$5$''" if "sha256crypt c5 key s = Some h"
    using sha256crypt_again(1,3) [OF _ _ that, of c5'] V by blast
  have s5: "sha512crypt c6' key h = Some h \<and> take 3 h = bytes ''$6$''" if "sha512crypt c6 key s = Some h"
    using sha512crypt_again(1,3) [OF _ _ that, of c6'] V by blast
  show "crypt_hash c1' c5' c6' key h = Some h" "take 3 h = take 3 s"
    using assms(3) m s2 s5 tags_differ unfolding crypt_hash_def by (auto split: if_splits)
qed

lemma crypt_r_hash:
  assumes "valid_contexts c1 c5 c6" "take 3 s \<in> {bytes ''$1$'', bytes ''$5$'', bytes ''$6$''}"
  shows "crypt_r blowfish des c1 c5 c6 key s =
    (case crypt_hash c1 c5 c6 key s of None \<Rightarrow> bytes ''*'' | Some h \<Rightarrow> if self_test (take 3 s) then h else bytes ''*'')"
proof -
  note V = assms(1) [unfolded valid_contexts_def]
  from assms(2) consider "take 3 s = bytes ''$1$''" | "take 3 s = bytes ''$5$''" | "take 3 s = bytes ''$6$''" by blast
  then show ?thesis
  proof cases
    case 1
    then show ?thesis using V crypt_r_tagged(1) [OF 1]
      by (simp only: crypt_hash_def self_test_def crypt_md5_selftest md5crypt_hashes if_True simp_thms)
  next
    case 2
    then show ?thesis using V crypt_r_tagged(2) [OF 2] tags_differ
      by (simp only: crypt_hash_def self_test_def crypt_sha256_selftest sha256crypt_hashes if_True if_False not_sym simp_thms)
  next
    case 3
    then show ?thesis using V crypt_r_tagged(3) [OF 3] tags_differ
      by (simp only: crypt_hash_def self_test_def crypt_sha512_selftest sha512crypt_hashes if_True if_False not_sym simp_thms)
  qed
qed

section \<open>Properties\<close>

text \<open>
  C1.  \<open>sha256crypt\<close> returns a hash string exactly for the keys of at most 256 bytes and the
  well-formed \<^verbatim>\<open>$5$\<close> settings (a rounds field, when there is one, with a decimal number of at most
  9999999 and its dollar sign; a salt without newline and colon), and rejects everything else.  The
  string it returns is the tag, the rounds if they were given, in decimal and at least 1000, the
  salt, and the base-64 text of the SHA-crypt iteration, in which every digest is SHA-256 (FIPS
  180-4) of one concatenated message; the uninitialised context it starts from has no influence.
\<close>

theorem sha256crypt_correct:
  assumes "length (md_buf c) = 64"
  shows "sha256crypt c key setting = Some h \<longleftrightarrow> length key \<le> 256 \<and>
    (\<exists>rd salt. sha_setting (bytes ''$5$'') setting rd salt \<and>
       h = bytes ''$5$'' @ rounds_text rd @ salt @ [36] @
         sha256_encoding (shacrypt_ref sha256_digest key salt (rounds_of rd)))"
  using sha256crypt_hashes [OF assms] by (simp only: sha256_hashes_def hash_text_def)

theorem sha256crypt_correct_witness:
  "sha256crypt \<lparr>md_len = 7, md_h = [], md_buf = replicate 64 1\<rparr> (bytes ''key'') (bytes ''$5$rounds=10$ab$x'') =
     Some (bytes ''$5$rounds=1000$ab$'' @ sha256_encoding (shacrypt_ref sha256_digest (bytes ''key'') (bytes ''ab'') 1000))"
proof -
  have "sha_setting (bytes ''$5$'') (bytes ''$5$rounds=10$ab$x'') (Some 10) (bytes ''ab'')"
    unfolding sha_setting_def rounds_field_def ends_salt_def
    by (rule exI [of _ "bytes ''rounds=10$''"], rule exI [of _ "bytes ''$x''"])
      (simp add: exI [of _ "bytes ''10''"] decimal_value_def)
  moreover have "rounds_text (Some 10) = bytes ''rounds=1000$''" by (simp add: rounds_text_def decimal.simps)
  ultimately show ?thesis
    by (subst sha256crypt_correct) (auto intro!: exI [of _ "Some 10"] exI [of _ "bytes ''ab''"] simp: rounds_of_def)
qed

text \<open>
  C2.  \<open>sha512crypt\<close> is the same function with the \<^verbatim>\<open>$6$\<close> tag, SHA-512 and its own order of
  the digest bytes in the base-64 text; it accepts the same rounds and salts.
\<close>

theorem sha512crypt_correct:
  assumes "length (md_buf c) = 128"
  shows "sha512crypt c key setting = Some h \<longleftrightarrow> length key \<le> 256 \<and>
    (\<exists>rd salt. sha_setting (bytes ''$6$'') setting rd salt \<and>
       h = bytes ''$6$'' @ rounds_text rd @ salt @ [36] @
         sha512_encoding (shacrypt_ref sha512_digest key salt (rounds_of rd)))"
  using sha512crypt_hashes [OF assms] by (simp only: sha512_hashes_def hash_text_def)

theorem sha512crypt_correct_witness:
  "sha512crypt \<lparr>md_len = 7, md_h = [], md_buf = replicate 128 1\<rparr> (bytes ''key'') (bytes ''$6$abcdefghijklmnopq'') =
     Some (bytes ''$6$abcdefghijklmnop$'' @
       sha512_encoding (shacrypt_ref sha512_digest (bytes ''key'') (bytes ''abcdefghijklmnop'') 5000))"
proof -
  have "sha_setting (bytes ''$6$'') (bytes ''$6$abcdefghijklmnopq'') None (bytes ''abcdefghijklmnop'')"
    unfolding sha_setting_def rounds_field_def ends_salt_def
    by (rule exI [of _ "[]"], rule exI [of _ "bytes ''q''"]) simp
  then show ?thesis
    by (subst sha512crypt_correct)
      (auto intro!: exI [of _ None] exI [of _ "bytes ''abcdefghijklmnop''"] simp: rounds_text_def rounds_of_def)
qed

text \<open>
  C3.  Verifying a password.  For a setting with the tag of MD5, SHA-256 or SHA-512, the hash function
  behind the tag either rejects the setting and key, because no hash string is specified for them,
  and \<open>crypt_r\<close> returns the error string; or it returns the specified hash string \<open>h\<close>, and hashing the
  same key with \<open>h\<close> as the setting returns \<open>h\<close> again, whatever the stack holds in either call.
  \<open>crypt_r\<close> returns \<open>h\<close> in both calls if the known hash of the built-in self test is the specified one,
  and the error string in both if it is not.  So comparing \<open>crypt(key, stored)\<close> with \<open>stored\<close> accepts
  the right password.
\<close>

theorem crypt_r_verifies:
  assumes "valid_contexts c1 c5 c6" "valid_contexts c1' c5' c6'"
    and "take 3 setting \<in> {bytes ''$1$'', bytes ''$5$'', bytes ''$6$''}"
  shows "case crypt_hash c1 c5 c6 key setting of
      None \<Rightarrow> (\<forall>h. \<not> crypt_hashes key setting h) \<and> crypt_r blowfish des c1 c5 c6 key setting = bytes ''*''
    | Some h \<Rightarrow> crypt_hashes key setting h \<and> crypt_hash c1' c5' c6' key h = Some h \<and>
        crypt_r blowfish des c1 c5 c6 key setting = (if self_test (take 3 setting) then h else bytes ''*'') \<and>
        crypt_r blowfish des c1' c5' c6' key h = (if self_test (take 3 setting) then h else bytes ''*'')"
proof (cases "crypt_hash c1 c5 c6 key setting")
  case None
  then have "\<not> crypt_hashes key setting h" for h using crypt_hash_hashes [OF assms(1), of key setting h] by simp
  then show ?thesis using None crypt_r_hash [OF assms(1,3)] by simp
next
  case (Some h)
  note A = crypt_hash_again [OF assms(1,2) Some]
  have "take 3 h \<in> {bytes ''$1$'', bytes ''$5$'', bytes ''$6$''}" unfolding A(2) by (rule assms(3))
  from crypt_r_hash [OF assms(2) this, of blowfish des key] crypt_r_hash [OF assms(1,3), of blowfish des key] show ?thesis
    using Some A crypt_hash_hashes [OF assms(1), of key setting h] by simp
qed

theorem crypt_r_verifies_witness:
  "let c1 = \<lparr>md_len = 0, md_h = [], md_buf = replicate 64 1\<rparr>; c6 = \<lparr>md_len = 0, md_h = [], md_buf = replicate 128 1\<rparr>;
       d1 = \<lparr>md_len = 5, md_h = [], md_buf = replicate 64 2\<rparr>; d6 = \<lparr>md_len = 9, md_h = [], md_buf = replicate 128 2\<rparr>;
       h = bytes ''$5$ab$'' @ sha256_encoding (shacrypt_ref sha256_digest (bytes ''key'') (bytes ''ab'') 5000)
   in crypt_hash c1 c1 c6 (bytes ''key'') (bytes ''$5$ab'') = Some h \<and> crypt_hash d1 d1 d6 (bytes ''key'') h = Some h \<and>
      crypt_r (\<lambda>k s. []) (\<lambda>k s. []) c1 c1 c6 (bytes ''key'') (bytes ''$5$ab'') =
        (if sha256_hashes crypt_testkey sha256_testsetting sha256_testhash then h else bytes ''*'') \<and>
      crypt_hash c1 c1 c6 (bytes ''key'') (bytes ''$5$a:b'') = None"
proof -
  let ?c1 = "\<lparr>md_len = 0, md_h = [], md_buf = replicate 64 1\<rparr>"
  let ?c6 = "\<lparr>md_len = 0, md_h = [], md_buf = replicate 128 1\<rparr>"
  let ?d1 = "\<lparr>md_len = 5, md_h = [], md_buf = replicate 64 2\<rparr>"
  let ?d6 = "\<lparr>md_len = 9, md_h = [], md_buf = replicate 128 2\<rparr>"
  let ?h = "bytes ''$5$ab$'' @ sha256_encoding (shacrypt_ref sha256_digest (bytes ''key'') (bytes ''ab'') 5000)"
  have v: "valid_contexts ?c1 ?c1 ?c6" "valid_contexts ?d1 ?d1 ?d6" by (simp_all add: valid_contexts_def)
  have t: "take 3 (bytes ''$5$ab'') = bytes ''$5$''" by simp
  have "sha_setting (bytes ''$5$'') (bytes ''$5$ab'') None (bytes ''ab'')"
    unfolding sha_setting_def rounds_field_def ends_salt_def by (rule exI [of _ "[]"], rule exI [of _ "[]"]) simp
  then have "sha256_hashes (bytes ''key'') (bytes ''$5$ab'') ?h"
    unfolding sha256_hashes_def hash_text_def
    by (auto intro!: exI [of _ None] exI [of _ "bytes ''ab''"] simp: rounds_text_def rounds_of_def)
  then have h: "crypt_hash ?c1 ?c1 ?c6 (bytes ''key'') (bytes ''$5$ab'') = Some ?h"
    using crypt_hash_hashes [OF v(1)] by (simp add: crypt_hashes_def)
  have "self_test (bytes ''$5$'') \<longleftrightarrow> sha256_hashes crypt_testkey sha256_testsetting sha256_testhash"
    by (simp only: self_test_def tags_differ not_sym [OF tags_differ(1)] if_False if_True simp_thms)
  moreover have "sha256crypt_parse (bytes ''$5$a:b'') = None" by code_simp
  then have "crypt_hash ?c1 ?c1 ?c6 (bytes ''key'') (bytes ''$5$a:b'') = None"
    by (simp add: crypt_hash_def sha256crypt_def)
  ultimately show ?thesis
    using crypt_r_verifies [OF v, of "bytes ''$5$ab''" "bytes ''key''" "\<lambda>k s. []" "\<lambda>k s. []"] t h
    by (simp only: Let_def option.case insert_iff simp_thms)
qed

text \<open>
  C4.  The static buffer of \<open>crypt\<close> has 128 bytes, and its comment says that this is enough
  for every supported hash type.  For the MD5, SHA-256 and SHA-512 hashes it is: the string and
  its terminating NUL fit.
\<close>

theorem crypt_r_fits_buffer:
  assumes "length (md_buf c1) = 64" "length (md_buf c5) = 64" "length (md_buf c6) = 128"
    and "take 3 salt \<in> {bytes ''$1$'', bytes ''$5$'', bytes ''$6$''}"
  shows "length (crypt_r blowfish des c1 c5 c6 key salt) + 1 \<le> 122"
proof -
  from assms(4) consider "take 3 salt = bytes ''$1$''" | "take 3 salt = bytes ''$5$''" | "take 3 salt = bytes ''$6$''"
    by auto
  then show ?thesis
  proof cases
    case 1
    with crypt_md5_length [OF assms(1), of key salt] show ?thesis by (simp add: crypt_r_tagged)
  next
    case 2
    with crypt_sha256_length [OF assms(2), of key salt] show ?thesis by (simp add: crypt_r_tagged)
  next
    case 3
    with crypt_sha512_length [OF assms(3), of key salt] show ?thesis by (simp add: crypt_r_tagged)
  qed
qed

theorem crypt_r_fits_buffer_witness:
  "length (crypt_r (\<lambda>k s. []) (\<lambda>k s. []) \<lparr>md_len = 0, md_h = [], md_buf = replicate 64 1\<rparr>
     \<lparr>md_len = 0, md_h = [], md_buf = replicate 64 1\<rparr> \<lparr>md_len = 0, md_h = [], md_buf = replicate 128 1\<rparr>
     (bytes ''key'') (bytes ''$6$abcdefghijklmnopqrstuvw'')) + 1 \<le> 122"
  by (rule crypt_r_fits_buffer) simp_all

end
