(* ===== verification/C_Memory.thy ===== *)
theory C_Memory
  imports C_Prelude "HOL-Library.Monad_Syntax"
begin

text \<open>
  The byte-addressed memory of the string and memory routines of musl.

  A memory is a list of bytes, an address an index into it; a load or store outside it is a fault,
  the value \<open>None\<close>.  Machine words are little-endian, as on RISC-V.  The loops of musl's string
  functions are instances of a few shapes, each modelled once: \<open>scan\<close> (\<^verbatim>\<open>for (; P(*s); s++);\<close>),
  \<open>scan_n\<close> (the same bounded by \<^verbatim>\<open>n\<close>), their word-at-a-time counterparts
  \<open>scan_words\<close> and \<open>scan_words_n\<close>, and the copying loops.  \<open>haszero\<close> is the bit trick
  the word loops stop with; the lemmas here show that it recognises exactly the words with a zero
  byte and that a word loop followed by the byte loop is the byte loop alone.
\<close>

unbundle bit_operations_syntax

type_synonym mem = "byte list"

section \<open>Loads and stores\<close>

definition load :: "mem \<Rightarrow> nat \<Rightarrow> byte option" where
  "load m a = (if a < length m then Some (m ! a) else None)"

definition store :: "mem \<Rightarrow> nat \<Rightarrow> byte \<Rightarrow> mem option" where
  "store m a b = (if a < length m then Some (m[a := b]) else None)"

fun le_word :: "byte list \<Rightarrow> 'w::len word" where
  "le_word [] = 0"
| "le_word (b # bs) = ucast b OR push_bit 8 (le_word bs)"

definition le_bytes :: "nat \<Rightarrow> 'w::len word \<Rightarrow> byte list" where
  "le_bytes k w = map (\<lambda>i. ucast (drop_bit (8 * i) w)) [0..<k]"

definition loadw :: "nat \<Rightarrow> mem \<Rightarrow> nat \<Rightarrow> 'w::len word option" where
  "loadw k m a = (if a + k \<le> length m then Some (le_word (take k (drop a m))) else None)"

definition storew :: "nat \<Rightarrow> mem \<Rightarrow> nat \<Rightarrow> 'w::len word \<Rightarrow> mem option" where
  "storew k m a w = (if a + k \<le> length m then Some (mem_write a (le_bytes k w) m) else None)"

abbreviation load32 :: "mem \<Rightarrow> nat \<Rightarrow> u32 option" where "load32 \<equiv> loadw 4"
abbreviation load64 :: "mem \<Rightarrow> nat \<Rightarrow> u64 option" where "load64 \<equiv> loadw 8"
abbreviation store32 :: "mem \<Rightarrow> nat \<Rightarrow> u32 \<Rightarrow> mem option" where "store32 \<equiv> storew 4"
abbreviation store64 :: "mem \<Rightarrow> nat \<Rightarrow> u64 \<Rightarrow> mem option" where "store64 \<equiv> storew 8"

lemma load_Some [simp]: "a < length m \<Longrightarrow> load m a = Some (m ! a)"
  by (simp add: load_def)

lemma load_None [simp]: "length m \<le> a \<Longrightarrow> load m a = None"
  by (simp add: load_def)

lemma load_eq_SomeD: "load m a = Some b \<Longrightarrow> a < length m \<and> b = m ! a"
  by (simp add: load_def split: if_splits)

lemma store_Some [simp]: "a < length m \<Longrightarrow> store m a b = Some (m[a := b])"
  by (simp add: store_def)

lemma loadw_Some [simp]: "a + k \<le> length m \<Longrightarrow> loadw k m a = Some (le_word (take k (drop a m)))"
  by (simp add: loadw_def)

lemma storew_Some [simp]: "a + k \<le> length m \<Longrightarrow> storew k m a w = Some (mem_write a (le_bytes k w) m)"
  by (simp add: storew_def)

lemma length_le_bytes [simp]: "length (le_bytes k w) = k"
  by (simp add: le_bytes_def)

lemma bit_le_word:
  "bit (le_word bs :: 'w::len word) n \<longleftrightarrow>
     n < LENGTH('w) \<and> n div 8 < length bs \<and> bit (bs ! (n div 8)) (n mod 8)"
proof (induction bs arbitrary: n)
  case Nil
  then show ?case by simp
next
  case (Cons b bs)
  show ?case
  proof (cases "n < 8")
    case True
    then show ?thesis
      by (auto simp: bit_or_iff bit_ucast_iff bit_push_bit_iff dest: bit_imp_le_length)
  next
    case False
    then have "n div 8 = Suc ((n - 8) div 8)" and "n mod 8 = (n - 8) mod 8"
      by (simp_all add: le_div_geq le_mod_geq)
    moreover have "\<not> bit b n" using False bit_imp_le_length [of b n] by auto
    moreover have "bit (le_word bs :: 'w word) (n - 8) \<Longrightarrow> n < LENGTH('w) \<Longrightarrow> n - 8 < LENGTH('w)"
      by simp
    ultimately show ?thesis using False Cons.IH [of "n - 8"]
      by (auto simp: bit_or_iff bit_ucast_iff bit_push_bit_iff)
  qed
qed

lemma le_bytes_le_word:
  assumes "8 * length bs \<le> LENGTH('w::len)" and "k = length bs"
  shows "le_bytes k (le_word bs :: 'w word) = bs"
proof (rule nth_equalityI)
  show "length (le_bytes k (le_word bs :: 'w word)) = length bs" using assms by simp
next
  fix i assume "i < length (le_bytes k (le_word bs :: 'w word))"
  then have i: "i < length bs" using assms by simp
  have "ucast (drop_bit (8 * i) (le_word bs :: 'w word)) = bs ! i"
  proof (rule bit_word_eqI)
    fix n :: nat assume "n < LENGTH(8)"
    then have n: "n < 8" by simp
    then have "(8 * i + n) div 8 = i" and "(8 * i + n) mod 8 = n" by simp_all
    moreover have "8 * i + n < LENGTH('w)" using i n assms by linarith
    ultimately show "bit (ucast (drop_bit (8 * i) (le_word bs :: 'w word)) :: byte) n = bit (bs ! i) n"
      using i n by (simp add: bit_ucast_iff bit_drop_bit_eq bit_le_word)
  qed
  then show "le_bytes k (le_word bs :: 'w word) ! i = bs ! i"
    using i assms by (simp add: le_bytes_def)
qed

section \<open>Words with a zero byte\<close>

definition ONES :: u64 where
  "ONES = 0xffffffffffffffff div 0xff"

definition HIGHS :: u64 where
  "HIGHS = ONES * (0xff div 2 + 1)"

definition haszero :: "u64 \<Rightarrow> bool" where
  "haszero x \<longleftrightarrow> (x - ONES) AND NOT x AND HIGHS \<noteq> 0"

fun le_int :: "byte list \<Rightarrow> int" where
  "le_int [] = 0"
| "le_int (b # bs) = uint b + 256 * le_int bs"

lemma le_word_of_int: "(le_word bs :: 'w::len word) = word_of_int (le_int bs)"
proof (induction bs)
  case Nil
  then show ?case by simp
next
  case (Cons b bs)
  have "(ucast b :: 'w word) AND push_bit 8 (le_word bs) = 0"
  proof (rule bit_word_eqI)
    fix n assume "n < LENGTH('w)"
    show "bit ((ucast b :: 'w word) AND push_bit 8 (le_word bs)) n = bit (0 :: 'w word) n"
      using bit_imp_le_length [of b n] by (auto simp: bit_and_iff bit_ucast_iff bit_push_bit_iff)
  qed
  then have "(le_word (b # bs) :: 'w word) = ucast b + push_bit 8 (le_word bs)"
    unfolding le_word.simps by (rule disjunctive_add_eq_or [symmetric])
  also have "\<dots> = ucast b + 256 * le_word bs"
    by (simp only: push_bit_eq_mult mult.commute [of "le_word bs"]) simp
  finally show ?case using Cons by simp
qed

lemma bit_byte_step:
  fixes z :: int
  assumes "0 \<le> b" "b < 256"
  shows "bit (b + 256 * z) (8 * Suc i + 7) = bit z (8 * i + 7)" and "bit (b + 256 * z) 7 = bit b 7"
proof -
  have d: "(b + 256 * z) div 256 = z" and m: "(b + 256 * z) mod 256 = b"
    using assms by simp_all
  have "bit (b + 256 * z) (8 * Suc i + 7) = bit (drop_bit 8 (b + 256 * z)) (8 * i + 7)"
    by (simp add: bit_drop_bit_eq)
  then show "bit (b + 256 * z) (8 * Suc i + 7) = bit z (8 * i + 7)"
    by (simp add: drop_bit_eq_div d)
  have "bit (b + 256 * z) 7 = bit (take_bit 8 (b + 256 * z)) 7"
    by (simp add: bit_take_bit_iff)
  then show "bit (b + 256 * z) 7 = bit b 7"
    using assms by (simp add: take_bit_eq_mod m)
qed

lemma bit7_iff: "0 \<le> b \<Longrightarrow> b < 256 \<Longrightarrow> bit (b :: int) 7 \<longleftrightarrow> 128 \<le> b"
proof -
  assume b: "0 \<le> b" "b < 256"
  have "bit b 7 \<longleftrightarrow> odd (b div 128)" by (simp add: bit_iff_odd)
  moreover have "b div 128 = (if 128 \<le> b then 1 else 0)" using b by (simp add: div_eq_0_iff) linarith
  ultimately show ?thesis by simp
qed

lemma zero_byte_borrow:
  "(\<exists>i < length bs. bit (le_int bs - le_int (replicate (length bs) 1)) (8 * i + 7) \<and>
      \<not> bit (le_int bs) (8 * i + 7)) \<longleftrightarrow> 0 \<in> set bs"
proof (induction bs)
  case Nil
  then show ?case by simp
next
  case (Cons b bs)
  let ?z = "le_int bs - le_int (replicate (length bs) 1)"
  have b: "0 \<le> uint b" "uint b < 256" using unsigned_less [of b, where ?'a = int] by simp_all
  show ?case
  proof (cases "b = 0")
    case True
    have d: "le_int (b # bs) - le_int (replicate (length (b # bs)) 1) = 255 + 256 * (?z - 1)"
      using True by simp
    show ?thesis
      unfolding d using True bit_byte_step (2) [of 255 "?z - 1"] bit_byte_step (2) [of 0 "le_int bs"]
      by (intro iffI exI [of _ 0]) (simp_all add: bit7_iff del: distrib_left)
  next
    case False
    then have p: "1 \<le> uint b" using b(1) uint_0_iff [of b] by linarith
    have d: "le_int (b # bs) - le_int (replicate (length (b # bs)) 1) = (uint b - 1) + 256 * ?z"
      by simp
    have "\<not> (bit (uint b - 1) 7 \<and> \<not> bit (uint b) 7)" using b p by (simp add: bit7_iff)
    moreover note Cons.IH [symmetric]
    moreover have "bit ((uint b - 1) + 256 * ?z) (8 * Suc i + 7) = bit ?z (8 * i + 7)"
      "bit (uint b + 256 * le_int bs) (8 * Suc i + 7) = bit (le_int bs) (8 * i + 7)"
      "bit ((uint b - 1) + 256 * ?z) (8 * 0 + 7) = bit (uint b - 1) 7"
      "bit (uint b + 256 * le_int bs) (8 * 0 + 7) = bit (uint b) 7" for i
      using b p bit_byte_step [of "uint b - 1" ?z] bit_byte_step [of "uint b"] by simp_all
    ultimately show ?thesis
      unfolding d unfolding le_int.simps length_Cons Ex_less_Suc2 using False by auto
  qed
qed

lemma bit_HIGHS: "n < 64 \<Longrightarrow> bit HIGHS n \<longleftrightarrow> n mod 8 = 7"
proof -
  assume "n < 64"
  then have "n \<in> set [0..<64]" by simp
  moreover have "list_all (\<lambda>n. bit HIGHS n \<longleftrightarrow> n mod 8 = 7) [0..<64]"
    unfolding HIGHS_def ONES_def by code_simp
  ultimately show ?thesis by (simp only: list_all_iff)
qed

lemma haszero_le_word:
  assumes "length bs = 8"
  shows "haszero (le_word bs) \<longleftrightarrow> 0 \<in> set bs"
proof -
  have ones: "ONES = le_word (replicate (length bs) 1)"
    unfolding assms ONES_def by code_simp
  have "haszero (le_word bs) \<longleftrightarrow>
      (\<exists>n < 64. bit (le_word bs - ONES) n \<and> \<not> bit (le_word bs :: u64) n \<and> n mod 8 = 7)"
    by (auto simp: haszero_def bit_eq_iff bit_and_iff bit_not_iff bit_HIGHS dest: bit_imp_le_length)
  also have "\<dots> \<longleftrightarrow> (\<exists>i < 8. bit (le_word bs - ONES) (8 * i + 7) \<and> \<not> bit (le_word bs :: u64) (8 * i + 7))"
  proof safe
    fix n :: nat assume n: "n < 64" "n mod 8 = 7" "bit (le_word bs - ONES) n" "\<not> bit (le_word bs :: u64) n"
    have "n = 8 * (n div 8) + 7" using n(2) by presburger
    then show "\<exists>i < 8. bit (le_word bs - ONES) (8 * i + 7) \<and> \<not> bit (le_word bs :: u64) (8 * i + 7)"
      using n by (intro exI [of _ "n div 8"]) auto
  next
    fix i :: nat assume i: "i < 8" "bit (le_word bs - ONES) (8 * i + 7)" "\<not> bit (le_word bs :: u64) (8 * i + 7)"
    then show "\<exists>n < 64. bit (le_word bs - ONES) n \<and> \<not> bit (le_word bs :: u64) n \<and> n mod 8 = 7"
      by (intro exI [of _ "8 * i + 7"]) auto
  qed
  also have "\<dots> \<longleftrightarrow> 0 \<in> set bs"
    unfolding ones zero_byte_borrow [symmetric] le_word_of_int assms wi_hom_sub
    by (intro ex_cong1 conj_cong refl) (simp_all only: bit_word_of_int_iff, auto)
  finally show ?thesis .
qed

lemma le_word_xor:
  "length bs = length cs \<Longrightarrow>
   (le_word bs :: 'w::len word) XOR le_word cs = le_word (map2 (XOR) bs cs)"
  by (rule bit_word_eqI) (auto simp: bit_xor_iff bit_le_word)

lemma ONES_times: "ONES * ucast c = le_word (replicate 8 c)"
proof -
  have "ONES = 0x0101010101010101" unfolding ONES_def by code_simp
  then show ?thesis by (simp add: le_word_of_int numeral_eq_Suc)
qed

lemma haszero_xor:
  assumes "length bs = 8"
  shows "haszero (le_word bs XOR ONES * ucast c) \<longleftrightarrow> c \<in> set bs"
proof -
  have "le_word bs XOR ONES * ucast c = (le_word (map2 (XOR) bs (replicate 8 c)) :: u64)"
    unfolding ONES_times using assms by (intro le_word_xor) simp
  also have "map2 (XOR) bs (replicate 8 c) = map (\<lambda>b. b XOR c) bs"
    using assms by (simp add: zip_replicate2)
  finally have "haszero (le_word bs XOR ONES * ucast c) \<longleftrightarrow> 0 \<in> (\<lambda>b. b XOR c) ` set bs"
    using assms by (simp add: haszero_le_word)
  moreover have "0 = b XOR c \<longleftrightarrow> b = c" for b
    by (metis xor.assoc xor.right_neutral xor_self_eq)
  ultimately show ?thesis by (simp only: image_iff) blast
qed

section \<open>Scanning loops\<close>

function scan :: "(byte \<Rightarrow> bool) \<Rightarrow> mem \<Rightarrow> nat \<Rightarrow> nat option" where
  "scan P m s = do { b \<leftarrow> load m s; if P b then scan P m (Suc s) else Some s }"
  by pat_completeness auto
termination
  by (relation "measure (\<lambda>(P, m, s). length m - s)") (auto dest: load_eq_SomeD)

function scan_align :: "(byte \<Rightarrow> bool) \<Rightarrow> mem \<Rightarrow> nat \<Rightarrow> nat option" where
  "scan_align P m s =
     (if s mod 8 = 0 then Some s
      else do { b \<leftarrow> load m s; if P b then scan_align P m (Suc s) else Some s })"
  by pat_completeness auto
termination
  by (relation "measure (\<lambda>(P, m, s). length m - s)") (auto dest: load_eq_SomeD)

function scan_words :: "(u64 \<Rightarrow> bool) \<Rightarrow> mem \<Rightarrow> nat \<Rightarrow> nat option" where
  "scan_words Q m w =
     do { x \<leftarrow> load64 m w; if Q x then scan_words Q m (w + 8) else Some w }"
  by pat_completeness auto
termination
  by (relation "measure (\<lambda>(Q, m, w). length m - w)") (auto simp: loadw_def split: if_splits)

fun scan_n :: "(byte \<Rightarrow> bool) \<Rightarrow> mem \<Rightarrow> nat \<Rightarrow> nat \<Rightarrow> (nat \<times> nat) option" where
  "scan_n P m s 0 = Some (s, 0)"
| "scan_n P m s (Suc n) =
     do { b \<leftarrow> load m s; if P b then scan_n P m (Suc s) n else Some (s, Suc n) }"

fun scan_align_n :: "(byte \<Rightarrow> bool) \<Rightarrow> mem \<Rightarrow> nat \<Rightarrow> nat \<Rightarrow> (nat \<times> nat) option" where
  "scan_align_n P m s 0 = Some (s, 0)"
| "scan_align_n P m s (Suc n) =
     (if s mod 8 = 0 then Some (s, Suc n)
      else do { b \<leftarrow> load m s; if P b then scan_align_n P m (Suc s) n else Some (s, Suc n) })"

function scan_words_n :: "(u64 \<Rightarrow> bool) \<Rightarrow> mem \<Rightarrow> nat \<Rightarrow> nat \<Rightarrow> (nat \<times> nat) option" where
  "scan_words_n Q m w n =
     (if n < 8 then Some (w, n)
      else do { x \<leftarrow> load64 m w; if Q x then scan_words_n Q m (w + 8) (n - 8) else Some (w, n) })"
  by pat_completeness auto
termination
  by (relation "measure (\<lambda>(Q, m, w, n). n)") auto

declare scan.simps [simp del] scan_align.simps [simp del] scan_words.simps [simp del]
  scan_words_n.simps [simp del]

lemma scan_eq:
  "scan P m s =
     (if \<forall>b \<in> set (drop s m). P b then None else Some (s + length (takeWhile P (drop s m))))"
proof (induction P m s rule: scan.induct)
  case (1 P m s)
  show ?case
  proof (cases "s < length m")
    case True
    then have d: "drop s m = m ! s # drop (Suc s) m" by (simp add: Cons_nth_drop_Suc)
    show ?thesis
      using True 1 by (simp add: scan.simps [of P m s] d)
  next
    case False
    then show ?thesis by (simp add: scan.simps [of P m s])
  qed
qed

lemma scan_step: "s < length m \<Longrightarrow> P (m ! s) \<Longrightarrow> scan P m s = scan P m (Suc s)"
  by (subst scan.simps) simp

lemma scan_steps:
  "s + k \<le> length m \<Longrightarrow> (\<And>b. b \<in> set (take k (drop s m)) \<Longrightarrow> P b) \<Longrightarrow> scan P m s = scan P m (s + k)"
proof (induction k arbitrary: s)
  case 0
  then show ?case by simp
next
  case (Suc k)
  then have s: "s < length m" by simp
  then have d: "take (Suc k) (drop s m) = m ! s # take k (drop (Suc s) m)"
    by (simp add: Cons_nth_drop_Suc [symmetric])
  have "scan P m s = scan P m (Suc s)" using Suc.prems d s by (intro scan_step) auto
  also have "\<dots> = scan P m (Suc s + k)" using Suc.prems d by (intro Suc.IH) auto
  finally show ?case by simp
qed

lemma scan_align_scan: "scan_align P m s \<bind> scan P m = scan P m s"
proof (induction P m s rule: scan_align.induct)
  case (1 P m s)
  then show ?case
    by (cases "s < length m") (simp_all add: scan_align.simps [of P m s] scan.simps [of P m s])
qed

lemma scan_align_result:
  "scan_align P m s = Some t \<Longrightarrow> t mod 8 = 0 \<or> t < length m \<and> \<not> P (m ! t)"
proof (induction P m s rule: scan_align.induct)
  case (1 P m s)
  then show ?case
    by (cases "s < length m")
      (auto simp: scan_align.simps [of P m s] split: if_splits)
qed

definition word_test :: "(u64 \<Rightarrow> bool) \<Rightarrow> (byte \<Rightarrow> bool) \<Rightarrow> bool" where
  "word_test Q P \<longleftrightarrow> (\<forall>bs. length bs = 8 \<longrightarrow> Q (le_word bs) = (\<forall>b \<in> set bs. P b))"

lemma word_testD: "word_test Q P \<Longrightarrow> length bs = 8 \<Longrightarrow> Q (le_word bs) = (\<forall>b \<in> set bs. P b)"
  unfolding word_test_def by blast

lemma word_test_haszero: "word_test (\<lambda>w. \<not> haszero w) (\<lambda>b. b \<noteq> 0)"
  by (auto simp: word_test_def haszero_le_word)

lemma word_test_xor: "word_test (\<lambda>w. \<not> haszero (w XOR ONES * ucast c)) (\<lambda>b. b \<noteq> c)"
  by (auto simp: word_test_def haszero_xor)

lemma word_test_conj:
  "word_test Q P \<Longrightarrow> word_test Q' P' \<Longrightarrow> word_test (\<lambda>w. Q w \<and> Q' w) (\<lambda>b. P b \<and> P' b)"
  unfolding word_test_def by blast

lemma scan_words_scan:
  assumes "word_test Q P" and "8 dvd w" and "8 dvd length m"
  shows "scan_words Q m w \<bind> scan P m = scan P m w"
  using assms
proof (induction Q m w rule: scan_words.induct)
  case (1 Q m w)
  show ?case
  proof (cases "w < length m")
    case True
    then have w: "w + 8 \<le> length m" using "1.prems"(2,3) by (elim dvdE) simp
    let ?bs = "take 8 (drop w m)"
    have QP: "Q (le_word ?bs) = (\<forall>b \<in> set ?bs. P b)"
      using "1.prems"(1) by (rule word_testD) (use w in simp)
    show ?thesis
    proof (cases "Q (le_word ?bs)")
      case True
      then have "scan P m w = scan P m (w + 8)" using QP w by (intro scan_steps) auto
      then show ?thesis
        using 1 w True by (simp add: scan_words.simps [of Q m w] dvd_add)
    next
      case False
      then show ?thesis using w by (simp add: scan_words.simps [of Q m w])
    qed
  next
    case False
    then show ?thesis
      by (simp add: scan_words.simps [of Q m w] loadw_def scan_eq)
  qed
qed

lemma scan_n_eq:
  "s + n \<le> length m \<Longrightarrow>
   scan_n P m s n =
     (let k = length (takeWhile P (take n (drop s m))) in Some (s + k, n - k))"
proof (induction n arbitrary: s)
  case (Suc n)
  then have d: "drop s m = m ! s # drop (Suc s) m" by (simp add: Cons_nth_drop_Suc)
  show ?case using Suc by (simp add: d Let_def)
qed simp

lemma scan_n_steps:
  "k \<le> n \<Longrightarrow> s + k \<le> length m \<Longrightarrow> (\<And>b. b \<in> set (take k (drop s m)) \<Longrightarrow> P b) \<Longrightarrow>
   scan_n P m s n = scan_n P m (s + k) (n - k)"
proof (induction k arbitrary: s n)
  case (Suc k)
  then obtain n' where n: "n = Suc n'" "k \<le> n'" by (cases n) auto
  from Suc.prems have s: "s < length m" by simp
  then have d: "take (Suc k) (drop s m) = m ! s # take k (drop (Suc s) m)"
    by (simp add: Cons_nth_drop_Suc [symmetric])
  have "scan_n P m s n = scan_n P m (Suc s) n'" using Suc.prems(3) d s by (simp add: n)
  also have "\<dots> = scan_n P m (Suc s + k) (n' - k)"
    using Suc.prems n d by (intro Suc.IH) auto
  finally show ?case by (simp add: n)
qed simp

lemma scan_align_n_scan:
  "scan_align_n P m s n \<bind> (\<lambda>(s', n'). scan_n P m s' n') = scan_n P m s n"
proof (induction n arbitrary: s)
  case (Suc n)
  then show ?case by (cases "s < length m") simp_all
qed simp

lemma scan_align_n_result:
  "scan_align_n P m s n = Some (t, k) \<Longrightarrow>
   t + k = s + n \<and> (t mod 8 = 0 \<or> k = 0 \<or> t < length m \<and> \<not> P (m ! t))"
proof (induction n arbitrary: s)
  case (Suc n)
  then show ?case by (cases "s < length m") (auto split: if_splits)
qed simp

lemma scan_words_n_scan:
  assumes "word_test Q P" and "w + n \<le> length m"
  shows "scan_words_n Q m w n \<bind> (\<lambda>(s, k). scan_n P m s k) = scan_n P m w n"
  using assms
proof (induction Q m w n rule: scan_words_n.induct)
  case (1 Q m w n)
  show ?case
  proof (cases "n < 8")
    case True
    then show ?thesis by (simp add: scan_words_n.simps [of Q m w n])
  next
    case False
    let ?bs = "take 8 (drop w m)"
    have w: "w + 8 \<le> length m" using "1.prems"(2) False by simp
    have QP: "Q (le_word ?bs) = (\<forall>b \<in> set ?bs. P b)"
      using "1.prems"(1) by (rule word_testD) (use w in simp)
    show ?thesis
    proof (cases "Q (le_word ?bs)")
      case True
      have "scan_n P m w n = scan_n P m (w + 8) (n - 8)"
        using QP w True False by (intro scan_n_steps) auto
      then show ?thesis
        using 1 False w True by (simp add: scan_words_n.simps [of Q m w n])
    next
      case False
      then show ?thesis using w by (simp add: scan_words_n.simps [of Q m w n])
    qed
  qed
qed

section \<open>Copying loops\<close>

fun copy_n :: "(byte \<Rightarrow> bool) \<Rightarrow> mem \<Rightarrow> nat \<Rightarrow> nat \<Rightarrow> nat \<Rightarrow> (mem \<times> nat \<times> nat \<times> nat) option" where
  "copy_n P m d s 0 = Some (m, d, s, 0)"
| "copy_n P m d s (Suc n) =
     do { b \<leftarrow> load m s; m \<leftarrow> store m d b;
          if P b then copy_n P m (Suc d) (Suc s) n else Some (m, d, s, Suc n) }"

fun copy_align_n :: "(byte \<Rightarrow> bool) \<Rightarrow> mem \<Rightarrow> nat \<Rightarrow> nat \<Rightarrow> nat \<Rightarrow> (mem \<times> nat \<times> nat \<times> nat) option" where
  "copy_align_n P m d s 0 = Some (m, d, s, 0)"
| "copy_align_n P m d s (Suc n) =
     (if s mod 8 = 0 then Some (m, d, s, Suc n)
      else do { b \<leftarrow> load m s; m \<leftarrow> store m d b;
                if P b then copy_align_n P m (Suc d) (Suc s) n else Some (m, d, s, Suc n) })"

function copy_words_n :: "(u64 \<Rightarrow> bool) \<Rightarrow> mem \<Rightarrow> nat \<Rightarrow> nat \<Rightarrow> nat \<Rightarrow> (mem \<times> nat \<times> nat \<times> nat) option" where
  "copy_words_n Q m d s n =
     (if n < 8 then Some (m, d, s, n)
      else do { w \<leftarrow> load64 m s;
                if Q w then do { m \<leftarrow> store64 m d w; copy_words_n Q m (d + 8) (s + 8) (n - 8) }
                else Some (m, d, s, n) })"
  by pat_completeness auto
termination
  by (relation "measure (\<lambda>(Q, m, d, s, n). n)") auto

declare copy_words_n.simps [simp del]

lemma mem_write_nth:
  "off + length src \<le> length dst \<Longrightarrow> i < length dst \<Longrightarrow>
   mem_write off src dst ! i = (if off \<le> i \<and> i < off + length src then src ! (i - off) else dst ! i)"
  by (auto simp: mem_write_def nth_append min_def)

lemma copy_chunk:
  assumes "s + n \<le> length m" and "d + n \<le> length m" and "k \<le> n"
    and "d \<le> s \<or> s + n \<le> d"
    and "m' = mem_write d (take k (drop s m)) m"
  shows "mem_write (d + k) (take (n - k) (drop (s + k) m')) m' = mem_write d (take n (drop s m)) m"
  using assms by (intro nth_equalityI) (auto simp: mem_write_nth mem_simps)

lemma update_as_copy:
  "s < length m \<Longrightarrow> d < length m \<Longrightarrow> m[d := m ! s] = mem_write d (take 1 (drop s m)) m"
  by (simp add: mem_write_single take_Suc Cons_nth_drop_Suc [symmetric])

lemma region_mem_write:
  assumes "d + length src \<le> length m" and "d + length src \<le> a \<or> a + k \<le> d"
  shows "take k (drop a (mem_write d src m)) = take k (drop a m)"
  using assms by (intro nth_equalityI) (auto simp: mem_write_nth mem_simps)

lemma copy_n_steps:
  "k \<le> n \<Longrightarrow> s + k \<le> length m \<Longrightarrow> d + k \<le> length m \<Longrightarrow> d \<le> s \<or> s + k \<le> d \<Longrightarrow>
   (\<And>b. b \<in> set (take k (drop s m)) \<Longrightarrow> P b) \<Longrightarrow>
   copy_n P m d s n = copy_n P (mem_write d (take k (drop s m)) m) (d + k) (s + k) (n - k)"
proof (induction k arbitrary: m d s n)
  case 0
  then show ?case by (simp add: mem_write_def)
next
  case (Suc k)
  then obtain n' where n: "n = Suc n'" "k \<le> n'" by (cases n) auto
  let ?m = "mem_write d (take 1 (drop s m)) m"
  from Suc.prems have b: "s < length m" "d < length m" by simp_all
  have len: "length ?m = length m" using b by (simp add: mem_simps)
  have hd: "take (Suc k) (drop s m) = m ! s # take k (drop (Suc s) m)"
    using b by (simp add: Cons_nth_drop_Suc [symmetric])
  have same: "take k (drop (Suc s) ?m) = take k (drop (Suc s) m)"
    using Suc.prems b by (intro region_mem_write) auto
  have "copy_n P m d s n = copy_n P ?m (Suc d) (Suc s) n'"
    using Suc.prems(5) b hd by (simp add: n update_as_copy)
  also have "\<dots> = copy_n P (mem_write (Suc d) (take k (drop (Suc s) ?m)) ?m) (Suc d + k) (Suc s + k) (n' - k)"
    using Suc.prems n len hd by (intro Suc.IH) (auto simp: same [unfolded One_nat_def])
  also have "mem_write (Suc d) (take k (drop (Suc s) ?m)) ?m = mem_write d (take (Suc k) (drop s m)) m"
    using copy_chunk [of s "Suc k" m d 1 ?m] Suc.prems by simp
  finally show ?case by (simp add: n)
qed

lemma copy_n_all:
  assumes "s + n \<le> length m" and "d + n \<le> length m" and "d \<le> s \<or> s + n \<le> d"
    and "\<And>b. b \<in> set (take n (drop s m)) \<Longrightarrow> P b"
  shows "copy_n P m d s n = Some (mem_write d (take n (drop s m)) m, d + n, s + n, 0)"
  using copy_n_steps [of n n s m d P] assms by simp

lemma copy_n_stop:
  assumes "k < n" and "s + k < length m" and "d + k < length m" and "d \<le> s \<or> s + k < d"
    and "\<And>b. b \<in> set (take k (drop s m)) \<Longrightarrow> P b" and "\<not> P (m ! (s + k))"
  shows "copy_n P m d s n = Some (mem_write d (take (Suc k) (drop s m)) m, d + k, s + k, n - k)"
proof -
  let ?m = "mem_write d (take k (drop s m)) m"
  have len: "length ?m = length m" using assms by (simp add: mem_simps)
  have at: "?m ! (s + k) = m ! (s + k)" using assms by (auto simp: mem_write_nth)
  have "copy_n P m d s n = copy_n P ?m (d + k) (s + k) (Suc (n - Suc k))"
    using assms copy_n_steps [of k n s m d P] by (auto simp: Suc_diff_Suc)
  also have "\<dots> = Some (?m[d + k := ?m ! (s + k)], d + k, s + k, n - k)"
    using assms len by (simp add: at)
  also have "?m[d + k := ?m ! (s + k)] = mem_write (d + k) (take 1 (drop (s + k) ?m)) ?m"
    using assms len by (intro update_as_copy) auto
  also have "\<dots> = mem_write d (take (Suc k) (drop s m)) m"
    using assms copy_chunk [of s "Suc k" m d k ?m] by auto
  finally show ?thesis .
qed

lemma copy_align_n_copy:
  "copy_align_n P m d s n \<bind> (\<lambda>(m, d, s, n). copy_n P m d s n) = copy_n P m d s n"
proof (induction n arbitrary: m d s)
  case (Suc n)
  then show ?case
    by (cases "s < length m"; cases "d < length m") (simp_all add: store_def nth_list_update)
qed simp

definition stops :: "(byte \<Rightarrow> bool) \<Rightarrow> mem \<Rightarrow> nat \<Rightarrow> nat \<Rightarrow> nat \<Rightarrow> bool" where
  "stops P m s n j \<longleftrightarrow> j \<le> n \<and> s + j \<le> length m \<and> (j = n \<or> (\<exists>b \<in> set (take j (drop s m)). \<not> P b))"

lemma stops_advance:
  assumes "stops P m s n j" and "k \<le> n" and "s + k \<le> length m"
    and "\<And>b. b \<in> set (take k (drop s m)) \<Longrightarrow> P b"
  shows "k \<le> j" and "stops P m (s + k) (n - k) (j - k)"
proof -
  show kj: "k \<le> j"
  proof (rule ccontr)
    assume "\<not> k \<le> j"
    then have "set (take j (drop s m)) \<subseteq> set (take k (drop s m))" and "j \<noteq> n"
      using assms(2) set_take_subset_set_take [of j k "drop s m"] by auto
    then show False using assms(1,4) by (auto simp: stops_def)
  qed
  have "take j (drop s m) = take k (drop s m) @ take (j - k) (drop (s + k) m)"
    using kj by (metis add.commute drop_drop le_add_diff_inverse take_add)
  then show "stops P m (s + k) (n - k) (j - k)"
    using assms(1,4) kj by (auto simp: stops_def)
qed

lemma stops_mem_write:
  assumes "d + length src \<le> length m" and "d + length src \<le> s \<or> s + j \<le> d"
  shows "stops P (mem_write d src m) s n j = stops P m s n j"
  using assms by (simp add: stops_def region_mem_write mem_simps)

lemma copy_words_n_copy:
  assumes "word_test Q P" and "8 dvd s" and "8 dvd length m" and "d + n \<le> length m"
    and "stops P m s n j" and "d \<le> s \<or> s + j \<le> d"
  shows "copy_words_n Q m d s n \<bind> (\<lambda>(m, d, s, n). copy_n P m d s n) = copy_n P m d s n"
  using assms
proof (induction Q m d s n arbitrary: j rule: copy_words_n.induct)
  case (1 Q m d s n)
  note prems = "1.prems"
  show ?case
  proof (cases "n < 8 \<or> length m \<le> s")
    case True
    then show ?thesis
    proof (cases "n < 8")
      case False
      then have "length m \<le> s" "j = 0" using True prems(5) by (auto simp: stops_def)
      then show ?thesis using False prems(5) by (auto simp: stops_def)
    qed (simp add: copy_words_n.simps [of Q m d s n])
  next
    case False
    let ?bs = "take 8 (drop s m)" and ?m = "mem_write d (take 8 (drop s m)) m"
    have s: "s + 8 \<le> length m" using False prems(2,3) by (elim dvdE) simp
    have QP: "Q (le_word ?bs) = (\<forall>b \<in> set ?bs. P b)"
      using prems(1) by (rule word_testD) (use s in simp)
    show ?thesis
    proof (cases "Q (le_word ?bs)")
      case True
      have len: "length ?m = length m" using prems(4) s False by (simp add: mem_simps)
      have adv: "8 \<le> j" "stops P m (s + 8) (n - 8) (j - 8)"
        using stops_advance [OF prems(5), of 8] True QP s False by simp_all
      have st: "stops P ?m (s + 8) (n - 8) (j - 8)"
        using adv prems(4,6) s False by (subst stops_mem_write) auto
      have le: "le_bytes 8 (le_word ?bs :: u64) = ?bs"
        using s by (intro le_bytes_le_word) simp_all
      have "copy_n P m d s n = copy_n P ?m (d + 8) (s + 8) (n - 8)"
        using QP True s False prems(4,6) adv by (intro copy_n_steps) auto
      moreover have "copy_words_n Q ?m (d + 8) (s + 8) (n - 8) \<bind> (\<lambda>(m, d, s, n). copy_n P m d s n) =
          copy_n P ?m (d + 8) (s + 8) (n - 8)"
        using True s False prems len st adv le
        by (intro "1.IH" [of "le_word ?bs" ?m "j - 8"]) auto
      ultimately show ?thesis
        using True s False prems(4) by (simp add: copy_words_n.simps [of Q m d s n] le)
    next
      case False
      then show ?thesis using s by (simp add: copy_words_n.simps [of Q m d s n])
    qed
  qed
qed

end
