(* ===== verification/Musl_Memops.thy ===== *)
theory Musl_Memops
  imports C_Memory
begin

text \<open>
  \<^verbatim>\<open>memcpy\<close>, \<^verbatim>\<open>memmove\<close> and \<^verbatim>\<open>memset\<close> of musl (\<^verbatim>\<open>src/string\<close>), with their word-wise loops, the
  shift-and-merge loops for misaligned copies and the overlapping head and tail stores of
  \<^verbatim>\<open>memset\<close>.  The theorems say that each leaves exactly the intended bytes and touches nothing
  outside its operands (an access out of bounds is the value \<open>None\<close>).
\<close>

unbundle bit_operations_syntax

section \<open>memcpy\<close>

fun copy_bytes :: "mem \<Rightarrow> nat \<Rightarrow> nat \<Rightarrow> nat \<Rightarrow> mem option" where
  "copy_bytes m d s 0 = Some m"
| "copy_bytes m d s (Suc n) =
     do { b \<leftarrow> load m s; m \<leftarrow> store m d b; copy_bytes m (Suc d) (Suc s) n }"

definition copy_word :: "mem \<Rightarrow> nat \<Rightarrow> nat \<Rightarrow> mem option" where
  "copy_word m d s = do { w \<leftarrow> load32 m s; store32 m d w }"

fun memcpy_head :: "mem \<Rightarrow> nat \<Rightarrow> nat \<Rightarrow> nat \<Rightarrow> (mem \<times> nat \<times> nat \<times> nat) option" where
  "memcpy_head m d s 0 = Some (m, d, s, 0)"
| "memcpy_head m d s (Suc n) =
     (if s mod 4 = 0 then Some (m, d, s, Suc n)
      else do { m \<leftarrow> copy_bytes m d s 1; memcpy_head m (d + 1) (s + 1) n })"

function memcpy_blocks :: "mem \<Rightarrow> nat \<Rightarrow> nat \<Rightarrow> nat \<Rightarrow> (mem \<times> nat \<times> nat \<times> nat) option" where
  "memcpy_blocks m d s n =
     (if n < 16 then Some (m, d, s, n)
      else do { m \<leftarrow> copy_word m d s;
                m \<leftarrow> copy_word m (d + 4) (s + 4);
                m \<leftarrow> copy_word m (d + 8) (s + 8);
                m \<leftarrow> copy_word m (d + 12) (s + 12);
                memcpy_blocks m (d + 16) (s + 16) (n - 16) })"
  by pat_completeness auto
termination
  by (relation "measure (\<lambda>(m, d, s, n). n)") auto

text \<open>A stage \<^verbatim>\<open>if (n & 2^i)\<close> of a tail: the next \<open>2 ^ i\<close> bytes, one by one.\<close>

definition memcpy_tail :: "mem \<Rightarrow> nat \<Rightarrow> nat \<Rightarrow> nat \<Rightarrow> nat \<Rightarrow> (mem \<times> nat \<times> nat) option" where
  "memcpy_tail m d s n i =
     (if bit n i then do { m \<leftarrow> copy_bytes m d s (2 ^ i); Some (m, d + 2 ^ i, s + 2 ^ i) }
      else Some (m, d, s))"

definition memcpy_aligned :: "mem \<Rightarrow> nat \<Rightarrow> nat \<Rightarrow> nat \<Rightarrow> mem option" where
  "memcpy_aligned m d s n =
     do { (m, d, s, n) \<leftarrow> memcpy_blocks m d s n;
          (m, d, s) \<leftarrow> (if bit n 3 then do { m \<leftarrow> copy_word m d s; m \<leftarrow> copy_word m (d + 4) (s + 4);
                                               Some (m, d + 8, s + 8) }
                         else Some (m, d, s));
          (m, d, s) \<leftarrow> (if bit n 2 then do { m \<leftarrow> copy_word m d s; Some (m, d + 4, s + 4) }
                         else Some (m, d, s));
          (m, d, s) \<leftarrow> memcpy_tail m d s n 1;
          (m, d, s) \<leftarrow> memcpy_tail m d s n 0;
          Some m }"

text \<open>One merge of the misaligned copy: \<open>w\<close> is the word loaded before, its top \<open>c\<close> bytes are next.\<close>

definition merge_step :: "nat \<Rightarrow> mem \<Rightarrow> nat \<Rightarrow> nat \<Rightarrow> u32 \<Rightarrow> (mem \<times> u32) option" where
  "merge_step c m d s w =
     do { x \<leftarrow> load32 m (s + c);
          m \<leftarrow> store32 m d (drop_bit (8 * (4 - c)) w OR push_bit (8 * c) x);
          Some (m, x) }"

function memcpy_merge :: "nat \<Rightarrow> mem \<Rightarrow> nat \<Rightarrow> nat \<Rightarrow> nat \<Rightarrow> u32 \<Rightarrow> (mem \<times> nat \<times> nat \<times> nat) option" where
  "memcpy_merge c m d s n w =
     (if n < 16 + c then Some (m, d, s, n)
      else do { (m, w) \<leftarrow> merge_step c m d s w;
                (m, w) \<leftarrow> merge_step c m (d + 4) (s + 4) w;
                (m, w) \<leftarrow> merge_step c m (d + 8) (s + 8) w;
                (m, w) \<leftarrow> merge_step c m (d + 12) (s + 12) w;
                memcpy_merge c m (d + 16) (s + 16) (n - 16) w })"
  by pat_completeness auto
termination
  by (relation "measure (\<lambda>(c, m, d, s, n, w). n)") auto

declare memcpy_blocks.simps [simp del] memcpy_merge.simps [simp del]

definition memcpy :: "mem \<Rightarrow> nat \<Rightarrow> nat \<Rightarrow> nat \<Rightarrow> mem option" where
  "memcpy m d s n =
     do { (m, d, s, n) \<leftarrow> memcpy_head m d s n;
          if d mod 4 = 0 then memcpy_aligned m d s n
          else
            do { (m, d, s, n) \<leftarrow>
                   (if n \<ge> 32 then
                      let c = d mod 4 in
                      do { w \<leftarrow> load32 m s;
                           m \<leftarrow> copy_bytes m d s (4 - c);
                           memcpy_merge c m (d + (4 - c)) (s + (4 - c)) (n - (4 - c)) w }
                    else Some (m, d, s, n));
                 (m, d, s) \<leftarrow> memcpy_tail m d s n 4;
                 (m, d, s) \<leftarrow> memcpy_tail m d s n 3;
                 (m, d, s) \<leftarrow> memcpy_tail m d s n 2;
                 (m, d, s) \<leftarrow> memcpy_tail m d s n 1;
                 (m, d, s) \<leftarrow> memcpy_tail m d s n 0;
                 Some m } }"

section \<open>memmove\<close>

fun forward_head :: "mem \<Rightarrow> nat \<Rightarrow> nat \<Rightarrow> nat \<Rightarrow> (mem \<times> nat \<times> nat \<times> nat) option" where
  "forward_head m d s 0 = Some (m, d, s, 0)"
| "forward_head m d s (Suc n) =
     (if d mod 8 = 0 then Some (m, d, s, Suc n)
      else do { b \<leftarrow> load m s; m \<leftarrow> store m d b; forward_head m (d + 1) (s + 1) n })"

function forward_words :: "mem \<Rightarrow> nat \<Rightarrow> nat \<Rightarrow> nat \<Rightarrow> (mem \<times> nat \<times> nat \<times> nat) option" where
  "forward_words m d s n =
     (if n < 8 then Some (m, d, s, n)
      else do { w \<leftarrow> load64 m s; m \<leftarrow> store64 m d w; forward_words m (d + 8) (s + 8) (n - 8) })"
  by pat_completeness auto
termination
  by (relation "measure (\<lambda>(m, d, s, n). n)") auto

fun backward_head :: "mem \<Rightarrow> nat \<Rightarrow> nat \<Rightarrow> nat \<Rightarrow> (mem \<times> nat) option" where
  "backward_head m d s 0 = Some (m, 0)"
| "backward_head m d s (Suc n) =
     (if (d + Suc n) mod 8 = 0 then Some (m, Suc n)
      else do { b \<leftarrow> load m (s + n); m \<leftarrow> store m (d + n) b; backward_head m d s n })"

function backward_words :: "mem \<Rightarrow> nat \<Rightarrow> nat \<Rightarrow> nat \<Rightarrow> (mem \<times> nat) option" where
  "backward_words m d s n =
     (if n < 8 then Some (m, n)
      else do { w \<leftarrow> load64 m (s + (n - 8)); m \<leftarrow> store64 m (d + (n - 8)) w;
                backward_words m d s (n - 8) })"
  by pat_completeness auto
termination
  by (relation "measure (\<lambda>(m, d, s, n). n)") auto

fun backward_bytes :: "mem \<Rightarrow> nat \<Rightarrow> nat \<Rightarrow> nat \<Rightarrow> mem option" where
  "backward_bytes m d s 0 = Some m"
| "backward_bytes m d s (Suc n) =
     do { b \<leftarrow> load m (s + n); m \<leftarrow> store m (d + n) b; backward_bytes m d s n }"

declare forward_words.simps [simp del] backward_words.simps [simp del]

definition memmove :: "mem \<Rightarrow> nat \<Rightarrow> nat \<Rightarrow> nat \<Rightarrow> mem option" where
  "memmove m d s n =
     (if d = s then Some m
      else if (of_nat s - of_nat d - of_nat n :: u64) \<le> - 2 * of_nat n then memcpy m d s n
      else if d < s then
        do { (m, d, s, n) \<leftarrow>
               (if s mod 8 = d mod 8 then
                  do { (m, d, s, n) \<leftarrow> forward_head m d s n; forward_words m d s n }
                else Some (m, d, s, n));
             copy_bytes m d s n }
      else
        do { (m, n) \<leftarrow>
               (if s mod 8 = d mod 8 then
                  do { (m, n) \<leftarrow> backward_head m d s n; backward_words m d s n }
                else Some (m, n));
             backward_bytes m d s n })"

section \<open>memset\<close>

function memset_loop :: "mem \<Rightarrow> nat \<Rightarrow> nat \<Rightarrow> u64 \<Rightarrow> mem option" where
  "memset_loop m s n c64 =
     (if n < 32 then Some m
      else do { m \<leftarrow> store64 m s c64;
                m \<leftarrow> store64 m (s + 8) c64;
                m \<leftarrow> store64 m (s + 16) c64;
                m \<leftarrow> store64 m (s + 24) c64;
                memset_loop m (s + 32) (n - 32) c64 })"
  by pat_completeness auto
termination
  by (relation "measure (\<lambda>(m, s, n, c). n)") auto

declare memset_loop.simps [simp del]

text \<open>The stores are grouped by the early returns of the source: each group runs when \<open>n\<close> exceeds
  the bound of the return before it.\<close>

definition memset_words :: "mem \<Rightarrow> nat \<Rightarrow> nat \<Rightarrow> byte \<Rightarrow> mem option" where
  "memset_words m s n c =
     (let c32 = 0xffffffff div 255 * (ucast c :: u32) in
      do { m \<leftarrow> store32 m s c32;
           m \<leftarrow> store32 m (s + n - 4) c32;
           if n \<le> 8 then Some m
           else
      do { m \<leftarrow> store32 m (s + 4) c32;
           m \<leftarrow> store32 m (s + 8) c32;
           m \<leftarrow> store32 m (s + n - 12) c32;
           m \<leftarrow> store32 m (s + n - 8) c32;
           if n \<le> 24 then Some m
           else
      do { m \<leftarrow> store32 m (s + 12) c32;
           m \<leftarrow> store32 m (s + 16) c32;
           m \<leftarrow> store32 m (s + 20) c32;
           m \<leftarrow> store32 m (s + 24) c32;
           m \<leftarrow> store32 m (s + n - 28) c32;
           m \<leftarrow> store32 m (s + n - 24) c32;
           m \<leftarrow> store32 m (s + n - 20) c32;
           m \<leftarrow> store32 m (s + n - 16) c32;
           let k = 24 + (if bit s 2 then 4 else 0);
           memset_loop m (s + k) (n - k) (ucast c32 OR push_bit 32 (ucast c32)) }}})"

definition memset :: "mem \<Rightarrow> nat \<Rightarrow> byte \<Rightarrow> nat \<Rightarrow> mem option" where
  "memset m s c n =
     (if n = 0 then Some m
      else
      do { m \<leftarrow> store m s c;
           m \<leftarrow> store m (s + n - 1) c;
           if n \<le> 2 then Some m
           else
      do { m \<leftarrow> store m (s + 1) c;
           m \<leftarrow> store m (s + 2) c;
           m \<leftarrow> store m (s + n - 2) c;
           m \<leftarrow> store m (s + n - 3) c;
           if n \<le> 6 then Some m
           else
      do { m \<leftarrow> store m (s + 3) c;
           m \<leftarrow> store m (s + n - 4) c;
           if n \<le> 8 then Some m
           else
             let k = (4 - s mod 4) mod 4; s = s + k; n = n - k; n = n - n mod 4 in
             memset_words m s n c }}})"

section \<open>Forward copies\<close>

definition moved :: "mem \<Rightarrow> nat \<Rightarrow> nat \<Rightarrow> nat \<Rightarrow> mem" where
  "moved m d s n = mem_write d (take n (drop s m)) m"

definition fwd :: "mem \<Rightarrow> nat \<Rightarrow> nat \<Rightarrow> nat \<Rightarrow> bool" where
  "fwd m d s n \<longleftrightarrow> s + n \<le> length m \<and> d + n \<le> length m \<and> (d \<le> s \<or> s + n \<le> d)"

named_theorems copy_simps

lemma length_moved [simp]: "fwd m d s n \<Longrightarrow> length (moved m d s n) = length m"
  by (auto simp: fwd_def moved_def mem_simps)

lemma moved_0 [simp]: "moved m d s 0 = m"
  by (simp add: moved_def mem_write_def)

lemma fwd_le: "fwd m d s n \<Longrightarrow> j \<le> n \<Longrightarrow> fwd m d s j"
  by (auto simp: fwd_def)

lemma fwd_step: "fwd m d s n \<Longrightarrow> j \<le> n \<Longrightarrow> fwd (moved m d s j) (d + j) (s + j) (n - j)"
  using length_moved [OF fwd_le, of m d s n j] by (auto simp: fwd_def)

lemma moved_step:
  "fwd m d s n \<Longrightarrow> j \<le> n \<Longrightarrow> moved (moved m d s j) (d + j) (s + j) (n - j) = moved m d s n"
  unfolding moved_def fwd_def by (rule copy_chunk) auto

lemma moved_region:
  assumes "fwd m d s n" and "j \<le> i" and "i + k \<le> n" and "j \<le> n"
  shows "take k (drop (s + i) (moved m d s j)) = take k (drop (s + i) m)"
  using assms unfolding moved_def fwd_def by (intro region_mem_write) auto

lemma copy_bytes_fwd [copy_simps]:
  "fwd m d s n \<Longrightarrow> copy_bytes m d s n = Some (moved m d s n)"
proof (induction n arbitrary: m d s)
  case (Suc n)
  have "m[d := m ! s] = moved m d s 1"
    using Suc.prems unfolding moved_def fwd_def by (intro update_as_copy) auto
  then show ?case
    using Suc.prems Suc.IH [of "moved m d s 1" "Suc d" "Suc s"] fwd_step [OF Suc.prems, of 1]
      moved_step [OF Suc.prems, of 1]
    by (auto simp: fwd_def)
qed simp

lemma word_copy [copy_simps]:
  assumes "fwd m d s k" and "8 * k \<le> LENGTH('w::len)"
  shows "do { w \<leftarrow> loadw k m s :: 'w word option; storew k m d w } = Some (moved m d s k)"
proof -
  have "le_bytes k (le_word (take k (drop s m)) :: 'w word) = take k (drop s m)"
    using assms by (intro le_bytes_le_word) (auto simp: fwd_def)
  then show ?thesis using assms by (simp add: fwd_def moved_def)
qed

lemma copy_word_fwd [copy_simps]: "fwd m d s 4 \<Longrightarrow> copy_word m d s = Some (moved m d s 4)"
  unfolding copy_word_def by (rule word_copy) simp_all

lemma memcpy_head_fwd:
  "fwd m d s n \<Longrightarrow>
   \<exists>k \<le> n. memcpy_head m d s n = Some (moved m d s k, d + k, s + k, n - k)"
proof (induction n arbitrary: m d s)
  case (Suc n)
  show ?case
  proof (cases "s mod 4 = 0")
    case True
    then show ?thesis by (intro exI [of _ 0]) simp
  next
    case False
    have "fwd (moved m d s 1) (d + 1) (s + 1) n" using fwd_step [OF Suc.prems, of 1] by simp
    from Suc.IH [OF this] obtain k where k: "k \<le> n"
      "memcpy_head (moved m d s 1) (d + 1) (s + 1) n =
        Some (moved (moved m d s 1) (d + 1) (s + 1) k, d + 1 + k, s + 1 + k, n - k)" by blast
    have "moved (moved m d s 1) (d + 1) (s + 1) k = moved m d s (Suc k)"
      using moved_step [OF fwd_le [OF Suc.prems, of "Suc k"], of 1] k(1) by simp
    then show ?thesis
      using False k copy_bytes_fwd [OF fwd_le [OF Suc.prems, of 1]]
      by (intro exI [of _ "Suc k"]) (simp del: copy_bytes.simps)
  qed
qed simp

lemma copy_word_at:
  assumes "fwd m d s n" and "j + 4 \<le> n"
  shows "copy_word (moved m d s j) (d + j) (s + j) = Some (moved m d s (j + 4))"
proof -
  have f: "fwd m d s (j + 4)" using assms(2) by (intro fwd_le [OF assms(1)]) auto
  have "fwd (moved m d s j) (d + j) (s + j) 4"
    and eq: "moved (moved m d s j) (d + j) (s + j) 4 = moved m d s (j + 4)"
    using fwd_step [OF f le_add1] moved_step [OF f le_add1] by (simp_all only: add_diff_cancel_left')
  then show ?thesis by (simp only: copy_word_fwd)
qed

lemma copy_4_words:
  assumes "fwd m d s n" and "16 \<le> n"
  shows "do { m \<leftarrow> copy_word m d s;
              m \<leftarrow> copy_word m (d + 4) (s + 4);
              m \<leftarrow> copy_word m (d + 8) (s + 8);
              copy_word m (d + 12) (s + 12) } = Some (moved m d s 16)"
proof -
  note step = copy_word_at [OF assms(1)]
  show ?thesis using assms(2) step [of 0] step [of 4] step [of 8] step [of 12] by simp
qed

lemma advance_fwd:
  assumes "fwd m d s n" and "j \<le> n"
    and "\<exists>k \<le> n - j. r = Some (moved (moved m d s j) (d + j) (s + j) k, d + j + k, s + j + k, n - j - k) \<and> Q (n - j - k)"
  shows "\<exists>k \<le> n. r = Some (moved m d s k, d + k, s + k, n - k) \<and> Q (n - k)"
proof -
  from assms(3) obtain k where k: "k \<le> n - j" "Q (n - j - k)"
    "r = Some (moved (moved m d s j) (d + j) (s + j) k, d + j + k, s + j + k, n - j - k)" by blast
  have "moved (moved m d s j) (d + j) (s + j) k = moved m d s (j + k)"
    using moved_step [OF fwd_le [OF assms(1), of "j + k"], of j] k(1) assms(2) by simp
  then show ?thesis using k assms(2) by (intro exI [of _ "j + k"]) (simp add: add.assoc)
qed

lemma memcpy_blocks_fwd:
  "fwd m d s n \<Longrightarrow>
   \<exists>k \<le> n. memcpy_blocks m d s n = Some (moved m d s k, d + k, s + k, n - k) \<and> n - k < 16"
proof (induction n arbitrary: m d s rule: less_induct)
  case (less n)
  show ?case
  proof (cases "n < 16")
    case True
    then show ?thesis
      by (intro exI [of _ 0]) (simp add: memcpy_blocks.simps [of m d s n])
  next
    case False
    let ?m = "moved m d s 16"
    have "memcpy_blocks m d s n = memcpy_blocks ?m (d + 16) (s + 16) (n - 16)"
      using copy_4_words [OF less.prems] False
      by (simp add: memcpy_blocks.simps [of m d s n] flip: bind_assoc)
    then show ?thesis
      using less.IH [OF _ fwd_step [OF less.prems]] False
      by (intro advance_fwd [OF less.prems, of 16]) simp_all
  qed
qed

lemma nat_low_bits:
  fixes n :: nat
  shows "n < 16 \<Longrightarrow> n = 8 * of_bool (bit n 3) + 4 * of_bool (bit n 2) + 2 * of_bool (bit n 1) + of_bool (bit n 0)"
    and "n < 32 \<Longrightarrow> n = 16 * of_bool (bit n 4) + 8 * of_bool (bit n 3) + 4 * of_bool (bit n 2)
                       + 2 * of_bool (bit n 1) + of_bool (bit n 0)"
proof -
  have "list_all (\<lambda>n :: nat. n = 16 * of_bool (bit n 4) + 8 * of_bool (bit n 3) + 4 * of_bool (bit n 2)
                       + 2 * of_bool (bit n 1) + of_bool (bit n 0)) [0..<32]"
    by code_simp
  then show a: "n < 32 \<Longrightarrow> n = 16 * of_bool (bit n 4) + 8 * of_bool (bit n 3) + 4 * of_bool (bit n 2)
                       + 2 * of_bool (bit n 1) + of_bool (bit n 0)" by (simp only: list_all_iff) simp
  assume n: "n < 16"
  then have "\<not> bit n 4" by (simp add: bit_iff_odd)
  then show "n = 8 * of_bool (bit n 3) + 4 * of_bool (bit n 2) + 2 * of_bool (bit n 1) + of_bool (bit n 0)"
    using a n by simp
qed

text \<open>A stage of the tail copies \<open>j\<close> bytes when its bit of \<open>n\<close> is set.\<close>

lemma tail_stage:
  assumes "fwd m d s n" and "k + 2 ^ i * of_bool (bit x i) \<le> n"
  shows "memcpy_tail (moved m d s k) (d + k) (s + k) x i =
    (let j = k + 2 ^ i * of_bool (bit x i) in Some (moved m d s j, d + j, s + j))"
proof (cases "bit x i")
  case True
  have f: "fwd m d s (k + 2 ^ i)" using assms(2) True by (intro fwd_le [OF assms(1)]) auto
  have "copy_bytes (moved m d s k) (d + k) (s + k) (2 ^ i) = Some (moved m d s (k + 2 ^ i))"
    using copy_bytes_fwd [OF fwd_step [OF f le_add1]] moved_step [OF f le_add1]
    by (simp only: add_diff_cancel_left')
  then show ?thesis
    using True by (simp add: memcpy_tail_def add.assoc Let_def del: copy_bytes.simps)
qed (simp add: memcpy_tail_def)

lemma copy_2_words:
  assumes "fwd m d s n" and "k + 8 \<le> n"
  shows "do { m \<leftarrow> copy_word (moved m d s k) (d + k) (s + k);
              copy_word m (d + k + 4) (s + k + 4) } = Some (moved m d s (k + 8))"
proof -
  note step = copy_word_at [OF assms(1)]
  show ?thesis using step [of k] step [of "k + 4"] assms by (simp add: add.assoc)
qed

lemma memcpy_aligned_fwd:
  assumes "fwd m d s n"
  shows "memcpy_aligned m d s n = Some (moved m d s n)"
proof -
  from memcpy_blocks_fwd [OF assms] obtain k where k: "k \<le> n" "n - k < 16"
    and b: "memcpy_blocks m d s n = Some (moved m d s k, d + k, s + k, n - k)" by blast
  let ?x = "n - k"
  define k3 where "k3 = k + 8 * of_bool (bit ?x 3)"
  define k2 where "k2 = k3 + 4 * of_bool (bit ?x 2)"
  define k1 where "k1 = k2 + 2 * of_bool (bit ?x 1)"
  have n: "n = k1 + of_bool (bit ?x 0)"
    using nat_low_bits(1) [OF k(2)] k(1) unfolding k1_def k2_def k3_def by linarith
  have le: "k3 \<le> n" "k2 \<le> n" "k1 \<le> n" using n unfolding k1_def k2_def by simp_all
  have 3: "(if bit ?x 3 then do { m \<leftarrow> copy_word (moved m d s k) (d + k) (s + k);
                               m \<leftarrow> copy_word m (d + k + 4) (s + k + 4);
                               Some (m, d + k + 8, s + k + 8) }
            else Some (moved m d s k, d + k, s + k)) = Some (moved m d s k3, d + k3, s + k3)"
    using copy_2_words [OF assms, of k] le(1)
    by (auto simp: k3_def add.assoc simp flip: bind_assoc)
  have 2: "(if bit ?x 2 then do { m \<leftarrow> copy_word (moved m d s k3) (d + k3) (s + k3); Some (m, d + k3 + 4, s + k3 + 4) }
            else Some (moved m d s k3, d + k3, s + k3)) = Some (moved m d s k2, d + k2, s + k2)"
    using copy_word_at [OF assms, of k3] le(2) by (auto simp: k2_def add.assoc)
  have 1: "memcpy_tail (moved m d s k2) (d + k2) (s + k2) ?x 1 = Some (moved m d s k1, d + k1, s + k1)"
    using tail_stage [OF assms, of k2 1 ?x] le(3) by (simp add: k1_def Let_def)
  have 0: "memcpy_tail (moved m d s k1) (d + k1) (s + k1) ?x 0 = Some (moved m d s n, d + n, s + n)"
    using tail_stage [OF assms, of k1 0 ?x] n by (simp add: Let_def)
  show ?thesis unfolding memcpy_aligned_def b by (simp only: Option.bind.bind_lunit prod.case 3 2 1 0)
qed

section \<open>Misaligned copies\<close>

lemma merge_words:
  fixes A B :: "byte list"
  assumes "length A = 4" "length B = 4" "c \<le> 4"
  shows "(drop_bit (8 * (4 - c)) (le_word A) OR push_bit (8 * c) (le_word B) :: u32) =
    le_word (drop (4 - c) A @ take (4 - c) B)"
proof (rule bit_word_eqI)
  fix n assume "n < LENGTH(32)"
  then have n: "n < 32" by simp
  have d: "(8 * (4 - c) + n) div 8 = (4 - c) + n div 8" "(8 * (4 - c) + n) mod 8 = n mod 8" by simp_all
  show "bit (drop_bit (8 * (4 - c)) (le_word A) OR push_bit (8 * c) (le_word B) :: u32) n =
    bit (le_word (drop (4 - c) A @ take (4 - c) B) :: u32) n"
  proof (cases "n < 8 * c")
    case True
    then have "n div 8 < c" "4 + n div 8 - c < 4" "8 * (4 - c) + n < 32" using assms by auto
    then show ?thesis using assms n True d
      by (simp add: bit_or_iff bit_drop_bit_eq bit_push_bit_iff bit_le_word nth_append)
  next
    case False
    then obtain j where j: "n = 8 * c + j" using le_Suc_ex linorder_not_less by blast
    have "(8 * c + j) div 8 = c + j div 8" "(8 * c + j) mod 8 = j mod 8" by simp_all
    then show ?thesis using assms n
      by (auto simp: j bit_or_iff bit_drop_bit_eq bit_push_bit_iff bit_le_word nth_append)
  qed
qed

definition carries :: "nat \<Rightarrow> mem \<Rightarrow> nat \<Rightarrow> u32 \<Rightarrow> bool" where
  "carries c m s w \<longleftrightarrow> (\<exists>A. length A = 4 \<and> w = le_word A \<and> drop (4 - c) A = take c (drop s m))"

lemma merge_step_fwd:
  assumes f: "fwd m d s n" and n: "4 + c \<le> n" and c: "c < 4" and w: "carries c m s w"
  shows "\<exists>x. merge_step c m d s w = Some (moved m d s 4, x) \<and> carries c (moved m d s 4) (s + 4) x"
proof -
  let ?B = "take 4 (drop (s + c) m)"
  have len: "s + c + 4 \<le> length m" "d + 4 \<le> length m" using f n by (auto simp: fwd_def)
  obtain A where A: "length A = 4" "w = le_word A" "drop (4 - c) A = take c (drop s m)"
    using w by (auto simp: carries_def)
  have bytes: "drop (4 - c) A @ take (4 - c) ?B = take 4 (drop s m)"
    using c A(3) by (simp add: min_def take_add [symmetric] add.commute flip: drop_drop)
  have "drop_bit (8 * (4 - c)) w OR push_bit (8 * c) (le_word ?B) = le_word (take 4 (drop s m))"
    unfolding A(2) bytes [symmetric] using A(1) c len by (intro merge_words) auto
  moreover have "le_bytes 4 (le_word (take 4 (drop s m)) :: u32) = take 4 (drop s m)"
    using len by (intro le_bytes_le_word) simp_all
  ultimately have "merge_step c m d s w = Some (moved m d s 4, le_word ?B)"
    using len by (simp add: merge_step_def moved_def)
  moreover have "drop (4 - c) ?B = take c (drop (s + 4) (moved m d s 4))"
    using moved_region [OF f, of 4 4 c] n c by (simp add: drop_take add.commute)
  moreover have "length ?B = 4" using len by simp
  ultimately show ?thesis unfolding carries_def by blast
qed

lemma merge_step_at:
  assumes "fwd m d s n" and "j + 4 + c \<le> n" and "c < 4" and "carries c (moved m d s j) (s + j) w"
  shows "\<exists>x. merge_step c (moved m d s j) (d + j) (s + j) w = Some (moved m d s (j + 4), x) \<and>
             carries c (moved m d s (j + 4)) (s + (j + 4)) x"
proof -
  have f: "fwd (moved m d s j) (d + j) (s + j) (n - j)"
    using assms(1,2) by (intro fwd_step) auto
  have "moved (moved m d s j) (d + j) (s + j) 4 = moved m d s (j + 4)"
    using moved_step [OF fwd_le [OF assms(1)] le_add1, of j 4] assms(2) by simp
  then show ?thesis using merge_step_fwd [OF f _ assms(3,4)] assms(2) by (auto simp: add.assoc)
qed

lemma memcpy_merge_fwd:
  "fwd m d s n \<Longrightarrow> c < 4 \<Longrightarrow> carries c m s w \<Longrightarrow>
   \<exists>k \<le> n. memcpy_merge c m d s n w = Some (moved m d s k, d + k, s + k, n - k) \<and> n - k < 16 + c"
proof (induction n arbitrary: m d s w rule: less_induct)
  case (less n)
  note f = less.prems(1) and c = less.prems(2)
  show ?case
  proof (cases "n < 16 + c")
    case True
    then show ?thesis
      by (intro exI [of _ 0]) (simp add: memcpy_merge.simps [of c m d s n])
  next
    case False
    let ?m = "moved m d s 16"
    obtain w1 where 1: "merge_step c m d s w = Some (moved m d s 4, w1)"
      "carries c (moved m d s 4) (s + 4) w1"
      using merge_step_at [OF f, of 0 c w] False less.prems by auto
    obtain w2 where 2: "merge_step c (moved m d s 4) (d + 4) (s + 4) w1 = Some (moved m d s 8, w2)"
      "carries c (moved m d s 8) (s + 8) w2"
      using merge_step_at [OF f, of 4 c w1] False c 1(2) by auto
    obtain w3 where 3: "merge_step c (moved m d s 8) (d + 8) (s + 8) w2 = Some (moved m d s 12, w3)"
      "carries c (moved m d s 12) (s + 12) w3"
      using merge_step_at [OF f, of 8 c w2] False c 2(2) by auto
    obtain w4 where 4: "merge_step c (moved m d s 12) (d + 12) (s + 12) w3 = Some (?m, w4)"
      "carries c ?m (s + 16) w4"
      using merge_step_at [OF f, of 12 c w3] False c 3(2) by auto
    have "memcpy_merge c m d s n w = memcpy_merge c ?m (d + 16) (s + 16) (n - 16) w4"
      using False by (simp add: memcpy_merge.simps [of c m d s n] 1(1) 2(1) 3(1) 4(1))
    then show ?thesis
      using less.IH [OF _ fwd_step [OF f] c 4(2)] False
      by (intro advance_fwd [OF f, of 16]) simp_all
  qed
qed

lemma memcpy_tails_fwd:
  assumes "fwd m d s n" and "k \<le> n" and "n - k < 32"
  shows "do { (m, d, s) \<leftarrow> memcpy_tail (moved m d s k) (d + k) (s + k) (n - k) 4;
              (m, d, s) \<leftarrow> memcpy_tail m d s (n - k) 3;
              (m, d, s) \<leftarrow> memcpy_tail m d s (n - k) 2;
              (m, d, s) \<leftarrow> memcpy_tail m d s (n - k) 1;
              (m, d, s) \<leftarrow> memcpy_tail m d s (n - k) 0;
              Some m } = Some (moved m d s n)"
proof -
  let ?x = "n - k"
  define k4 where "k4 = k + 16 * of_bool (bit ?x 4)"
  define k3 where "k3 = k4 + 8 * of_bool (bit ?x 3)"
  define k2 where "k2 = k3 + 4 * of_bool (bit ?x 2)"
  define k1 where "k1 = k2 + 2 * of_bool (bit ?x 1)"
  have n: "n = k1 + of_bool (bit ?x 0)"
    using nat_low_bits(2) [OF assms(3)] assms(2) unfolding k1_def k2_def k3_def k4_def by linarith
  have le: "k4 \<le> n" "k3 \<le> n" "k2 \<le> n" "k1 \<le> n" using n unfolding k1_def k2_def k3_def by simp_all
  have "memcpy_tail (moved m d s k) (d + k) (s + k) ?x 4 = Some (moved m d s k4, d + k4, s + k4)"
    using tail_stage [OF assms(1), of k 4 ?x] le(1) by (simp add: k4_def Let_def)
  moreover have "memcpy_tail (moved m d s k4) (d + k4) (s + k4) ?x 3 = Some (moved m d s k3, d + k3, s + k3)"
    using tail_stage [OF assms(1), of k4 3 ?x] le(2) by (simp add: k3_def Let_def)
  moreover have "memcpy_tail (moved m d s k3) (d + k3) (s + k3) ?x 2 = Some (moved m d s k2, d + k2, s + k2)"
    using tail_stage [OF assms(1), of k3 2 ?x] le(3) by (simp add: k2_def Let_def)
  moreover have "memcpy_tail (moved m d s k2) (d + k2) (s + k2) ?x 1 = Some (moved m d s k1, d + k1, s + k1)"
    using tail_stage [OF assms(1), of k2 1 ?x] le(4) by (simp add: k1_def Let_def)
  moreover have "memcpy_tail (moved m d s k1) (d + k1) (s + k1) ?x 0 = Some (moved m d s n, d + n, s + n)"
    using tail_stage [OF assms(1), of k1 0 ?x] n by (simp add: Let_def)
  ultimately show ?thesis by (simp only: Option.bind.bind_lunit prod.case)
qed

lemma memcpy_fwd:
  assumes "fwd m d s n"
  shows "memcpy m d s n = Some (moved m d s n)"
proof -
  from memcpy_head_fwd [OF assms] obtain k where k: "k \<le> n"
    and head: "memcpy_head m d s n = Some (moved m d s k, d + k, s + k, n - k)" by blast
  define M D S N where "M = moved m d s k" and "D = d + k" and "S = s + k" and "N = n - k"
  have f: "fwd M D S N" and fin: "moved M D S N = moved m d s n"
    using fwd_step [OF assms k] moved_step [OF assms k] by (simp_all add: M_def D_def S_def N_def)
  note defs = M_def [symmetric] D_def [symmetric] S_def [symmetric] N_def [symmetric]
  show ?thesis
  proof (cases "D mod 4 = 0")
    case True
    then show ?thesis by (simp add: memcpy_def head defs memcpy_aligned_fwd [OF f] fin)
  next
    case False
    let ?c = "D mod 4"
    let ?j = "4 - ?c"
    have rest: "\<exists>k \<le> N. (if N \<ge> 32 then
        do { w \<leftarrow> load32 M S; m \<leftarrow> copy_bytes M D S ?j;
             memcpy_merge ?c m (D + ?j) (S + ?j) (N - ?j) w }
        else Some (M, D, S, N)) = Some (moved M D S k, D + k, S + k, N - k) \<and> N - k < 32"
    proof (cases "N \<ge> 32")
      case True
      let ?m = "moved M D S ?j" and ?A = "take 4 (drop S M)"
      have "S + 4 \<le> length M" using f True by (auto simp: fwd_def)
      then have ld: "load32 M S = Some (le_word ?A)" and lA: "length ?A = 4" by simp_all
      have "drop ?j ?A = take ?c (drop (S + ?j) ?m)"
        using moved_region [OF f, of ?j ?j ?c] True by (simp add: drop_take add.commute)
      then have w: "carries ?c ?m (S + ?j) (le_word ?A)"
        unfolding carries_def using lA by blast
      have j: "?j \<le> N" and c: "?c < 4" using True by simp_all
      from memcpy_merge_fwd [OF fwd_step [OF f j] c w] obtain k where "k \<le> N - ?j" "N - ?j - k < 16 + ?c"
        "memcpy_merge ?c ?m (D + ?j) (S + ?j) (N - ?j) (le_word ?A) =
          Some (moved ?m (D + ?j) (S + ?j) k, D + ?j + k, S + ?j + k, N - ?j - k)"
        by blast
      moreover have "copy_bytes M D S ?j = Some ?m"
        using True by (intro copy_bytes_fwd fwd_le [OF f]) simp
      moreover have "16 + ?c < 32" using mod_less_divisor [of 4 D] by linarith
      ultimately show ?thesis
        using True ld by (intro advance_fwd [OF f, of ?j]) (auto simp del: copy_bytes.simps)
    next
      case False
      then show ?thesis by (intro exI [of _ 0]) simp
    qed
    then obtain k where k: "k \<le> N" "N - k < 32" and r: "(if N \<ge> 32 then
        do { w \<leftarrow> load32 M S; m \<leftarrow> copy_bytes M D S ?j;
             memcpy_merge ?c m (D + ?j) (S + ?j) (N - ?j) w }
        else Some (M, D, S, N)) = Some (moved M D S k, D + k, S + k, N - k)" by blast
    show ?thesis
      using False unfolding memcpy_def head Let_def
      by (simp only: Option.bind.bind_lunit prod.case defs if_False r memcpy_tails_fwd [OF f k] fin)
  qed
qed

section \<open>memmove with overlapping operands\<close>

lemma forward_head_fwd:
  "fwd m d s n \<Longrightarrow>
   \<exists>k \<le> n. forward_head m d s n = Some (moved m d s k, d + k, s + k, n - k) \<and> True"
proof (induction n arbitrary: m d s)
  case (Suc n)
  show ?case
  proof (cases "d mod 8 = 0")
    case True
    then show ?thesis by (intro exI [of _ 0]) simp
  next
    case False
    have one: "m[d := m ! s] = moved m d s 1"
      using Suc.prems unfolding moved_def fwd_def by (intro update_as_copy) auto
    have "forward_head m d s (Suc n) = forward_head (moved m d s 1) (d + 1) (s + 1) n"
      using False Suc.prems by (auto simp: fwd_def one)
    then show ?thesis
      using Suc.IH [OF fwd_step [OF Suc.prems, of 1, simplified]]
      by (intro advance_fwd [OF Suc.prems, of 1]) simp_all
  qed
qed simp

lemma forward_words_fwd:
  "fwd m d s n \<Longrightarrow>
   \<exists>k \<le> n. forward_words m d s n = Some (moved m d s k, d + k, s + k, n - k) \<and> True"
proof (induction n arbitrary: m d s rule: less_induct)
  case (less n)
  show ?case
  proof (cases "n < 8")
    case True
    then show ?thesis by (intro exI [of _ 0]) (simp add: forward_words.simps [of m d s n])
  next
    case False
    have "do { w \<leftarrow> load64 m s; store64 m d w } = Some (moved m d s 8)"
      using False by (intro word_copy fwd_le [OF less.prems]) simp_all
    then have "forward_words m d s n = forward_words (moved m d s 8) (d + 8) (s + 8) (n - 8)"
      using False by (simp add: forward_words.simps [of m d s n] flip: bind_assoc)
    then show ?thesis
      using less.IH [OF _ fwd_step [OF less.prems]] False
      by (intro advance_fwd [OF less.prems, of 8]) simp_all
  qed
qed

text \<open>Backward copies proceed from the end; \<open>s \<le> d\<close> is what keeps the unread source intact.\<close>

definition bwd :: "mem \<Rightarrow> nat \<Rightarrow> nat \<Rightarrow> nat \<Rightarrow> bool" where
  "bwd m d s n \<longleftrightarrow> s \<le> d \<and> d + n \<le> length m"

definition moved_end :: "mem \<Rightarrow> nat \<Rightarrow> nat \<Rightarrow> nat \<Rightarrow> nat \<Rightarrow> mem" where
  "moved_end m d s n j = mem_write (d + n) (take j (drop (s + n) m)) m"

lemma moved_end_step:
  assumes "bwd m d s (n + j)"
  shows "bwd (moved_end m d s n j) d s n" and "moved (moved_end m d s n j) d s n = moved m d s (n + j)"
proof -
  have len: "length (moved_end m d s n j) = length m"
    using assms by (auto simp: bwd_def moved_end_def mem_simps)
  then show "bwd (moved_end m d s n j) d s n" using assms by (simp add: bwd_def)
  show "moved (moved_end m d s n j) d s n = moved m d s (n + j)"
    using assms len by (intro nth_equalityI) (auto simp: bwd_def moved_def moved_end_def mem_write_nth mem_simps add.commute)
qed

lemma backward_bytes_bwd: "bwd m d s n \<Longrightarrow> backward_bytes m d s n = Some (moved m d s n)"
proof (induction n arbitrary: m)
  case (Suc n)
  have "m[d + n := m ! (s + n)] = moved_end m d s n 1"
    using Suc.prems unfolding moved_end_def bwd_def by (intro update_as_copy) auto
  then show ?case
    using Suc.IH [of "moved_end m d s n 1"] moved_end_step [of m d s n 1] Suc.prems by (auto simp: bwd_def)
qed simp

lemma backward_head_bwd:
  "bwd m d s n \<Longrightarrow> \<exists>m' k. backward_head m d s n = Some (m', k) \<and> bwd m' d s k \<and> moved m' d s k = moved m d s n"
proof (induction n arbitrary: m)
  case (Suc n)
  have "m[d + n := m ! (s + n)] = moved_end m d s n 1"
    using Suc.prems unfolding moved_end_def bwd_def by (intro update_as_copy) auto
  then show ?case
    using Suc.IH [of "moved_end m d s n 1"] moved_end_step [of m d s n 1] Suc.prems by (auto simp: bwd_def)
qed simp

lemma backward_words_bwd:
  "bwd m d s n \<Longrightarrow> \<exists>m' k. backward_words m d s n = Some (m', k) \<and> bwd m' d s k \<and> moved m' d s k = moved m d s n"
proof (induction n arbitrary: m rule: less_induct)
  case (less n)
  show ?case
  proof (cases "n < 8")
    case True
    then show ?thesis using less.prems by (simp add: backward_words.simps [of m d s n])
  next
    case False
    then obtain k where n: "n = k + 8" using le_Suc_ex [of 8 n] by (auto simp: add.commute)
    let ?bs = "take 8 (drop (s + k) m)"
    have len: "s + k + 8 \<le> length m" "d + k + 8 \<le> length m" using less.prems n by (auto simp: bwd_def)
    have "le_bytes 8 (le_word ?bs :: u64) = ?bs" using len by (intro le_bytes_le_word) simp_all
    then have "backward_words m d s n = backward_words (moved_end m d s k 8) d s k"
      using len by (simp add: n backward_words.simps [of m d s "k + 8"] moved_end_def)
    then show ?thesis
      using less.IH [of k "moved_end m d s k 8"] moved_end_step [of m d s k 8] less.prems n by auto
  qed
qed

lemma forward_path:
  assumes f: "fwd m d s n"
  shows "do { (m, d, s, n) \<leftarrow>
               (if s mod 8 = d mod 8 then
                  do { (m, d, s, n) \<leftarrow> forward_head m d s n; forward_words m d s n }
                else Some (m, d, s, n));
             copy_bytes m d s n } = Some (moved m d s n)"
proof -
  from forward_head_fwd [OF f] obtain k where k: "k \<le> n"
    and h: "forward_head m d s n = Some (moved m d s k, d + k, s + k, n - k)" by blast
  from forward_words_fwd [OF fwd_step [OF f k]] advance_fwd [OF f k]
  obtain j where j: "j \<le> n" "forward_words (moved m d s k) (d + k) (s + k) (n - k) =
      Some (moved m d s j, d + j, s + j, n - j)" by blast
  have "copy_bytes (moved m d s j) (d + j) (s + j) (n - j) = Some (moved m d s n)"
    using copy_bytes_fwd [OF fwd_step [OF f j(1)]] moved_step [OF f j(1)] by simp
  then show ?thesis using copy_bytes_fwd [OF f] by (simp add: h j(2))
qed

lemma backward_path:
  assumes b: "bwd m d s n"
  shows "do { (m, n) \<leftarrow>
               (if s mod 8 = d mod 8 then
                  do { (m, n) \<leftarrow> backward_head m d s n; backward_words m d s n }
                else Some (m, n));
             backward_bytes m d s n } = Some (moved m d s n)"
proof -
  from backward_head_bwd [OF b] obtain m1 k where 1: "backward_head m d s n = Some (m1, k)"
    "bwd m1 d s k" "moved m1 d s k = moved m d s n" by blast
  from backward_words_bwd [OF 1(2)] obtain m2 j where 2: "backward_words m1 d s k = Some (m2, j)"
    "bwd m2 d s j" "moved m2 d s j = moved m1 d s k" by blast
  show ?thesis using backward_bytes_bwd [OF b] backward_bytes_bwd [OF 2(2)]
    by (simp add: 1(1) 2(1)) (simp add: 1(3) 2(3))
qed

lemma apart_test:
  assumes "s + n \<le> 2 ^ 63" and "d + n \<le> 2 ^ 63" and "0 < n"
  shows "(of_nat s - of_nat d - of_nat n :: u64) \<le> - 2 * of_nat n \<longleftrightarrow> d + n \<le> s \<or> s + n \<le> d"
proof -
  let ?D = "int s - int d - int n"
  have "(- 2 * of_nat n :: u64) = word_of_int (2 ^ 64 - 2 * int n)" by simp
  then have "uint (- 2 * of_nat n :: u64) = (2 ^ 64 - 2 * int n) mod 2 ^ LENGTH(64)"
    by (simp only: uint_word_of_int)
  also have "\<dots> = 2 ^ 64 - 2 * int n"
    unfolding len_num0 len_bit0 len_num1 using assms by (intro mod_pos_pos_trivial) auto
  finally have r: "uint (- 2 * of_nat n :: u64) = 2 ^ 64 - 2 * int n" .
  have "(of_nat s - of_nat d - of_nat n :: u64) = word_of_int ?D" by simp
  then have "uint (of_nat s - of_nat d - of_nat n :: u64) = ?D mod 2 ^ 64"
    by (simp only: uint_word_of_int take_bit_eq_mod) simp
  also have "\<dots> = (if 0 \<le> ?D then ?D else ?D + 2 ^ 64)"
  proof (cases "0 \<le> ?D")
    case False
    then have "?D mod 2 ^ 64 = (?D + 2 ^ 64) mod 2 ^ 64" by simp
    also have "\<dots> = ?D + 2 ^ 64" using False assms by (intro mod_pos_pos_trivial) auto
    finally show ?thesis using False by simp
  qed (use assms in \<open>simp add: mod_pos_pos_trivial\<close>)
  finally show ?thesis using assms unfolding word_le_def r by auto
qed

text \<open>
  C8.  \<open>memmove\<close> copies correctly whatever the overlap of its operands: for every position of
  source and destination inside a memory of at most $2^{63}$ bytes, the destination holds the bytes
  the source had before the call, every other byte is unchanged and no access is out of bounds.
\<close>

theorem memmove_correct:
  assumes "s + n \<le> length m" and "d + n \<le> length m" and "length m \<le> 2 ^ 63"
  shows "memmove m d s n = Some (mem_write d (take n (drop s m)) m)"
proof -
  have "memmove m d s n = Some (moved m d s n)"
  proof (cases "d = s \<or> n = 0")
    case True
    have "moved m s s n = m"
      using assms by (intro nth_equalityI) (auto simp: moved_def mem_write_nth mem_simps)
    moreover have "n = 0 \<Longrightarrow> memcpy m d s n = Some m" using assms memcpy_fwd [of m d s 0] linear [of d s] by (simp add: fwd_def)
    ultimately show ?thesis
      using True by (auto simp: memmove_def forward_words.simps backward_words.simps)
  next
    case False
    then have test: "(of_nat s - of_nat d - of_nat n :: u64) \<le> - 2 * of_nat n \<longleftrightarrow> d + n \<le> s \<or> s + n \<le> d"
      using assms by (intro apart_test) auto
    consider "d + n \<le> s \<or> s + n \<le> d" | "\<not> (d + n \<le> s \<or> s + n \<le> d)" "d < s" | "\<not> (d + n \<le> s \<or> s + n \<le> d)" "s < d"
      using False by linarith
    then show ?thesis
    proof cases
      case 1
      then have "fwd m d s n" using assms by (auto simp: fwd_def)
      then show ?thesis using False 1 test by (simp add: memmove_def memcpy_fwd)
    next
      case 2
      then show ?thesis using assms False test by (simp add: memmove_def forward_path [unfolded fwd_def])
    next
      case 3
      then show ?thesis using assms False test by (simp add: memmove_def backward_path [unfolded bwd_def])
    qed
  qed
  then show ?thesis by (simp only: moved_def)
qed

theorem memmove_correct_witness:
  "memmove [1, 2, 3, 4, 5, 6] 1 0 4 = Some [1, 1, 2, 3, 4, 6]"
  using memmove_correct [of 0 4 "[1, 2, 3, 4, 5, 6]" 1] by (simp add: mem_write_def)

text \<open>
  C9.  \<open>memcpy\<close>, with its aligned, word and shift-and-merge paths, copies exactly \<open>n\<close> bytes for
  operands that do not overlap, at any alignment and length.
\<close>

theorem memcpy_correct:
  assumes "s + n \<le> length m" and "d + n \<le> length m" and "d + n \<le> s \<or> s + n \<le> d"
  shows "memcpy m d s n = Some (mem_write d (take n (drop s m)) m)"
proof -
  have "fwd m d s n" using assms by (auto simp: fwd_def)
  then show ?thesis using memcpy_fwd [of m d s n] by (simp add: moved_def)
qed

theorem memcpy_correct_witness:
  "memcpy ([1, 2, 3, 4, 5, 6] @ replicate 6 0) 7 1 5 = Some [1, 2, 3, 4, 5, 6, 0, 2, 3, 4, 5, 6]"
  using memcpy_correct [of 1 5 "[1, 2, 3, 4, 5, 6] @ replicate 6 0" 7]
  by (simp add: mem_write_def numeral_eq_Suc)

section \<open>Correctness of memset\<close>

definition filled :: "mem \<Rightarrow> byte \<Rightarrow> nat set \<Rightarrow> mem" where
  "filled m c A = map (\<lambda>i. if i \<in> A then c else m ! i) [0..<length m]"

named_theorems fill_simps

lemma length_filled [simp]: "length (filled m c A) = length m"
  by (simp add: filled_def)

lemma filled_empty: "filled m c {} = m"
  by (simp add: filled_def map_nth)

lemma filled_region: "d + n \<le> length m \<Longrightarrow> filled m c {d..<d + n} = mem_write d (replicate n c) m"
  by (intro nth_equalityI) (auto simp: filled_def mem_write_nth mem_simps)

lemma store_filled [fill_simps]:
  "a < length m \<Longrightarrow> store (filled m c A) a c = Some (filled m c (A \<union> {a}))"
  by (auto simp: filled_def nth_list_update intro: nth_equalityI)

lemma storew_filled [fill_simps]:
  assumes "a + k \<le> length m" and "le_bytes k w = replicate k c"
  shows "storew k (filled m c A) a w = Some (filled m c (A \<union> {a..<a + k}))"
  using assms by (auto simp: filled_def mem_write_nth mem_simps intro!: nth_equalityI)

lemma le_word_c32: "0xffffffff div 255 * (ucast c :: u32) = le_word (replicate 4 c)"
proof -
  have "(0xffffffff div 255 :: u32) = 0x01010101" by code_simp
  then show ?thesis by (simp add: le_word_of_int numeral_eq_Suc)
qed

lemma le_word_c64:
  "ucast (le_word (replicate 4 c) :: u32) OR push_bit 32 (ucast (le_word (replicate 4 c) :: u32)) =
   (le_word (replicate 8 c) :: u64)"
proof (rule bit_word_eqI)
  fix n assume "n < LENGTH(64)"
  then have n: "n < 64" by simp
  show "bit (ucast (le_word (replicate 4 c) :: u32) OR push_bit 32 (ucast (le_word (replicate 4 c) :: u32)) :: u64) n =
    bit (le_word (replicate 8 c) :: u64) n"
  proof (cases "n < 32")
    case True
    then have "n div 8 < 4" by simp
    then show ?thesis using True n
      by (simp add: bit_or_iff bit_ucast_iff bit_push_bit_iff bit_le_word)
  next
    case False
    then obtain j where j: "n = 32 + j" using le_Suc_ex linorder_not_less by blast
    have "j div 8 < 4" using n j by simp
    moreover have "(32 + j) div 8 = 4 + j div 8" "(32 + j) mod 8 = j mod 8" by presburger+
    ultimately show ?thesis using n
      by (simp add: j bit_or_iff bit_ucast_iff bit_push_bit_iff bit_le_word)
  qed
qed

lemma memset_loop_filled:
  assumes "le_bytes 8 c64 = replicate 8 c"
  shows "s + n \<le> length m \<Longrightarrow>
    memset_loop (filled m c A) s n c64 = Some (filled m c (A \<union> {s..<s + (n - n mod 32)}))"
proof (induction n arbitrary: s A rule: less_induct)
  case (less n)
  show ?case
  proof (cases "n < 32")
    case True
    then show ?thesis by (simp add: memset_loop.simps [of _ s n])
  next
    case False
    let ?A = "A \<union> {s..<s + 8} \<union> {s + 8..<s + 8 + 8} \<union> {s + 16..<s + 16 + 8} \<union> {s + 24..<s + 24 + 8}"
    have "memset_loop (filled m c A) s n c64 = memset_loop (filled m c ?A) (s + 32) (n - 32) c64"
      using False less.prems assms by (simp add: memset_loop.simps [of _ s n] storew_filled del: storew_Some)
    also have "\<dots> = Some (filled m c (?A \<union> {s + 32..<s + 32 + (n - 32 - (n - 32) mod 32)}))"
      using less.IH [of "n - 32" "s + 32" ?A] False less.prems by simp
    also have "?A \<union> {s + 32..<s + 32 + (n - 32 - (n - 32) mod 32)} = A \<union> {s..<s + (n - n mod 32)}"
      using False mod_less_eq_dividend [of "n - 32" 32] le_mod_geq [of 32 n] by auto
    finally show ?thesis .
  qed
qed

lemma memset_cover:
  fixes n :: nat
  assumes "28 \<le> n" and "r \<le> 28" and "k \<le> 28"
  shows "{s..<s + n} =
    ({s..<s + 4} \<union> {s + 4..<8 + s} \<union> {s + 8..<12 + s} \<union> {s + 12..<16 + s} \<union>
     {s + 16..<20 + s} \<union> {s + 20..<24 + s} \<union> {s + 24..<28 + s}) \<union>
    ({s + n - 28..<s + n - 24} \<union> {s + n - 24..<s + n - 20} \<union> {s + n - 20..<s + n - 16} \<union>
     {s + n - 16..<s + n - 12} \<union> {s + n - 12..<s + n - 8} \<union> {s + n - 8..<s + n - 4} \<union> {s + n - 4..<s + n}) \<union>
    {s + k..<s + n - r}"
proof -
  have "{s..<s + 4} \<union> {s + 4..<8 + s} \<union> {s + 8..<12 + s} \<union> {s + 12..<16 + s} \<union>
     {s + 16..<20 + s} \<union> {s + 20..<24 + s} \<union> {s + 24..<28 + s} = {s..<s + 28}" by auto
  moreover have "{s + n - 28..<s + n - 24} \<union> {s + n - 24..<s + n - 20} \<union> {s + n - 20..<s + n - 16} \<union>
     {s + n - 16..<s + n - 12} \<union> {s + n - 12..<s + n - 8} \<union> {s + n - 8..<s + n - 4} \<union> {s + n - 4..<s + n} =
     {s + n - 28..<s + n}" using assms by auto
  moreover have "{s..<s + n} = {s..<s + 28} \<union> {s + n - 28..<s + n} \<union> {s + k..<s + n - r}"
    using assms by auto
  ultimately show ?thesis by (simp only:)
qed

lemma memset_words_filled:
  assumes "s + n \<le> length m" and "4 \<le> n" and "n mod 4 = 0"
  shows "memset_words (filled m c A) s n c = Some (filled m c (A \<union> {s..<s + n}))"
proof -
  define w where "w = 0xffffffff div 255 * (ucast c :: u32)"
  have c32: "le_bytes 4 w = replicate 4 c"
    unfolding w_def le_word_c32 by (rule le_bytes_le_word) simp_all
  have c64: "le_bytes 8 (ucast w OR push_bit 32 (ucast w) :: u64) = replicate 8 c"
    unfolding w_def le_word_c32 le_word_c64 by (rule le_bytes_le_word) simp_all
  note st = storew_filled [OF _ c32, of _ m] and lp = memset_loop_filled [OF c64]
  consider "n \<le> 8" | "8 < n" "n \<le> 24" | "24 < n" by linarith
  then show ?thesis
  proof cases
    case 1
    have "{s..<s + 4} \<union> {s + n - 4..<s + n - 4 + 4} = {s..<s + n}" using 1 assms by auto
    then show ?thesis
      using 1 assms unfolding memset_words_def w_def [symmetric] Let_def
      by (simp add: st Un_assoc del: storew_Some)
  next
    case 2
    then have n: "12 \<le> n" using assms(3) by presburger
    then have "{s..<s + 4} \<union> ({s + n - 4..<s + n - 4 + 4} \<union> ({s + 4..<s + 4 + 4} \<union> ({s + 8..<s + 8 + 4} \<union>
      ({s + n - 12..<s + n - 12 + 4} \<union> {s + n - 8..<s + n - 8 + 4})))) = {s..<s + n}" using 2 assms by auto
    then show ?thesis
      using 2 n assms unfolding memset_words_def w_def [symmetric] Let_def
      by (simp add: st Un_assoc del: storew_Some)
  next
    case 3
    have n: "28 \<le> n" using 3 assms(3) by presburger
    have "x mod 32 \<le> 28" if "4 dvd x" for x :: nat using that by presburger
    moreover have "4 dvd n - 28" "4 dvd n - 24" using assms(3) by (simp_all add: mod_eq_0_iff_dvd dvd_diff_nat)
    ultimately have r: "(n - 28) mod 32 \<le> 28" "(n - 24) mod 32 \<le> 28" by blast+
    show ?thesis
    proof (cases "bit s 2")
      case True
      show ?thesis
        using 3 n True assms(1) unfolding memset_words_def w_def [symmetric] Let_def
        by (simp add: st lp Un_assoc del: storew_Some)
          (subst memset_cover [OF n r(1) order_refl], blast intro: arg_cong [of _ _ "filled m c"])
    next
      case False
      have "24 \<le> (28 :: nat)" by simp
      note cover = memset_cover [OF n r(2) this]
      show ?thesis
        using 3 n False assms(1) unfolding memset_words_def w_def [symmetric] Let_def
        by (simp add: st lp Un_assoc del: storew_Some)
          (subst cover, blast intro: arg_cong [of _ _ "filled m c"])
    qed
  qed
qed

lemma memset_middle:
  assumes "s + n \<le> length m" and "8 < n" and "k \<le> 3"
  shows "memset_words (filled m c A) (s + k) (n - k - (n - k) mod 4) c =
    Some (filled m c (A \<union> {s + k..<s + n - (n - k) mod 4}))"
proof -
  define r where "r = (n - k) mod 4"
  have r: "r \<le> 3" unfolding r_def by simp
  have z: "(n - k - r) mod 4 = 0" unfolding r_def by (simp add: minus_mod_eq_mult_div)
  have ge: "4 \<le> x" if "x mod 4 = 0" "3 \<le> x" for x :: nat using that by presburger
  have "4 \<le> n - k - r" by (rule ge [OF z]) (use assms r in auto)
  moreover have "s + k + (n - k - r) \<le> length m" and "s + k + (n - k - r) = s + n - r"
    using assms r by auto
  ultimately show ?thesis
    unfolding r_def [symmetric] using memset_words_filled [of "s + k" "n - k - r" m c A] z by simp
qed

lemma memset_ends:
  fixes n k r :: nat
  assumes "8 < n" and "k \<le> 3" and "r \<le> 3"
  shows "{s} \<union> {s + n - 1} \<union> {s + 1} \<union> {s + 2} \<union> {s + n - 2} \<union> {s + n - 3} \<union> {s + 3} \<union> {s + n - 4} \<union>
    {s + k..<s + n - r} = {s..<s + n}"
proof -
  have "{s} \<union> {s + n - 1} \<union> {s + 1} \<union> {s + 2} \<union> {s + n - 2} \<union> {s + n - 3} \<union> {s + 3} \<union> {s + n - 4} =
      {s..<s + 4} \<union> {s + n - 4..<s + n}" using assms by auto
  moreover have "{s..<s + 4} \<union> {s + n - 4..<s + n} \<union> {s + k..<s + n - r} = {s..<s + n}"
    using assms by auto
  ultimately show ?thesis by (simp only:)
qed

lemma memset_spec:
  assumes "s + n \<le> length m"
  shows "memset m s c n = Some (mem_write s (replicate n c) m)"
proof -
  have "memset (filled m c {}) s c n = Some (filled m c {s..<s + n})"
  proof (cases "n \<le> 8")
    case True
    have eq: "A = {s..<s + n} \<Longrightarrow> filled m c A = filled m c {s..<s + n}" for A by simp
    show ?thesis
      using True assms by (simp add: memset_def store_filled del: store_Some) (auto intro!: eq)
  next
    case False
    define k where "k = (4 - s mod 4) mod 4"
    have k: "k \<le> 3" unfolding k_def by simp
    let ?A = "{} \<union> {s} \<union> {s + n - 1} \<union> {s + 1} \<union> {s + 2} \<union> {s + n - 2} \<union> {s + n - 3} \<union> {s + 3} \<union> {s + n - 4}"
    have "memset (filled m c {}) s c n =
        memset_words (filled m c ?A) (s + k) (n - k - (n - k) mod 4) c"
      using False assms unfolding memset_def k_def [symmetric] Let_def
      by (simp add: store_filled del: store_Some Un_insert_right)
    also have "\<dots> = Some (filled m c (?A \<union> {s + k..<s + n - (n - k) mod 4}))"
      using assms False k by (intro memset_middle) auto
    also have "?A \<union> {s + k..<s + n - (n - k) mod 4} = {s..<s + n}"
      using memset_ends [of n k "(n - k) mod 4" s] False k by simp
    finally show ?thesis .
  qed
  then show ?thesis using assms by (simp add: filled_empty filled_region)
qed

text \<open>
  C10.  \<open>memset\<close> writes exactly the \<open>n\<close> bytes of its operand, for every length and alignment: the
  head and tail stores and the 32-byte loop together leave no byte out and none outside.
\<close>

theorem memset_correct:
  assumes "s + n \<le> length m"
  shows "memset m s c n = Some (mem_write s (replicate n c) m)"
  using assms by (rule memset_spec)

theorem memset_correct_witness:
  "memset (replicate 64 1) 3 0 50 = Some (replicate 3 1 @ replicate 50 0 @ replicate 11 1)"
  using memset_correct [of 3 50 "replicate 64 1" 0] by (simp add: mem_write_def)

end
