(* ===== verification/Musl_String.thy ===== *)
theory Musl_String
  imports Musl_Memops
begin

text \<open>
  The string functions of musl (\<^verbatim>\<open>src/string\<close>), on the memory of \<open>C_Memory\<close>.

  A pointer is an address, a pointer that may be \<^verbatim>\<open>NULL\<close> an \<open>option\<close>; a routine returns
  \<open>None\<close> when it would access memory out of bounds.  \<open>cstr m s\<close> is the string at \<open>s\<close> and
  \<open>terminated m s\<close> says that its terminator is inside the memory.  The word-at-a-time routines
  read whole aligned words past the terminator: that this never leaves the memory is part of each
  theorem, under the hypothesis that the memory ends on a word boundary (pages do).
\<close>

unbundle bit_operations_syntax

definition cstr :: "mem \<Rightarrow> nat \<Rightarrow> byte list" where
  "cstr m s = takeWhile (\<lambda>b. b \<noteq> 0) (drop s m)"

definition terminated :: "mem \<Rightarrow> nat \<Rightarrow> bool" where
  "terminated m s \<longleftrightarrow> 0 \<in> set (drop s m)"

named_theorems string_simps

lemma Suc_8: "Suc (Suc (Suc (Suc (Suc (Suc (Suc (Suc 0))))))) = 8"
  by simp

section \<open>Lengths and searches\<close>

definition strlen :: "mem \<Rightarrow> nat \<Rightarrow> nat option" where
  "strlen m a =
     do { s \<leftarrow> scan_align (\<lambda>b. b \<noteq> 0) m a;
          if s mod 8 \<noteq> 0 then Some (s - a)
          else do { w \<leftarrow> scan_words (\<lambda>w. \<not> haszero w) m s;
                    s \<leftarrow> scan (\<lambda>b. b \<noteq> 0) m w;
                    Some (s - a) } }"

definition memchr :: "mem \<Rightarrow> nat \<Rightarrow> byte \<Rightarrow> nat \<Rightarrow> nat option option" where
  "memchr m s c n =
     do { (s, n) \<leftarrow> scan_align_n (\<lambda>b. b \<noteq> c) m s n;
          (s, n) \<leftarrow>
            (if n = 0 then Some (s, n)
             else do { b \<leftarrow> load m s;
                       if b \<noteq> c then scan_words_n (\<lambda>w. \<not> haszero (w XOR ONES * ucast c)) m s n
                       else Some (s, n) });
          (s, n) \<leftarrow> scan_n (\<lambda>b. b \<noteq> c) m s n;
          Some (if n \<noteq> 0 then Some s else None) }"

definition strnlen :: "mem \<Rightarrow> nat \<Rightarrow> nat \<Rightarrow> nat option" where
  "strnlen m s n =
     do { p \<leftarrow> memchr m s 0 n;
          Some (case p of Some p \<Rightarrow> p - s | None \<Rightarrow> n) }"

definition strchrnul :: "mem \<Rightarrow> nat \<Rightarrow> byte \<Rightarrow> nat option" where
  "strchrnul m s c =
     (if c = 0 then do { l \<leftarrow> strlen m s; Some (s + l) }
      else do { s \<leftarrow> scan_align (\<lambda>b. b \<noteq> 0 \<and> b \<noteq> c) m s;
                if s mod 8 \<noteq> 0 then Some s
                else do { w \<leftarrow> scan_words (\<lambda>w. \<not> haszero w \<and> \<not> haszero (w XOR ONES * ucast c)) m s;
                          scan (\<lambda>b. b \<noteq> 0 \<and> b \<noteq> c) m w } })"

definition strchr :: "mem \<Rightarrow> nat \<Rightarrow> byte \<Rightarrow> nat option option" where
  "strchr m s c =
     do { r \<leftarrow> strchrnul m s c;
          b \<leftarrow> load m r;
          Some (if b = c then Some r else None) }"

fun memrchr :: "mem \<Rightarrow> nat \<Rightarrow> byte \<Rightarrow> nat \<Rightarrow> nat option option" where
  "memrchr m s c 0 = Some None"
| "memrchr m s c (Suc n) =
     do { b \<leftarrow> load m (s + n);
          if b = c then Some (Some (s + n)) else memrchr m s c n }"

definition strrchr :: "mem \<Rightarrow> nat \<Rightarrow> byte \<Rightarrow> nat option option" where
  "strrchr m s c = do { l \<leftarrow> strlen m s; memrchr m s c (l + 1) }"

section \<open>Comparisons\<close>

function strcmp :: "mem \<Rightarrow> nat \<Rightarrow> nat \<Rightarrow> int option" where
  "strcmp m l r =
     do { a \<leftarrow> load m l; b \<leftarrow> load m r;
          if a = b \<and> a \<noteq> 0 then strcmp m (Suc l) (Suc r) else Some (uint a - uint b) }"
  by pat_completeness auto
termination
  by (relation "measure (\<lambda>(m, l, r). length m - l)") (auto dest: load_eq_SomeD)

fun strncmp_loop :: "mem \<Rightarrow> nat \<Rightarrow> nat \<Rightarrow> nat \<Rightarrow> int option" where
  "strncmp_loop m l r n =
     do { a \<leftarrow> load m l; b \<leftarrow> load m r;
          if a \<noteq> 0 \<and> b \<noteq> 0 \<and> n \<noteq> 0 \<and> a = b then strncmp_loop m (Suc l) (Suc r) (n - 1)
          else Some (uint a - uint b) }"

definition strncmp :: "mem \<Rightarrow> nat \<Rightarrow> nat \<Rightarrow> nat \<Rightarrow> int option" where
  "strncmp m l r n = (if n = 0 then Some 0 else strncmp_loop m l r (n - 1))"

fun memcmp :: "mem \<Rightarrow> nat \<Rightarrow> nat \<Rightarrow> nat \<Rightarrow> int option" where
  "memcmp m l r 0 = Some 0"
| "memcmp m l r (Suc n) =
     do { a \<leftarrow> load m l; b \<leftarrow> load m r;
          if a = b then memcmp m (Suc l) (Suc r) n else Some (uint a - uint b) }"

declare strcmp.simps [simp del] strncmp_loop.simps [simp del]

section \<open>Spans\<close>

definition bitop_set :: "u64 list \<Rightarrow> byte \<Rightarrow> u64 list" where
  "bitop_set a b = a[unat b div 64 := a ! (unat b div 64) OR push_bit (unat b mod 64) 1]"

definition bitop_test :: "u64 list \<Rightarrow> byte \<Rightarrow> bool" where
  "bitop_test a b \<longleftrightarrow> a ! (unat b div 64) AND push_bit (unat b mod 64) 1 \<noteq> 0"

function byteset_fill :: "mem \<Rightarrow> nat \<Rightarrow> u64 list \<Rightarrow> u64 list option" where
  "byteset_fill m c a =
     do { b \<leftarrow> load m c;
          if b = 0 then Some a
          else let a = bitop_set a b in
            if a ! (unat b div 64) \<noteq> 0 then byteset_fill m (Suc c) a else Some a }"
  by pat_completeness auto
termination
  by (relation "measure (\<lambda>(m, c, a). length m - c)") (auto dest: load_eq_SomeD)

declare byteset_fill.simps [simp del]

definition strspn :: "mem \<Rightarrow> nat \<Rightarrow> nat \<Rightarrow> nat option" where
  "strspn m s c =
     do { c0 \<leftarrow> load m c;
          if c0 = 0 then Some 0
          else do { c1 \<leftarrow> load m (c + 1);
            if c1 = 0 then do { e \<leftarrow> scan (\<lambda>b. b = c0) m s; Some (e - s) }
            else do { a \<leftarrow> byteset_fill m c (replicate 4 0);
                      e \<leftarrow> scan (\<lambda>b. b \<noteq> 0 \<and> bitop_test a b) m s;
                      Some (e - s) } } }"

definition strcspn :: "mem \<Rightarrow> nat \<Rightarrow> nat \<Rightarrow> nat option" where
  "strcspn m s c =
     do { c0 \<leftarrow> load m c;
          single \<leftarrow> (if c0 = 0 then Some True else do { c1 \<leftarrow> load m (c + 1); Some (c1 = 0) });
          if single then do { e \<leftarrow> strchrnul m s c0; Some (e - s) }
          else do { a \<leftarrow> byteset_fill m c (replicate 4 0);
                    e \<leftarrow> scan (\<lambda>b. b \<noteq> 0 \<and> \<not> bitop_test a b) m s;
                    Some (e - s) } }"

definition strpbrk :: "mem \<Rightarrow> nat \<Rightarrow> nat \<Rightarrow> nat option option" where
  "strpbrk m s b =
     do { k \<leftarrow> strcspn m s b;
          x \<leftarrow> load m (s + k);
          Some (if x \<noteq> 0 then Some (s + k) else None) }"

section \<open>Tokens\<close>

definition strtok :: "mem \<times> nat option \<Rightarrow> nat option \<Rightarrow> nat \<Rightarrow> ((mem \<times> nat option) \<times> nat option) option" where
  "strtok st s sep =
     (let (m, p) = st in
      case (case s of None \<Rightarrow> p | Some s \<Rightarrow> Some s) of
        None \<Rightarrow> Some ((m, p), None)
      | Some s \<Rightarrow>
          do { k \<leftarrow> strspn m s sep;
               let s = s + k;
               b \<leftarrow> load m s;
               if b = 0 then Some ((m, None), None)
               else do { k \<leftarrow> strcspn m s sep;
                         let p = s + k;
                         b \<leftarrow> load m p;
                         if b \<noteq> 0 then do { m \<leftarrow> store m p 0; Some ((m, Some (p + 1)), Some s) }
                         else Some ((m, None), Some s) } })"

definition strsep :: "mem \<Rightarrow> nat option \<Rightarrow> nat \<Rightarrow> (mem \<times> nat option \<times> nat option) option" where
  "strsep m str sep =
     (case str of
        None \<Rightarrow> Some (m, None, None)
      | Some s \<Rightarrow>
          do { k \<leftarrow> strcspn m s sep;
               let e = s + k;
               b \<leftarrow> load m e;
               if b \<noteq> 0 then do { m \<leftarrow> store m e 0; Some (m, Some (e + 1), Some s) }
               else Some (m, None, Some s) })"

section \<open>Copies\<close>

function copy_all :: "(byte \<Rightarrow> bool) \<Rightarrow> mem \<Rightarrow> nat \<Rightarrow> nat \<Rightarrow> (mem \<times> nat) option" where
  "copy_all P m d s =
     do { b \<leftarrow> load m s; m \<leftarrow> store m d b;
          if P b then copy_all P m (Suc d) (Suc s) else Some (m, d) }"
  by pat_completeness auto
termination
  by (relation "measure (\<lambda>(P, m, d, s). length m - s)")
    (auto dest: load_eq_SomeD simp: store_def split: if_splits)

function copy_align :: "(byte \<Rightarrow> bool) \<Rightarrow> mem \<Rightarrow> nat \<Rightarrow> nat \<Rightarrow> (mem \<times> nat \<times> nat) option" where
  "copy_align P m d s =
     (if s mod 8 = 0 then Some (m, d, s)
      else do { b \<leftarrow> load m s; m \<leftarrow> store m d b;
                if P b then copy_align P m (Suc d) (Suc s) else Some (m, d, s) })"
  by pat_completeness auto
termination
  by (relation "measure (\<lambda>(P, m, d, s). length m - s)")
    (auto dest: load_eq_SomeD simp: store_def split: if_splits)

function copy_words :: "(u64 \<Rightarrow> bool) \<Rightarrow> mem \<Rightarrow> nat \<Rightarrow> nat \<Rightarrow> (mem \<times> nat \<times> nat) option" where
  "copy_words Q m d s =
     do { w \<leftarrow> load64 m s;
          if Q w then do { m \<leftarrow> store64 m d w; copy_words Q m (d + 8) (s + 8) }
          else Some (m, d, s) }"
  by pat_completeness auto
termination
  by (relation "measure (\<lambda>(Q, m, d, s). length m - s)")
    (auto simp: loadw_def storew_def mem_write_def split: if_splits)

declare copy_all.simps [simp del] copy_align.simps [simp del] copy_words.simps [simp del]

definition stpcpy :: "mem \<Rightarrow> nat \<Rightarrow> nat \<Rightarrow> (mem \<times> nat) option" where
  "stpcpy m d s =
     (if s mod 8 = d mod 8 then
        do { (m, d, s) \<leftarrow> copy_align (\<lambda>b. b \<noteq> 0) m d s;
             if s mod 8 \<noteq> 0 then Some (m, d)
             else do { (m, d, s) \<leftarrow> copy_words (\<lambda>w. \<not> haszero w) m d s;
                       copy_all (\<lambda>b. b \<noteq> 0) m d s } }
      else copy_all (\<lambda>b. b \<noteq> 0) m d s)"

definition strcpy :: "mem \<Rightarrow> nat \<Rightarrow> nat \<Rightarrow> (mem \<times> nat) option" where
  "strcpy m d s = do { (m, _) \<leftarrow> stpcpy m d s; Some (m, d) }"

definition strcat :: "mem \<Rightarrow> nat \<Rightarrow> nat \<Rightarrow> (mem \<times> nat) option" where
  "strcat m dest src =
     do { l \<leftarrow> strlen m dest; (m, _) \<leftarrow> strcpy m (dest + l) src; Some (m, dest) }"

fun strncat_loop :: "mem \<Rightarrow> nat \<Rightarrow> nat \<Rightarrow> nat \<Rightarrow> (mem \<times> nat) option" where
  "strncat_loop m d s 0 = Some (m, d)"
| "strncat_loop m d s (Suc n) =
     do { b \<leftarrow> load m s;
          if b \<noteq> 0 then do { m \<leftarrow> store m d b; strncat_loop m (Suc d) (Suc s) n }
          else Some (m, d) }"

definition strncat :: "mem \<Rightarrow> nat \<Rightarrow> nat \<Rightarrow> nat \<Rightarrow> (mem \<times> nat) option" where
  "strncat m d s n =
     do { l \<leftarrow> strlen m d;
          (m, e) \<leftarrow> strncat_loop m (d + l) s n;
          m \<leftarrow> store m e 0;
          Some (m, d) }"

definition stpncpy :: "mem \<Rightarrow> nat \<Rightarrow> nat \<Rightarrow> nat \<Rightarrow> (mem \<times> nat) option" where
  "stpncpy m d s n =
     do { (m, d, n) \<leftarrow>
            (if s mod 8 = d mod 8 then
               do { (m, d, s, n) \<leftarrow> copy_align_n (\<lambda>b. b \<noteq> 0) m d s n;
                    at_end \<leftarrow> (if n = 0 then Some True else do { b \<leftarrow> load m s; Some (b = 0) });
                    if at_end then Some (m, d, n)
                    else do { (m, d, s, n) \<leftarrow> copy_words_n (\<lambda>w. \<not> haszero w) m d s n;
                              (m, d, s, n) \<leftarrow> copy_n (\<lambda>b. b \<noteq> 0) m d s n;
                              Some (m, d, n) } }
             else do { (m, d, s, n) \<leftarrow> copy_n (\<lambda>b. b \<noteq> 0) m d s n; Some (m, d, n) });
          m \<leftarrow> memset m d 0 n;
          Some (m, d) }"

definition strncpy :: "mem \<Rightarrow> nat \<Rightarrow> nat \<Rightarrow> nat \<Rightarrow> (mem \<times> nat) option" where
  "strncpy m d s n = do { (m, _) \<leftarrow> stpncpy m d s n; Some (m, d) }"

definition strlcpy :: "mem \<Rightarrow> nat \<Rightarrow> nat \<Rightarrow> nat \<Rightarrow> (mem \<times> nat) option" where
  "strlcpy m d0 s n =
     (if n = 0 then do { l \<leftarrow> strlen m s; Some (m, l) }
      else
        do { (m, d, s, n) \<leftarrow>
               (if s mod 8 = d0 mod 8 then
                  do { (m, d, s, n) \<leftarrow> copy_align_n (\<lambda>b. b \<noteq> 0) m d0 s (n - 1);
                       at_end \<leftarrow> (if n = 0 then Some True else do { b \<leftarrow> load m s; Some (b = 0) });
                       if at_end then Some (m, d, s, n)
                       else copy_words_n (\<lambda>w. \<not> haszero w) m d s n }
                else Some (m, d0, s, n - 1));
             (m, d, s, n) \<leftarrow> copy_n (\<lambda>b. b \<noteq> 0) m d s n;
             m \<leftarrow> store m d 0;
             l \<leftarrow> strlen m s;
             Some (m, d - d0 + l) })"

definition strlcat :: "mem \<Rightarrow> nat \<Rightarrow> nat \<Rightarrow> nat \<Rightarrow> (mem \<times> nat) option" where
  "strlcat m d s n =
     do { l \<leftarrow> strnlen m d n;
          if l = n then do { k \<leftarrow> strlen m s; Some (m, l + k) }
          else do { (m, k) \<leftarrow> strlcpy m (d + l) s (n - l); Some (m, l + k) } }"

definition memccpy :: "mem \<Rightarrow> nat \<Rightarrow> nat \<Rightarrow> byte \<Rightarrow> nat \<Rightarrow> (mem \<times> nat option) option" where
  "memccpy m d s c n =
     do { (m, d, s, n) \<leftarrow>
            (if s mod 8 = d mod 8 then
               do { (m, d, s, n) \<leftarrow> copy_align_n (\<lambda>b. b \<noteq> c) m d s n;
                    if s mod 8 \<noteq> 0 then Some (m, d, s, n)
                    else do { (m, d, s, n) \<leftarrow>
                                copy_words_n (\<lambda>w. \<not> haszero (w XOR ONES * ucast c)) m d s n;
                              copy_n (\<lambda>b. b \<noteq> c) m d s n } }
             else copy_n (\<lambda>b. b \<noteq> c) m d s n);
          Some (m, if n \<noteq> 0 then Some (d + 1) else None) }"

section \<open>Searches are the byte-wise searches\<close>

lemma phased_scan:
  assumes "word_test Q P" and "8 dvd length m"
  shows "do { s \<leftarrow> scan_align P m a;
              if s mod 8 \<noteq> 0 then Some s else do { w \<leftarrow> scan_words Q m s; scan P m w } } = scan P m a"
proof (cases "scan_align P m a")
  case None
  then show ?thesis using scan_align_scan [of P m a] by simp
next
  case (Some s)
  then have eq: "scan P m a = scan P m s" using scan_align_scan [of P m a] by simp
  show ?thesis
  proof (cases "s mod 8 = 0")
    case True
    then show ?thesis using Some assms by (simp add: eq scan_words_scan mod_0_imp_dvd)
  next
    case False
    then have "s < length m \<and> \<not> P (m ! s)" using scan_align_result [OF Some] by simp
    then show ?thesis using False Some by (simp add: eq scan.simps [of P m s])
  qed
qed

lemma strlen_scan:
  assumes "8 dvd length m"
  shows "strlen m a = map_option (\<lambda>e. e - a) (scan (\<lambda>b. b \<noteq> 0) m a)"
proof -
  have "strlen m a =
      do { s \<leftarrow> scan_align (\<lambda>b. b \<noteq> 0) m a;
           if s mod 8 \<noteq> 0 then Some s
           else do { w \<leftarrow> scan_words (\<lambda>w. \<not> haszero w) m s; scan (\<lambda>b. b \<noteq> 0) m w } } \<bind> (\<lambda>e. Some (e - a))"
    by (cases "scan_align (\<lambda>b. b \<noteq> 0) m a") (auto simp: strlen_def)
  then show ?thesis
    unfolding phased_scan [OF word_test_haszero assms] by (simp add: map_conv_bind_option comp_def)
qed

lemma strchrnul_scan:
  assumes "8 dvd length m" and "c \<noteq> 0"
  shows "strchrnul m s c = scan (\<lambda>b. b \<noteq> 0 \<and> b \<noteq> c) m s"
  using phased_scan [OF word_test_conj [OF word_test_haszero word_test_xor [of c]] assms(1), of s] assms(2)
  by (simp add: strchrnul_def)

lemma scan_cstr:
  assumes "terminated m s" and "\<not> P 0"
  shows "scan P m s = Some (s + length (takeWhile P (cstr m s)))"
proof -
  have "takeWhile P (takeWhile (\<lambda>b. b \<noteq> 0) xs) = takeWhile P xs" for xs :: "byte list"
    using assms(2) by (induction xs) auto
  then show ?thesis using assms by (auto simp: scan_eq cstr_def terminated_def)
qed

lemma strlen_cstr [string_simps]:
  "8 dvd length m \<Longrightarrow> terminated m s \<Longrightarrow> strlen m s = Some (length (cstr m s))"
  by (simp add: strlen_scan scan_cstr cstr_def)

lemma strchrnul_cstr [string_simps]:
  assumes "8 dvd length m" and "terminated m s"
  shows "strchrnul m s c = Some (s + length (takeWhile (\<lambda>b. b \<noteq> c) (cstr m s)))"
proof (cases "c = 0")
  case True
  then show ?thesis using assms by (simp add: strchrnul_def strlen_cstr cstr_def)
next
  case False
  have "takeWhile (\<lambda>b. b \<noteq> 0 \<and> b \<noteq> c) (cstr m s) = takeWhile (\<lambda>b. b \<noteq> c) (cstr m s)"
    unfolding cstr_def by (intro takeWhile_cong refl) (auto dest: set_takeWhileD)
  then show ?thesis using assms False by (simp add: strchrnul_scan scan_cstr)
qed

lemma cstr_end:
  assumes "terminated m s"
  shows "s + length (cstr m s) < length m" and "m ! (s + length (cstr m s)) = 0"
proof -
  let ?k = "length (cstr m s)"
  have k: "?k < length (drop s m)"
    using assms unfolding cstr_def terminated_def
    by (intro takeWhile_shorter [of 0]) auto
  then show "s + ?k < length m" by simp
  have "drop s m ! ?k = 0"
    using k nth_length_takeWhile [of "\<lambda>b. b \<noteq> 0" "drop s m"] by (auto simp: cstr_def)
  then show "m ! (s + ?k) = 0" using k by (simp add: nth_drop)
qed

lemma cstr_nth: "terminated m s \<Longrightarrow> i < length (cstr m s) \<Longrightarrow> m ! (s + i) = cstr m s ! i"
  using cstr_end [of m s] by (simp add: cstr_def takeWhile_nth)

lemma cstr_nonzero: "b \<in> set (cstr m s) \<Longrightarrow> b \<noteq> 0"
  by (auto simp: cstr_def dest: set_takeWhileD)

lemma cstr_take: "terminated m s \<Longrightarrow> take (Suc (length (cstr m s))) (drop s m) = cstr m s @ [0]"
  using cstr_end [of m s] by (intro nth_equalityI) (auto simp: nth_append cstr_nth less_Suc_eq)

lemma strchr_cstr [string_simps]:
  assumes "8 dvd length m" and "terminated m s"
  shows "strchr m s c =
    Some (if c = 0 then Some (s + length (cstr m s))
          else if c \<in> set (cstr m s) then Some (s + length (takeWhile (\<lambda>b. b \<noteq> c) (cstr m s))) else None)"
proof -
  let ?k = "length (takeWhile (\<lambda>b. b \<noteq> c) (cstr m s))"
  have le: "?k \<le> length (cstr m s)" by (rule length_takeWhile_le)
  show ?thesis
  proof (cases "c \<in> set (cstr m s)")
    case True
    then have lt: "?k < length (cstr m s)" by (intro takeWhile_shorter [of c]) auto
    then have "m ! (s + ?k) = c"
      using assms nth_length_takeWhile [of "\<lambda>b. b \<noteq> c" "cstr m s"] by (auto simp: cstr_nth)
    then show ?thesis
      using True lt cstr_end [OF assms(2)] cstr_nonzero [of c m s] by (auto simp: strchr_def strchrnul_cstr assms)
  next
    case False
    then have tw: "takeWhile (\<lambda>b. b \<noteq> c) (cstr m s) = cstr m s" by (auto simp: takeWhile_eq_all_conv)
    show ?thesis
      using False cstr_end [OF assms(2)] by (auto simp: strchr_def strchrnul_cstr assms tw)
  qed
qed

lemma memchr_spec [string_simps]:
  assumes "s + n \<le> length m"
  shows "memchr m s c n =
    Some (if c \<in> set (take n (drop s m)) then Some (s + length (takeWhile (\<lambda>b. b \<noteq> c) (take n (drop s m))))
          else None)"
proof -
  let ?P = "\<lambda>b. b \<noteq> c" and ?Q = "\<lambda>w. \<not> haszero (w XOR ONES * ucast c)"
  have "scan_n ?P m s n \<noteq> None" using assms by (simp add: scan_n_eq Let_def)
  then obtain t k where al: "scan_align_n ?P m s n = Some (t, k)"
    using scan_align_n_scan [of ?P m s n] by (cases "scan_align_n ?P m s n") auto
  then have eq: "scan_n ?P m s n = scan_n ?P m t k" and tk: "t + k \<le> length m"
    using scan_align_n_scan [of ?P m s n] scan_align_n_result [OF al] assms by auto
  have "memchr m s c n = scan_n ?P m t k \<bind> (\<lambda>(s, n). Some (if n \<noteq> 0 then Some s else None))"
  proof (cases "k = 0 \<or> m ! t = c")
    case True
    then show ?thesis using al tk by (auto simp: memchr_def)
  next
    case False
    have "scan_words_n ?Q m t k \<bind> (\<lambda>(s, k). scan_n ?P m s k) = scan_n ?P m t k"
      using tk by (intro scan_words_n_scan word_test_xor) auto
    then show ?thesis using al tk False
      by (simp add: memchr_def case_prod_unfold flip: bind_assoc)
  qed
  also have "\<dots> = scan_n ?P m s n \<bind> (\<lambda>(s, n). Some (if n \<noteq> 0 then Some s else None))"
    by (simp only: eq)
  also have "\<dots> = Some (if c \<in> set (take n (drop s m))
      then Some (s + length (takeWhile ?P (take n (drop s m)))) else None)"
  proof (cases "c \<in> set (take n (drop s m))")
    case True
    then have "length (takeWhile ?P (take n (drop s m))) < n"
      using assms takeWhile_shorter [of c "take n (drop s m)" ?P] by auto
    then show ?thesis using True assms by (simp add: scan_n_eq Let_def)
  next
    case False
    then have tw: "takeWhile ?P (take n (drop s m)) = take n (drop s m)" by (auto simp: takeWhile_eq_all_conv)
    show ?thesis using False assms by (simp add: scan_n_eq Let_def tw)
  qed
  finally show ?thesis .
qed

lemma strnlen_spec [string_simps]:
  assumes "s + n \<le> length m"
  shows "strnlen m s n = Some (length (takeWhile (\<lambda>b. b \<noteq> 0) (take n (drop s m))))"
proof (cases "0 \<in> set (take n (drop s m))")
  case False
  then have tw: "takeWhile (\<lambda>b. b \<noteq> 0) (take n (drop s m)) = take n (drop s m)"
    by (metis (mono_tags, lifting) takeWhile_eq_all_conv)
  show ?thesis using False assms by (simp add: strnlen_def memchr_spec tw)
qed (use assms in \<open>simp add: strnlen_def memchr_spec\<close>)

section \<open>Byte sets\<close>

lemma bitop_test_bit: "bitop_test a b \<longleftrightarrow> bit (a ! (unat b div 64)) (unat b mod 64)"
  by (simp add: bitop_test_def bit_iff_and_push_bit_not_eq_0)

lemma bitop_test_set:
  assumes "length a = 4"
  shows "bitop_test (bitop_set a b) x \<longleftrightarrow> x = b \<or> bitop_test a x"
proof -
  have "unat b div 64 < 4" by (rule less_mult_imp_div_less) simp
  moreover have "unat x mod 64 = unat b mod 64 \<and> unat x div 64 = unat b div 64 \<longleftrightarrow> x = b"
    by (metis div_mult_mod_eq word_unat_eq_iff)
  ultimately show ?thesis
    using assms
    by (auto simp: bitop_test_bit bitop_set_def nth_list_update bit_or_iff bit_exp_iff)
qed

lemma bitop_set_nonzero: "length a = 4 \<Longrightarrow> bitop_set a b ! (unat b div 64) \<noteq> 0"
  using bitop_test_set [of a b b] by (auto simp: bitop_test_def)

lemma cstr_step:
  assumes "c < length m" and "m ! c \<noteq> 0"
  shows "cstr m c = m ! c # cstr m (Suc c)" and "terminated m c \<longleftrightarrow> terminated m (Suc c)"
  using assms by (simp_all add: cstr_def terminated_def Cons_nth_drop_Suc [symmetric])

lemma cstr_empty: "c < length m \<Longrightarrow> m ! c = 0 \<Longrightarrow> cstr m c = [] \<and> terminated m c"
  by (simp add: cstr_def terminated_def Cons_nth_drop_Suc [symmetric])

lemma terminated_lt: "terminated m c \<Longrightarrow> c < length m"
  using cstr_end(1) [of m c] by simp

lemma byteset_fill_spec:
  "terminated m c \<Longrightarrow> length a = 4 \<Longrightarrow>
   \<exists>a'. byteset_fill m c a = Some a' \<and> (\<forall>x. bitop_test a' x \<longleftrightarrow> x \<in> set (cstr m c) \<or> bitop_test a x)"
proof (induction m c a rule: byteset_fill.induct)
  case (1 m c a)
  have c: "c < length m" using "1.prems"(1) by (rule terminated_lt)
  show ?case
  proof (cases "m ! c = 0")
    case True
    then show ?thesis using c by (simp add: byteset_fill.simps [of m c a] cstr_empty)
  next
    case False
    let ?a = "bitop_set a (m ! c)"
    have nz: "?a ! (unat (m ! c) div 64) \<noteq> 0" using "1.prems"(2) by (rule bitop_set_nonzero)
    have "length ?a = 4" using "1.prems"(2) by (simp add: bitop_set_def)
    then obtain a' where "byteset_fill m (Suc c) ?a = Some a'"
      "\<forall>x. bitop_test a' x \<longleftrightarrow> x \<in> set (cstr m (Suc c)) \<or> bitop_test ?a x"
      using "1.IH" [of "m ! c" ?a] c False nz "1.prems" cstr_step [OF c False] by auto
    then show ?thesis
      using c False nz "1.prems"(2) cstr_step [OF c False]
      by (auto simp: byteset_fill.simps [of m c a] bitop_test_set)
  qed
qed

lemma byteset_of_cstr:
  assumes "terminated m c"
  obtains a where "byteset_fill m c (replicate 4 0) = Some a" "\<And>x. bitop_test a x \<longleftrightarrow> x \<in> set (cstr m c)"
proof -
  have "unat x div 64 < 4" for x :: byte by (rule less_mult_imp_div_less) simp
  then have "\<not> bitop_test (replicate 4 0) x" for x by (simp add: bitop_test_def)
  then show thesis using byteset_fill_spec [OF assms, of "replicate 4 0"] that by auto
qed

lemma strspn_cstr [string_simps]:
  assumes "terminated m s" and "terminated m c"
  shows "strspn m s c = Some (length (takeWhile (\<lambda>b. b \<in> set (cstr m c)) (cstr m s)))"
proof -
  have c: "c < length m" using assms(2) by (rule terminated_lt)
  have nz: "0 \<notin> set (cstr m x)" for x using cstr_nonzero by blast
  show ?thesis
  proof (cases "m ! c = 0")
    case True
    then show ?thesis using c by (cases "cstr m s") (simp_all add: strspn_def cstr_empty)
  next
    case False
    note step = cstr_step [OF c False]
    have c1: "Suc c < length m" using assms(2) step(2) terminated_lt by blast
    show ?thesis
    proof (cases "m ! Suc c = 0")
      case True
      have "scan (\<lambda>b. b = m ! c) m s = Some (s + length (takeWhile (\<lambda>b. b = m ! c) (cstr m s)))"
        using assms False by (intro scan_cstr) auto
      then show ?thesis using c c1 False True by (simp add: strspn_def step(1) cstr_empty)
    next
      case nz1: False
      obtain a where a: "byteset_fill m c (replicate 4 0) = Some a"
        "\<And>x. bitop_test a x \<longleftrightarrow> x \<in> set (cstr m c)" by (rule byteset_of_cstr [OF assms(2)]) blast
      have "takeWhile (\<lambda>b. b \<noteq> 0 \<and> b \<in> set (cstr m c)) (cstr m s) =
          takeWhile (\<lambda>b. b \<in> set (cstr m c)) (cstr m s)"
        using nz [of c] by (intro takeWhile_cong) auto
      then show ?thesis
        using c c1 False nz1 assms by (simp add: strspn_def a scan_cstr)
    qed
  qed
qed

lemma strcspn_cstr [string_simps]:
  assumes "8 dvd length m" and "terminated m s" and "terminated m c"
  shows "strcspn m s c = Some (length (takeWhile (\<lambda>b. b \<notin> set (cstr m c)) (cstr m s)))"
proof -
  have c: "c < length m" using assms(3) by (rule terminated_lt)
  have nz: "0 \<notin> set (cstr m x)" for x using cstr_nonzero by blast
  show ?thesis
  proof (cases "m ! c = 0")
    case True
    have "takeWhile (\<lambda>b. b \<noteq> 0) (cstr m s) = cstr m s" by (simp add: cstr_def)
    moreover have "takeWhile (\<lambda>b. True) (cstr m s) = cstr m s" by simp
    ultimately show ?thesis using c True assms
      by (simp add: strcspn_def cstr_empty strchrnul_cstr del: takeWhile_eq_all_conv)
  next
    case False
    note step = cstr_step [OF c False]
    have c1: "Suc c < length m" using assms(3) step(2) terminated_lt by blast
    show ?thesis
    proof (cases "m ! Suc c = 0")
      case True
      then show ?thesis using c c1 False assms
        by (simp add: strcspn_def step(1) cstr_empty strchrnul_cstr)
    next
      case nz1: False
      obtain a where a: "byteset_fill m c (replicate 4 0) = Some a"
        "\<And>x. bitop_test a x \<longleftrightarrow> x \<in> set (cstr m c)" by (rule byteset_of_cstr [OF assms(3)]) blast
      have "takeWhile (\<lambda>b. b \<noteq> 0 \<and> b \<notin> set (cstr m c)) (cstr m s) =
          takeWhile (\<lambda>b. b \<notin> set (cstr m c)) (cstr m s)"
        using cstr_nonzero [of _ m s] by (intro takeWhile_cong) auto
      then show ?thesis
        using c c1 False nz1 assms by (simp add: strcspn_def a scan_cstr)
    qed
  qed
qed

section \<open>Strings inside a changing memory\<close>

lemma terminated_split: "terminated m s \<Longrightarrow> drop s m = cstr m s @ 0 # drop (s + length (cstr m s) + 1) m"
  using cstr_take [of m s] append_take_drop_id [of "Suc (length (cstr m s))" "drop s m"]
  by (simp add: add.commute)

lemma cstr_eqI:
  assumes "drop s m = xs @ 0 # r" and "0 \<notin> set xs"
  shows "cstr m s = xs \<and> terminated m s"
proof -
  have "takeWhile (\<lambda>b. b \<noteq> 0) (xs @ 0 # r) = xs" using assms(2) by (induction xs) auto
  then show ?thesis using assms(1) by (simp add: cstr_def terminated_def)
qed

lemma cstr_drop:
  assumes "terminated m s" and "k \<le> length (cstr m s)"
  shows "cstr m (s + k) = drop k (cstr m s)" and "terminated m (s + k)"
proof -
  have "drop (s + k) m = drop k (cstr m s) @ 0 # drop (s + length (cstr m s) + 1) m"
    using terminated_split [OF assms(1)] assms(2)
    by (metis add.commute drop_append drop_drop diff_is_0_eq drop0)
  moreover have "0 \<notin> set (drop k (cstr m s))" using cstr_nonzero set_drop_subset by fastforce
  ultimately show "cstr m (s + k) = drop k (cstr m s)" "terminated m (s + k)"
    using cstr_eqI [of "s + k" m] by blast+
qed

lemma cstr_agree:
  assumes "terminated m s" and "length m' = length m"
    and "\<And>i. s \<le> i \<Longrightarrow> i \<le> s + length (cstr m s) \<Longrightarrow> m' ! i = m ! i"
  shows "cstr m' s = cstr m s \<and> terminated m' s"
proof (rule cstr_eqI)
  let ?n = "Suc (length (cstr m s))"
  note e = cstr_end [OF assms(1)]
  have "take ?n (drop s m') = take ?n (drop s m)"
    using assms(2,3) e by (intro nth_equalityI) auto
  then have "take ?n (drop s m') = cstr m s @ [0]" using cstr_take [OF assms(1)] by simp
  then show "drop s m' = cstr m s @ 0 # drop ?n (drop s m')"
    by (metis append.assoc append_Cons append_Nil append_take_drop_id)
  show "0 \<notin> set (cstr m s)" using cstr_nonzero by blast
qed

lemma cstr_truncate:
  assumes "terminated m s" and "k \<le> length (cstr m s)"
  shows "cstr (m[s + k := 0]) s = take k (cstr m s) \<and> terminated (m[s + k := 0]) s"
proof (rule cstr_eqI)
  have b: "s + k < length m" using cstr_end(1) [OF assms(1)] assms(2) by simp
  have "take k (drop s (m[s + k := 0])) = take k (drop s m)"
    using b by (intro nth_equalityI) auto
  also have "\<dots> = take k (cstr m s)" using terminated_split [OF assms(1)] assms(2) by simp
  finally have t: "take k (drop s (m[s + k := 0])) = take k (cstr m s)" .
  have "drop k (drop s (m[s + k := 0])) = 0 # drop (Suc k) (drop s (m[s + k := 0]))"
    using b Cons_nth_drop_Suc [of "s + k" "m[s + k := 0]"] by (simp add: add.commute)
  then show "drop s (m[s + k := 0]) = take k (cstr m s) @ 0 # drop (Suc k) (drop s (m[s + k := 0]))"
    using append_take_drop_id [of k "drop s (m[s + k := 0])"] unfolding t by simp
  show "0 \<notin> set (take k (cstr m s))" using cstr_nonzero set_take_subset by fastforce
qed

section \<open>Tokenising\<close>

function tokens :: "(byte \<Rightarrow> bool) \<Rightarrow> byte list \<Rightarrow> byte list list" where
  "tokens P cs =
     (case dropWhile P cs of [] \<Rightarrow> []
      | d \<Rightarrow> takeWhile (\<lambda>b. \<not> P b) d # tokens P (dropWhile (\<lambda>b. \<not> P b) d))"
  by pat_completeness auto
termination
proof (relation "measure (\<lambda>(P, cs). length cs)", simp)
  fix P :: "byte \<Rightarrow> bool" and cs x xs
  assume d: "dropWhile P cs = x # xs"
  then have "\<not> P x" by (metis hd_dropWhile list.discI list.sel(1))
  then have "length (dropWhile (\<lambda>b. \<not> P b) (x # xs)) \<le> length xs"
    using length_dropWhile_le [of "\<lambda>b. \<not> P b" xs] by simp
  moreover have "length (x # xs) \<le> length cs" using length_dropWhile_le [of P cs] d by simp
  ultimately show "((P, dropWhile (\<lambda>b. \<not> P b) (x # xs)), P, cs) \<in> measure (\<lambda>(P, cs). length cs)"
    by simp
qed

declare tokens.simps [simp del]

lemma tokens_sep: "P x \<Longrightarrow> tokens P (x # xs) = tokens P xs"
  by (simp add: tokens.simps [of P "x # xs"] tokens.simps [of P xs])

lemma tokens_none: "dropWhile P cs = [] \<Longrightarrow> tokens P cs = []"
  by (subst tokens.simps) (simp only: list.case)

lemma tokens_some:
  "dropWhile P cs \<noteq> [] \<Longrightarrow>
   tokens P cs = takeWhile (\<lambda>b. \<not> P b) (dropWhile P cs) # tokens P (dropWhile (\<lambda>b. \<not> P b) (dropWhile P cs))"
  by (subst tokens.simps) (simp split: list.splits)

lemma tokens_tl: "r = dropWhile (\<lambda>b. \<not> P b) d \<Longrightarrow> tokens P (tl r) = tokens P r"
proof (cases r)
  case (Cons x xs)
  assume "r = dropWhile (\<lambda>b. \<not> P b) d"
  then have "P x" using Cons dropWhile_eq_Cons_conv [of "\<lambda>b. \<not> P b" d x xs] by simp
  then show ?thesis using Cons by (simp add: tokens_sep)
qed simp

definition apart_strings :: "mem \<Rightarrow> nat \<Rightarrow> nat \<Rightarrow> bool" where
  "apart_strings m s c \<longleftrightarrow> s + length (cstr m s) < c \<or> c + length (cstr m c) < s"

definition seps :: "mem \<Rightarrow> nat \<Rightarrow> byte \<Rightarrow> bool" where
  "seps m c b \<longleftrightarrow> b \<in> set (cstr m c)"

lemma strtok_cases:
  assumes "8 dvd length m" and "terminated m s" and "terminated m sep"
    and "start = (case arg of None \<Rightarrow> p | Some a \<Rightarrow> Some a)" and "start = Some s"
  defines "d \<equiv> dropWhile (seps m sep) (cstr m s)"
  defines "q \<equiv> s + length (takeWhile (seps m sep) (cstr m s))"
  defines "t \<equiv> takeWhile (\<lambda>b. \<not> seps m sep b) d" and "r \<equiv> dropWhile (\<lambda>b. \<not> seps m sep b) d"
  shows "d = [] \<Longrightarrow> strtok (m, p) arg sep = Some ((m, None), None)"
    and "d \<noteq> [] \<Longrightarrow> r = [] \<Longrightarrow> strtok (m, p) arg sep = Some ((m, None), Some q)"
    and "r \<noteq> [] \<Longrightarrow> strtok (m, p) arg sep = Some ((m[q + length t := 0], Some (q + length t + 1)), Some q)"
    and "cstr m q = d" and "terminated m q" and "q + length d = s + length (cstr m s)"
proof -
  let ?k = "length (takeWhile (seps m sep) (cstr m s))"
  have k: "?k \<le> length (cstr m s)" by (rule length_takeWhile_le)
  have d: "drop ?k (cstr m s) = d" unfolding d_def by (simp add: dropWhile_eq_drop)
  show q: "cstr m q = d" "terminated m q"
    unfolding q_def d [symmetric] using cstr_drop [OF assms(2) k] by simp_all
  show "q + length d = s + length (cstr m s)" unfolding q_def d [symmetric] using k by simp
  have sp: "strspn m s sep = Some ?k"
    using assms(2,3) by (simp add: strspn_cstr seps_def [abs_def])
  have cs: "strcspn m q sep = Some (length t)"
    using assms(1,3) q by (simp add: strcspn_cstr t_def seps_def [abs_def])
  have d0: "load m q = Some (if d = [] then 0 else hd d)"
    using cstr_end [OF q(2)] cstr_nth [OF q(2), of 0] q(1) by (cases d) auto
  have hd: "d \<noteq> [] \<Longrightarrow> hd d \<noteq> 0" using cstr_nonzero [of _ m q] q(1) by auto
  have tr: "d = t @ r" unfolding t_def r_def by simp
  have e: "load m (q + length t) = Some (if r = [] then 0 else hd r)"
    using cstr_end [OF q(2)] cstr_nth [OF q(2), of "length t"] q(1) tr by (cases r) (auto simp: nth_append)
  have hr: "r \<noteq> [] \<Longrightarrow> hd r \<noteq> 0" using cstr_nonzero [of "hd r" m q] q(1) tr by auto
  have b: "q + length t < length m" using cstr_end [OF q(2)] q(1) tr by auto
  have start: "(case arg of None \<Rightarrow> p | Some a \<Rightarrow> Some a) = Some s" using assms(4,5) by simp
  show "d = [] \<Longrightarrow> strtok (m, p) arg sep = Some ((m, None), None)"
    using sp d0 by (simp add: strtok_def start q_def)
  show "d \<noteq> [] \<Longrightarrow> r = [] \<Longrightarrow> strtok (m, p) arg sep = Some ((m, None), Some q)"
    using sp d0 hd cs e by (simp add: strtok_def start q_def)
  show "r \<noteq> [] \<Longrightarrow> strtok (m, p) arg sep = Some ((m[q + length t := 0], Some (q + length t + 1)), Some q)"
    using sp d0 hd cs e hr b tr by (simp add: strtok_def start q_def Let_def)
qed

lemma strtok_null: "strtok (m, None) None sep = Some ((m, None), None)"
  by (simp add: strtok_def)

section \<open>Copies are the byte-wise copies\<close>

lemma copy_align_n_result:
  "copy_align_n P m d s n = Some (m', d', s', n') \<Longrightarrow> d + n \<le> length m \<Longrightarrow>
   (d \<le> s \<or> s + j \<le> d) \<Longrightarrow> stops P m s n j \<Longrightarrow>
   d' + n' = d + n \<and> s' + n' = s + n \<and> length m' = length m \<and> (n' \<noteq> 0 \<longrightarrow> s' < length m) \<and>
   (s' mod 8 = 0 \<or> n' = 0 \<or> \<not> P (m' ! s')) \<and>
   (s' mod 8 = 0 \<longrightarrow> (\<exists>j. stops P m' s' n' j \<and> (d' \<le> s' \<or> s' + j \<le> d')))"
proof (induction n arbitrary: m d s j)
  case 0
  then show ?case by (auto simp: stops_def intro!: exI [of _ 0])
next
  case (Suc n)
  have s: "s < length m" using Suc.prems(4) by (cases "j = 0") (auto simp: stops_def)
  have d: "d < length m" using Suc.prems(2) by simp
  show ?case
  proof (cases "s mod 8 = 0")
    case True
    then show ?thesis using Suc.prems s by auto
  next
    case al: False
    let ?m = "m[d := m ! s]"
    have at: "?m ! s = m ! s" using s by (cases "d = s") auto
    show ?thesis
    proof (cases "P (m ! s)")
      case True
      have mw: "?m = mem_write d (take 1 (drop s m)) m" using s d by (rule update_as_copy)
      have "take 1 (drop s m) = [m ! s]" using s by (simp add: take_Suc hd_drop_conv_nth)
      then have all: "\<And>b. b \<in> set (take 1 (drop s m)) \<Longrightarrow> P b" using True by simp
      have "1 \<le> Suc n" "s + 1 \<le> length m" using s by simp_all
      note adv = stops_advance [OF Suc.prems(4) this all]
      have "stops P ?m (Suc s) n (j - 1)"
        unfolding mw using adv Suc.prems(2,3) s by (subst stops_mem_write) auto
      moreover have "Suc d \<le> Suc s \<or> Suc s + (j - 1) \<le> Suc d" using Suc.prems(3) by auto
      moreover have "copy_align_n P ?m (Suc d) (Suc s) n = Some (m', d', s', n')"
        using Suc.prems(1) al True s d by simp
      ultimately show ?thesis
        using Suc.IH [of ?m "Suc d" "Suc s" "j - 1"] Suc.prems(2) by simp
    next
      case False
      then show ?thesis using Suc.prems(1) al s d at by auto
    qed
  qed
qed

lemma phased_copy:
  assumes "word_test Q P" and "8 dvd length m" and "d + n \<le> length m"
    and "stops P m s n j" and "d \<le> s \<or> s + j \<le> d"
    and "copy_align_n P m d s n = Some (m', d', s', n')"
  shows "copy_n P m' d' s' n' = copy_n P m d s n"
    and "s' mod 8 = 0 \<Longrightarrow>
      do { (m, d, s, n) \<leftarrow> copy_words_n Q m' d' s' n'; copy_n P m d s n } = copy_n P m d s n"
    and "n' \<noteq> 0 \<Longrightarrow> s' < length m'" and "n' \<noteq> 0 \<Longrightarrow> P (m' ! s') \<Longrightarrow> s' mod 8 = 0"
    and "d' + n' \<le> length m'"
proof -
  note res = copy_align_n_result [OF assms(6,3,5,4)]
  show eq: "copy_n P m' d' s' n' = copy_n P m d s n"
    using copy_align_n_copy [of P m d s n] assms(6) by simp
  show "n' \<noteq> 0 \<Longrightarrow> s' < length m'" "n' \<noteq> 0 \<Longrightarrow> P (m' ! s') \<Longrightarrow> s' mod 8 = 0" "d' + n' \<le> length m'"
    using res assms(3) by auto
  assume al: "s' mod 8 = 0"
  then obtain j' where j: "stops P m' s' n' j'" "d' \<le> s' \<or> s' + j' \<le> d'" using res by auto
  have "copy_words_n Q m' d' s' n' \<bind> (\<lambda>(m, d, s, n). copy_n P m d s n) = copy_n P m' d' s' n'"
    using res assms(1-3) al j by (intro copy_words_n_copy) auto
  then show "do { (m, d, s, n) \<leftarrow> copy_words_n Q m' d' s' n'; copy_n P m d s n } = copy_n P m d s n"
    unfolding eq .
qed

abbreviation "nz \<equiv> \<lambda>b :: byte. b \<noteq> 0"

definition apart_from :: "mem \<Rightarrow> nat \<Rightarrow> nat \<Rightarrow> nat \<Rightarrow> bool" where
  "apart_from m d n s \<longleftrightarrow> d + n \<le> length m \<and> terminated m s \<and> (d + n \<le> s \<or> s + length (cstr m s) < d)"

lemma stops_cstr:
  assumes "terminated m s"
  shows "stops nz m s n (min n (Suc (length (cstr m s))))"
proof (cases "n \<le> length (cstr m s)")
  case True
  then show ?thesis using cstr_end(1) [OF assms] by (simp add: stops_def)
next
  case False
  then show ?thesis
    using cstr_end(1) [OF assms] cstr_take [OF assms] by (simp add: stops_def)
qed

lemma copy_n_cstr:
  assumes "apart_from m d n s"
  shows "copy_n nz m d s n =
    (let k = min n (length (cstr m s)) in
     Some (mem_write d (take n (cstr m s @ [0])) m, d + k, s + k, n - k))"
proof -
  have t: "terminated m s" using assms by (simp add: apart_from_def)
  note e = cstr_end [OF t]
  have pre: "take k (drop s m) = take k (cstr m s)" if "k \<le> length (cstr m s)" for k
    using terminated_split [OF t] that by simp
  have all: "b \<in> set (take k (drop s m)) \<Longrightarrow> nz b" if "k \<le> length (cstr m s)" for b k
    using pre [OF that] cstr_nonzero [of b m s] by (auto dest: in_set_takeD)
  show ?thesis
  proof (cases "n \<le> length (cstr m s)")
    case True
    then have "copy_n nz m d s n = Some (mem_write d (take n (drop s m)) m, d + n, s + n, 0)"
      using e assms all [of n] by (intro copy_n_all) (auto simp: apart_from_def)
    then show ?thesis using True pre [OF True] by (simp add: Let_def)
  next
    case False
    let ?k = "length (cstr m s)"
    have "copy_n nz m d s n = Some (mem_write d (take (Suc ?k) (drop s m)) m, d + ?k, s + ?k, n - ?k)"
      using e assms all [of ?k] False by (intro copy_n_stop) (auto simp: apart_from_def)
    then show ?thesis using False cstr_take [OF t] by (simp add: Let_def min_def)
  qed
qed

lemma copy_align_n_some:
  assumes "apart_from m d n s"
  obtains m' d' s' n' where "copy_align_n nz m d s n = Some (m', d', s', n')"
proof -
  have "copy_n nz m d s n \<noteq> None" using copy_n_cstr [OF assms] by (simp add: Let_def)
  then have "copy_align_n nz m d s n \<noteq> None"
    using copy_align_n_copy [of nz m d s n] by (cases "copy_align_n nz m d s n") auto
  then show thesis using that by (cases "copy_align_n nz m d s n") auto
qed

lemma source_kept:
  assumes "apart_from m d n s" and "length src = n"
  shows "cstr (mem_write d src m) s = cstr m s \<and> terminated (mem_write d src m) s"
  using assms cstr_end(1) [of m s]
  by (intro cstr_agree) (auto simp: apart_from_def mem_simps mem_write_nth)

lemma strlcpy_spec:
  assumes "8 dvd length m" and "apart_from m d n s" and "0 < n"
  shows "strlcpy m d s n = Some (mem_write d (take (n - 1) (cstr m s) @ [0]) m, length (cstr m s))"
proof -
  let ?cs = "cstr m s"
  have ap: "apart_from m d (n - 1) s" using assms(2,3) by (auto simp: apart_from_def)
  then have st: "stops nz m s (n - 1) (min (n - 1) (Suc (length ?cs)))"
    "d \<le> s \<or> s + min (n - 1) (Suc (length ?cs)) \<le> d" "d + (n - 1) \<le> length m"
    using stops_cstr [of m s "n - 1"] by (auto simp: apart_from_def)
  obtain m' d' s' n' where al: "copy_align_n nz m d s (n - 1) = Some (m', d', s', n')"
    using copy_align_n_some [OF ap] .
  note ph = phased_copy [OF word_test_haszero assms(1) st(3) st(1) st(2) al]
  have phase: "do { (m, d, s, n) \<leftarrow>
               (if s mod 8 = d mod 8 then
                  do { (m, d, s, n) \<leftarrow> copy_align_n nz m d s (n - 1);
                       at_end \<leftarrow> (if n = 0 then Some True else do { b \<leftarrow> load m s; Some (b = 0) });
                       if at_end then Some (m, d, s, n)
                       else copy_words_n (\<lambda>w. \<not> haszero w) m d s n }
                else Some (m, d, s, n - 1));
             copy_n nz m d s n } = copy_n nz m d s (n - 1)"
  proof (cases "s mod 8 = d mod 8 \<and> n' \<noteq> 0 \<and> m' ! s' \<noteq> 0")
    case True
    then show ?thesis using ph(2-4) by (simp add: al [unfolded One_nat_def])
  next
    case False
    then show ?thesis using ph(1) [symmetric] ph(3) by (cases "n' = 0") (auto simp: al [unfolded One_nat_def])
  qed
  let ?k = "min (n - 1) (length ?cs)"
  let ?m = "mem_write d (take (n - 1) (?cs @ [0])) m"
  have copied: "copy_n nz m d s (n - 1) = Some (?m, d + ?k, s + ?k, n - 1 - ?k)"
    using copy_n_cstr [OF ap] by (simp add: Let_def)
  have bound: "d + n \<le> length m" using assms(2) by (simp add: apart_from_def)
  have fin: "?m[d + ?k := 0] = mem_write d (take (n - 1) ?cs @ [0]) m"
  proof (cases "n - 1 \<le> length ?cs")
    case True
    then have m: "?m = mem_write d (take (n - 1) ?cs) m" by simp
    have l: "length (take (n - 1) ?cs) = n - 1" using True by simp
    have "mem_write (d + (n - 1)) [0] ?m = mem_write d (take (n - 1) ?cs @ [0]) m"
      unfolding m using l bound assms(3) by (intro mem_write_append) auto
    moreover have "d + (n - 1) < length ?m"
      unfolding m using l bound assms(3) by (simp add: mem_simps)
    ultimately show ?thesis using True by (simp add: mem_write_single min_def)
  next
    case False
    then have m: "?m = mem_write d (?cs @ [0]) m" by simp
    have "?m ! (d + length ?cs) = 0"
      unfolding m using False bound by (subst mem_write_nth) (auto simp: nth_append)
    then have "?m[d + length ?cs := 0] = ?m" by (metis list_update_id)
    then show ?thesis using False m by (simp add: min_def)
  qed
  define M where "M = mem_write d (take (n - 1) ?cs @ [0]) m"
  have lM: "length M = length m" unfolding M_def using bound assms(3) by (simp add: mem_simps)
  have "cstr M s = ?cs \<and> terminated M s"
    unfolding M_def using assms(2,3) cstr_end(1) [of m s]
    by (intro cstr_agree) (auto simp: apart_from_def mem_simps mem_write_nth)
  then have "strlen M (s + ?k) = Some (length ?cs - ?k)"
    using cstr_drop [of M s ?k] assms(1) lM by (simp add: strlen_cstr)
  moreover have "d + ?k < length ?m"
    using arg_cong [OF fin, of length] lM bound assms(3) unfolding M_def [symmetric] length_list_update by auto
  then have "store ?m (d + ?k) 0 = Some M" by (simp only: store_Some fin M_def)
  moreover have "strlcpy m d s n = do { (m, d', s', n') \<leftarrow> copy_n nz m d s (n - 1);
      m \<leftarrow> store m d' 0; l \<leftarrow> strlen m s'; Some (m, d' - d + l) }"
    using assms(3) phase [symmetric] by (simp add: strlcpy_def case_prod_unfold flip: bind_assoc)
  ultimately show ?thesis using copied by (simp add: M_def)
qed

lemma stpncpy_spec:
  assumes "8 dvd length m" and "apart_from m d n s"
  shows "stpncpy m d s n =
    Some (mem_write d (take n (cstr m s @ replicate n 0)) m, d + min n (length (cstr m s)))"
proof -
  let ?cs = "cstr m s" and ?k = "min n (length (cstr m s))"
  have st: "stops nz m s n (min n (Suc (length ?cs)))"
    "d \<le> s \<or> s + min n (Suc (length ?cs)) \<le> d" "d + n \<le> length m"
    using assms(2) stops_cstr [of m s n] by (auto simp: apart_from_def)
  obtain m' d' s' n' where al: "copy_align_n nz m d s n = Some (m', d', s', n')"
    using copy_align_n_some [OF assms(2)] .
  note ph = phased_copy [OF word_test_haszero assms(1) st(3) st(1) st(2) al]
  let ?m = "mem_write d (take n (?cs @ [0])) m"
  have copied: "copy_n nz m d s n = Some (?m, d + ?k, s + ?k, n - ?k)"
    using copy_n_cstr [OF assms(2)] by (simp add: Let_def)
  have bound: "d + n \<le> length m" by (rule st(3))
  have "stpncpy m d s n = do { m \<leftarrow> memset ?m (d + ?k) 0 (n - ?k); Some (m, d + ?k) }"
  proof (cases "s mod 8 = d mod 8")
    case True
    consider "n' = 0" | "n' \<noteq> 0" "m' ! s' = 0" | "n' \<noteq> 0" "m' ! s' \<noteq> 0" by blast
    then show ?thesis
    proof cases
      case 1
      then have "m' = ?m \<and> d' = d + ?k \<and> n - ?k = 0" using ph(1) copied by simp
      then show ?thesis using 1 True by (simp add: stpncpy_def al)
    next
      case 2
      have "copy_n nz m' d' s' n' = Some (m'[d' := 0], d', s', n')"
        using 2 ph(3,5) by (cases n') auto
      then have eq: "?m = m'[d' := 0]" "d + ?k = d'" "n - ?k = n'" using ph(1) copied by simp_all
      have "memset (m'[d' := 0]) d' 0 n' = memset m' d' 0 n'"
        using ph(5) 2(1) by (simp add: memset_spec mem_write_def)
      then show ?thesis unfolding eq using 2 True ph(3) by (simp add: stpncpy_def al)
    next
      case 3
      then show ?thesis using True ph(2-4) copied
        by (simp add: stpncpy_def al case_prod_unfold flip: bind_assoc)
    qed
  qed (use copied in \<open>simp add: stpncpy_def\<close>)
  moreover have "memset ?m (d + ?k) 0 (n - ?k) = Some (mem_write d (take n (?cs @ replicate n 0)) m)"
  proof -
    have "length ?m = length m" using bound by (intro length_mem_write) simp
    then have "memset ?m (d + ?k) 0 (n - ?k) = Some (mem_write (d + ?k) (replicate (n - ?k) 0) ?m)"
      using bound by (intro memset_spec) auto
    also have "mem_write (d + ?k) (replicate (n - ?k) 0) ?m = mem_write d (take n (?cs @ replicate n 0)) m"
    proof (cases "n \<le> length ?cs")
      case True
      then show ?thesis by (simp add: mem_write_Nil)
    next
      case False
      then obtain j where j: "n = length ?cs + Suc j" by (metis add_Suc_right less_imp_Suc_add not_le)
      then show ?thesis using bound by (simp add: mem_write_def min_def ac_simps)
    qed
    finally show ?thesis .
  qed
  ultimately show ?thesis by simp
qed

lemma copy_all_steps:
  "s + k \<le> length m \<Longrightarrow> d + k \<le> length m \<Longrightarrow> d \<le> s \<or> s + k \<le> d \<Longrightarrow>
   (\<And>b. b \<in> set (take k (drop s m)) \<Longrightarrow> P b) \<Longrightarrow>
   copy_all P m d s = copy_all P (mem_write d (take k (drop s m)) m) (d + k) (s + k)"
proof (induction k arbitrary: m d s)
  case (Suc k)
  let ?m = "mem_write d (take 1 (drop s m)) m"
  from Suc.prems have b: "s < length m" "d < length m" by simp_all
  have len: "length ?m = length m" using b by (simp add: mem_simps)
  have hd: "take (Suc k) (drop s m) = m ! s # take k (drop (Suc s) m)"
    using b by (simp add: Cons_nth_drop_Suc [symmetric])
  have same: "take k (drop (Suc s) ?m) = take k (drop (Suc s) m)"
    using Suc.prems b by (intro region_mem_write) auto
  have "copy_all P m d s = copy_all P ?m (Suc d) (Suc s)"
    using Suc.prems(4) b hd by (subst copy_all.simps) (simp add: update_as_copy)
  also have "\<dots> = copy_all P (mem_write (Suc d) (take k (drop (Suc s) ?m)) ?m) (Suc d + k) (Suc s + k)"
    using Suc.prems len hd by (intro Suc.IH) (auto simp: same [unfolded One_nat_def])
  also have "mem_write (Suc d) (take k (drop (Suc s) ?m)) ?m = mem_write d (take (Suc k) (drop s m)) m"
    using copy_chunk [of s "Suc k" m d 1 ?m] Suc.prems by simp
  finally show ?case by simp
qed simp

lemma copy_all_cstr:
  assumes "terminated m s" and "d + length (cstr m s) < length m"
    and "d + length (cstr m s) < s \<or> s + length (cstr m s) < d"
  shows "copy_all nz m d s = Some (mem_write d (cstr m s @ [0]) m, d + length (cstr m s))"
proof -
  let ?k = "length (cstr m s)"
  let ?m = "mem_write d (cstr m s) m"
  note e = cstr_end [OF assms(1)]
  have t: "take ?k (drop s m) = cstr m s" using terminated_split [OF assms(1)] by simp
  have "copy_all nz m d s = copy_all nz (mem_write d (take ?k (drop s m)) m) (d + ?k) (s + ?k)"
    using e assms cstr_nonzero [of _ m s] by (intro copy_all_steps) (auto simp: t)
  also have "\<dots> = copy_all nz ?m (d + ?k) (s + ?k)" by (simp add: t)
  also have "\<dots> = Some (?m[d + ?k := 0], d + ?k)"
  proof -
    have "length ?m = length m" "?m ! (s + ?k) = 0"
      using assms(2,3) e by (auto simp: mem_simps mem_write_nth)
    then show ?thesis using assms(2) e(1) by (subst copy_all.simps) simp
  qed
  also have "?m[d + ?k := 0] = mem_write d (cstr m s @ [0]) m"
    using assms(2) by (simp add: mem_write_single mem_simps mem_write_append)
  finally show ?thesis .
qed

lemma copy_align_steps:
  "terminated m s \<Longrightarrow> d + length (cstr m s) < length m \<Longrightarrow>
   d + length (cstr m s) < s \<or> s + length (cstr m s) < d \<Longrightarrow>
   \<exists>m' d' s'. copy_align nz m d s = Some (m', d', s') \<and>
     (s' mod 8 \<noteq> 0 \<longrightarrow> copy_all nz m d s = Some (m', d')) \<and>
     (s' mod 8 = 0 \<longrightarrow> copy_all nz m' d' s' = copy_all nz m d s \<and> terminated m' s' \<and>
        length m' = length m \<and> d' + length (cstr m' s') < length m \<and>
        (d' + length (cstr m' s') < s' \<or> s' + length (cstr m' s') < d'))"
proof (induction "length (cstr m s)" arbitrary: m d s)
  case 0
  then have s: "s < length m" "m ! s = 0" using cstr_end [of m s] by auto
  then show ?case using 0 by (auto simp: copy_align.simps [of nz m d s] copy_all.simps [of nz m d s])
next
  case (Suc n)
  have s: "s < length m" and sn: "m ! s \<noteq> 0"
  proof -
    have "0 < length (cstr m s)" using Suc.hyps(2) by linarith
    then have "m ! s = cstr m s ! 0" "cstr m s ! 0 \<in> set (cstr m s)"
      using cstr_nth [OF Suc.prems(1), of 0] by simp_all
    then show "s < length m" "m ! s \<noteq> 0" using cstr_end [OF Suc.prems(1)] cstr_nonzero by auto
  qed
  note step = cstr_step [OF s sn]
  have d: "d < length m" using Suc.prems(2) by simp
  let ?m = "m[d := m ! s]"
  have kept: "cstr ?m (Suc s) = cstr m (Suc s) \<and> terminated ?m (Suc s)"
    using Suc.prems step by (intro cstr_agree) (auto simp: nth_list_update)
  have one: "copy_all nz m d s = copy_all nz ?m (Suc d) (Suc s)"
    using s d sn by (subst copy_all.simps) simp
  show ?case
  proof (cases "s mod 8 = 0")
    case True
    then show ?thesis using Suc.prems by (simp add: copy_align.simps [of nz m d s])
  next
    case False
    then have "copy_align nz m d s = copy_align nz ?m (Suc d) (Suc s)"
      using s d sn by (subst copy_align.simps) simp
    then show ?thesis
      using Suc.hyps(1) [of ?m "Suc s" "Suc d"] Suc.hyps(2) Suc.prems step kept one by auto
  qed
qed

lemma cstr_no_zero:
  assumes "terminated m s" and "0 \<notin> set (take k (drop s m))" and "s + k \<le> length m"
  shows "k \<le> length (cstr m s)"
proof (rule ccontr)
  assume "\<not> k \<le> length (cstr m s)"
  then have "Suc (length (cstr m s)) \<le> k" by simp
  then have "set (take (Suc (length (cstr m s))) (drop s m)) \<subseteq> set (take k (drop s m))"
    by (rule set_take_subset_set_take)
  then show False using cstr_take [OF assms(1)] assms(2) by simp
qed

lemma copy_words_cstr:
  "terminated m s \<Longrightarrow> 8 dvd s \<Longrightarrow> 8 dvd length m \<Longrightarrow> d + length (cstr m s) < length m \<Longrightarrow>
   d + length (cstr m s) < s \<or> s + length (cstr m s) < d \<Longrightarrow>
   \<exists>m' d' s'. copy_words (\<lambda>w. \<not> haszero w) m d s = Some (m', d', s') \<and> copy_all nz m' d' s' = copy_all nz m d s"
proof (induction "length (cstr m s)" arbitrary: m d s rule: less_induct)
  case less
  let ?bs = "take 8 (drop s m)"
  have s: "s + 8 \<le> length m"
    using terminated_lt [OF less.prems(1)] less.prems(2,3) by (elim dvdE) simp
  then have len: "length ?bs = 8" by simp
  show ?case
  proof (cases "0 \<in> set ?bs")
    case True
    then show ?thesis using s by (simp add: copy_words.simps [of _ m d s] haszero_le_word [OF len])
  next
    case False
    let ?m = "mem_write d ?bs m"
    have k: "8 \<le> length (cstr m s)" using cstr_no_zero [OF less.prems(1) False s] .
    note dr = cstr_drop [OF less.prems(1) k]
    have d: "d + 8 \<le> length m" using less.prems(4) k by simp
    have lm: "length ?m = length m" using d len by (simp add: mem_simps)
    have kept: "cstr ?m (s + 8) = cstr m (s + 8) \<and> terminated ?m (s + 8)"
      using dr less.prems(5) d lm k cstr_end(1) [OF less.prems(1)] len
      by (intro cstr_agree) (auto simp: mem_write_nth)
    have le: "le_bytes 8 (le_word ?bs :: u64) = ?bs" using len by (intro le_bytes_le_word) simp_all
    have "copy_words (\<lambda>w. \<not> haszero w) m d s = copy_words (\<lambda>w. \<not> haszero w) ?m (d + 8) (s + 8)"
      using False s d by (subst copy_words.simps) (simp add: haszero_le_word [OF len] le)
    moreover have "copy_all nz m d s = copy_all nz ?m (d + 8) (s + 8)"
      using False s d less.prems(5) k by (intro copy_all_steps) auto
    moreover have "\<exists>m' d' s'. copy_words (\<lambda>w. \<not> haszero w) ?m (d + 8) (s + 8) = Some (m', d', s') \<and>
        copy_all nz m' d' s' = copy_all nz ?m (d + 8) (s + 8)"
      using dr kept lm less.prems k by (intro less.hyps) (auto simp: dvd_add)
    ultimately show ?thesis by simp
  qed
qed

lemma stpcpy_spec:
  assumes "8 dvd length m" and "terminated m s" and "d + length (cstr m s) < length m"
    and "d + length (cstr m s) < s \<or> s + length (cstr m s) < d"
  shows "stpcpy m d s = Some (mem_write d (cstr m s @ [0]) m, d + length (cstr m s))"
proof -
  have "stpcpy m d s = copy_all nz m d s"
  proof (cases "s mod 8 = d mod 8")
    case True
    from copy_align_steps [OF assms(2-4)] obtain m' d' s' where
      al: "copy_align nz m d s = Some (m', d', s')"
      and out: "s' mod 8 \<noteq> 0 \<longrightarrow> copy_all nz m d s = Some (m', d')"
      and inn: "s' mod 8 = 0 \<longrightarrow> copy_all nz m' d' s' = copy_all nz m d s \<and> terminated m' s' \<and>
        length m' = length m \<and> d' + length (cstr m' s') < length m \<and>
        (d' + length (cstr m' s') < s' \<or> s' + length (cstr m' s') < d')" by metis
    show ?thesis
    proof (cases "s' mod 8 = 0")
      case True
      then have "8 dvd s'" by (rule mod_0_imp_dvd)
      then obtain m2 d2 s2 where "copy_words (\<lambda>w. \<not> haszero w) m' d' s' = Some (m2, d2, s2)"
        "copy_all nz m2 d2 s2 = copy_all nz m' d' s'"
        using copy_words_cstr [of m' s' d'] inn True assms(1) by auto
      then show ?thesis using \<open>s mod 8 = d mod 8\<close> True al inn by (simp add: stpcpy_def)
    qed (use \<open>s mod 8 = d mod 8\<close> al out in \<open>simp add: stpcpy_def\<close>)
  qed (simp add: stpcpy_def)
  then show ?thesis using copy_all_cstr [OF assms(2-4)] by simp
qed

section \<open>Comparison\<close>

lemma uint_lt_0: "\<not> uint (x :: byte) < 0"
  by simp

lemma strcmp_spec:
  "terminated m l \<Longrightarrow> terminated m r \<Longrightarrow>
   \<exists>v. strcmp m l r = Some v \<and> (v = 0 \<longleftrightarrow> cstr m l = cstr m r) \<and>
       (v < 0 \<longleftrightarrow> ord_class.lexordp (cstr m l) (cstr m r))"
proof (induction m l r rule: strcmp.induct)
  case (1 m l r)
  have l: "l < length m" and r: "r < length m" using "1.prems" terminated_lt by auto
  show ?case
  proof (cases "m ! l = m ! r \<and> m ! l \<noteq> 0")
    case True
    then have nz: "m ! l \<noteq> 0" "m ! r \<noteq> 0" by auto
    note st = cstr_step [OF l nz(1)] cstr_step [OF r nz(2)]
    have "strcmp m l r = strcmp m (Suc l) (Suc r)" using True nz l r by (subst strcmp.simps) simp
    moreover have "\<exists>v. strcmp m (Suc l) (Suc r) = Some v \<and> (v = 0 \<longleftrightarrow> cstr m (Suc l) = cstr m (Suc r)) \<and>
       (v < 0 \<longleftrightarrow> ord_class.lexordp (cstr m (Suc l)) (cstr m (Suc r)))"
      using "1.IH" [of "m ! l" "m ! r"] True nz l r st "1.prems" by simp
    ultimately show ?thesis using True st by simp
  next
    case False
    then have v: "strcmp m l r = Some (uint (m ! l) - uint (m ! r))" using l r by (subst strcmp.simps) auto
    have u: "uint x = 0 \<longleftrightarrow> x = 0" "0 < uint x \<longleftrightarrow> x \<noteq> 0" for x :: byte
      using uint_0_iff [of x] uint_lt_0 [of x] by linarith+
    consider "m ! l = 0" "m ! r = 0" | "m ! l = 0" "m ! r \<noteq> 0" | "m ! l \<noteq> 0" "m ! r = 0"
      | "m ! l \<noteq> 0" "m ! r \<noteq> 0" "m ! l \<noteq> m ! r" using False by auto
    moreover have "m ! l \<noteq> m ! r \<Longrightarrow> uint (m ! l) < uint (m ! r) \<or> uint (m ! r) < uint (m ! l)"
      using word_uint_eq_iff [of "m ! l" "m ! r"] by linarith
    ultimately show ?thesis
      by cases (auto simp: v l r u cstr_empty cstr_step word_less_def word_uint_eq_iff [symmetric])
  qed
qed

section \<open>The contracts\<close>

text \<open>
  C11.  \<open>strchr\<close>, which reads the string a word at a time, finds the first occurrence of the byte,
  the terminator when the byte is 0, and \<^verbatim>\<open>NULL\<close> exactly when there is none; with the memory ending
  on a word boundary the word reads past the terminator stay inside it.
\<close>

theorem strchr_correct:
  assumes "8 dvd length m" and "terminated m s"
  shows "strchr m s c =
    Some (if c = 0 then Some (s + length (cstr m s))
          else if c \<in> set (cstr m s) then Some (s + length (takeWhile (\<lambda>b. b \<noteq> c) (cstr m s))) else None)"
  using assms by (rule strchr_cstr)

theorem strchr_correct_witness:
  "strchr [0x68, 0x65, 0x6c, 0x6c, 0x6f, 0, 1, 2] 1 0x6c = Some (Some 2)"
  using strchr_correct [of "[0x68, 0x65, 0x6c, 0x6c, 0x6f, 0, 1, 2]" 1 "0x6c"]
  by (simp add: terminated_def cstr_def Suc_8)

text \<open>
  C12.  \<open>memchr\<close> finds the first occurrence of a byte among the \<open>n\<close> bytes of its operand and reads
  nothing outside them.
\<close>

theorem memchr_correct:
  assumes "s + n \<le> length m"
  shows "memchr m s c n =
    Some (if c \<in> set (take n (drop s m)) then Some (s + length (takeWhile (\<lambda>b. b \<noteq> c) (take n (drop s m))))
          else None)"
  using assms by (rule memchr_spec)

theorem memchr_correct_witness:
  "memchr [9, 9, 9, 9, 9, 9, 9, 9, 9, 9, 9, 7, 9] 1 7 12 = Some (Some 11)"
  using memchr_correct [of 1 12 "[9, 9, 9, 9, 9, 9, 9, 9, 9, 9, 9, 7, 9]" 7] by simp

text \<open>
  C13.  \<open>strlcpy\<close> never writes outside the \<open>n\<close> bytes of its destination, always terminates it, and
  returns the length of the source, so that truncation shows as a result of at least \<open>n\<close>.
\<close>

theorem strlcpy_correct:
  assumes "8 dvd length m" and "apart_from m d n s" and "0 < n"
  shows "strlcpy m d s n = Some (mem_write d (take (n - 1) (cstr m s) @ [0]) m, length (cstr m s))"
  using assms by (rule strlcpy_spec)

theorem strlcpy_correct_witness:
  "strlcpy [1, 2, 3, 4, 0x61, 0x62, 0x63, 0] 0 4 3 = Some ([0x61, 0x62, 0, 4, 0x61, 0x62, 0x63, 0], 3)"
  using strlcpy_correct [of "[1, 2, 3, 4, 0x61, 0x62, 0x63, 0]" 0 3 4]
  by (simp add: apart_from_def terminated_def cstr_def mem_write_def Suc_8)

text \<open>
  \<open>stpncpy\<close> (and with it \<^verbatim>\<open>strncpy\<close>) writes exactly \<open>n\<close> bytes: the source padded with
  zeros, or its first \<open>n\<close> bytes with no terminator when it is longer.
\<close>

theorem stpncpy_correct:
  assumes "8 dvd length m" and "apart_from m d n s"
  shows "stpncpy m d s n =
    Some (mem_write d (take n (cstr m s @ replicate n 0)) m, d + min n (length (cstr m s)))"
  using assms by (rule stpncpy_spec)

theorem stpncpy_correct_witness:
  "stpncpy [1, 2, 3, 4, 0x61, 0x62, 0x63, 0] 0 4 2 = Some ([0x61, 0x62, 3, 4, 0x61, 0x62, 0x63, 0], 2)"
  using stpncpy_correct [of "[1, 2, 3, 4, 0x61, 0x62, 0x63, 0]" 0 2 4]
  by (simp add: apart_from_def terminated_def cstr_def mem_write_def Suc_8)

text \<open>
  \<open>stpcpy\<close> copies the string and its terminator and returns the address of the terminator it
  wrote, for operands that do not overlap, at any pair of alignments.
\<close>

theorem stpcpy_correct:
  assumes "8 dvd length m" and "terminated m s" and "d + length (cstr m s) < length m"
    and "d + length (cstr m s) < s \<or> s + length (cstr m s) < d"
  shows "stpcpy m d s = Some (mem_write d (cstr m s @ [0]) m, d + length (cstr m s))"
  using assms by (rule stpcpy_spec)

theorem stpcpy_correct_witness:
  "stpcpy [1, 2, 3, 4, 0x61, 0x62, 0x63, 0] 0 4 = Some ([0x61, 0x62, 0x63, 0, 0x61, 0x62, 0x63, 0], 3)"
  using stpcpy_correct [of "[1, 2, 3, 4, 0x61, 0x62, 0x63, 0]" 4 0]
  by (simp add: terminated_def cstr_def mem_write_def Suc_8)

end
