(* ===== verification/Musl_Stdio.thy ===== *)
theory Musl_Stdio
  imports C_Prelude
begin

text \<open>
  The buffered streams of musl (\<^verbatim>\<open>src/stdio\<close>): the read side (\<^verbatim>\<open>__toread\<close>, \<^verbatim>\<open>__stdio_read\<close>,
  \<^verbatim>\<open>__uflow\<close>, \<^verbatim>\<open>fread\<close>, \<^verbatim>\<open>fgets\<close>, \<^verbatim>\<open>ungetc\<close>) and the write side (\<^verbatim>\<open>__towrite\<close>,
  \<^verbatim>\<open>__stdio_write\<close>, \<^verbatim>\<open>__fwritex\<close>, \<^verbatim>\<open>__overflow\<close>, \<^verbatim>\<open>fflush\<close>).

  A \<open>FILE\<close> keeps the bytes between \<^verbatim>\<open>rpos\<close> and \<^verbatim>\<open>rend\<close> in \<open>rdata\<close>, the distance of \<^verbatim>\<open>rpos\<close> from
  the start of the pushback area in \<open>rpos\<close> (\<open>None\<close> for a null pointer), and the bytes between
  \<^verbatim>\<open>wbase\<close> and \<^verbatim>\<open>wpos\<close> in \<open>wdata\<close>.  The descriptor behind it is part of the record: \<open>source\<close> is
  the list of answers the kernel gives to reads (data, an empty answer at end of file, or an
  error), \<open>accept\<close> the list of answers to writes (how many bytes it takes, or an error), \<open>sink\<close>
  what it has taken.  A read that asks for less than an answer holds leaves the rest for the next
  read; when \<open>accept\<close> is used up every write is taken in full.
\<close>

definition UNGET :: nat where "UNGET = 8"

record FILE =
  rpos :: "nat option"
  rdata :: "byte list"
  wend :: bool
  wdata :: "byte list"
  buf_size :: nat
  lbf :: int
  F_NORD :: bool
  F_NOWR :: bool
  F_EOF :: bool
  F_ERR :: bool
  source :: "byte list option list"
  accept :: "nat option list"
  sink :: "byte list"

section \<open>System calls\<close>

fun sys_read :: "nat \<Rightarrow> byte list option list \<Rightarrow> byte list option \<times> byte list option list" where
  "sys_read n [] = (Some [], [])"
| "sys_read n (None # cs) = (None, cs)"
| "sys_read n (Some c # cs) =
     (if length c \<le> n then (Some c, cs) else (Some (take n c), Some (drop n c) # cs))"

text \<open>The answer to a write of \<open>n\<close> bytes: a count of at most \<open>n\<close>, or an error.\<close>

fun sys_writev :: "nat \<Rightarrow> nat option list \<Rightarrow> nat option \<times> nat option list" where
  "sys_writev n [] = (Some n, [])"
| "sys_writev n (None # as) = (None, as)"
| "sys_writev n (Some k # as) = (Some (min k n), as)"

section \<open>Writing\<close>

definition towrite :: "FILE \<Rightarrow> FILE \<times> bool" where
  "towrite f =
     (if F_NOWR f then (f\<lparr>F_ERR := True\<rparr>, False)
      else (f\<lparr>rpos := None, rdata := [], wdata := [], wend := True\<rparr>, True))"

lemma sys_writev_shorter:
  "sys_writev n as = (Some c, as') \<Longrightarrow> c \<noteq> n \<Longrightarrow> length as' < length as"
  by (cases "(n, as)" rule: sys_writev.cases) auto

lemma sys_writev_le: "sys_writev n as = (Some c, as') \<Longrightarrow> c \<le> n"
  by (cases "(n, as)" rule: sys_writev.cases) auto

text \<open>The loop of \<^verbatim>\<open>__stdio_write\<close>: \<open>a\<close> and \<open>b\<close> are what is left of the two vectors, \<open>two\<close> tells
  whether the first is still in use (\<^verbatim>\<open>iovcnt == 2\<close>); without it \<open>b\<close> is \<^verbatim>\<open>iov[0]\<close>.\<close>

function stdio_write_loop :: "FILE \<Rightarrow> bool \<Rightarrow> byte list \<Rightarrow> byte list \<Rightarrow> nat \<Rightarrow> FILE \<times> nat" where
  "stdio_write_loop f two a b len =
     (let vec = (if two then a @ b else b); rem = length vec;
          (cnt, acc) = sys_writev rem (accept f); f = f\<lparr>accept := acc\<rparr> in
      case cnt of
        None \<Rightarrow> (f\<lparr>wdata := [], wend := False, F_ERR := True\<rparr>, if two then 0 else len - length b)
      | Some c \<Rightarrow>
          let f = f\<lparr>sink := sink f @ take c vec\<rparr> in
          if c = rem then (f\<lparr>wdata := [], wend := True\<rparr>, len)
          else if two then
            if c > length a then stdio_write_loop f False [] (drop (c - length a) b) len
            else stdio_write_loop f True (drop c a) b len
          else stdio_write_loop f False [] (drop c b) len)"
  by pat_completeness auto
termination
proof (relation "measure (\<lambda>(f, two, a, b, len). length (accept f))")
  fix f :: FILE and two a b len vec rem p cnt acc g h c
  assume a: "vec = (if two then a @ b else b)" "rem = length vec" "p = sys_writev rem (accept f)"
    "(cnt, acc) = p" "g = f\<lparr>accept := acc\<rparr>" "cnt = Some c"
    "h = g\<lparr>sink := sink g @ take c vec\<rparr>" "c \<noteq> rem"
  then have "length (accept h) < length (accept f)"
    using sys_writev_shorter [of rem "accept f" c acc] by simp
  then show "((h, False, [], drop (c - length a) b, len), f, two, a, b, len)
      \<in> measure (\<lambda>(f, two, a, b, len). length (accept f))"
    and "((h, True, drop c a, b, len), f, two, a, b, len)
      \<in> measure (\<lambda>(f, two, a, b, len). length (accept f))"
    and "((h, False, [], drop c b, len), f, two, a, b, len)
      \<in> measure (\<lambda>(f, two, a, b, len). length (accept f))" by simp_all
qed simp

declare stdio_write_loop.simps [simp del]

definition stdio_write :: "FILE \<Rightarrow> byte list \<Rightarrow> FILE \<times> nat" where
  "stdio_write f s = stdio_write_loop f True (wdata f) s (length s)"

text \<open>The last position after a newline in \<open>s\<close>, 0 when there is none (\<^verbatim>\<open>/^(.*\n|)/\<close>).\<close>

fun line_prefix :: "byte list \<Rightarrow> nat \<Rightarrow> nat" where
  "line_prefix s 0 = 0"
| "line_prefix s (Suc i) = (if s ! i = 10 then Suc i else line_prefix s i)"

definition fwritex :: "FILE \<Rightarrow> byte list \<Rightarrow> FILE \<times> nat" where
  "fwritex f s =
     (let (f, ok) = (if wend f then (f, True) else towrite f); l = length s in
      if \<not> ok then (f, 0)
      else if l > buf_size f - length (wdata f) then stdio_write f s
      else
        let i = (if lbf f \<ge> 0 then line_prefix s l else 0);
            (f, n) = (if i \<noteq> 0 then stdio_write f (take i s) else (f, 0)) in
        if n < i then (f, n)
        else (f\<lparr>wdata := wdata f @ drop i s\<rparr>, l))"

text \<open>\<^verbatim>\<open>size*nmemb\<close> is a product of two \<^verbatim>\<open>size_t\<close> values and wraps.\<close>

definition fwrite :: "FILE \<Rightarrow> byte list \<Rightarrow> nat \<Rightarrow> nat \<Rightarrow> FILE \<times> nat" where
  "fwrite f src sz nmemb =
     (let l = sz * nmemb mod 2 ^ 64; nmemb = (if sz = 0 then 0 else nmemb);
          (f, k) = fwritex f (take l src) in
      (f, if k = l then nmemb else k div sz))"

definition overflow_char :: "FILE \<Rightarrow> byte \<Rightarrow> FILE \<times> byte option" where
  "overflow_char f c =
     (let (f, ok) = (if wend f then (f, True) else towrite f) in
      if \<not> ok then (f, None)
      else if length (wdata f) \<noteq> buf_size f \<and> uint c \<noteq> lbf f then (f\<lparr>wdata := wdata f @ [c]\<rparr>, Some c)
      else let (f, n) = stdio_write f [c] in (f, if n \<noteq> 1 then None else Some c))"

definition putc :: "FILE \<Rightarrow> byte \<Rightarrow> FILE \<times> byte option" where
  "putc f c =
     (if uint c \<noteq> lbf f \<and> wend f \<and> length (wdata f) \<noteq> buf_size f
      then (f\<lparr>wdata := wdata f @ [c]\<rparr>, Some c)
      else overflow_char f c)"

section \<open>Reading\<close>

definition toread :: "FILE \<Rightarrow> FILE \<times> bool" where
  "toread f =
     (let f = (if wdata f \<noteq> [] then fst (stdio_write f []) else f);
          f = f\<lparr>wdata := [], wend := False\<rparr> in
      if F_NORD f then (f\<lparr>F_ERR := True\<rparr>, False)
      else (f\<lparr>rpos := Some (UNGET + buf_size f), rdata := []\<rparr>, \<not> F_EOF f))"

definition stdio_read :: "FILE \<Rightarrow> nat \<Rightarrow> FILE \<times> byte list" where
  "stdio_read f len =
     (let iov0 = len - (if buf_size f \<noteq> 0 then 1 else 0);
          (ans, src) = sys_read (iov0 + buf_size f) (source f);
          f = f\<lparr>source := src\<rparr> in
      case ans of
        None \<Rightarrow> (f\<lparr>F_ERR := True\<rparr>, [])
      | Some d \<Rightarrow>
          if d = [] then (f\<lparr>F_EOF := True\<rparr>, [])
          else if length d \<le> iov0 then (f, d)
          else
            let rest = drop iov0 d in
            if buf_size f \<noteq> 0 then
              (f\<lparr>rpos := Some (UNGET + 1), rdata := tl rest\<rparr>, take iov0 d @ [hd rest])
            else (f\<lparr>rpos := Some UNGET, rdata := rest\<rparr>, take iov0 d))"

definition uflow :: "FILE \<Rightarrow> FILE \<times> byte option" where
  "uflow f =
     (let (f, ok) = toread f in
      if \<not> ok then (f, None)
      else let (f, bs) = stdio_read f 1 in (f, case bs of [c] \<Rightarrow> Some c | _ \<Rightarrow> None))"

definition advance :: "nat \<Rightarrow> FILE \<Rightarrow> FILE" where
  "advance k f = f\<lparr>rpos := map_option (\<lambda>p. p + k) (rpos f), rdata := drop k (rdata f)\<rparr>"

definition getc :: "FILE \<Rightarrow> FILE \<times> byte option" where
  "getc f = (case rdata f of c # _ \<Rightarrow> (advance 1 f, Some c) | [] \<Rightarrow> uflow f)"

definition ungetc :: "FILE \<Rightarrow> byte \<Rightarrow> FILE \<times> byte option" where
  "ungetc f c =
     (let f = (if rpos f = None then fst (toread f) else f) in
      case rpos f of
        None \<Rightarrow> (f, None)
      | Some p \<Rightarrow>
          if p = 0 then (f, None)
          else (f\<lparr>rpos := Some (p - 1), rdata := c # rdata f, F_EOF := False\<rparr>, Some c))"

function fread_loop :: "FILE \<Rightarrow> byte list \<Rightarrow> nat \<Rightarrow> FILE \<times> byte list" where
  "fread_loop f acc l =
     (if l = 0 then (f, acc)
      else
        let (f, ok) = toread f;
            (f, bs) = (if ok then stdio_read f l else (f, [])) in
        if bs = [] then (f, acc) else fread_loop f (acc @ bs) (l - length bs))"
  by pat_completeness auto
termination
  by (relation "measure (\<lambda>(f, acc, l). l)") auto

declare fread_loop.simps [simp del]

definition fread :: "FILE \<Rightarrow> nat \<Rightarrow> nat \<Rightarrow> FILE \<times> byte list \<times> nat" where
  "fread f sz nmemb =
     (let len = sz * nmemb mod 2 ^ 64; nmemb = (if sz = 0 then 0 else nmemb);
          k = min (length (rdata f)) len;
          (f, d) = fread_loop (advance k f) (take k (rdata f)) (len - k) in
      (f, d, if length d = len then nmemb else length d div sz))"

text \<open>\<open>seek\<close> is what the descriptor's seek operation does for a stream with unread data.\<close>

definition fflush :: "(FILE \<Rightarrow> FILE) \<Rightarrow> FILE \<Rightarrow> FILE \<times> bool" where
  "fflush seek f =
     (let (f, ok) = (if wdata f \<noteq> [] then let f = fst (stdio_write f []) in (f, wend f) else (f, True)) in
      if \<not> ok then (f, False)
      else
        let f = (if rdata f \<noteq> [] then seek f else f) in
        (f\<lparr>wdata := [], wend := False, rpos := None, rdata := []\<rparr>, True))"

section \<open>Lines\<close>

text \<open>One pass of the loop of \<^verbatim>\<open>fgets\<close>: take what is buffered, up to a newline or the room left;
  then fetch one byte.  The result is the stream, the bytes stored so far and how the loop goes on.\<close>

datatype fgets_next = More | Done | Fail

definition fgets_step :: "FILE \<Rightarrow> byte list \<Rightarrow> nat \<Rightarrow> FILE \<times> byte list \<times> fgets_next" where
  "fgets_step f p n =
     (let z = (10 \<in> set (rdata f));
          k = min (if z then Suc (length (takeWhile (\<lambda>b. b \<noteq> 10) (rdata f))) else length (rdata f)) n;
          q = p @ take k (rdata f) in
      if rdata f \<noteq> [] \<and> (z \<or> n = k) then (advance k f, q, Done)
      else
        let (f, c) = getc (if rdata f \<noteq> [] then advance k f else f) in
        case c of
          None \<Rightarrow> (f, q, if q = [] \<or> \<not> F_EOF f then Fail else Done)
        | Some c \<Rightarrow> (f, q @ [c], if c = 10 then Done else More))"

function fgets_loop :: "FILE \<Rightarrow> byte list \<Rightarrow> nat \<Rightarrow> FILE \<times> byte list option" where
  "fgets_loop f p n =
     (if n = 0 then (f, Some p)
      else case fgets_step f p n of
          (f, q, Done) \<Rightarrow> (f, Some q)
        | (f, q, Fail) \<Rightarrow> (f, None)
        | (f, q, More) \<Rightarrow> fgets_loop f q (n - (length q - length p)))"
  by pat_completeness auto
termination
  by (relation "measure (\<lambda>(f, p, n). n)")
    (auto simp: fgets_step_def Let_def split: if_splits prod.splits option.splits)

declare fgets_loop.simps [simp del]

definition fgets :: "nat \<Rightarrow> FILE \<Rightarrow> FILE \<times> byte list option" where
  "fgets n f =
     (if n \<le> 1 then (f, if n < 1 then None else Some [])
      else fgets_loop f [] (n - 1))"

section \<open>What a write delivers\<close>

lemma sys_writev_cases:
  obtains (error) acc where "sys_writev n as = (None, acc)" "None \<in> set as"
  | (some) c acc where "sys_writev n as = (Some c, acc)" "c \<le> n" "None \<in> set acc \<Longrightarrow> None \<in> set as"
      "c \<noteq> n \<Longrightarrow> length acc < length as"
  using that by (cases "(n, as)" rule: sys_writev.cases) auto

text \<open>\<open>delivers f vec n r\<close>: the call ends in \<open>r\<close> after the kernel took some first part of \<open>vec\<close>, all of
  it unless there was an error, and \<open>n\<close> of the number of bytes taken is returned.\<close>

definition delivers :: "FILE \<Rightarrow> byte list \<Rightarrow> (nat \<Rightarrow> nat) \<Rightarrow> FILE \<times> nat \<Rightarrow> bool" where
  "delivers f vec n r \<longleftrightarrow> (\<exists>j acc ok.
     r = (f\<lparr>accept := acc, sink := sink f @ take j vec, wdata := [], wend := ok, F_ERR := F_ERR f \<or> \<not> ok\<rparr>, n j) \<and>
     j \<le> length vec \<and> (ok \<longrightarrow> j = length vec) \<and>
     (None \<notin> set (accept f) \<longrightarrow> ok \<and> None \<notin> set acc))"

lemma delivers_step:
  assumes "delivers (f\<lparr>accept := acc, sink := sink f @ take c vec\<rparr>) (drop c vec) n' r"
    and "c \<le> length vec" and "\<And>j. j \<le> length vec - c \<Longrightarrow> n' j = n (c + j)"
    and "None \<in> set acc \<Longrightarrow> None \<in> set (accept f)"
  shows "delivers f vec n r"
proof -
  from assms(1) obtain j acc' ok where r: "r = (f\<lparr>accept := acc', sink := (sink f @ take c vec) @ take j (drop c vec),
      wdata := [], wend := ok, F_ERR := F_ERR f \<or> \<not> ok\<rparr>, n' j)"
    and j: "j \<le> length vec - c" "ok \<longrightarrow> j = length vec - c" "None \<notin> set acc \<longrightarrow> ok \<and> None \<notin> set acc'"
    unfolding delivers_def by auto
  have "(sink f @ take c vec) @ take j (drop c vec) = sink f @ take (c + j) vec"
    by (simp add: take_add)
  then show ?thesis
    unfolding delivers_def using r j assms(2-4)
    by (intro exI [of _ "c + j"] exI [of _ acc'] exI [of _ ok]) auto
qed

lemma stdio_write_loop_delivers:
  "two \<longrightarrow> length b = len \<Longrightarrow> length b \<le> len \<Longrightarrow>
   delivers f (if two then a @ b else b)
     (\<lambda>j. if two then j - length a else len - length b + j) (stdio_write_loop f two a b len)"
proof (induction "length (accept f)" arbitrary: f two a b rule: less_induct)
  case less
  let ?vec = "if two then a @ b else b"
  let ?rem = "length ?vec"
  let ?n = "\<lambda>j. if two then j - length a else len - length b + j"
  show ?case
  proof (cases rule: sys_writev_cases [of ?rem "accept f"])
    case (error acc)
    then show ?thesis using less.prems unfolding delivers_def
      by (intro exI [of _ 0] exI [of _ acc] exI [of _ False])
        (simp add: stdio_write_loop.simps [of f two a b len] Let_def)
  next
    case (some c acc)
    let ?f = "f\<lparr>accept := acc, sink := sink f @ take c ?vec\<rparr>"
    note step = delivers_step [OF _ some(2) _ some(3)]
    have shorter: "c \<noteq> ?rem \<Longrightarrow> length (accept ?f) < length (accept f)" using some(4) by simp
    consider "c = ?rem" | "c \<noteq> ?rem" "two" "c > length a" | "c \<noteq> ?rem" "two" "\<not> c > length a"
      | "c \<noteq> ?rem" "\<not> two" by blast
    then show ?thesis
    proof cases
      case 1
      then show ?thesis using some(1,3) less.prems unfolding delivers_def
        by (intro exI [of _ ?rem] exI [of _ acc] exI [of _ True])
          (auto simp: stdio_write_loop.simps [of f two a b len] Let_def)
    next
      case 2
      have eq: "stdio_write_loop f two a b len = stdio_write_loop ?f False [] (drop (c - length a) b) len"
        using 2 some(1) by (subst stdio_write_loop.simps) (simp add: Let_def)
      have vec: "drop c ?vec = drop (c - length a) b" using 2 by simp
      have d: "delivers ?f (drop c ?vec) (\<lambda>j. len - length (drop (c - length a) b) + j) (stdio_write_loop ?f False [] (drop (c - length a) b) len)"
      proof -
        have "length (accept ?f) < length (accept f)" by (rule shorter [OF 2(1)])
        moreover have "False \<longrightarrow> length (drop (c - length a) b) = len" "length (drop (c - length a) b) \<le> len"
          using less.prems 2 by auto
        ultimately show ?thesis
          unfolding vec using less.hyps [of ?f False "drop (c - length a) b" "[]"] by (simp only: if_False simp_thms)
      qed
      show ?thesis unfolding eq by (rule step [OF d]) (use less.prems 2 some(2) in auto)
    next
      case 3
      have eq: "stdio_write_loop f two a b len = stdio_write_loop ?f True (drop c a) b len"
        using 3 some(1) by (subst stdio_write_loop.simps) (simp add: Let_def)
      have vec: "drop c ?vec = drop c a @ b" using 3 by simp
      have d: "delivers ?f (drop c ?vec) (\<lambda>j. j - length (drop c a)) (stdio_write_loop ?f True (drop c a) b len)"
      proof -
        have "length (accept ?f) < length (accept f)" by (rule shorter [OF 3(1)])
        moreover have "True \<longrightarrow> length (b) = len" "length (b) \<le> len"
          using less.prems 3 by auto
        ultimately show ?thesis
          unfolding vec using less.hyps [of ?f True "b" "drop c a"] by (simp only: if_True simp_thms)
      qed
      show ?thesis unfolding eq by (rule step [OF d]) (use less.prems 3 some(2) in auto)
    next
      case 4
      have eq: "stdio_write_loop f two a b len = stdio_write_loop ?f False [] (drop c b) len"
        using 4 some(1) by (subst stdio_write_loop.simps) (simp add: Let_def)
      have vec: "drop c ?vec = drop c b" using 4 by simp
      have d: "delivers ?f (drop c ?vec) (\<lambda>j. len - length (drop c b) + j) (stdio_write_loop ?f False [] (drop c b) len)"
      proof -
        have "length (accept ?f) < length (accept f)" by (rule shorter [OF 4(1)])
        moreover have "False \<longrightarrow> length (drop c b) = len" "length (drop c b) \<le> len"
          using less.prems 4 by auto
        ultimately show ?thesis
          unfolding vec using less.hyps [of ?f False "drop c b" "[]"] by (simp only: if_False simp_thms)
      qed
      show ?thesis unfolding eq by (rule step [OF d]) (use less.prems 4 some(2) in auto)
    qed
  qed
qed

lemma stdio_write_delivers: "delivers f (wdata f @ s) (\<lambda>j. j - length (wdata f)) (stdio_write f s)"
  using stdio_write_loop_delivers [of True s "length s" f "wdata f"] by (simp add: stdio_write_def)

lemma line_prefix_le: "line_prefix s n \<le> n"
  by (induction s n rule: line_prefix.induct) auto

text \<open>\<open>flowing f\<close>: a writable stream whose descriptor reports no error.  On such streams everything
  written is, in order, either taken by the kernel or in the buffer.\<close>

definition flowing :: "FILE \<Rightarrow> bool" where
  "flowing f \<longleftrightarrow> \<not> F_NOWR f \<and> None \<notin> set (accept f) \<and> (\<not> wend f \<longrightarrow> wdata f = []) \<and>
     length (wdata f) \<le> buf_size f"

definition written :: "FILE \<Rightarrow> byte list" where
  "written f = sink f @ wdata f"

lemma stdio_write_flowing:
  assumes "flowing f"
  obtains f' where "stdio_write f s = (f', length s)" "flowing f'" "wend f'" "wdata f' = []"
    "sink f' = written f @ s" "buf_size f' = buf_size f" "lbf f' = lbf f"
proof -
  from stdio_write_delivers [of f s] obtain j acc ok where
    r: "stdio_write f s = (f\<lparr>accept := acc, sink := sink f @ take j (wdata f @ s), wdata := [], wend := ok,
      F_ERR := F_ERR f \<or> \<not> ok\<rparr>, j - length (wdata f))"
    and j: "ok \<longrightarrow> j = length (wdata f @ s)" "None \<notin> set (accept f) \<longrightarrow> ok \<and> None \<notin> set acc"
    unfolding delivers_def by blast
  have "ok" "None \<notin> set acc" "j = length (wdata f @ s)" using j assms by (simp_all add: flowing_def)
  then show thesis using r assms
    by (intro that [of "fst (stdio_write f s)"]) (simp_all add: flowing_def written_def)
qed

lemma towrite_flowing:
  assumes "flowing f"
  obtains f' where "(if wend f then (f, True) else towrite f) = (f', True)" "flowing f'" "wend f'"
    "written f' = written f" "lbf f' = lbf f"
proof (cases "wend f")
  case True
  then show thesis using assms by (intro that [of f]) auto
next
  case False
  let ?f = "f\<lparr>rpos := None, rdata := [], wdata := [], wend := True\<rparr>"
  have "wdata f = []" "\<not> F_NOWR f" using False assms by (simp_all add: flowing_def)
  then have "(if wend f then (f, True) else towrite f) = (?f, True)" "flowing ?f" "written ?f = written f"
    using False assms by (simp_all add: towrite_def flowing_def written_def)
  then show thesis by (intro that [of ?f]) simp_all
qed

lemma fwritex_flowing:
  assumes "flowing f"
  shows "snd (fwritex f s) = length s \<and> flowing (fst (fwritex f s)) \<and> written (fst (fwritex f s)) = written f @ s"
proof -
  obtain f1 where f1: "(if wend f then (f, True) else towrite f) = (f1, True)" "flowing f1" "wend f1"
    "written f1 = written f" "lbf f1 = lbf f" by (rule towrite_flowing [OF assms])
  show ?thesis
  proof (cases "length s > buf_size f1 - length (wdata f1)")
    case True
    show ?thesis
      by (rule stdio_write_flowing [OF f1(2), of s]) (use True f1 in \<open>simp add: fwritex_def written_def\<close>)
  next
    case False
    define i where "i = (if lbf f1 \<ge> 0 then line_prefix s (length s) else 0)"
    have i: "i \<le> length s" using line_prefix_le [of s "length s"] by (simp add: i_def)
    have fx: "fwritex f s =
        (let (g, n) = (if i \<noteq> 0 then stdio_write f1 (take i s) else (f1, 0)) in
         if n < i then (g, n) else (g\<lparr>wdata := wdata g @ drop i s\<rparr>, length s))"
      unfolding fwritex_def f1(1) Let_def prod.case i_def [symmetric] using False by simp
    show ?thesis
    proof (cases "i = 0")
      case True
      then show ?thesis unfolding fx using False f1(2-4) by (auto simp: written_def flowing_def)
    next
      case nz: False
      obtain f2 where "stdio_write f1 (take i s) = (f2, length (take i s))" "flowing f2" "wend f2" "wdata f2 = []"
        "sink f2 = written f1 @ take i s" "buf_size f2 = buf_size f1"
        by (rule stdio_write_flowing [OF f1(2)])
      moreover have "length s \<le> buf_size f1" using False by simp
      ultimately show ?thesis unfolding fx using f1(4) nz i by (auto simp: written_def flowing_def)
    qed
  qed
qed

lemma overflow_flowing:
  assumes "flowing f"
  shows "snd (overflow_char f c) = Some c \<and> flowing (fst (overflow_char f c)) \<and>
    written (fst (overflow_char f c)) = written f @ [c]"
proof -
  obtain f1 where f1: "(if wend f then (f, True) else towrite f) = (f1, True)" "flowing f1" "wend f1"
    "written f1 = written f" by (rule towrite_flowing [OF assms])
  show ?thesis
  proof (cases "length (wdata f1) \<noteq> buf_size f1 \<and> uint c \<noteq> lbf f1")
    case True
    then show ?thesis using f1 by (simp add: overflow_char_def written_def) (auto simp: flowing_def)
  next
    case False
    show ?thesis
      by (rule stdio_write_flowing [OF f1(2), of "[c]"])
        (use f1 False in \<open>auto simp: overflow_char_def written_def\<close>)
  qed
qed

lemma putc_flowing:
  assumes "flowing f"
  shows "snd (putc f c) = Some c \<and> flowing (fst (putc f c)) \<and> written (fst (putc f c)) = written f @ [c]"
proof (cases "uint c \<noteq> lbf f \<and> wend f \<and> length (wdata f) \<noteq> buf_size f")
  case True
  then show ?thesis using assms by (auto simp: putc_def flowing_def written_def)
next
  case False
  then have "putc f c = overflow_char f c" unfolding putc_def by (rule if_not_P)
  then show ?thesis using overflow_flowing [OF assms] by simp
qed

section \<open>Output streams\<close>

text \<open>The contract of an operation that appends to a stream, and what a sequence of calls then does.\<close>

locale appender =
  fixes emit :: "'f \<Rightarrow> 'a \<Rightarrow> 'f" and inv :: "'f \<Rightarrow> bool" and out :: "'f \<Rightarrow> byte list" and data :: "'a \<Rightarrow> byte list"
  assumes emit_inv: "inv f \<Longrightarrow> inv (emit f x)"
    and emit_out: "inv f \<Longrightarrow> out (emit f x) = out f @ data x"
begin

lemma emits: "inv f \<Longrightarrow> inv (foldl emit f xs) \<and> out (foldl emit f xs) = out f @ concat (map data xs)"
  by (induction xs arbitrary: f) (simp_all add: emit_inv emit_out)

end

interpretation fwritex_out: appender "\<lambda>f s. fst (fwritex f s)" flowing written "\<lambda>s. s"
  by unfold_locales (simp_all add: fwritex_flowing)

interpretation putc_out: appender "\<lambda>f c. fst (putc f c)" flowing written "\<lambda>c. [c]"
  by unfold_locales (simp_all add: putc_flowing)

section \<open>Input streams\<close>

text \<open>What a reader will still get: the buffered bytes and the answers up to the first empty one.\<close>

fun arriving :: "byte list option list \<Rightarrow> byte list" where
  "arriving (Some c # cs) = (if c = [] then [] else c @ arriving cs)"
| "arriving _ = []"

definition avail :: "FILE \<Rightarrow> byte list" where
  "avail f = rdata f @ (if F_EOF f then [] else arriving (source f))"

definition readable :: "FILE \<Rightarrow> bool" where
  "readable f \<longleftrightarrow> \<not> F_NORD f \<and> wdata f = [] \<and> None \<notin> set (source f)"

lemma sys_read_arriving:
  assumes "None \<notin> set cs" and "0 < n"
  obtains d cs' where "sys_read n cs = (Some d, cs')" "None \<notin> set cs'" "length d \<le> n"
    "d = [] \<Longrightarrow> arriving cs = []" "d \<noteq> [] \<Longrightarrow> arriving cs = d @ arriving cs'"
proof (cases cs)
  case Nil
  then show thesis by (intro that [of "[]" "[]"]) simp_all
next
  case (Cons x xs)
  then obtain c where x: "x = Some c" using assms(1) by (cases x) auto
  show thesis
  proof (cases "length c \<le> n")
    case True
    then show thesis using assms Cons x by (intro that [of c xs]) simp_all
  next
    case False
    then have "take n c \<noteq> []" "drop n c \<noteq> []" "c \<noteq> []" using assms(2) by auto
    then show thesis using False assms(1) Cons x
      by (intro that [of "take n c" "Some (drop n c) # xs"]) auto
  qed
qed

lemma toread_readable:
  assumes "readable f" and "rdata f = []"
  shows "toread f = (f\<lparr>wend := False, rpos := Some (UNGET + buf_size f)\<rparr>, \<not> F_EOF f)"
  using assms by (simp add: toread_def readable_def)

lemma stdio_read_spec:
  assumes "readable f" and "rdata f = []" and "\<not> F_EOF f" and "0 < len"
  obtains f' bs where "stdio_read f len = (f', bs)" "readable f'" "length bs \<le> len"
    "bs = [] \<Longrightarrow> avail f = [] \<and> avail f' = [] \<and> F_EOF f'"
    "bs \<noteq> [] \<Longrightarrow> avail f = bs @ avail f' \<and> \<not> F_EOF f' \<and> (length bs < len \<longrightarrow> rdata f' = [])"
proof -
  let ?i = "len - (if buf_size f \<noteq> 0 then 1 else 0)"
  have pos: "0 < ?i + buf_size f" and ns: "None \<notin> set (source f)"
    using assms(1,4) by (auto simp: readable_def)
  obtain d cs' where r: "sys_read (?i + buf_size f) (source f) = (Some d, cs')" "None \<notin> set cs'"
    "length d \<le> ?i + buf_size f" "d = [] \<Longrightarrow> arriving (source f) = []"
    "d \<noteq> [] \<Longrightarrow> arriving (source f) = d @ arriving cs'"
    by (rule sys_read_arriving [OF ns pos]) blast
  consider "d = []" | "d \<noteq> []" "length d \<le> ?i" | "length d > ?i" by linarith
  then show thesis
  proof cases
    case 1
    then have "stdio_read f len = (f\<lparr>source := cs', F_EOF := True\<rparr>, [])"
      using r(1) by (simp add: stdio_read_def Let_def)
    then show thesis using 1 r assms
      by (intro that [of "f\<lparr>source := cs', F_EOF := True\<rparr>" "[]"]) (simp_all add: avail_def readable_def)
  next
    case 2
    then have "stdio_read f len = (f\<lparr>source := cs'\<rparr>, d)"
      using r(1) by (simp add: stdio_read_def Let_def)
    then show thesis using 2 r assms
      by (intro that [of "f\<lparr>source := cs'\<rparr>" d]) (simp_all add: avail_def readable_def)
  next
    case 3
    then have b: "buf_size f \<noteq> 0" using r(3) by (cases "buf_size f = 0") auto
    obtain x xs where x: "drop ?i d = x # xs" using 3 by (cases "drop ?i d") auto
    have d: "d = take ?i d @ x # xs" by (metis append_take_drop_id x)
    have ne: "d \<noteq> []" using 3 by auto
    let ?f = "f\<lparr>source := cs', rpos := Some (UNGET + 1), rdata := xs\<rparr>"
    have eq: "stdio_read f len = (?f, take ?i d @ [x])"
      using r(1) 3 ne b x by (simp add: stdio_read_def Let_def)
    have len: "length (take ?i d @ [x]) = len" using 3 b assms(4) by simp
    have "avail f = (take ?i d @ [x]) @ avail ?f"
      using assms(2,3) r(5) [OF ne] d by (simp add: avail_def)
    moreover have "readable ?f" using assms(1) r(2) by (simp add: readable_def)
    ultimately show thesis using that [OF eq] len assms(3) by simp
  qed
qed

lemma uflow_spec:
  assumes "readable f" and "rdata f = []"
  obtains f' c where "uflow f = (f', c)" "readable f'"
    "c = None \<Longrightarrow> avail f = [] \<and> avail f' = [] \<and> F_EOF f' \<and> rdata f' = []" "\<And>b. c = Some b \<Longrightarrow> avail f = b # avail f'"
proof (cases "F_EOF f")
  case True
  let ?f = "f\<lparr>wend := False, rpos := Some (UNGET + buf_size f)\<rparr>"
  show thesis
  proof (rule that [of ?f None])
    show "uflow f = (?f, None)" using True by (simp add: uflow_def toread_readable [OF assms])
    show "readable ?f" using assms(1) by (simp add: readable_def)
  qed (use True assms in \<open>simp_all add: avail_def\<close>)
next
  case False
  let ?f = "f\<lparr>wend := False, rpos := Some (UNGET + buf_size f)\<rparr>"
  have "readable ?f" "rdata ?f = []" "\<not> F_EOF ?f" "0 < (1 :: nat)" "avail ?f = avail f"
    using assms False by (simp_all add: readable_def avail_def)
  note pre = this
  obtain f' bs where r: "stdio_read ?f 1 = (f', bs)" "readable f'" "length bs \<le> 1"
    "bs = [] \<Longrightarrow> avail ?f = [] \<and> avail f' = [] \<and> F_EOF f'"
    "bs \<noteq> [] \<Longrightarrow> avail ?f = bs @ avail f' \<and> \<not> F_EOF f' \<and> (length bs < 1 \<longrightarrow> rdata f' = [])"
    by (rule stdio_read_spec [OF pre(1-4)]) blast
  have u: "uflow f = (f', case bs of [c] \<Rightarrow> Some c | _ \<Rightarrow> None)"
    using False r(1) by (simp add: uflow_def toread_readable [OF assms])
  show thesis
  proof (cases bs)
    case Nil
    then show thesis using u r pre(5) by (intro that [of f' None]) (auto simp: avail_def)
  next
    case (Cons x xs)
    then have "bs = [x]" using r(3) by simp
    then show thesis using u r(2,5) pre(5) by (intro that [of f' "Some x"]) auto
  qed
qed

lemma readable_advance [simp]: "readable (advance k f) = readable f"
  by (simp add: advance_def readable_def)

lemma avail_advance: "k \<le> length (rdata f) \<Longrightarrow> avail (advance k f) = drop k (avail f)"
  by (simp add: advance_def avail_def)

lemma getc_spec:
  assumes "readable f"
  obtains f' where "getc f = (f', case avail f of [] \<Rightarrow> None | c # _ \<Rightarrow> Some c)" "readable f'"
    "avail f' = tl (avail f)" "avail f = [] \<Longrightarrow> F_EOF f' \<and> rdata f' = []"
proof (cases "rdata f")
  case Nil
  obtain f' c where u: "uflow f = (f', c)" "readable f'"
    "c = None \<Longrightarrow> avail f = [] \<and> avail f' = [] \<and> F_EOF f' \<and> rdata f' = []" "\<And>b. c = Some b \<Longrightarrow> avail f = b # avail f'"
    by (rule uflow_spec [OF assms Nil]) blast
  then show thesis using Nil by (cases c) (auto intro!: that [of f'] simp: getc_def)
next
  case (Cons x xs)
  then have "avail f = x # avail (advance 1 f)" by (simp add: avail_def advance_def)
  then show thesis using Cons assms by (intro that [of "advance 1 f"]) (auto simp: getc_def)
qed

lemma fread_loop_spec:
  "readable f \<Longrightarrow> rdata f = [] \<or> l = 0 \<Longrightarrow>
   \<exists>f'. fread_loop f acc l = (f', acc @ take l (avail f)) \<and> readable f' \<and> avail f' = drop l (avail f)"
proof (induction l arbitrary: f acc rule: less_induct)
  case (less l)
  show ?case
  proof (cases "l = 0")
    case True
    then show ?thesis using less.prems by (simp add: fread_loop.simps [of f acc 0])
  next
    case False
    then have rd: "rdata f = []" using less.prems by simp
    let ?f = "f\<lparr>wend := False, rpos := Some (UNGET + buf_size f)\<rparr>"
    note tr = toread_readable [OF less.prems(1) rd]
    have pre: "readable ?f" "rdata ?f = []" "avail ?f = avail f"
      using less.prems(1) rd by (simp_all add: readable_def avail_def)
    show ?thesis
    proof (cases "F_EOF f")
      case True
      then have "avail f = []" using rd by (simp add: avail_def)
      then show ?thesis using True False tr pre by (simp add: fread_loop.simps [of f acc l])
    next
      case eof: False
      have ne: "\<not> F_EOF ?f" "0 < l" using eof False by simp_all
      obtain f' bs where r: "stdio_read ?f l = (f', bs)" "readable f'" "length bs \<le> l"
        "bs = [] \<Longrightarrow> avail ?f = [] \<and> avail f' = [] \<and> F_EOF f'"
        "bs \<noteq> [] \<Longrightarrow> avail ?f = bs @ avail f' \<and> \<not> F_EOF f' \<and> (length bs < l \<longrightarrow> rdata f' = [])"
        by (rule stdio_read_spec [OF pre(1,2) ne]) blast
      have eq: "fread_loop f acc l = (if bs = [] then (f', acc) else fread_loop f' (acc @ bs) (l - length bs))"
        using False eof tr r(1) by (simp add: fread_loop.simps [of f acc l])
      show ?thesis
      proof (cases "bs = []")
        case True
        then show ?thesis using eq r pre(3) by simp
      next
        case nb: False
        have "l - length bs < l" using nb False by simp
        moreover have "rdata f' = [] \<or> l - length bs = 0" using r(3,5) nb by auto
        ultimately obtain g where "fread_loop f' (acc @ bs) (l - length bs) =
            (g, (acc @ bs) @ take (l - length bs) (avail f'))" "readable g" "avail g = drop (l - length bs) (avail f')"
          using less.IH [of "l - length bs" f' "acc @ bs"] r(2) by auto
        then show ?thesis using eq nb r(3,5) pre(3) by simp
      qed
    qed
  qed
qed

definition line_of :: "nat \<Rightarrow> byte list \<Rightarrow> byte list" where
  "line_of n xs =
     take n (if 10 \<in> set xs then takeWhile (\<lambda>b. b \<noteq> 10) xs @ [10] else xs)"

lemma before_newline_append:
  "10 \<notin> set xs \<Longrightarrow> takeWhile (\<lambda>b. b \<noteq> 10) (xs @ ys) = xs @ takeWhile (\<lambda>b. b \<noteq> 10) (ys :: byte list)"
  by (induction xs) auto

lemma line_of_append:
  "10 \<notin> set xs \<Longrightarrow> length xs \<le> n \<Longrightarrow> line_of n (xs @ ys) = xs @ line_of (n - length xs) ys"
  by (auto simp: line_of_def before_newline_append)

lemma line_of_cons: "0 < n \<Longrightarrow> line_of n (c # ys) = (if c = 10 then [c] else c # line_of (n - 1) ys)"
  by (cases n) (auto simp: line_of_def)

lemma line_of_buffered:
  assumes "10 \<in> set xs \<or> n \<le> length xs" and "0 < n"
  shows "line_of n (xs @ ys) =
    take (min (if 10 \<in> set xs then Suc (length (takeWhile (\<lambda>b. b \<noteq> 10) xs)) else length xs) n) xs"
proof (cases "10 \<in> set xs")
  case True
  let ?t = "takeWhile (\<lambda>b. b \<noteq> 10) xs"
  have "takeWhile (\<lambda>b. b \<noteq> 10) (xs @ ys) = ?t" using True by (intro takeWhile_append1) auto
  moreover have "length ?t < length xs" using True by (intro takeWhile_shorter) auto
  then have "take (Suc (length ?t)) xs = take (length ?t) xs @ [10]"
    using nth_length_takeWhile [of "\<lambda>b. b \<noteq> 10" xs] by (simp add: take_Suc_conv_app_nth)
  then have "take (Suc (length ?t)) xs = ?t @ [10]" using takeWhile_eq_take [of "\<lambda>b. b \<noteq> 10" xs] by metis
  then have "take (min (Suc (length ?t)) n) xs = take n (?t @ [10])"
    by (simp only: take_take min.commute [of _ n] flip: \<open>take (Suc (length ?t)) xs = ?t @ [10]\<close>)
  ultimately show ?thesis using True by (simp add: line_of_def)
next
  case False
  then have "n \<le> length xs" using assms(1) by simp
  then show ?thesis using False by (auto simp: line_of_def before_newline_append min_def)
qed

lemma fgets_loop_spec:
  "readable f \<Longrightarrow>
   \<exists>f'. fgets_loop f p n = (f', if n \<noteq> 0 \<and> p = [] \<and> avail f = [] then None else Some (p @ line_of n (avail f))) \<and>
     readable f' \<and> avail f' = drop (length (line_of n (avail f))) (avail f)"
proof (induction n arbitrary: f p rule: less_induct)
  case (less n)
  show ?case
  proof (cases "n = 0")
    case True
    then show ?thesis using less.prems by (simp add: fgets_loop.simps [of f p 0] line_of_def)
  next
    case n0: False
    let ?z = "10 \<in> set (rdata f)"
    let ?k = "min (if ?z then Suc (length (takeWhile (\<lambda>b. b \<noteq> 10) (rdata f))) else length (rdata f)) n"
    show ?thesis
    proof (cases "rdata f \<noteq> [] \<and> (?z \<or> n = ?k)")
      case True
      have k: "?k \<le> length (rdata f)"
        using takeWhile_shorter [of 10 "rdata f" "\<lambda>b. b \<noteq> 10"] by auto
      have "fgets_loop f p n = (advance ?k f, Some (p @ take ?k (rdata f)))"
        using True n0 by (subst fgets_loop.simps) (simp add: fgets_step_def Let_def)
      moreover have "line_of n (avail f) = take ?k (rdata f)"
        unfolding avail_def using True n0 k by (intro line_of_buffered) auto
      moreover have "avail f \<noteq> []" using True by (simp add: avail_def)
      ultimately show ?thesis using less.prems k avail_advance [OF k] by simp
    next
      case False
      then have z: "10 \<notin> set (rdata f)" and k: "?k = length (rdata f)" and lt: "length (rdata f) < n"
        using n0 by (auto simp: min_def split: if_splits)
      let ?r = "rdata f"
      let ?f = "if ?r \<noteq> [] then advance (length ?r) f else f"
      have rf: "readable ?f" and av: "avail f = ?r @ avail ?f"
        using less.prems by (auto simp: avail_def advance_def readable_def)
      obtain g where g: "getc ?f = (g, case avail ?f of [] \<Rightarrow> None | c # _ \<Rightarrow> Some c)" "readable g"
        "avail g = tl (avail ?f)" "avail ?f = [] \<Longrightarrow> F_EOF g \<and> rdata g = []"
        by (rule getc_spec [OF rf]) blast
      have step: "fgets_step f p n = (case avail ?f of
            [] \<Rightarrow> (g, p @ ?r, if p @ ?r = [] \<or> \<not> F_EOF g then Fail else Done)
          | c # _ \<Rightarrow> (g, p @ ?r @ [c], if c = 10 then Done else More))"
        using False g(1) k z by (auto simp: fgets_step_def Let_def split: list.splits)
      have line: "line_of n (avail f) = ?r @ line_of (n - length ?r) (avail ?f)"
        unfolding av using z lt by (intro line_of_append) simp_all
      show ?thesis
      proof (cases "avail ?f")
        case Nil
        have "line_of n (avail f) = ?r" unfolding line Nil by (simp add: line_of_def)
        moreover have "avail f = ?r" using av Nil by simp
        moreover have "avail g = []" using g(3) Nil by simp
        ultimately show ?thesis using n0 step Nil g
          by (subst fgets_loop.simps) simp
      next
        case (Cons c cs)
        have l: "line_of n (avail f) = ?r @ (if c = 10 then [c] else c # line_of (n - Suc (length ?r)) cs)"
          unfolding line Cons using lt by (simp add: line_of_cons)
        have ne: "avail f \<noteq> []" using av Cons by simp
        show ?thesis
        proof (cases "c = 10")
          case True
          then show ?thesis using n0 step Cons g l av ne by (subst fgets_loop.simps) simp
        next
          case nl: False
          let ?q = "p @ ?r @ [c]"
          have "fgets_loop f p n = fgets_loop g ?q (n - Suc (length ?r))"
            using n0 step Cons nl by (subst fgets_loop.simps) simp
          moreover obtain h where "fgets_loop g ?q (n - Suc (length ?r)) =
              (h, Some (?q @ line_of (n - Suc (length ?r)) cs))" "readable h"
              "avail h = drop (length (line_of (n - Suc (length ?r)) cs)) cs"
            using less.IH [of "n - Suc (length ?r)" g ?q] n0 g(2,3) Cons by auto
          ultimately show ?thesis using l av Cons nl ne by simp
        qed
      qed
    qed
  qed
qed

section \<open>The contracts\<close>

text \<open>
  C17.  However the kernel splits the input into reads, \<open>fgets\<close> returns the same lines: the bytes
  up to and including the next newline, at most \<open>n - 1\<close> of them, and \<^verbatim>\<open>NULL\<close> only at the end of the
  input; the rest of the input stays available.
\<close>

theorem fgets_line:
  assumes "readable f" and "2 \<le> n"
  shows "snd (fgets n f) = (if avail f = [] then None else Some (line_of (n - 1) (avail f))) \<and>
    avail (fst (fgets n f)) = drop (length (line_of (n - 1) (avail f))) (avail f)"
  using fgets_loop_spec [OF assms(1), of "[]" "n - 1"] assms(2) by (auto simp: fgets_def)

text \<open>
  C18.  \<open>fread\<close> stores the next \<open>len\<close> bytes of the input, where \<open>len\<close> is \<^verbatim>\<open>size*nmemb\<close> as the
  \<^verbatim>\<open>size_t\<close> product it is, or all that is left when the input ends first, whatever the buffer
  holds and however the input arrives; the rest stays available.  It returns the number of items:
  \<open>n\<close> (0 for items of size 0) when all \<open>len\<close> bytes were there, else the number of whole items
  among the bytes that were left.
\<close>

theorem fread_prefix:
  fixes sz n :: nat
  defines "len \<equiv> sz * n mod 2 ^ 64"
  assumes "readable f"
  shows "\<exists>g. fread f sz n =
      (g, take len (avail f),
       if len \<le> length (avail f) then (if sz = 0 then 0 else n) else length (avail f) div sz) \<and>
    readable g \<and> avail g = drop len (avail f)"
proof -
  let ?k = "min (length (rdata f)) len"
  have k: "?k \<le> length (rdata f)" by simp
  have av: "avail (advance ?k f) = drop ?k (avail f)" using k by (rule avail_advance)
  have tk: "take ?k (rdata f) = take ?k (avail f)" by (simp add: avail_def)
  have "rdata (advance ?k f) = [] \<or> len - ?k = 0" by (auto simp: advance_def min_def)
  then obtain g where g: "fread_loop (advance ?k f) (take ?k (rdata f)) (len - ?k) =
      (g, take ?k (rdata f) @ take (len - ?k) (avail (advance ?k f)))"
    "readable g" "avail g = drop (len - ?k) (avail (advance ?k f))"
    using fread_loop_spec [of "advance ?k f" "len - ?k" "take ?k (rdata f)"] assms(2) by auto
  have "take ?k (rdata f) @ take (len - ?k) (avail (advance ?k f)) = take len (avail f)"
    unfolding av tk take_add [symmetric] by simp
  then have "fread f sz n = (g, take len (avail f),
      if len \<le> length (avail f) then (if sz = 0 then 0 else n) else length (avail f) div sz)"
    using g(1) unfolding fread_def Let_def len_def [symmetric] by (auto simp: min_def)
  moreover have "avail g = drop len (avail f)" using g(3) by (simp add: av)
  ultimately show ?thesis using g(2) by blast
qed

text \<open>A stream on a descriptor that answers with the given chunks, with nothing buffered yet.\<close>

definition open_stream :: "nat \<Rightarrow> byte list list \<Rightarrow> nat option list \<Rightarrow> FILE" where
  "open_stream n chunks acc =
     \<lparr>rpos = None, rdata = [], wend = False, wdata = [], buf_size = n, lbf = 10, F_NORD = False, F_NOWR = False,
      F_EOF = False, F_ERR = False, source = map Some chunks, accept = acc, sink = []\<rparr>"

theorem fgets_line_witness:
  "snd (fgets 10 (open_stream 4 [[0x61], [0x62, 0x63], [0x64, 10, 0x65], []] [])) =
     Some [0x61, 0x62, 0x63, 0x64, 10]"
  using fgets_line [of "open_stream 4 [[0x61], [0x62, 0x63], [0x64, 10, 0x65], []] []" 10]
  by (simp add: readable_def open_stream_def avail_def line_of_def)

theorem fread_prefix_witness:
  "snd (fread (open_stream 2 [[1, 2, 3], [4], [5, 6]] []) 2 2) = ([1, 2, 3, 4], 2) \<and>
   snd (fread (open_stream 2 [[1, 2, 3], [4], [5, 6, 7]] []) 2 5) = ([1, 2, 3, 4, 5, 6, 7], 3)"
  using fread_prefix [of "open_stream 2 [[1, 2, 3], [4], [5, 6]] []" 2 2]
    fread_prefix [of "open_stream 2 [[1, 2, 3], [4], [5, 6, 7]] []" 2 5]
  by (simp add: readable_def open_stream_def avail_def) auto

text \<open>
  C19.  Output order: on a stream whose descriptor reports no error, any sequence of writes
  followed by a flush delivers exactly the concatenation of the data, after what was buffered
  before, through line buffering, full buffers and short writes.
\<close>

theorem writes_delivered:
  assumes "flowing f" and "\<And>g. sink (seek g) = sink g"
  shows "sink (fst (fflush seek (foldl (\<lambda>f s. fst (fwritex f s)) f ss))) = written f @ concat ss"
proof -
  let ?g = "foldl (\<lambda>f s. fst (fwritex f s)) f ss"
  have g: "flowing ?g" "written ?g = written f @ concat ss"
    using fwritex_out.emits [OF assms(1), of ss] by simp_all
  show ?thesis
  proof (cases "wdata ?g = []")
    case True
    then show ?thesis using g(2) assms(2) by (simp add: fflush_def Let_def written_def)
  next
    case False
    obtain h where "stdio_write ?g [] = (h, length ([] :: byte list))" "wend h" "sink h = written ?g @ []"
      by (rule stdio_write_flowing [OF g(1), of "[]"]) blast
    then show ?thesis using False g(2) assms(2) by (simp add: fflush_def Let_def)
  qed
qed

theorem writes_delivered_witness:
  "sink (fst (fflush id (foldl (\<lambda>f s. fst (fwritex f s)) (open_stream 4 [] [Some 1, Some 0, Some 2])
     [[1, 2, 3], [4, 10, 5], [6, 7, 8, 9, 11]]))) = [1, 2, 3, 4, 10, 5, 6, 7, 8, 9, 11]"
  using writes_delivered [of "open_stream 4 [] [Some 1, Some 0, Some 2]" id "[[1, 2, 3], [4, 10, 5], [6, 7, 8, 9, 11]]"]
  by (simp add: flowing_def open_stream_def written_def)

text \<open>
  C20.  Write errors: whatever the descriptor answers, \<open>stdio_write\<close> has delivered some first part
  of the buffered bytes followed by the new ones, and returns how many of the new ones that part
  contains; it is everything unless the error flag is set.
\<close>

theorem stdio_write_reports:
  "\<exists>j \<le> length (wdata f @ s). sink (fst (stdio_write f s)) = sink f @ take j (wdata f @ s) \<and>
     snd (stdio_write f s) = j - length (wdata f) \<and>
     (j = length (wdata f @ s) \<or> F_ERR (fst (stdio_write f s)) \<and> \<not> wend (fst (stdio_write f s)))"
proof -
  from stdio_write_delivers [of f s] obtain j acc ok where
    "stdio_write f s = (f\<lparr>accept := acc, sink := sink f @ take j (wdata f @ s), wdata := [], wend := ok,
      F_ERR := F_ERR f \<or> \<not> ok\<rparr>, j - length (wdata f))" "j \<le> length (wdata f @ s)"
    "ok \<longrightarrow> j = length (wdata f @ s)"
    unfolding delivers_def by blast
  then show ?thesis by (intro exI [of _ j]) auto
qed

text \<open>
  Pushback: while \<^verbatim>\<open>rpos\<close> has not reached the start of the pushback area, \<open>ungetc\<close> succeeds, and
  reading then returns the byte pushed back and restores the stream, its end-of-file flag cleared.
\<close>

theorem ungetc_getc:
  assumes "rpos f = Some p" and "0 < p"
  shows "snd (ungetc f c) = Some c \<and> getc (fst (ungetc f c)) = (f\<lparr>F_EOF := False\<rparr>, Some c)"
  using assms by (simp add: ungetc_def getc_def advance_def)

theorem ungetc_getc_witness:
  "getc (fst (ungetc ((open_stream 4 [] [])\<lparr>rpos := Some 1, F_EOF := True\<rparr>) 7)) =
     ((open_stream 4 [] [])\<lparr>rpos := Some 1\<rparr>, Some 7)"
  using ungetc_getc [of "(open_stream 4 [] [])\<lparr>rpos := Some 1, F_EOF := True\<rparr>" 1 7]
  by (simp add: open_stream_def)

end
