(* ===== verification/Rux_Shell.thy ===== *)
theory Rux_Shell
  imports Musl_String Musl_Stdio
begin

text \<open>
  The command shell of Rux, \<^verbatim>\<open>src/userspace/shell/src/shell.c\<close>.

  The shell's memory holds its two character arrays and its string literals: \<^verbatim>\<open>cmd[256]\<close> at 0,
  \<^verbatim>\<open>path[256]\<close> at 256 and the literals from 512 on.  Lines come from \<open>fgets\<close> on a stream, the
  arguments from \<open>strtok\<close>, the comparisons are \<open>strcmp\<close> calls, all of the musl models.  What one
  command finds outside (directory entries, file contents, the answers to its writes, process ids,
  the time, and the byte the stack holds where the last element of \<^verbatim>\<open>path\<close> lies) is the record
  \<open>os\<close>, a new one for every command; what the shell does to the outside is a list of events.  The
  value \<open>None\<close> of a command is a fault or a loop that does not end.
\<close>

section \<open>Memory layout\<close>

definition MAX_CMD_LEN :: nat where "MAX_CMD_LEN = 256"
definition MAX_ARGS :: nat where "MAX_ARGS = 16"

definition CMD :: nat where "CMD = 0"
definition PATH :: nat where "PATH = 256"
definition SEP :: nat where "SEP = 512"
definition L_ECHO :: nat where "L_ECHO = 516"
definition L_HELP :: nat where "L_HELP = 521"
definition L_EXIT :: nat where "L_EXIT = 526"
definition L_QUIT :: nat where "L_QUIT = 531"
definition L_TIME :: nat where "L_TIME = 536"
definition L_PID :: nat where "L_PID = 541"
definition L_LS :: nat where "L_LS = 545"
definition L_CAT :: nat where "L_CAT = 548"

definition literals :: "byte list" where
  "literals =
     [32, 9, 10, 0] @ bytes ''echo'' @ [0] @ bytes ''help'' @ [0] @ bytes ''exit'' @ [0] @
     bytes ''quit'' @ [0] @ bytes ''time'' @ [0] @ bytes ''pid'' @ [0] @ bytes ''ls'' @ [0] @
     bytes ''cat'' @ [0]"

section \<open>The kernel and the events\<close>

datatype event =
    Out "byte list"
  | Write "byte list"
  | Exec "byte list option" "byte list list"
  | Wait int
  | Close
  | Exit nat

record os =
  os_dir :: "byte list \<Rightarrow> nat + (nat \<times> byte list) list"
  os_open :: "byte list \<Rightarrow> nat + (nat + byte list) list"
  os_writes :: "nat \<Rightarrow> nat + nat"
  os_fork :: int
  os_execs :: "byte list option \<Rightarrow> bool"
  os_time :: "nat \<times> nat"
  os_pid :: nat
  os_ppid :: nat
  os_stack :: byte

definition fmt_d :: "nat \<Rightarrow> byte list" where
  "fmt_d n = (if n = 0 then [48] else fmt_u n [])"

definition NL :: "byte list" where "NL = [10]"

section \<open>Built-in commands\<close>

definition print_welcome :: "event list" where
  "print_welcome =
     [Out NL, Out (bytes ''========================================'' @ NL),
      Out (bytes ''  Rux OS Shell v0.3 (musl libc)'' @ NL),
      Out (bytes ''========================================'' @ NL),
      Out (bytes ''Type '' @ [39] @ bytes ''help'' @ [39] @ bytes '' for available commands'' @ NL), Out NL]"

definition print_help :: "event list" where
  "print_help = map (\<lambda>s. Out (bytes s @ NL))
     [''Rux OS Shell v0.3'', ''Available commands:'', ''  echo <args>  - Print arguments'',
      ''  help         - Show this help message'', ''  ls [dir]     - List directory contents'',
      ''  cat <file>   - Display file contents'', ''  time         - Show current time'',
      ''  pid          - Show process ID'', ''  exit         - Exit the shell'',
      ''  <program>    - Execute external program'', '''']"

definition type_char :: "nat \<Rightarrow> byte" where
  "type_char t =
     (if t = 4 then 100 else if t = 8 then 45 else if t = 10 then 108 else if t = 6 then 98
      else if t = 2 then 99 else if t = 1 then 112 else if t = 12 then 115 else 63)"

definition cmd_ls :: "os \<Rightarrow> byte list option \<Rightarrow> event list" where
  "cmd_ls w dirname =
     (let path = (case dirname of Some d \<Rightarrow> d | None \<Rightarrow> [46]) in
      case os_dir w path of
        Inl e \<Rightarrow> [Out (bytes ''ls: cannot open directory '' @ [39] @ path @ [39] @ bytes '': '' @ fmt_d e @ NL)]
      | Inr entries \<Rightarrow>
          Out (bytes ''Contents of '' @ path @ bytes '':'' @ NL) #
          map (\<lambda>(t, name). Out ([32, 32, type_char t, 32] @ name @ NL)) entries @ [Close])"

text \<open>The inner loop of \<^verbatim>\<open>cmd_cat\<close>: write \<open>buf\<close>, of which the kernel may take only a part; \<open>ws k\<close>
  is its answer to the \<open>k\<close>-th write of the command, an error or the number of bytes taken.  The
  result tells the events, the number of writes made so far and the error, if there was one.  The
  loop never ends when the kernel keeps on taking nothing.\<close>

partial_function (option) cat_write ::
    "(nat \<Rightarrow> nat + nat) \<Rightarrow> nat \<Rightarrow> byte list \<Rightarrow> (event list \<times> nat \<times> nat option) option" where
  "cat_write ws k buf =
     (if buf = [] then Some ([], k, None)
      else case ws k of
          Inl e \<Rightarrow> Some ([], Suc k, Some e)
        | Inr n \<Rightarrow> do { (es, k, r) \<leftarrow> cat_write ws (Suc k) (drop n buf); Some (Write (take n buf) # es, k, r) })"

declare cat_write.simps [code]

fun cat_loop :: "(nat \<Rightarrow> nat + nat) \<Rightarrow> (nat + byte list) list \<Rightarrow> nat \<Rightarrow> event list option" where
  "cat_loop ws [] k = Some [Close]"
| "cat_loop ws (Inl e # rs) k = Some [Out (NL @ bytes ''cat: read error: '' @ fmt_d e @ NL), Close]"
| "cat_loop ws (Inr b # rs) k =
     (if b = [] then Some [Close]
      else do { (es, k, r) \<leftarrow> cat_write ws k b;
                case r of
                  Some e \<Rightarrow> Some (es @ [Out (NL @ bytes ''cat: write error: '' @ fmt_d e @ NL), Close])
                | None \<Rightarrow> do { es' \<leftarrow> cat_loop ws rs k; Some (es @ es') } })"

definition cmd_cat :: "os \<Rightarrow> byte list option \<Rightarrow> event list option" where
  "cmd_cat w filename =
     (case filename of
        None \<Rightarrow> Some [Out (bytes ''cat: missing file operand'' @ NL), Out (bytes ''Usage: cat <filename>'' @ NL)]
      | Some name \<Rightarrow>
          case os_open w name of
            Inl e \<Rightarrow> Some [Out (bytes ''cat: cannot open '' @ [39] @ name @ [39] @ bytes '': '' @ fmt_d e @ NL)]
          | Inr reads \<Rightarrow> cat_loop (os_writes w) reads 0)"

definition run_external :: "os \<Rightarrow> byte list option \<Rightarrow> byte list list \<Rightarrow> event list \<times> int" where
  "run_external w path argv =
     (if os_fork w < 0 then ([Out (bytes ''fork failed'' @ NL)], -1)
      else if os_fork w = 0 then
        (Exec path argv #
           (if os_execs w path then []
            else [Out (bytes ''execve failed: '' @ (case path of Some p \<Rightarrow> p | None \<Rightarrow> []) @ NL), Exit 1]), 0)
      else ([Wait (os_fork w)], 0))"

section \<open>Commands\<close>

text \<open>The loop that collects the arguments, with \<open>n\<close> free slots of \<^verbatim>\<open>args\<close>.\<close>

fun collect_args :: "mem \<times> nat option \<Rightarrow> nat option \<Rightarrow> nat \<Rightarrow> ((mem \<times> nat option) \<times> nat list) option" where
  "collect_args st None n = Some (st, [])"
| "collect_args st (Some t) 0 = Some (st, [])"
| "collect_args st (Some t) (Suc n) =
     do { (st, tok) \<leftarrow> strtok st None SEP;
          (st, ts) \<leftarrow> collect_args st tok n;
          Some (st, t # ts) }"

definition cmd_echo :: "byte list list \<Rightarrow> event list" where
  "cmd_echo args =
     concat (map (\<lambda>i. Out (args ! i) # (if i < length args - 1 then [Out [32]] else [])) [1..<length args]) @ [Out NL]"

definition cmd_time :: "os \<Rightarrow> event list" where
  "cmd_time w =
     (let (s, us) = os_time w; d = fmt_d us in
      [Out (bytes ''Current time: '' @ fmt_d s @ [46] @ replicate (6 - length d) 48 @ d @
            bytes '' seconds since epoch'' @ NL)])"

definition cmd_pid :: "os \<Rightarrow> event list" where
  "cmd_pid w = [Out (bytes ''PID: '' @ fmt_d (os_pid w) @ NL), Out (bytes ''PPID: '' @ fmt_d (os_ppid w) @ NL)]"

text \<open>The string in the \<open>n\<close> bytes at \<open>a\<close>, \<open>None\<close> when it runs past them.\<close>

definition string_in :: "mem \<Rightarrow> nat \<Rightarrow> nat \<Rightarrow> byte list option" where
  "string_in m a n =
     (let b = take n (drop a m) in if 0 \<in> set b then Some (takeWhile (\<lambda>b. b \<noteq> 0) b) else None)"

text \<open>\<^verbatim>\<open>snprintf(path, sizeof(path), "/bin/%s", args[0])\<close>\<close>

definition bin_path :: "mem \<Rightarrow> nat \<Rightarrow> mem" where
  "bin_path m a = mem_write PATH (take 255 (bytes ''/bin/'' @ cstr m a) @ [0]) m"

text \<open>A child (\<^verbatim>\<open>fork\<close> returned 0) never comes back to the loop: it is replaced or exits.\<close>

definition exec_external :: "os \<Rightarrow> mem \<Rightarrow> nat list \<Rightarrow> (event list \<times> bool) option" where
  "exec_external w m args =
     do { c \<leftarrow> load m (hd args);
          m \<leftarrow> (if c = 47 \<or> c = 46 then do { (m, _) \<leftarrow> strncpy m PATH (hd args) 255; Some m }
                 else Some (bin_path m (hd args)));
          Some (fst (run_external w (string_in m PATH 256) (map (cstr m) args)), os_fork w = 0) }"

definition dispatch :: "os \<Rightarrow> mem \<Rightarrow> nat list \<Rightarrow> (event list \<times> bool) option" where
  "dispatch w m args =
     (let a0 = hd args; arg1 = (if length args > 1 then Some (cstr m (args ! 1)) else None) in
      do { r \<leftarrow> strcmp m a0 L_ECHO;
           if r = 0 then Some (cmd_echo (map (cstr m) args), False) else
      do { r \<leftarrow> strcmp m a0 L_HELP;
           if r = 0 then Some (print_help, False) else
      do { r1 \<leftarrow> strcmp m a0 L_EXIT;
           r2 \<leftarrow> (if r1 = 0 then Some 0 else strcmp m a0 L_QUIT);
           if r1 = 0 \<or> r2 = 0 then Some ([Out (bytes ''Goodbye!'' @ NL), Exit 0], True) else
      do { r \<leftarrow> strcmp m a0 L_TIME;
           if r = 0 then Some (cmd_time w, False) else
      do { r \<leftarrow> strcmp m a0 L_PID;
           if r = 0 then Some (cmd_pid w, False) else
      do { r \<leftarrow> strcmp m a0 L_LS;
           if r = 0 then Some (cmd_ls w arg1, False) else
      do { r \<leftarrow> strcmp m a0 L_CAT;
           if r = 0 then do { es \<leftarrow> cmd_cat w arg1; Some (es, False) } else
      exec_external w m args }}}}}}})"

text \<open>\<open>execute_command\<close> on the string at \<open>CMD\<close>: the memory and \<open>strtok\<close>'s pointer after it, the
  events, and whether the shell exited.\<close>

definition execute_command :: "os \<Rightarrow> mem \<times> nat option \<Rightarrow> ((mem \<times> nat option) \<times> event list \<times> bool) option" where
  "execute_command w st =
     do { c \<leftarrow> scan (\<lambda>b. b = 32 \<or> b = 9) (fst st) CMD;
          b \<leftarrow> load (fst st) c;
          if b = 0 then Some (st, [], False)
          else do { (st, tok) \<leftarrow> strtok st (Some c) SEP;
                    (st, args) \<leftarrow> collect_args st tok (MAX_ARGS - 1);
                    if args = [] then Some (st, [], False)
                    else do { (es, stop) \<leftarrow> dispatch w (fst st) args; Some (st, es, stop) } } }"

section \<open>The main loop\<close>

definition strip_newline :: "mem \<Rightarrow> mem option" where
  "strip_newline m =
     do { len \<leftarrow> strlen m CMD;
          if len > 0 then do { b \<leftarrow> load m (CMD + (len - 1));
                               if b = 10 then store m (CMD + (len - 1)) 0 else Some m }
          else Some m }"

text \<open>\<open>w i\<close> is what the \<open>i\<close>-th command finds.  The array \<^verbatim>\<open>path\<close> is a new variable of every command,
  not initialised; its last byte is the only one a command can read without having written it.
  \<open>fuel\<close> bounds the number of lines read; the length of the input and one more is always enough.\<close>

fun shell_loop :: "nat \<Rightarrow> (nat \<Rightarrow> os) \<Rightarrow> nat \<Rightarrow> FILE \<Rightarrow> mem \<times> nat option \<Rightarrow> event list option" where
  "shell_loop 0 w i f st = None"
| "shell_loop (Suc fuel) w i f st =
     (case fgets MAX_CMD_LEN f of
        (f, None) \<Rightarrow> Some [Out (bytes ''rux> '')]
      | (f, Some line) \<Rightarrow>
          do { m \<leftarrow> strip_newline (mem_write CMD (line @ [0]) ((fst st)[PATH + 255 := os_stack (w i)]));
               (st, es, stop) \<leftarrow> execute_command (w i) (m, snd st);
               if stop then Some (Out (bytes ''rux> '') # es)
               else do { es' \<leftarrow> shell_loop fuel w (Suc i) f st; Some (Out (bytes ''rux> '') # es @ es') } })"

definition shell_main :: "nat \<Rightarrow> (nat \<Rightarrow> os) \<Rightarrow> FILE \<Rightarrow> mem \<Rightarrow> event list option" where
  "shell_main fuel w stdin m = do { es \<leftarrow> shell_loop fuel w 0 stdin (m, None); Some (print_welcome @ es) }"

section \<open>The literals\<close>

definition shell_mem :: "mem \<Rightarrow> bool" where
  "shell_mem m \<longleftrightarrow> length m = 552 \<and> drop 512 m = literals"

definition is_sep :: "byte \<Rightarrow> bool" where
  "is_sep b \<longleftrightarrow> b = 32 \<or> b = 9 \<or> b = 10"

lemmas literal_addresses = SEP_def L_ECHO_def L_HELP_def L_EXIT_def L_QUIT_def L_TIME_def L_PID_def L_LS_def L_CAT_def

lemma shell_mem_aligned: "shell_mem m \<Longrightarrow> 8 dvd length m"
  by (simp add: shell_mem_def)

lemma literal_at:
  assumes "shell_mem m" and "drop k literals = xs @ 0 # r" and "0 \<notin> set xs" and "a = 512 + k"
  shows "cstr m a = xs \<and> terminated m a"
proof (rule cstr_eqI [OF _ assms(3)])
  show "drop a m = xs @ 0 # r"
    using assms(1,2,4) by (simp add: shell_mem_def add.commute flip: drop_drop)
qed

lemma sep_literal: "shell_mem m \<Longrightarrow> cstr m SEP = [32, 9, 10] \<and> terminated m SEP"
  by (rule literal_at [where k = 0 and r = "drop 4 literals"]) (simp_all add: literals_def SEP_def)

lemma command_literals:
  assumes "shell_mem m"
  shows "cstr m L_ECHO = bytes ''echo'' \<and> terminated m L_ECHO"
    and "cstr m L_HELP = bytes ''help'' \<and> terminated m L_HELP"
    and "cstr m L_EXIT = bytes ''exit'' \<and> terminated m L_EXIT"
    and "cstr m L_QUIT = bytes ''quit'' \<and> terminated m L_QUIT"
    and "cstr m L_TIME = bytes ''time'' \<and> terminated m L_TIME"
    and "cstr m L_PID = bytes ''pid'' \<and> terminated m L_PID"
    and "cstr m L_LS = bytes ''ls'' \<and> terminated m L_LS"
    and "cstr m L_CAT = bytes ''cat'' \<and> terminated m L_CAT"
  using literal_at [OF assms, of 4 "bytes ''echo''" "drop 9 literals" L_ECHO]
    literal_at [OF assms, of 9 "bytes ''help''" "drop 14 literals" L_HELP]
    literal_at [OF assms, of 14 "bytes ''exit''" "drop 19 literals" L_EXIT]
    literal_at [OF assms, of 19 "bytes ''quit''" "drop 24 literals" L_QUIT]
    literal_at [OF assms, of 24 "bytes ''time''" "drop 29 literals" L_TIME]
    literal_at [OF assms, of 29 "bytes ''pid''" "drop 33 literals" L_PID]
    literal_at [OF assms, of 33 "bytes ''ls''" "drop 36 literals" L_LS]
    literal_at [OF assms, of 36 "bytes ''cat''" "drop 40 literals" L_CAT]
  by (simp_all add: literals_def literal_addresses)

lemma seps_shell: "shell_mem m \<Longrightarrow> seps m SEP = is_sep"
  using sep_literal [of m] by (auto simp: seps_def is_sep_def fun_eq_iff)

lemma shell_mem_update: "shell_mem m \<Longrightarrow> i < 512 \<Longrightarrow> shell_mem (m[i := b])"
  by (simp add: shell_mem_def)

section \<open>Arguments\<close>

text \<open>One call of \<open>strtok\<close> on the command buffer: the next word, and where the search resumes.\<close>

definition resumes :: "mem \<Rightarrow> nat option \<Rightarrow> nat \<Rightarrow> byte list list \<Rightarrow> bool" where
  "resumes m p e ws =
     (case p of
        None \<Rightarrow> ws = []
      | Some s \<Rightarrow> e < s \<and> terminated m s \<and> s + length (cstr m s) < 256 \<and> tokens is_sep (cstr m s) = ws)"

lemma strtok_next:
  assumes "shell_mem m" and "(case arg of None \<Rightarrow> p | Some a \<Rightarrow> Some a) = Some s" and "terminated m s"
    and "s + length (cstr m s) < 256" and "tokens is_sep (cstr m s) = t # ws"
  obtains m1 p1 q where "strtok (m, p) arg SEP = Some ((m1, p1), Some q)" "shell_mem m1" "s \<le> q"
    "cstr m1 q = t" "terminated m1 q" "q + length t < 256" "\<forall>i. i < s \<or> 256 \<le> i \<longrightarrow> m1 ! i = m ! i"
    "resumes m1 p1 (q + length t) ws"
proof -
  define d where "d = dropWhile is_sep (cstr m s)"
  define r where "r = dropWhile (\<lambda>b. \<not> is_sep b) d"
  define q where "q = s + length (takeWhile is_sep (cstr m s))"
  note st = strtok_cases [OF shell_mem_aligned [OF assms(1)] assms(3) conjunct2 [OF sep_literal [OF assms(1)]]
      refl assms(2), unfolded seps_shell [OF assms(1)], folded d_def, folded r_def q_def]
  have dn: "d \<noteq> []" using tokens_none [of is_sep "cstr m s"] assms(5) unfolding d_def by auto
  then have t: "t = takeWhile (\<lambda>b. \<not> is_sep b) d" and ws: "ws = tokens is_sep r"
    using tokens_some [of is_sep "cstr m s"] assms(5) unfolding d_def r_def by simp_all
  have tr: "d = t @ r" unfolding t r_def by simp
  have q: "s \<le> q" "q + length d < 256" using st(6) assms(4) unfolding q_def by simp_all
  show thesis
  proof (cases "r = []")
    case True
    then have "strtok (m, p) arg SEP = Some ((m, None), Some q)" using st(2) dn by simp
    moreover have "ws = []" unfolding ws True by (simp add: tokens_none)
    ultimately show thesis using that assms(1) st(4,5) q tr True by (simp add: resumes_def)
  next
    case False
    let ?e = "q + length t"
    let ?m = "m[?e := 0]"
    have sk: "strtok (m, p) arg SEP = Some ((?m, Some (?e + 1)), Some q)"
      using st(3) False unfolding t by simp
    have le: "length t \<le> length (cstr m q)" using tr st(4) by simp
    have eb: "?e < 256" "Suc (length t) \<le> length (cstr m q)" using q tr False st(4) by (auto simp: neq_Nil_conv)
    have m1: "shell_mem ?m" using shell_mem_update [OF assms(1)] eb by simp
    have word: "cstr ?m q = t \<and> terminated ?m q"
      using cstr_truncate [OF st(5) le] tr st(4) by simp
    have rest: "cstr m (q + Suc (length t)) = tl r" "terminated m (q + Suc (length t))"
      using cstr_drop [OF st(5) eb(2)] tr st(4) by (simp_all add: drop_Suc)
    have kept: "cstr ?m (?e + 1) = tl r \<and> terminated ?m (?e + 1)"
      using cstr_agree [of m "?e + 1" ?m] rest by simp
    have tl: "tokens is_sep (tl r) = tokens is_sep r" by (rule tokens_tl) (simp add: r_def)
    have "length d = length t + length r" "1 \<le> length r" using tr False by (auto simp: Suc_le_eq)
    then have "resumes ?m (Some (?e + 1)) ?e ws"
      using kept q tl unfolding resumes_def ws by simp
    then show thesis using that [OF sk m1 q(1)] word eb q(1) by simp
  qed
qed

lemma strtok_last:
  assumes "shell_mem m" and "(case arg of None \<Rightarrow> p | Some a \<Rightarrow> Some a) = Some s" and "terminated m s"
    and "tokens is_sep (cstr m s) = []"
  shows "strtok (m, p) arg SEP = Some ((m, None), None)"
proof -
  have "dropWhile is_sep (cstr m s) = []"
    using tokens_some [of is_sep "cstr m s"] assms(4) by auto
  then show ?thesis
    using strtok_cases(1) [OF shell_mem_aligned [OF assms(1)] assms(3) conjunct2 [OF sep_literal [OF assms(1)]]
        refl assms(2)] by (simp add: seps_shell [OF assms(1)])
qed

lemma collect_args_words:
  "shell_mem m \<Longrightarrow> terminated m t \<Longrightarrow> t + length (cstr m t) < 256 \<Longrightarrow> resumes m p (t + length (cstr m t)) ws \<Longrightarrow>
   \<exists>m' p' ts. collect_args (m, p) (Some t) n = Some ((m', p'), ts) \<and> shell_mem m' \<and>
     (\<forall>i. i \<le> t + length (cstr m t) \<or> 256 \<le> i \<longrightarrow> m' ! i = m ! i) \<and>
     map (cstr m') ts = take n (cstr m t # ws) \<and>
     (\<forall>t \<in> set ts. terminated m' t \<and> t + length (cstr m' t) < 256)"
proof (induction n arbitrary: m t p ws)
  case 0
  then show ?case by simp
next
  case (Suc n)
  let ?e = "t + length (cstr m t)"
  have finish: ?case if "strtok (m, p) None SEP = Some ((m, None), None)" "ws = []"
    using that Suc.prems by simp
  show ?case
  proof (cases p)
    case None
    then show ?thesis using Suc.prems(4) by (intro finish) (simp_all add: strtok_null resumes_def)
  next
    case (Some s)
    then have s: "?e < s" "terminated m s" "s + length (cstr m s) < 256" "tokens is_sep (cstr m s) = ws"
      using Suc.prems(4) by (simp_all add: resumes_def)
    have start: "(case None of None \<Rightarrow> p | Some a \<Rightarrow> Some a) = Some s" using Some by simp
    show ?thesis
    proof (cases ws)
      case Nil
      then show ?thesis using strtok_last [OF Suc.prems(1) start s(2)] s(4) by (intro finish) simp_all
    next
      case (Cons w ws')
      have tok: "tokens is_sep (cstr m s) = w # ws'" using s(4) Cons by simp
      obtain m1 p1 q where k: "strtok (m, p) None SEP = Some ((m1, p1), Some q)" "shell_mem m1" "s \<le> q"
        "cstr m1 q = w" "terminated m1 q" "q + length w < 256" "\<forall>i. i < s \<or> 256 \<le> i \<longrightarrow> m1 ! i = m ! i"
        "resumes m1 p1 (q + length w) ws'"
        by (rule strtok_next [OF Suc.prems(1) start s(2,3) tok]) blast
      from Suc.IH [of m1 q p1 ws'] k obtain m' p' ts where
        r: "collect_args (m1, p1) (Some q) n = Some ((m', p'), ts)" "shell_mem m'"
        "\<forall>i. i \<le> q + length w \<or> 256 \<le> i \<longrightarrow> m' ! i = m1 ! i"
        "map (cstr m') ts = take n (w # ws')" "\<forall>t \<in> set ts. terminated m' t \<and> t + length (cstr m' t) < 256"
        by auto
      have agree: "i \<le> ?e \<or> 256 \<le> i \<Longrightarrow> m' ! i = m ! i" for i using k(3,7) r(3) s(1) by auto
      have first: "cstr m' t = cstr m t \<and> terminated m' t"
        using Suc.prems(1,2) r(2) agree by (intro cstr_agree) (auto simp: shell_mem_def)
      have "collect_args (m, p) (Some t) (Suc n) = Some ((m', p'), t # ts)" using k(1) r(1) by simp
      then show ?thesis using r agree first Suc.prems(3) Cons by auto
    qed
  qed
qed

section \<open>Commands as word lists\<close>

text \<open>The commands of \<^verbatim>\<open>execute_command\<close> as functions of the word list; \<open>j\<close> is the byte the last
  element of \<^verbatim>\<open>path\<close> happens to hold.\<close>

definition external_path :: "byte \<Rightarrow> byte list \<Rightarrow> byte list option" where
  "external_path j c =
     (if (case c of b # _ \<Rightarrow> b = 47 \<or> b = 46 | [] \<Rightarrow> False)
      then if length c < 255 \<or> j = 0 then Some (take 255 c) else None
      else Some (take 255 (bytes ''/bin/'' @ c)))"

definition shell_command :: "os \<Rightarrow> byte \<Rightarrow> byte list list \<Rightarrow> (event list \<times> bool) option" where
  "shell_command w j ws =
     (if ws = [] then Some ([], False)
      else
        let c = hd ws; arg1 = (if length ws > 1 then Some (ws ! 1) else None) in
        if c = bytes ''echo'' then Some (cmd_echo ws, False)
        else if c = bytes ''help'' then Some (print_help, False)
        else if c = bytes ''exit'' \<or> c = bytes ''quit'' then Some ([Out (bytes ''Goodbye!'' @ NL), Exit 0], True)
        else if c = bytes ''time'' then Some (cmd_time w, False)
        else if c = bytes ''pid'' then Some (cmd_pid w, False)
        else if c = bytes ''ls'' then Some (cmd_ls w arg1, False)
        else if c = bytes ''cat'' then do { es \<leftarrow> cmd_cat w arg1; Some (es, False) }
        else Some (fst (run_external w (external_path j c) ws), os_fork w = 0))"

definition words_of :: "byte list \<Rightarrow> byte list list" where
  "words_of cs = take (MAX_ARGS - 1) (tokens is_sep cs)"

lemma strcmp_branch:
  assumes "terminated m a" and "cstr m l = lit \<and> terminated m l"
  shows "(strcmp m a l \<bind> (\<lambda>r. if r = 0 then x else y)) = (if cstr m a = lit then x else y)"
  using strcmp_spec [of m a l] assms by auto

lemma strcmp_branch2:
  assumes "terminated m a" and "cstr m l = lit \<and> terminated m l" and "cstr m k = lit' \<and> terminated m k"
  shows "(strcmp m a l \<bind> (\<lambda>r1. (if r1 = 0 then Some 0 else strcmp m a k) \<bind>
      (\<lambda>r2. if r1 = 0 \<or> r2 = 0 then x else y))) = (if cstr m a = lit \<or> cstr m a = lit' then x else y)"
  using strcmp_spec [of m a l] strcmp_spec [of m a k] assms by auto

lemma string_in_spec:
  assumes "take n (drop a m) = xs @ 0 # r" and "0 \<notin> set xs"
  shows "string_in m a n = Some xs"
proof -
  have "takeWhile (\<lambda>b. b \<noteq> 0) (xs @ 0 # r) = xs" using assms(2) by (induction xs) auto
  then show ?thesis using assms(1) by (simp add: string_in_def)
qed

lemma path_region:
  assumes "shell_mem m" and "length src \<le> 256" and "k = length src"
  shows "take 256 (drop PATH (mem_write PATH src m)) = src @ drop k (take 256 (drop PATH m))"
  using assms by (intro nth_equalityI) (auto simp: shell_mem_def PATH_def mem_write_nth mem_simps nth_append)

lemma strncpy_path:
  assumes "shell_mem m" and "terminated m a" and "a + length (cstr m a) < 256"
  obtains m' where "strncpy m PATH a 255 = Some (m', PATH)" "length m' = length m"
    "\<forall>i < 256. m' ! i = m ! i"
    "string_in m' PATH 256 = (if length (cstr m a) < 255 \<or> m ! 511 = 0 then Some (take 255 (cstr m a)) else None)"
proof -
  let ?c = "cstr m a"
  let ?src = "take 255 (?c @ replicate 255 0)"
  let ?m = "mem_write PATH ?src m"
  have ap: "apart_from m PATH 255 a"
    using assms by (simp add: apart_from_def shell_mem_def PATH_def)
  have s: "strncpy m PATH a 255 = Some (?m, PATH)"
    using stpncpy_spec [OF shell_mem_aligned [OF assms(1)] ap] by (simp add: strncpy_def)
  have l: "length ?src = 255" by simp
  have nz: "0 \<notin> set ?c" using cstr_nonzero by blast
  have reg: "take 256 (drop PATH ?m) = ?src @ [m ! 511]"
  proof -
    have "drop 255 (take 256 (drop PATH m)) = [m ! 511]"
      using assms(1) by (intro nth_equalityI) (auto simp: shell_mem_def PATH_def)
    then show ?thesis using path_region [OF assms(1), of ?src 255] l by simp
  qed
  have str: "string_in ?m PATH 256 = (if length ?c < 255 \<or> m ! 511 = 0 then Some (take 255 ?c) else None)"
  proof (cases "length ?c < 255")
    case True
    then have "?src = ?c @ 0 # replicate (254 - length ?c) 0"
      by (simp add: replicate_Suc [symmetric] Suc_diff_Suc del: replicate_Suc)
    then show ?thesis using string_in_spec [of 256 PATH ?m ?c] reg nz True by simp
  next
    case False
    then have e: "length ?c = 255" using assms(3) by simp
    then have src: "?src = ?c" by simp
    show ?thesis
    proof (cases "m ! 511 = 0")
      case True
      then show ?thesis using string_in_spec [of 256 PATH ?m ?c "[]"] reg nz src e by simp
    next
      case False
      then show ?thesis using reg src nz e by (simp add: string_in_def)
    qed
  qed
  have agree: "\<forall>i < 256. ?m ! i = m ! i" "length ?m = length m"
    using assms(1) by (auto simp: mem_write_nth mem_simps shell_mem_def PATH_def)
  show thesis by (rule that [OF s agree(2) agree(1) str])
qed

lemma bin_path_spec:
  assumes "shell_mem m" and "terminated m a"
  shows "length (bin_path m a) = length m" and "i < 256 \<Longrightarrow> bin_path m a ! i = m ! i"
    and "string_in (bin_path m a) PATH 256 = Some (take 255 (bytes ''/bin/'' @ cstr m a))"
proof -
  let ?s = "take 255 (bytes ''/bin/'' @ cstr m a)"
  have l: "length (?s @ [0]) \<le> 256" by simp
  show "length (bin_path m a) = length m" "i < 256 \<Longrightarrow> bin_path m a ! i = m ! i"
    using assms(1) l by (auto simp: bin_path_def shell_mem_def PATH_def mem_write_nth mem_simps)
  have "0 \<notin> set (bytes ''/bin/'' @ cstr m a)" using cstr_nonzero [of 0 m a] by auto
  then have nz: "0 \<notin> set ?s" by (meson in_set_takeD)
  have "take 256 (drop PATH (bin_path m a)) = ?s @ 0 # drop (length (?s @ [0])) (take 256 (drop PATH m))"
    unfolding bin_path_def using path_region [OF assms(1) l refl] by simp
  then show "string_in (bin_path m a) PATH 256 = Some ?s" by (rule string_in_spec [OF _ nz])
qed

lemma args_kept:
  assumes "shell_mem m" and "length m' = length m" and "\<forall>i < 256. m' ! i = m ! i"
    and "\<forall>t \<in> set args. terminated m t \<and> t + length (cstr m t) < 256"
  shows "map (cstr m') args = map (cstr m) args"
proof -
  have "cstr m' t = cstr m t" if "t \<in> set args" for t
  proof -
    have "cstr m' t = cstr m t \<and> terminated m' t"
      using assms that by (intro cstr_agree) auto
    then show ?thesis by simp
  qed
  then show ?thesis by simp
qed

lemma exec_external_words:
  assumes "shell_mem m" and "args \<noteq> []"
    and "\<forall>t \<in> set args. terminated m t \<and> t + length (cstr m t) < 256"
  shows "exec_external w m args =
    Some (fst (run_external w (external_path (m ! 511) (cstr m (hd args))) (map (cstr m) args)), os_fork w = 0)"
proof -
  have a: "terminated m (hd args)" "hd args + length (cstr m (hd args)) < 256" using assms(2,3) by simp_all
  have lt: "hd args < length m" using terminated_lt [OF a(1)] .
  have first: "(case cstr m (hd args) of b # _ \<Rightarrow> b = 47 \<or> b = 46 | [] \<Rightarrow> False) \<longleftrightarrow>
      m ! hd args = 47 \<or> m ! hd args = 46"
    using cstr_step(1) [OF lt] cstr_empty [OF lt] by (cases "m ! hd args = 0") simp_all
  show ?thesis
  proof (cases "m ! hd args = 47 \<or> m ! hd args = 46")
    case True
    obtain m' where m': "strncpy m PATH (hd args) 255 = Some (m', PATH)" "length m' = length m"
      "\<forall>i < 256. m' ! i = m ! i"
      "string_in m' PATH 256 = (if length (cstr m (hd args)) < 255 \<or> m ! 511 = 0
         then Some (take 255 (cstr m (hd args))) else None)"
      by (rule strncpy_path [OF assms(1) a])
    then show ?thesis using True first lt args_kept [OF assms(1) m'(2,3) assms(3)]
      by (simp add: exec_external_def external_path_def load_def del: map_eq_conv)
  next
    case False
    note b = bin_path_spec [OF assms(1) a(1)]
    show ?thesis using False first lt b args_kept [OF assms(1) b(1) _ assms(3)]
      by (simp add: exec_external_def external_path_def load_def del: map_eq_conv)
  qed
qed

lemma dispatch_words:
  assumes "shell_mem m" and "args \<noteq> []"
    and "\<forall>t \<in> set args. terminated m t \<and> t + length (cstr m t) < 256"
  shows "dispatch w m args = shell_command w (m ! 511) (map (cstr m) args)"
proof -
  have a: "terminated m (hd args)" using assms(2,3) by simp
  note c = command_literals [OF assms(1)]
  have h: "hd (map (cstr m) args) = cstr m (hd args)" using assms(2) by (simp add: hd_map)
  have arg1: "(if length args > 1 then Some (map (cstr m) args ! 1) else None) =
      (if length args > 1 then Some (cstr m (args ! 1)) else None)" by simp
  show ?thesis
    unfolding dispatch_def shell_command_def Let_def strcmp_branch [OF a c(1)] strcmp_branch [OF a c(2)]
      strcmp_branch2 [OF a c(3) c(4)] strcmp_branch [OF a c(5)] strcmp_branch [OF a c(6)]
      strcmp_branch [OF a c(7)] strcmp_branch [OF a c(8)] exec_external_words [OF assms] h length_map arg1
    using assms(2) by (simp del: map_eq_conv)
qed

section \<open>Whole commands\<close>

lemma tokens_skip: "(\<And>b. Q b \<Longrightarrow> P b) \<Longrightarrow> tokens P (dropWhile Q cs) = tokens P cs"
  by (induction cs) (auto simp: tokens_sep)

lemma execute_command_spec:
  assumes "shell_mem m" and "terminated m CMD" and "length (cstr m CMD) < 256"
  shows "\<exists>st. shell_mem (fst st) \<and> fst st ! 511 = m ! 511 \<and>
    execute_command w (m, p) =
      map_option (\<lambda>(es, stop). (st, es, stop)) (shell_command w (m ! 511) (words_of (cstr m CMD)))"
proof -
  let ?blank = "\<lambda>b :: byte. b = 32 \<or> b = 9"
  define c where "c = length (takeWhile ?blank (cstr m CMD))"
  have sc: "scan ?blank m CMD = Some c"
    using scan_cstr [OF assms(2), of ?blank] by (simp add: CMD_def c_def)
  have le: "c \<le> length (cstr m CMD)" unfolding c_def by (rule length_takeWhile_le)
  have cc: "cstr m c = dropWhile ?blank (cstr m CMD)" "terminated m c"
    using cstr_drop [OF assms(2) le] by (simp_all add: CMD_def c_def dropWhile_eq_drop)
  have lt: "c < length m" using terminated_lt [OF cc(2)] .
  have toks: "tokens is_sep (cstr m c) = tokens is_sep (cstr m CMD)"
    unfolding cc(1) by (rule tokens_skip) (auto simp: is_sep_def)
  have fits: "c + length (cstr m c) < 256"
    using assms(3) le cstr_drop(1) [OF assms(2) le] by (simp add: CMD_def)
  have start: "(case Some c of None \<Rightarrow> p | Some a \<Rightarrow> Some a) = Some c" by simp
  show ?thesis
  proof (cases "m ! c = 0")
    case True
    then have "tokens is_sep (cstr m CMD) = []"
      using cstr_empty [OF lt] toks by (simp add: tokens_none)
    then show ?thesis using True sc lt assms(1)
      by (intro exI [of _ "(m, p)"]) (simp add: execute_command_def load_def shell_command_def words_of_def)
  next
    case nz: False
    show ?thesis
    proof (cases "tokens is_sep (cstr m CMD)")
      case Nil
      have "strtok (m, p) (Some c) SEP = Some ((m, None), None)"
        using strtok_last [OF assms(1) start cc(2)] Nil toks by simp
      then show ?thesis using Nil nz sc lt assms(1)
        by (intro exI [of _ "(m, None)"]) (simp add: execute_command_def load_def shell_command_def words_of_def)
    next
      case (Cons t ws)
      then have tok: "tokens is_sep (cstr m c) = t # ws" using toks by simp
      obtain m1 p1 q where k: "strtok (m, p) (Some c) SEP = Some ((m1, p1), Some q)" "shell_mem m1" "c \<le> q"
        "cstr m1 q = t" "terminated m1 q" "q + length t < 256" "\<forall>i. i < c \<or> 256 \<le> i \<longrightarrow> m1 ! i = m ! i"
        "resumes m1 p1 (q + length t) ws"
        by (rule strtok_next [OF assms(1) start cc(2) fits tok]) blast
      obtain m' p' ts where r: "collect_args (m1, p1) (Some q) (MAX_ARGS - 1) = Some ((m', p'), ts)" "shell_mem m'"
        "\<forall>i. i \<le> q + length t \<or> 256 \<le> i \<longrightarrow> m' ! i = m1 ! i"
        "map (cstr m') ts = take (MAX_ARGS - 1) (t # ws)"
        "\<forall>t \<in> set ts. terminated m' t \<and> t + length (cstr m' t) < 256"
        using collect_args_words [of m1 q p1 ws "MAX_ARGS - 1"] k by auto
      have j: "m' ! 511 = m ! 511" using r(3) k(7) by simp
      have words: "map (cstr m') ts = words_of (cstr m CMD)" using r(4) Cons by (simp add: words_of_def)
      have ne: "ts \<noteq> []" using r(4) by (auto simp: MAX_ARGS_def)
      show ?thesis
        using dispatch_words [OF r(2) ne r(5), of w] sc lt nz k(1) r(1,2) ne words j
        by (intro exI [of _ "(m', p')"], cases "shell_command w (m ! 511) (words_of (cstr m CMD))")
          (auto simp: execute_command_def load_def)
    qed
  qed
qed

section \<open>Whole sessions\<close>

lemma tokens_newline: "tokens is_sep (xs @ [10]) = tokens is_sep xs"
proof (induction "length xs" arbitrary: xs rule: less_induct)
  case less
  show ?case
  proof (cases "dropWhile is_sep xs")
    case Nil
    then have "dropWhile is_sep (xs @ [10]) = []" by (auto simp: dropWhile_eq_Nil_conv is_sep_def)
    then show ?thesis using Nil by (simp add: tokens_none)
  next
    case (Cons y ys)
    let ?n = "\<lambda>b. \<not> is_sep b"
    have "\<not> (\<forall>x \<in> set xs. is_sep x)" using Cons dropWhile_eq_Nil_conv [of is_sep xs] by simp
    then have d: "dropWhile is_sep (xs @ [10]) = dropWhile is_sep xs @ [10]" by (auto simp: dropWhile_append)
    have y: "\<not> is_sep y" using Cons hd_dropWhile [of is_sep xs] by auto
    have t: "takeWhile ?n ((y # ys) @ [10]) = takeWhile ?n (y # ys)"
      by (induction ys) (auto simp: is_sep_def takeWhile_tail)
    have r: "tokens is_sep (dropWhile ?n ((y # ys) @ [10])) = tokens is_sep (dropWhile ?n (y # ys))"
    proof -
      have "length (dropWhile ?n (y # ys)) < length (y # ys)"
        using y length_dropWhile_le [of ?n ys] by simp
      then have "length (dropWhile ?n (y # ys)) < length xs"
        using Cons length_dropWhile_le [of is_sep xs] by simp
      moreover have "tokens is_sep (dropWhile ?n (zs @ [10])) = tokens is_sep (dropWhile ?n zs @ [10])" for zs
        by (induction zs) (simp_all add: is_sep_def)
      ultimately show ?thesis using less by (metis (full_types))
    qed
    show ?thesis using tokens_some [of is_sep xs] tokens_some [of is_sep "xs @ [10]"] Cons d t r by simp
  qed
qed

lemma line_stored:
  assumes "shell_mem m" and "length line \<le> 255"
  defines "m0 \<equiv> mem_write CMD (line @ [0]) m"
  shows "shell_mem m0" and "m0 ! 511 = m ! 511" and "cstr m0 CMD = takeWhile (\<lambda>b. b \<noteq> 0) line"
    and "terminated m0 CMD"
proof -
  let ?s = "takeWhile (\<lambda>b. b \<noteq> 0) line"
  have l: "length m = 552" using assms(1) by (simp add: shell_mem_def)
  have m0: "m0 = (line @ [0]) @ drop (Suc (length line)) m"
    using assms(2) l by (simp add: m0_def mem_write_def CMD_def)
  show "shell_mem m0" "m0 ! 511 = m ! 511"
    using assms(1,2) l by (simp_all add: m0 shell_mem_def nth_append Suc_diff_le drop_Cons' )
  have "takeWhile (\<lambda>b. b \<noteq> 0) (line @ 0 # r) = ?s" for r by (induction line) auto
  then show "cstr m0 CMD = ?s" "terminated m0 CMD" by (simp_all add: m0 cstr_def terminated_def CMD_def)
qed

lemma strip_newline_spec:
  assumes "shell_mem m" and "terminated m CMD" and "length (cstr m CMD) < 256"
  obtains m' where "strip_newline m = Some m'" "shell_mem m'" "m' ! 511 = m ! 511" "terminated m' CMD"
    "length (cstr m' CMD) < 256" "words_of (cstr m' CMD) = words_of (cstr m CMD)"
proof -
  let ?s = "cstr m CMD"
  let ?k = "length ?s - 1"
  have len: "strlen m CMD = Some (length ?s)" using strlen_cstr [OF shell_mem_aligned [OF assms(1)] assms(2)] .
  have lm: "length m = 552" using assms(1) by (simp add: shell_mem_def)
  show thesis
  proof (cases "?s \<noteq> [] \<and> last ?s = 10")
    case False
    have "?s \<noteq> [] \<Longrightarrow> m ! ?k = last ?s"
      using cstr_nth [OF assms(2), of ?k] by (simp add: CMD_def last_conv_nth)
    then have "strip_newline m = Some m"
      using False len lm assms(3) by (auto simp: strip_newline_def load_def CMD_def)
    then show thesis using that assms by blast
  next
    case True
    then have "m ! ?k = 10" using cstr_nth [OF assms(2), of ?k] by (auto simp: CMD_def last_conv_nth)
    then have st: "strip_newline m = Some (m[?k := 0])"
      using True len lm assms(3) by (simp add: strip_newline_def load_def store_def CMD_def)
    have b: "butlast ?s @ [10] = ?s" using True append_butlast_last_id by metis
    have c: "cstr (m[?k := 0]) CMD = butlast ?s \<and> terminated (m[?k := 0]) CMD"
      using cstr_truncate [OF assms(2), of ?k] by (simp add: CMD_def butlast_conv_take)
    have "words_of (butlast ?s) = words_of ?s" using tokens_newline [of "butlast ?s"] b by (simp add: words_of_def)
    then show thesis using that [OF st] c assms shell_mem_update [OF assms(1), of ?k] by simp
  qed
qed

section \<open>Specification of a session\<close>

text \<open>
  What a session shows, without reference to the code's functions.  How a text is divided over calls
  of \<^verbatim>\<open>printf\<close>, or data over calls of \<^verbatim>\<open>write\<close>, is not observed: \<open>observe\<close> joins neighbouring
  events of the same kind.
\<close>

definition join :: "event \<Rightarrow> event list \<Rightarrow> event list" where
  "join e es =
     (case e of
        Out a \<Rightarrow> if a = [] then es else (case es of Out b # es' \<Rightarrow> Out (a @ b) # es' | _ \<Rightarrow> e # es)
      | Write a \<Rightarrow> if a = [] then es else (case es of Write b # es' \<Rightarrow> Write (a @ b) # es' | _ \<Rightarrow> e # es)
      | _ \<Rightarrow> e # es)"

definition observe :: "event list \<Rightarrow> event list" where
  "observe es = foldr join es []"

text \<open>\<^verbatim>\<open>echo\<close> separates its words by one blank; \<^verbatim>\<open>ls\<close> shows a letter for the type of an entry.\<close>

fun echo_text :: "byte list list \<Rightarrow> byte list" where
  "echo_text [] = NL"
| "echo_text [a] = a @ NL"
| "echo_text (a # b # ws) = a @ [32] @ echo_text (b # ws)"

definition type_letters :: "(nat \<times> char) list" where
  "type_letters =
     [(1, CHR ''p''), (2, CHR ''c''), (4, CHR ''d''), (6, CHR ''b''), (8, CHR ''-''), (10, CHR ''l''), (12, CHR ''s'')]"

definition ls_line :: "nat \<times> byte list \<Rightarrow> byte list" where
  "ls_line entry =
     (case entry of (t, name) \<Rightarrow>
        bytes ''  '' @ bytes [case map_of type_letters t of Some c \<Rightarrow> c | None \<Rightarrow> CHR ''?''] @ bytes '' '' @ name @ NL)"

text \<open>The data a file delivers before its end or the first read error.\<close>

definition delivers_data :: "nat + byte list \<Rightarrow> bool" where
  "delivers_data r = (case r of Inl e \<Rightarrow> False | Inr b \<Rightarrow> b \<noteq> [])"

definition file_data :: "(nat + byte list) list \<Rightarrow> byte list" where
  "file_data reads = concat (map projr (takeWhile delivers_data reads))"

definition file_error :: "(nat + byte list) list \<Rightarrow> nat option" where
  "file_error reads = (case dropWhile delivers_data reads of Inl e # _ \<Rightarrow> Some e | _ \<Rightarrow> None)"

definition cat_shows :: "os \<Rightarrow> byte list \<Rightarrow> event list" where
  "cat_shows w name =
     (case os_open w name of
        Inl e \<Rightarrow> [Out (bytes ''cat: cannot open '' @ [39] @ name @ [39] @ bytes '': '' @ decimal e @ NL)]
      | Inr reads \<Rightarrow>
          [Write (file_data reads)] @
          (case file_error reads of None \<Rightarrow> [] | Some e \<Rightarrow> [Out (NL @ bytes ''cat: read error: '' @ decimal e @ NL)]) @
          [Close])"

definition ls_shows :: "os \<Rightarrow> byte list \<Rightarrow> event list" where
  "ls_shows w dir =
     (case os_dir w dir of
        Inl e \<Rightarrow> [Out (bytes ''ls: cannot open directory '' @ [39] @ dir @ [39] @ bytes '': '' @ decimal e @ NL)]
      | Inr entries \<Rightarrow>
          [Out (bytes ''Contents of '' @ dir @ bytes '':'' @ NL @ concat (map ls_line entries)), Close])"

definition program_shows :: "os \<Rightarrow> byte list option \<Rightarrow> byte list list \<Rightarrow> event list" where
  "program_shows w path argv =
     (if 0 < os_fork w then [Wait (os_fork w)]
      else if os_fork w < 0 then [Out (bytes ''fork failed'' @ NL)]
      else if os_execs w path then [Exec path argv]
      else [Exec path argv, Out (bytes ''execve failed: '' @ (case path of Some p \<Rightarrow> p | None \<Rightarrow> []) @ NL), Exit 1])"

definition padded :: "nat \<Rightarrow> byte list \<Rightarrow> byte list" where
  "padded n ds = replicate (n - length ds) 48 @ ds"

text \<open>A command: its events, and whether this process leaves the loop.  The texts of \<open>print_welcome\<close>
  and \<open>print_help\<close> are constants of the shell.\<close>

definition command_shows :: "os \<Rightarrow> byte list list \<Rightarrow> event list \<times> bool" where
  "command_shows w ws =
     (case ws of
        [] \<Rightarrow> ([], False)
      | c # args \<Rightarrow>
          if c = bytes ''echo'' then ([Out (echo_text args)], False)
          else if c = bytes ''help'' then (print_help, False)
          else if c \<in> {bytes ''exit'', bytes ''quit''} then ([Out (bytes ''Goodbye!'' @ NL), Exit 0], True)
          else if c = bytes ''time'' then
            ([Out (bytes ''Current time: '' @ decimal (fst (os_time w)) @ bytes ''.'' @ padded 6 (decimal (snd (os_time w))) @
                bytes '' seconds since epoch'' @ NL)], False)
          else if c = bytes ''pid'' then
            ([Out (bytes ''PID: '' @ decimal (os_pid w) @ NL @ bytes ''PPID: '' @ decimal (os_ppid w) @ NL)], False)
          else if c = bytes ''ls'' then (ls_shows w (case args of [] \<Rightarrow> bytes ''.'' | d # _ \<Rightarrow> d), False)
          else if c = bytes ''cat'' then
            (case args of
               [] \<Rightarrow> [Out (bytes ''cat: missing file operand'' @ NL @ bytes ''Usage: cat <filename>'' @ NL)]
             | name # _ \<Rightarrow> cat_shows w name, False)
          else (program_shows w (external_path (os_stack w) c) ws, os_fork w = 0))"

text \<open>A session: the input is cut into lines of at most 255 bytes, and the words of each line, up to
  a zero byte, are a command; every command is preceded by a prompt.\<close>

lemma line_of_shorter: "inp \<noteq> [] \<Longrightarrow> length (drop (length (line_of 255 inp)) inp) < length inp"
  by (cases inp) (auto simp: line_of_def)

function session_shows :: "(nat \<Rightarrow> os) \<Rightarrow> nat \<Rightarrow> byte list \<Rightarrow> event list" where
  "session_shows w i inp =
     (if inp = [] then [Out (bytes ''rux> '')]
      else
        let (es, stop) = command_shows (w i) (words_of (takeWhile (\<lambda>b. b \<noteq> 0) (line_of 255 inp)))
        in Out (bytes ''rux> '') # es @ (if stop then [] else session_shows w (Suc i) (drop (length (line_of 255 inp)) inp)))"
  by pat_completeness auto
termination
  by (relation "measure (\<lambda>(w, i, inp). length inp)") (auto dest: line_of_shorter)

declare session_shows.simps [simp del]

section \<open>Observations\<close>

lemma join_text: "join (Out a) (join (Out b) es) = join (Out (a @ b)) es" "join (Write a) (join (Write b) es) = join (Write (a @ b)) es"
  by (auto simp: join_def split: list.split event.split)

lemma join_cases:
  obtains (empty) "\<And>es. join e es = es"
  | (outs) a where "e = Out a" "a \<noteq> []" | (writes) a where "e = Write a" "a \<noteq> []"
  | (other) "\<And>es. join e es = e # es"
proof (cases e)
  case (Out a)
  then show thesis using that(1,2) by (cases "a = []") (auto simp: join_def)
next
  case (Write a)
  then show thesis using that(1,3) by (cases "a = []") (auto simp: join_def)
qed (auto intro: that(4) simp: join_def)

lemma join_foldr: "foldr join (join e es) zs = join e (foldr join es zs)"
proof (cases e rule: join_cases)
  case (outs a)
  show ?thesis
  proof (cases "\<exists>b es'. es = Out b # es'")
    case True
    then obtain b es' where es: "es = Out b # es'" by blast
    then have "join e es = Out (a @ b) # es'" using outs by (simp add: join_def)
    then show ?thesis using outs es join_text(1) [of a b] by simp
  next
    case False
    then have "join e es = e # es" using outs by (auto simp: join_def split: list.split event.split)
    then show ?thesis by simp
  qed
next
  case (writes a)
  show ?thesis
  proof (cases "\<exists>b es'. es = Write b # es'")
    case True
    then obtain b es' where es: "es = Write b # es'" by blast
    then have "join e es = Write (a @ b) # es'" using writes by (simp add: join_def)
    then show ?thesis using writes es join_text(2) [of a b] by simp
  next
    case False
    then have "join e es = e # es" using writes by (auto simp: join_def split: list.split event.split)
    then show ?thesis by simp
  qed
qed simp_all

lemma observe_foldr: "foldr join (observe es) zs = foldr join es zs"
  by (induction es) (simp_all add: observe_def join_foldr)

lemma observe_append: "observe es = observe es' \<Longrightarrow> observe fs = observe fs' \<Longrightarrow> observe (es @ fs) = observe (es' @ fs')"
  using observe_foldr [of es] observe_foldr [of es'] unfolding observe_def foldr_append by metis

lemma observe_Cons: "observe es = observe es' \<Longrightarrow> observe (e # es) = observe (e # es')"
  by (simp add: observe_def)

lemma observe_outs: "observe (map Out ts) = observe [Out (concat ts)]"
proof (induction ts)
  case Nil
  then show ?case by (simp add: observe_def join_def)
next
  case (Cons t ts)
  then show ?case using join_text(1) [of t "concat ts" "[]"] by (simp add: observe_def)
qed

lemma observe_writes: "observe (map Write ts) = observe [Write (concat ts)]"
proof (induction ts)
  case Nil
  then show ?case by (simp add: observe_def join_def)
next
  case (Cons t ts)
  then show ?case using join_text(2) [of t "concat ts" "[]"] by (simp add: observe_def)
qed

section \<open>The commands meet the specification\<close>

lemma fmt_d_decimal: "fmt_d n = decimal n"
  using decimal_fmt_u [of n] by (simp add: fmt_d_def decimal.simps [of 0])

fun echo_parts :: "byte list list \<Rightarrow> byte list list" where
  "echo_parts [] = [NL]"
| "echo_parts [a] = [a, NL]"
| "echo_parts (a # b # ws) = a # [32] # echo_parts (b # ws)"

lemma echo_parts_text: "concat (echo_parts ws) = echo_text ws"
  by (induction ws rule: echo_parts.induct) simp_all

lemma echo_parts_events:
  "concat (map (\<lambda>i. Out (ws ! i) # (if Suc i < length ws then [Out [32]] else [])) [0..<length ws]) @ [Out NL] =
     map Out (echo_parts ws)"
proof (induction ws rule: echo_parts.induct)
  case (3 a b ws)
  have "[0..<length (a # b # ws)] = 0 # map Suc [0..<length (b # ws)]"
    by (simp add: map_Suc_upt upt_conv_Cons del: upt_Suc)
  then have "map (\<lambda>i. Out ((a # b # ws) ! i) # (if Suc i < length (a # b # ws) then [Out [32]] else [])) [0..<length (a # b # ws)] =
      [Out a, Out [32]] # map (\<lambda>i. Out ((b # ws) ! i) # (if Suc i < length (b # ws) then [Out [32]] else [])) [0..<length (b # ws)]"
    by (simp only: list.map map_map comp_def nth_Cons_Suc nth_Cons_0) simp
  then show ?case using 3 by (simp only: concat.simps append_Cons append_Nil echo_parts.simps list.map)
qed simp_all

lemma cmd_echo_shows: "observe (cmd_echo (c # ws)) = observe [Out (echo_text ws)]"
proof -
  have "[1..<length (c # ws)] = map Suc [0..<length ws]" by (simp add: map_Suc_upt)
  then have "cmd_echo (c # ws) = map Out (echo_parts ws)"
    unfolding echo_parts_events [symmetric] cmd_echo_def by (simp add: comp_def less_diff_conv)
  then show ?thesis by (simp only: observe_outs echo_parts_text)
qed

lemma type_letter: "type_char t = of_char (case map_of type_letters t of Some c \<Rightarrow> c | None \<Rightarrow> CHR ''?'')"
  by (simp add: type_char_def type_letters_def)

lemma cmd_ls_shows: "observe (cmd_ls w d) = observe (ls_shows w (case d of Some d \<Rightarrow> d | None \<Rightarrow> bytes ''.''))"
proof -
  let ?d = "case d of Some d \<Rightarrow> d | None \<Rightarrow> bytes ''.''"
  have d: "(case d of Some d \<Rightarrow> d | None \<Rightarrow> [46]) = ?d" by (cases d) simp_all
  show ?thesis
  proof (cases "os_dir w ?d")
    case (Inl e)
    then show ?thesis unfolding cmd_ls_def ls_shows_def fmt_d_decimal Let_def d by simp
  next
    case (Inr entries)
    have "(\<lambda>(t, name). Out ([32, 32, type_char t, 32] @ name @ NL)) = (\<lambda>e. Out (ls_line e))"
      by (simp add: fun_eq_iff ls_line_def type_letter)
    then have "cmd_ls w d = map Out ((bytes ''Contents of '' @ ?d @ bytes '':'' @ NL) # map ls_line entries) @ [Close]"
      using Inr unfolding cmd_ls_def Let_def d by (simp add: comp_def)
    moreover have "ls_shows w ?d = [Out (concat ((bytes ''Contents of '' @ ?d @ bytes '':'' @ NL) # map ls_line entries))] @ [Close]"
      using Inr by (simp add: ls_shows_def)
    ultimately show ?thesis using observe_append [OF observe_outs refl] by metis
  qed
qed

text \<open>\<^verbatim>\<open>cat\<close>: as long as there are bytes to deliver, the writes must make progress.\<close>

lemma cat_write_all:
  "(\<And>i. k \<le> i \<Longrightarrow> i < k + length buf \<Longrightarrow> \<exists>n > 0. ws i = Inr n) \<Longrightarrow>
   \<exists>parts k'. cat_write ws k buf = Some (map Write parts, k', None) \<and> concat parts = buf \<and> k \<le> k' \<and> k' \<le> k + length buf"
proof (induction "length buf" arbitrary: k buf rule: less_induct)
  case less
  show ?case
  proof (cases "buf = []")
    case True
    then show ?thesis by (intro exI [of _ "[]"]) (simp add: cat_write.simps)
  next
    case False
    obtain n where n: "ws k = Inr n" "0 < n" using less.prems [of k] False by auto
    have l: "length (drop n buf) < length buf" using n(2) False by simp
    have "\<exists>n > 0. ws i = Inr n" if "Suc k \<le> i" "i < Suc k + length (drop n buf)" for i
      using less.prems [of i] that l by simp
    from less.hyps [OF l this] obtain parts k' where r: "cat_write ws (Suc k) (drop n buf) = Some (map Write parts, k', None)"
      "concat parts = drop n buf" "Suc k \<le> k'" "k' \<le> Suc k + length (drop n buf)" by blast
    have "cat_write ws k buf = Some (map Write (take n buf # parts), k', None)"
      using False n(1) r(1) by (subst cat_write.simps) simp
    then show ?thesis using r(2-4) l by (intro exI [of _ "take n buf # parts"] exI [of _ k']) simp
  qed
qed

definition cat_end :: "nat option \<Rightarrow> event list" where
  "cat_end r = (case r of None \<Rightarrow> [] | Some e \<Rightarrow> [Out (NL @ bytes ''cat: read error: '' @ decimal e @ NL)]) @ [Close]"

lemma file_simps [simp]:
  "file_data [] = []" "file_data (Inl e # rs) = []" "file_data (Inr b # rs) = (if b = [] then [] else b @ file_data rs)"
  "file_error [] = None" "file_error (Inl e # rs) = Some e" "file_error (Inr b # rs) = (if b = [] then None else file_error rs)"
  by (simp_all add: file_data_def file_error_def delivers_data_def)

lemma cat_loop_all:
  "(\<And>i. k \<le> i \<Longrightarrow> i < k + length (file_data reads) \<Longrightarrow> \<exists>n > 0. ws i = Inr n) \<Longrightarrow>
   \<exists>parts. cat_loop ws reads k = Some (map Write parts @ cat_end (file_error reads)) \<and> concat parts = file_data reads"
proof (induction ws reads k rule: cat_loop.induct)
  case (3 ws b rs k)
  show ?case
  proof (cases "b = []")
    case True
    then show ?thesis by (intro exI [of _ "[]"]) (simp add: cat_end_def)
  next
    case False
    have "\<exists>n > 0. ws i = Inr n" if "k \<le> i" "i < k + length b" for i using "3.prems" [of i] that False by simp
    then obtain parts k' where
      r: "cat_write ws k b = Some (map Write parts, k', None)" "concat parts = b" "k \<le> k'" "k' \<le> k + length b"
      using cat_write_all [of k b ws] by blast
    have "\<exists>n > 0. ws i = Inr n" if "k' \<le> i" "i < k' + length (file_data rs)" for i
      using "3.prems" [of i] that r(3,4) False by simp
    from "3.IH" [OF False r(1) refl refl refl this] obtain parts' where
      "cat_loop ws rs k' = Some (map Write parts' @ cat_end (file_error rs))" "concat parts' = file_data rs" by blast
    then show ?thesis using False r(1,2) by (intro exI [of _ "parts @ parts'"]) simp
  qed
qed (auto simp: cat_end_def fmt_d_decimal intro: exI [of _ "[]"])

lemma cmd_cat_shows:
  assumes "\<And>i. \<exists>n > 0. os_writes w i = Inr n"
  shows "\<exists>es. cmd_cat w (Some name) = Some es \<and> observe es = observe (cat_shows w name)"
proof (cases "os_open w name")
  case (Inl e)
  then show ?thesis by (simp add: cmd_cat_def cat_shows_def fmt_d_decimal)
next
  case (Inr reads)
  obtain parts where p: "cat_loop (os_writes w) reads 0 = Some (map Write parts @ cat_end (file_error reads))"
    "concat parts = file_data reads"
    using cat_loop_all [of 0 reads "os_writes w"] assms by blast
  have "cat_shows w name = [Write (concat parts)] @ cat_end (file_error reads)"
    using Inr p(2) by (simp add: cat_shows_def cat_end_def)
  then show ?thesis using Inr p(1) observe_append [OF observe_writes refl] by (simp add: cmd_cat_def)
qed

lemma cat_usage: "observe [Out a, Out b] = observe [Out (a @ b)]"
  using observe_outs [of "[a, b]"] by simp

lemma run_external_shows: "fst (run_external w path argv) = program_shows w path argv"
  by (auto simp: run_external_def program_shows_def)

lemma shell_command_shows:
  assumes "\<And>i. \<exists>n > 0. os_writes w i = Inr n"
  shows "\<exists>es. shell_command w (os_stack w) ws = Some (es, snd (command_shows w ws)) \<and>
    observe es = observe (fst (command_shows w ws))"
proof (cases ws)
  case Nil
  then show ?thesis by (simp add: shell_command_def command_shows_def)
next
  case (Cons c args)
  have arg1: "(if length ws > 1 then Some (ws ! 1) else None) = (case args of [] \<Rightarrow> None | d # _ \<Rightarrow> Some d)"
    using Cons by (cases args) simp_all
  note defs = shell_command_def command_shows_def Cons Let_def
  consider "c = bytes ''echo''" | "c = bytes ''help''" | "c = bytes ''exit'' \<or> c = bytes ''quit''" | "c = bytes ''time''"
    | "c = bytes ''pid''" | "c = bytes ''ls''" | "c = bytes ''cat''"
    | "c \<notin> {bytes ''echo'', bytes ''help'', bytes ''exit'', bytes ''quit'', bytes ''time'', bytes ''pid'', bytes ''ls'', bytes ''cat''}"
    by blast
  then show ?thesis
  proof cases
    case 1
    then show ?thesis using cmd_echo_shows [of c args] by (simp add: defs)
  next
    case 2
    then show ?thesis by (simp add: defs)
  next
    case 3
    then show ?thesis by (auto simp: defs)
  next
    case 4
    then show ?thesis by (simp add: defs cmd_time_def fmt_d_decimal padded_def split: prod.split)
  next
    case 5
    then show ?thesis
      using cat_usage [of "bytes ''PID: '' @ decimal (os_pid w) @ NL" "bytes ''PPID: '' @ decimal (os_ppid w) @ NL"]
      by (simp add: defs cmd_pid_def fmt_d_decimal)
  next
    case 6
    then show ?thesis
      using cmd_ls_shows [of w "case args of [] \<Rightarrow> None | d # _ \<Rightarrow> Some d"] arg1 by (cases args) (simp_all add: defs)
  next
    case 7
    show ?thesis
    proof (cases args)
      case Nil
      then show ?thesis
        using 7 cat_usage [of "bytes ''cat: missing file operand'' @ NL" "bytes ''Usage: cat <filename>'' @ NL"]
        by (simp add: defs cmd_cat_def)
    next
      case (Cons name rest)
      then show ?thesis using 7 cmd_cat_shows [OF assms, of name] by (auto simp: defs)
    qed
  next
    case 8
    then show ?thesis by (simp add: defs run_external_shows)
  qed
qed

text \<open>One turn of the loop: the line is stored, its newline removed, and the command executed.\<close>

lemma shell_turn:
  assumes "shell_mem m" and "length line \<le> 255" and "\<And>i. \<exists>n > 0. os_writes w i = Inr n"
  defines "ws \<equiv> words_of (takeWhile (\<lambda>b. b \<noteq> 0) line)"
  obtains m' m2 p2 es where "strip_newline (mem_write CMD (line @ [0]) (m[PATH + 255 := os_stack w])) = Some m'"
    "execute_command w (m', p) = Some ((m2, p2), es, snd (command_shows w ws))" "shell_mem m2"
    "observe es = observe (fst (command_shows w ws))"
proof -
  let ?s = "m[PATH + 255 := os_stack w]"
  have sm: "shell_mem ?s" "?s ! 511 = os_stack w"
    using shell_mem_update [OF assms(1), of "PATH + 255"] assms(1) by (simp_all add: PATH_def shell_mem_def)
  let ?m = "mem_write CMD (line @ [0]) ?s"
  note m0 = line_stored [OF sm(1) assms(2)]
  have s: "length (cstr ?m CMD) < 256"
    using m0(3) assms(2) length_takeWhile_le [of "\<lambda>b. b \<noteq> 0" line] by simp
  obtain m' where m': "strip_newline ?m = Some m'" "shell_mem m'" "m' ! 511 = ?m ! 511" "terminated m' CMD"
    "length (cstr m' CMD) < 256" "words_of (cstr m' CMD) = words_of (cstr ?m CMD)"
    by (rule strip_newline_spec [OF m0(1,4) s])
  have j: "m' ! 511 = os_stack w" using m'(3) m0(2) sm(2) by simp
  have ws: "words_of (cstr m' CMD) = ws" using m'(6) m0(3) by (simp add: ws_def)
  obtain st where st: "shell_mem (fst st)" "execute_command w (m', p) =
      map_option (\<lambda>(es, stop). (st, es, stop)) (shell_command w (os_stack w) ws)"
    using execute_command_spec [OF m'(2,4,5), of w p] unfolding j ws by blast
  obtain es where "shell_command w (os_stack w) ws = Some (es, snd (command_shows w ws))"
    "observe es = observe (fst (command_shows w ws))"
    using shell_command_shows [OF assms(3), of ws] by blast
  then show thesis using that [of m' "fst st" "snd st" es] m'(1) st by simp
qed

lemma shell_loop_shows:
  "readable f \<Longrightarrow> shell_mem m \<Longrightarrow> length (avail f) < fuel \<Longrightarrow> (\<And>i j. \<exists>n > 0. os_writes (w i) j = Inr n) \<Longrightarrow>
   \<exists>es. shell_loop fuel w i f (m, p) = Some es \<and> observe es = observe (session_shows w i (avail f))"
proof (induction fuel arbitrary: i f m p)
  case (Suc fuel)
  let ?line = "line_of 255 (avail f)"
  obtain f' where f': "fgets MAX_CMD_LEN f = (f', if avail f = [] then None else Some ?line)" "readable f'"
    "avail f' = drop (length ?line) (avail f)"
    using fgets_loop_spec [OF Suc.prems(1), of "[]" 255] by (auto simp: fgets_def MAX_CMD_LEN_def)
  show ?case
  proof (cases "avail f = []")
    case True
    then show ?thesis using f'(1) by (simp add: session_shows.simps)
  next
    case False
    let ?c = "command_shows (w i) (words_of (takeWhile (\<lambda>b. b \<noteq> 0) ?line))"
    let ?more = "session_shows w (Suc i) (drop (length ?line) (avail f))"
    have l: "length ?line \<le> 255" by (simp add: line_of_def)
    obtain m' m2 p2 es where t: "strip_newline (mem_write CMD (?line @ [0]) (m[PATH + 255 := os_stack (w i)])) = Some m'"
      "execute_command (w i) (m', p) = Some ((m2, p2), es, snd ?c)" "shell_mem m2" "observe es = observe (fst ?c)"
      by (rule shell_turn [OF Suc.prems(2) l Suc.prems(4)])
    have "length (avail f') < fuel" using f'(3) False Suc.prems(3) line_of_shorter [of "avail f"] by simp
    then obtain es' where IH: "shell_loop fuel w (Suc i) f' (m2, p2) = Some es'" "observe es' = observe ?more"
      using Suc.IH [OF f'(2) t(3), of "Suc i" p2] Suc.prems(4) unfolding f'(3) by blast
    have "shell_loop (Suc fuel) w i f (m, p) = Some (Out (bytes ''rux> '') # es @ (if snd ?c then [] else es'))"
      using f'(1) False t(1,2) IH(1) by simp
    moreover have "session_shows w i (avail f) = Out (bytes ''rux> '') # fst ?c @ (if snd ?c then [] else ?more)"
      using False by (subst session_shows.simps) (simp add: Let_def split: prod.split)
    moreover have "observe (Out (bytes ''rux> '') # es @ (if snd ?c then [] else es')) =
        observe (Out (bytes ''rux> '') # fst ?c @ (if snd ?c then [] else ?more))"
      by (intro observe_Cons observe_append t(4)) (simp add: IH(2))
    ultimately show ?thesis by metis
  qed
qed simp

definition cat_output :: "event list \<Rightarrow> byte list" where
  "cat_output es = concat (map (\<lambda>e. case e of Write b \<Rightarrow> b | _ \<Rightarrow> []) es)"

lemma cat_output_writes: "cat_output (map Write parts) = concat parts"
  by (simp add: cat_output_def comp_def)

section \<open>Properties\<close>

text \<open>
  C14.  The shell as a whole: on any input that the descriptor delivers without an error, in any
  portions, and when every \<open>write\<close> of a \<open>cat\<close> takes at least one byte, \<open>main\<close> returns (one turn of
  the loop per byte of input and one more is always enough), and what it prints and does is, up to
  the division of texts and data over calls, the session \<open>session_shows\<close>: the input is cut into
  lines of at most 255 bytes, each line, up to a zero byte, into at most 15 words at blanks, tabs and
  newlines, and each word list shows what the command is specified to show, whatever the kernel
  answers to it.  The tokenizer's writes into the command buffer leave the literals and the rest of
  memory intact.
\<close>

theorem shell_runs_input:
  assumes "readable stdin" and "shell_mem m" and "length (avail stdin) < fuel"
    and "\<forall>i j. \<exists>n > 0. os_writes (w i) j = Inr n"
  shows "\<exists>es. shell_main fuel w stdin m = Some es \<and>
    observe es = observe (print_welcome @ session_shows w 0 (avail stdin))"
proof -
  obtain es where es: "shell_loop fuel w 0 stdin (m, None) = Some es" "observe es = observe (session_shows w 0 (avail stdin))"
    using shell_loop_shows [OF assms(1-3), of w 0 None] assms(4) by blast
  have "shell_main fuel w stdin m = Some (print_welcome @ es)" using es(1) by (simp add: shell_main_def)
  then show ?thesis using observe_append [OF refl es(2)] by blast
qed

text \<open>
  C15.  \<open>cat\<close> finishes and is complete: when the file opens and every \<open>write\<close> makes some progress,
  however small, as long as there are bytes to write, \<open>cmd_cat\<close> returns, the bytes written are the
  bytes of the file in order, and the descriptor is closed last.
\<close>

theorem cat_delivers:
  assumes "os_open w name = Inr (map Inr chunks)" and "[] \<notin> set chunks"
    and "\<forall>k < length (concat chunks). \<exists>n > 0. os_writes w k = Inr n"
  shows "\<exists>es. cmd_cat w (Some name) = Some (es @ [Close]) \<and> cat_output es = concat chunks"
proof -
  have f: "file_data (map Inr chunks) = concat chunks" "file_error (map Inr chunks) = None"
    using assms(2) by (induction chunks) auto
  have "\<exists>parts. cat_loop (os_writes w) (map Inr chunks) 0 = Some (map Write parts @ cat_end None) \<and> concat parts = concat chunks"
    using cat_loop_all [of 0 "map Inr chunks" "os_writes w"] assms(3) unfolding f by simp
  then show ?thesis using assms(1) cat_output_writes by (auto simp: cmd_cat_def cat_end_def)
qed

text \<open>
  C16.  A word of exactly 255 bytes that starts with \<open>/\<close> or \<open>.\<close> is copied into \<^verbatim>\<open>path[256]\<close> by
  \<^verbatim>\<open>strncpy(path, args[0], sizeof(path) - 1)\<close> without a terminator: unless the uninitialised last
  byte of \<^verbatim>\<open>path\<close> happens to be zero, the string the child hands to \<open>execve\<close> runs past the array.
\<close>

theorem path_unterminated:
  assumes "shell_mem m" and "terminated m CMD" and "length (cstr m CMD) = 255"
    and "hd (cstr m CMD) = 47" and "tokens is_sep (cstr m CMD) = [cstr m CMD]"
    and "m ! 511 \<noteq> 0" and "os_fork w = 0" and "os_execs w None"
  shows "\<exists>st. execute_command w (m, p) = Some (st, [Exec None [cstr m CMD]], True)"
proof -
  obtain c cs where c: "cstr m CMD = c # cs" using assms(3) by (cases "cstr m CMD") auto
  then have "shell_command w (m ! 511) (words_of (cstr m CMD)) = Some ([Exec None [cstr m CMD]], True)"
    using assms(3-8) by (simp add: shell_command_def words_of_def MAX_ARGS_def external_path_def run_external_def)
  then show ?thesis using execute_command_spec [OF assms(1,2), of w p] assms(3) by auto
qed

definition demo_mem :: mem where
  "demo_mem = (47 # replicate 254 97) @ [0] @ replicate 256 1 @ literals"

definition demo_os :: os where
  "demo_os = \<lparr> os_dir = (\<lambda>_. Inl 2), os_open = (\<lambda>_. Inr [Inr [65, 66, 67], Inr [68]]),
     os_writes = (\<lambda>k. Inr (if k = 0 then 2 else 1)), os_fork = 0, os_execs = (\<lambda>_. True),
     os_time = (0, 0), os_pid = 7, os_ppid = 1, os_stack = 1 \<rparr>"

lemma demo_mem_ok: "shell_mem demo_mem"
  by (simp add: shell_mem_def demo_mem_def literals_def)

theorem shell_runs_input_witness:
  "\<exists>es. shell_main 40 (\<lambda>i. demo_os)
      (open_stream 4 [bytes ''echo hi'', bytes '' you'' @ NL, bytes ''cat f'' @ NL, bytes ''exit'' @ NL] []) demo_mem = Some es \<and>
    observe es = observe (print_welcome @
      [Out (bytes ''rux> ''), Out (bytes ''hi you'' @ NL), Out (bytes ''rux> ''), Write (bytes ''ABCD''), Close,
       Out (bytes ''rux> ''), Out (bytes ''Goodbye!'' @ NL), Exit 0])"
proof -
  let ?f = "open_stream 4 [bytes ''echo hi'', bytes '' you'' @ NL, bytes ''cat f'' @ NL, bytes ''exit'' @ NL] []"
  have f: "readable ?f" "avail ?f = bytes ''echo hi you'' @ NL @ bytes ''cat f'' @ NL @ bytes ''exit'' @ NL"
    by (simp_all add: readable_def open_stream_def avail_def NL_def)
  have "session_shows (\<lambda>i. demo_os) 0 (avail ?f) =
    [Out (bytes ''rux> ''), Out (bytes ''hi you'' @ NL), Out (bytes ''rux> ''), Write (bytes ''ABCD''), Close,
     Out (bytes ''rux> ''), Out (bytes ''Goodbye!'' @ NL), Exit 0]"
    unfolding f(2)
    by (simp add: NL_def session_shows.simps line_of_def words_of_def MAX_ARGS_def tokens.simps is_sep_def
        command_shows_def cat_shows_def demo_os_def)
  then show ?thesis
    using shell_runs_input [OF f(1) demo_mem_ok, of 40 "\<lambda>i. demo_os"] f(2) by (simp add: demo_os_def NL_def)
qed

theorem cat_delivers_witness:
  "\<exists>es. cmd_cat demo_os (Some []) = Some (es @ [Close]) \<and> cat_output es = [65, 66, 67, 68]"
  using cat_delivers [of demo_os "[]" "[[65, 66, 67], [68]]"] by (simp add: demo_os_def)

theorem path_unterminated_witness:
  "\<exists>st. execute_command demo_os (demo_mem, None) = Some (st, [Exec None [47 # replicate 254 97]], True)"
proof -
  have c: "cstr demo_mem CMD = 47 # replicate 254 97 \<and> terminated demo_mem CMD"
    by (rule cstr_eqI [where r = "replicate 256 1 @ literals"]) (auto simp: demo_mem_def CMD_def)
  have t: "tokens is_sep (47 # replicate 254 97) = [47 # replicate 254 97]"
  proof -
    have "takeWhile (\<lambda>b. \<not> is_sep b) (47 # replicate 254 97) = 47 # replicate 254 97"
      by (intro takeWhile_eq_all_conv [THEN iffD2]) (auto simp: is_sep_def)
    then show ?thesis by (subst tokens_some) (auto simp: is_sep_def tokens_none)
  qed
  show ?thesis
    using path_unterminated [of demo_mem demo_os None] demo_mem_ok c t
    by (simp add: demo_os_def) (simp add: demo_mem_def literals_def nth_append)
qed

end
