(* ===== verification/Musl_Time.thy ===== *)
theory Musl_Time
  imports C_Prelude "HOL-Library.Signed_Division" "HOL-Library.Monad_Syntax"
begin

text \<open>
  Calendar arithmetic of musl, \<^verbatim>\<open>time/__secs_to_tm.c\<close>, \<^verbatim>\<open>__tm_to_secs.c\<close>, \<^verbatim>\<open>__year_to_secs.c\<close>,
  \<^verbatim>\<open>__month_to_secs.c\<close>, \<^verbatim>\<open>gmtime_r.c\<close> and \<^verbatim>\<open>timegm.c\<close>.

  C integers are HOL integers here; \<open>sdiv\<close> and \<open>smod\<close> are C's truncating division and remainder, and
  \<open>s32\<close> is written where a 64-bit value is stored in an \<^verbatim>\<open>int\<close> and where \<^verbatim>\<open>int\<close> arithmetic can
  leave the range, so that the bounds that make the narrowing harmless are part of the proofs.  The reference is the proleptic Gregorian calendar:
  month lengths, the leap-year rule and the day number of the first of January.
\<close>

section \<open>Types and constants\<close>

definition s32 :: "int \<Rightarrow> int" where
  "s32 x = (x + 0x80000000) mod 0x100000000 - 0x80000000"

definition INT_MAX :: int where "INT_MAX = 2147483647"
definition INT_MIN :: int where "INT_MIN = - 2147483648"

record tm =
  tm_sec :: int
  tm_min :: int
  tm_hour :: int
  tm_mday :: int
  tm_mon :: int
  tm_year :: int
  tm_wday :: int
  tm_yday :: int

definition LEAPOCH :: int where "LEAPOCH = 946684800 + 86400 * (31 + 29)"
definition DAYS_PER_400Y :: int where "DAYS_PER_400Y = 365 * 400 + 97"
definition DAYS_PER_100Y :: int where "DAYS_PER_100Y = 365 * 100 + 24"
definition DAYS_PER_4Y :: int where "DAYS_PER_4Y = 365 * 4 + 1"

section \<open>Seconds to calendar time\<close>

definition days_in_month_from_march :: "int list" where
  "days_in_month_from_march = [31, 30, 31, 30, 31, 31, 30, 31, 30, 31, 31, 29]"

text \<open>The month loop; \<open>None\<close> stands for reading past the table.\<close>

fun month_loop :: "int list \<Rightarrow> int \<Rightarrow> int \<Rightarrow> (int \<times> int) option" where
  "month_loop [] months remdays = None"
| "month_loop (d # ds) months remdays =
     (if d \<le> remdays then month_loop ds (months + 1) (remdays - d) else Some (months, remdays))"

text \<open>The years since the first of March 2000, whether the year is a leap year, and the days left.\<close>

definition split_years :: "int \<Rightarrow> int \<times> int \<times> int" where
  "split_years days =
     (let qc_cycles = s32 (days sdiv DAYS_PER_400Y);
          remdays = days smod DAYS_PER_400Y;
          (remdays, qc_cycles) =
            (if remdays < 0 then (remdays + DAYS_PER_400Y, qc_cycles - 1) else (remdays, qc_cycles));
          c_cycles = remdays sdiv DAYS_PER_100Y;
          c_cycles = (if c_cycles = 4 then c_cycles - 1 else c_cycles);
          remdays = remdays - c_cycles * DAYS_PER_100Y;
          q_cycles = remdays sdiv DAYS_PER_4Y;
          q_cycles = (if q_cycles = 25 then q_cycles - 1 else q_cycles);
          remdays = remdays - q_cycles * DAYS_PER_4Y;
          remyears = remdays sdiv 365;
          remyears = (if remyears = 4 then remyears - 1 else remyears);
          remdays = remdays - remyears * 365;
          leap = (if remyears = 0 \<and> (q_cycles \<noteq> 0 \<or> c_cycles = 0) then 1 else 0)
      in (remyears + 4 * q_cycles + 100 * c_cycles + 400 * qc_cycles, leap, remdays))"

definition secs_to_tm :: "int \<Rightarrow> tm option" where
  "secs_to_tm t =
     (if t < INT_MIN * 31622400 \<or> t > INT_MAX * 31622400 then None
      else
        let secs = t - LEAPOCH;
            days = secs sdiv 86400;
            remsecs = secs smod 86400;
            (remsecs, days) = (if remsecs < 0 then (remsecs + 86400, days - 1) else (remsecs, days));
            wday = (3 + days) smod 7;
            wday = (if wday < 0 then wday + 7 else wday);
            (years, leap, remdays) = split_years days;
            yday = remdays + 31 + 28 + leap;
            yday = (if yday \<ge> 365 + leap then yday - (365 + leap) else yday)
        in case month_loop days_in_month_from_march 0 remdays of
             None \<Rightarrow> None
           | Some (months, remdays) \<Rightarrow>
               let (months, years) = (if months \<ge> 10 then (months - 12, years + 1) else (months, years))
               in if years + 100 > INT_MAX \<or> years + 100 < INT_MIN then None
                  else Some \<lparr> tm_sec = remsecs smod 60, tm_min = remsecs sdiv 60 smod 60,
                    tm_hour = remsecs sdiv 3600, tm_mday = remdays + 1, tm_mon = months + 2,
                    tm_year = years + 100, tm_wday = wday, tm_yday = yday \<rparr>)"

section \<open>Calendar time to seconds\<close>

definition month_to_secs :: "int \<Rightarrow> bool \<Rightarrow> int" where
  "month_to_secs month is_leap =
     (let t = [0, 31 * 86400, 59 * 86400, 90 * 86400,
               120 * 86400, 151 * 86400, 181 * 86400, 212 * 86400,
               243 * 86400, 273 * 86400, 304 * 86400, 334 * 86400] ! nat month
      in if is_leap \<and> month \<ge> 2 then t + 86400 else t)"

text \<open>The comparison \<^verbatim>\<open>year-2ULL <= 136\<close> is unsigned; \<open>drop_bit\<close> is the arithmetic shift.\<close>

definition year_to_secs :: "int \<Rightarrow> int \<times> bool" where
  "year_to_secs year =
     (if (year - 2) mod 2 ^ 64 \<le> 136 then
        let y = year;
            leaps = drop_bit 2 (y - 68);
            (leaps, is_leap) = (if take_bit 2 (y - 68) = 0 then (leaps - 1, True) else (leaps, False))
        in (31536000 * (y - 70) + 86400 * leaps, is_leap)
      else
        let cycles = s32 ((year - 100) sdiv 400);
            rem = (year - 100) smod 400;
            (cycles, rem) = (if rem < 0 then (cycles - 1, rem + 400) else (cycles, rem));
            (is_leap, centuries, leaps) =
              (if rem = 0 then (True, 0, 0)
               else
                 let (centuries, rem) =
                       (if rem \<ge> 200 then if rem \<ge> 300 then (3, rem - 300) else (2, rem - 200)
                        else if rem \<ge> 100 then (1, rem - 100) else (0, rem))
                 in if rem = 0 then (False, centuries, 0)
                    else (rem smod 4 = 0, centuries, rem sdiv 4));
            leaps = s32 (leaps + 97 * cycles + 24 * centuries - (if is_leap then 1 else 0))
        in ((year - 100) * 31536000 + leaps * 86400 + 946684800 + 86400, is_leap))"

definition tm_to_secs :: "tm \<Rightarrow> int" where
  "tm_to_secs tm =
     (let year = tm_year tm; month = tm_mon tm;
          (year, month) =
            (if month \<ge> 12 \<or> month < 0 then
               let adj = month sdiv 12; month = month smod 12;
                   (adj, month) = (if month < 0 then (adj - 1, month + 12) else (adj, month))
               in (year + adj, month)
             else (year, month));
          (t, is_leap) = year_to_secs year;
          t = t + month_to_secs month is_leap;
          t = t + 86400 * s32 (tm_mday tm - 1);
          t = t + 3600 * tm_hour tm;
          t = t + 60 * tm_min tm
      in t + tm_sec tm)"

text \<open>\<open>gmtime_r\<close> and \<open>timegm\<close>; \<open>None\<close> and \<open>Inl\<close> stand for \<^verbatim>\<open>EOVERFLOW\<close>.\<close>

definition gmtime_r :: "int \<Rightarrow> tm option" where
  "gmtime_r t = secs_to_tm t"

definition timegm :: "tm \<Rightarrow> (int \<times> tm) option" where
  "timegm tm =
     (let t = tm_to_secs tm in
      case secs_to_tm t of None \<Rightarrow> None | Some new \<Rightarrow> Some (t, new))"

section \<open>Week numbers\<close>

text \<open>\<^verbatim>\<open>is_leap\<close> and \<^verbatim>\<open>week_num\<close> of \<^verbatim>\<open>strftime.c\<close>; \<open>u\<close> is unsigned 32-bit arithmetic.\<close>

definition is_leap :: "int \<Rightarrow> bool" where
  "is_leap y =
     (let y = (if y > INT_MAX - 1900 then y - 2000 else y); y = y + 1900
      in y smod 4 = 0 \<and> (y smod 100 \<noteq> 0 \<or> y smod 400 = 0))"

definition week_num :: "tm \<Rightarrow> int" where
  "week_num tm =
     (let u = (\<lambda>x :: int. x mod 2 ^ 32);
          val = u (tm_yday tm + 7 - u (tm_wday tm + 6) mod 7) div 7;
          val = (if u (tm_wday tm + 371 - tm_yday tm - 2) mod 7 \<le> 2 then val + 1 else val)
      in if val = 0 then
           let dec31 = u (tm_wday tm + 7 - tm_yday tm - 1) mod 7
           in if dec31 = 4 \<or> (dec31 = 5 \<and> is_leap (tm_year tm smod 400 - 1)) then 53 else 52
         else if val = 53 then
           let jan1 = u (tm_wday tm + 371 - tm_yday tm) mod 7
           in if jan1 \<noteq> 4 \<and> (jan1 \<noteq> 3 \<or> \<not> is_leap (tm_year tm)) then 1 else val
         else val)"

section \<open>The Gregorian calendar\<close>

definition leap_year :: "int \<Rightarrow> bool" where
  "leap_year y \<longleftrightarrow> 4 dvd y \<and> (\<not> 100 dvd y \<or> 400 dvd y)"

definition month_len :: "bool \<Rightarrow> nat \<Rightarrow> int" where
  "month_len l m =
     (if m = 1 then if l then 29 else 28 else if m \<in> {3, 5, 8, 10} then 30 else 31)"

definition year_day :: "bool \<Rightarrow> nat \<Rightarrow> int" where
  "year_day l m = (\<Sum>i < m. month_len l i)"

text \<open>The number of leap years up to year \<open>y\<close>, and the days from the first of January 1970 to the
  first of January of year \<open>y\<close>.\<close>

definition leaps :: "int \<Rightarrow> int" where
  "leaps y = y div 4 - y div 100 + y div 400"

definition jan1 :: "int \<Rightarrow> int" where
  "jan1 y = 365 * (y - 1970) + leaps (y - 1) - leaps 1969"

lemma div_next: "k > 0 \<Longrightarrow> (y :: int) div k = (y - 1) div k + (if k dvd y then 1 else 0)"
proof -
  assume k: "k > 0"
  have y: "y = k * (y div k) + y mod k" by simp
  show ?thesis
  proof (cases "k dvd y")
    case True
    then have "y - 1 = k * (y div k - 1) + (k - 1)" using y by (simp add: algebra_simps)
    then have "(y - 1) div k = y div k - 1" by (rule int_div_pos_eq) (use k in auto)
    then show ?thesis using True by simp
  next
    case False
    then have "0 < y mod k" using pos_mod_sign [OF k, of y] by (simp add: dvd_eq_mod_eq_0 order_less_le)
    moreover have "y - 1 = k * (y div k) + (y mod k - 1)" using y by simp
    ultimately have "(y - 1) div k = y div k"
      using k by (intro int_div_pos_eq [of _ _ _ "y mod k - 1"]) (use pos_mod_bound [OF k, of y] in auto)
    then show ?thesis using False by simp
  qed
qed

lemma leaps_step: "leaps y = leaps (y - 1) + (if leap_year y then 1 else 0)"
proof -
  have d: "400 dvd y \<Longrightarrow> 100 dvd y" "100 dvd y \<Longrightarrow> 4 dvd y" by (auto elim: dvd_trans [rotated])
  show ?thesis
    unfolding leaps_def leap_year_def div_next [of 4 y, OF zero_less_numeral]
      div_next [of 100 y, OF zero_less_numeral] div_next [of 400 y, OF zero_less_numeral]
    using d by (cases "4 dvd y"; cases "100 dvd y"; cases "400 dvd y") simp_all
qed

lemma leaps_1969 [simp]: "leaps 1969 = 477"
  by (simp add: leaps_def)

lemma jan1_next: "jan1 (y + 1) = jan1 y + (if leap_year y then 366 else 365)"
  using leaps_step [of y] by (simp add: jan1_def)

section \<open>Truncating division\<close>

lemma sdiv_nonneg: "0 \<le> x \<Longrightarrow> 0 < k \<Longrightarrow> x sdiv k = x div k" "0 \<le> x \<Longrightarrow> 0 < k \<Longrightarrow> x smod k = x mod (k :: int)"
  by (cases "x = 0"; simp add: signed_divide_int_def signed_modulo_int_def sgn_if)+

lemma sdiv_neg: "x < 0 \<Longrightarrow> 0 < k \<Longrightarrow> x sdiv k = - (- x div k)" "x < 0 \<Longrightarrow> 0 < k \<Longrightarrow> x smod k = - (- x mod (k :: int))"
  by (simp_all add: signed_divide_int_def signed_modulo_int_def sgn_if)

text \<open>The correction the code makes after every truncating division turns it into floor division.\<close>

lemma floor_fix:
  assumes "0 < (k :: int)"
  shows "(if x smod k < 0 then f (x smod k + k) (x sdiv k - 1) else f (x smod k) (x sdiv k)) = f (x mod k) (x div k)"
proof (cases "x < 0")
  case False
  moreover have "\<not> x mod k < 0" using assms by (simp add: not_less)
  ultimately show ?thesis using assms by (simp add: sdiv_nonneg)
next
  case True
  have x: "x = k * (x div k) + x mod k" by simp
  have r: "0 \<le> x mod k" "x mod k < k" using assms by simp_all
  show ?thesis
  proof (cases "x mod k = 0")
    case True
    then show ?thesis using \<open>x < 0\<close> assms by (simp add: sdiv_neg zmod_zminus1_eq_if zdiv_zminus1_eq_if)
  next
    case False
    then show ?thesis using \<open>x < 0\<close> assms r by (simp add: sdiv_neg zmod_zminus1_eq_if zdiv_zminus1_eq_if)
  qed
qed

lemma floor_fix_mod: "0 < k \<Longrightarrow> (if x smod k < 0 then x smod k + k else x smod k) = x mod (k :: int)"
  using floor_fix [of k x "\<lambda>a b. a"] by simp

lemma s32_id [simp]: "INT_MIN \<le> x \<Longrightarrow> x \<le> INT_MAX \<Longrightarrow> s32 x = x"
  by (simp add: s32_def INT_MIN_def INT_MAX_def)

section \<open>Splitting a day number\<close>

text \<open>Days from the first of March 2000 to the first of March of the year 2000 + \<open>y\<close>.\<close>

definition march :: "int \<Rightarrow> int" where
  "march y = 365 * y + leaps y"

lemma march_parts:
  assumes "0 \<le> a" and "a \<le> 3" and "0 \<le> q" and "q \<le> 24" and "0 \<le> c" and "c \<le> 3"
    and y_def: "y = a + 4 * q + 100 * c + 400 * n"
  shows "march y = 365 * a + 1461 * q + 36524 * c + 146097 * n"
    and "leap_year (2000 + y) \<longleftrightarrow> a = 0 \<and> (q \<noteq> 0 \<or> c = 0)"
proof -
  have "y div 4 = q + 25 * c + 100 * n" by (rule int_div_pos_eq [of _ _ _ a]) (use assms in \<open>auto simp: y_def\<close>)
  moreover have "y div 100 = c + 4 * n" by (rule int_div_pos_eq [of _ _ _ "a + 4 * q"]) (use assms in \<open>auto simp: y_def\<close>)
  moreover have "y div 400 = n"
    by (rule int_div_pos_eq [of _ _ _ "a + 4 * q + 100 * c"]) (use assms in \<open>auto simp: y_def\<close>)
  ultimately show "march y = 365 * a + 1461 * q + 36524 * c + 146097 * n" by (simp add: march_def leaps_def y_def)
  have "(2000 + y) mod 4 = a" by (rule int_mod_pos_eq [of _ _ "500 + q + 25 * c + 100 * n"]) (use assms in \<open>auto simp: y_def\<close>)
  moreover have "(2000 + y) mod 100 = a + 4 * q"
    by (rule int_mod_pos_eq [of _ _ "20 + c + 4 * n"]) (use assms in \<open>auto simp: y_def\<close>)
  moreover have "(2000 + y) mod 400 = a + 4 * q + 100 * c"
    by (rule int_mod_pos_eq [of _ _ "5 + n"]) (use assms in \<open>auto simp: y_def\<close>)
  ultimately show "leap_year (2000 + y) \<longleftrightarrow> a = 0 \<and> (q \<noteq> 0 \<or> c = 0)"
    using assms unfolding leap_year_def dvd_eq_mod_eq_0 by auto
qed

lemma leap_year_2000: "leap_year (2000 + x) \<longleftrightarrow> leap_year x"
proof -
  have "k dvd 2000 + x \<longleftrightarrow> k dvd x" if "k dvd 2000" for k using that by (rule dvd_add_right_iff)
  then show ?thesis by (simp add: leap_year_def)
qed

lemma leaps_2000: "leaps (2000 + x) = 485 + leaps x"
proof -
  have "(2000 + x) div 4 = 500 + x div 4" "(2000 + x) div 100 = 20 + x div 100" "(2000 + x) div 400 = 5 + x div 400"
    using div_plus_div_distrib_dvd_left [of 4 2000 x] div_plus_div_distrib_dvd_left [of 100 2000 x]
      div_plus_div_distrib_dvd_left [of 400 2000 x] by simp_all
  moreover have "a - b + c = 485 + (a' - b' + c')" if "a = 500 + a'" "b = 20 + b'" "c = 5 + c'" for a b c a' b' c' :: int
    using that by simp
  ultimately show ?thesis unfolding leaps_def by blast
qed

lemma march_next: "march (y + 1) = march y + (if leap_year (2001 + y) then 366 else 365)"
proof -
  have "leap_year (2001 + y) = leap_year (y + 1)" using leap_year_2000 [of "y + 1"] by (simp add: add.commute)
  then show ?thesis using leaps_step [of "y + 1"] by (simp add: march_def)
qed

text \<open>The first of March of year \<open>y\<close>, counted from 1970.\<close>

lemma jan1_march: "jan1 (2000 + y) + 59 + (if leap_year (2000 + y) then 1 else 0) = march y + 11017"
  using leaps_step [of "2000 + y"] leaps_2000 [of y] by (simp add: jan1_def march_def)

lemma div_capped:
  assumes "0 < (k :: int)" and "0 \<le> x" and "x \<le> k * (m + 1)" and "0 \<le> m"
  shows "x div k = m + 1 \<Longrightarrow> x = k * (m + 1)" "0 \<le> x div k" "x div k \<le> m + 1" "k * (x div k) \<le> x" "x < k * (x div k) + k"
proof -
  have e: "x = k * (x div k) + x mod k" by simp
  have b: "0 \<le> x mod k" "x mod k < k" using assms(1) by simp_all
  show "x div k = m + 1 \<Longrightarrow> x = k * (m + 1)" using e b assms(3) by simp
  show "0 \<le> x div k" using assms by (simp add: pos_imp_zdiv_nonneg_iff)
  show "x div k \<le> m + 1" using assms using zdiv_mono1 [OF assms(3,1)] by simp
  show "k * (x div k) \<le> x" "x < k * (x div k) + k" using e b by linarith+
qed

lemma sdiv_bound:
  assumes "0 < (k :: int)" and "\<bar>x\<bar> \<le> k * b"
  shows "- b \<le> x sdiv k" and "x sdiv k \<le> b"
proof -
  have "y div k \<le> b" if "y \<le> k * b" for y using zdiv_mono1 [OF that assms(1)] assms(1) by simp
  then have "\<bar>x\<bar> div k \<le> b" using assms(2) by simp
  moreover have "0 \<le> \<bar>x\<bar> div k" using assms(1) by (simp add: pos_imp_zdiv_nonneg_iff)
  ultimately show "- b \<le> x sdiv k" "x sdiv k \<le> b"
    using assms(1) by (cases "x < 0"; simp add: sdiv_neg sdiv_nonneg)+
qed

text \<open>The capped quotient of the code: the last period of a cycle may be one day longer.\<close>

definition cap :: "int \<Rightarrow> int \<Rightarrow> int \<Rightarrow> int" where
  "cap k m x = (if x div k = m + 1 then m else x div k)"

lemma cap_spec:
  assumes "0 < k" and "0 \<le> x" and "x \<le> k * (m + 1)" and "0 \<le> m"
  shows "0 \<le> cap k m x" "cap k m x \<le> m" "0 \<le> x - cap k m x * k" "x - cap k m x * k \<le> k"
    "x - cap k m x * k = k \<Longrightarrow> cap k m x = m \<and> x = k * (m + 1)"
  using div_capped [OF assms] assms(1,4) by (auto simp: cap_def algebra_simps)

lemma cap_sdiv:
  "0 \<le> x \<Longrightarrow> 0 < k \<Longrightarrow> m' = m + 1 \<Longrightarrow> (if x sdiv k = m' then x sdiv k - 1 else x sdiv k) = cap k m x"
  by (simp add: sdiv_nonneg cap_def)

lemma split_years_cap:
  assumes "\<bar>days\<bar> \<le> 800000000000"
  shows "split_years days =
    (let n = days div 146097; d = days mod 146097;
         c = cap 36524 3 d; e = d - c * 36524;
         q = cap 1461 24 e; g = e - q * 1461;
         a = cap 365 3 g
     in (a + 4 * q + 100 * c + 400 * n, if a = 0 \<and> (q \<noteq> 0 \<or> c = 0) then 1 else 0, g - a * 365))"
proof -
  have n: "s32 (days sdiv 146097) = days sdiv 146097"
    by (rule s32_id) (use sdiv_bound [of 146097 days 5500000] assms in \<open>simp_all add: INT_MIN_def INT_MAX_def\<close>)
  let ?d = "days mod 146097"
  let ?c = "cap 36524 3 ?d"
  let ?e = "?d - ?c * 36524"
  have c: "0 \<le> ?d" "0 \<le> ?e" "?e \<le> 36524" using cap_spec [of 36524 ?d 3] pos_mod_bound [of 146097 days] by simp_all
  let ?g = "?e - cap 1461 24 ?e * 1461"
  have q: "0 \<le> ?g" using cap_spec [of 1461 ?e 24] c by simp
  have caps: "(if ?d sdiv 36524 = 4 then ?d sdiv 36524 - 1 else ?d sdiv 36524) = ?c"
    "(if ?e sdiv 1461 = 25 then ?e sdiv 1461 - 1 else ?e sdiv 1461) = cap 1461 24 ?e"
    "(if ?g sdiv 365 = 4 then ?g sdiv 365 - 1 else ?g sdiv 365) = cap 365 3 ?g"
    by (rule cap_sdiv, use c q in simp, simp, simp)+
  have qc: "(if days smod 146097 < 0 then (days smod 146097 + 146097, days sdiv 146097 - 1)
      else (days smod 146097, days sdiv 146097)) = (?d, days div 146097)"
    using floor_fix [of 146097 days Pair] by simp
  have periods: "DAYS_PER_400Y = 146097" "DAYS_PER_100Y = 36524" "DAYS_PER_4Y = 1461"
    by (simp_all add: DAYS_PER_400Y_def DAYS_PER_100Y_def DAYS_PER_4Y_def)
  show ?thesis
    unfolding split_years_def periods n Let_def qc prod.case caps ..
qed

lemma split_years_spec:
  assumes "\<bar>days\<bar> \<le> 800000000000"
  obtains y l r where "split_years days = (y, l, r)" "days = march y + r" "0 \<le> r" "march y + r < march (y + 1)"
    "l = (if leap_year (2000 + y) then 1 else 0)"
proof -
  define n where "n = days div 146097"
  define d where "d = days mod 146097"
  have d: "0 \<le> d" "d \<le> 36524 * (3 + 1)" "days = 146097 * n + d"
    using pos_mod_bound [of 146097 days] by (simp_all add: d_def n_def)
  define c where "c = cap 36524 3 d"
  define e where "e = d - c * 36524"
  have c: "0 \<le> c" "c \<le> 3" "0 \<le> e" "e \<le> 36524" "e = 36524 \<Longrightarrow> c = 3"
    using cap_spec [OF _ d(1,2)] by (simp_all add: c_def e_def)
  define q where "q = cap 1461 24 e"
  define g where "g = e - q * 1461"
  have q: "0 \<le> q" "q \<le> 24" "0 \<le> g" "g \<le> 1461" "g = 1461 \<Longrightarrow> e = 36525"
    using cap_spec [of 1461 e 24] c by (simp_all add: q_def g_def)
  define a where "a = cap 365 3 g"
  define r where "r = g - a * 365"
  have g: "g \<le> 1460" using q c by linarith
  have a: "0 \<le> a" "a \<le> 3" "0 \<le> r" "r \<le> 365" "r = 365 \<Longrightarrow> a = 3 \<and> g = 1460"
    using cap_spec [of 365 g 3] q(3) g by (simp_all add: a_def r_def)
  define y where "y = a + 4 * q + 100 * c + 400 * n"
  note p = march_parts [OF a(1,2) q(1,2) c(1,2) y_def]
  have days: "days = march y + r" unfolding p(1) using d(3) by (simp add: r_def g_def e_def)
  have "r < (if leap_year (2001 + y) then 366 else 365)"
  proof (cases "r = 365")
    case True
    then have a3: "a = 3" "g = 1460" using a(5) by simp_all
    have "leap_year (2001 + y)"
    proof (cases "q = 24")
      case True
      then have "e = 36524" using a3(2) by (simp add: g_def)
      then have "c = 3" by (rule c(5))
      then have y400: "2001 + y = 400 * (n + 6)" using a3 True by (simp add: y_def)
      show ?thesis unfolding y400 leap_year_def by (simp add: dvd_mult2)
    next
      case False
      have "y + 1 = 0 + 4 * (q + 1) + 100 * c + 400 * n" using a3 by (simp add: y_def)
      from march_parts(2) [OF _ _ _ _ c(1,2) this] False q(1,2) have "leap_year (2000 + (y + 1))" by auto
      moreover have "2000 + (y + 1) = 2001 + y" by simp
      ultimately show ?thesis by metis
    qed
    then show ?thesis using True by simp
  next
    case False
    then show ?thesis using a(4) by simp
  qed
  then have "march y + r < march (y + 1)" using march_next [of y] by simp
  moreover have "split_years days = (y, if leap_year (2000 + y) then 1 else 0, r)"
    unfolding split_years_cap [OF assms] Let_def p(2) n_def [symmetric] d_def [symmetric] c_def [symmetric]
      e_def [symmetric] q_def [symmetric] g_def [symmetric] a_def [symmetric] r_def [symmetric] y_def [symmetric] ..
  ultimately show thesis using that days a(3) by blast
qed

section \<open>The month table\<close>

text \<open>Month \<open>k\<close> counted from March begins on day \<open>sum\<close> of the March year; the loop finds it.\<close>

lemma month_loop_spec:
  assumes "0 \<le> r" and "r < sum_list ds" and "\<forall>d \<in> set ds. 0 < d"
  shows "\<exists>k. k < length ds \<and> month_loop ds m r = Some (m + int k, r - sum_list (take k ds)) \<and>
    0 \<le> r - sum_list (take k ds) \<and> r - sum_list (take k ds) < ds ! k"
  using assms
proof (induction ds arbitrary: m r)
  case (Cons d ds)
  show ?case
  proof (cases "d \<le> r")
    case True
    then obtain k where "k < length ds" "month_loop ds (m + 1) (r - d) = Some (m + 1 + int k, r - d - sum_list (take k ds))"
      "0 \<le> r - d - sum_list (take k ds)" "r - d - sum_list (take k ds) < ds ! k"
      using Cons.IH [of "r - d" "m + 1"] Cons.prems by auto
    then show ?thesis using True by (intro exI [of _ "Suc k"]) (simp add: algebra_simps)
  next
    case False
    then show ?thesis using Cons.prems by (intro exI [of _ 0]) simp
  qed
qed simp

text \<open>The calendar month and the days before it, for month \<open>k\<close> from March.\<close>

lemma march_month:
  assumes "k < 12" and "mon = (if k \<ge> 10 then k - 10 else k + 2)"
  shows "k < 10 \<Longrightarrow> year_day l mon = 59 + (if l then 1 else 0) + sum_list (take k days_in_month_from_march)"
    and "10 \<le> k \<Longrightarrow> year_day l mon = sum_list (take k days_in_month_from_march) - 306"
    and "k \<noteq> 11 \<Longrightarrow> month_len l mon = days_in_month_from_march ! k"
proof -
  consider "k = 0" | "k = 1" | "k = 2" | "k = 3" | "k = 4" | "k = 5" | "k = 6" | "k = 7" | "k = 8" | "k = 9"
    | "k = 10" | "k = 11" using assms(1) by (simp add: numeral_eq_Suc less_Suc_eq) blast
  then have "(k < 10 \<longrightarrow> year_day l mon = 59 + (if l then 1 else 0) + sum_list (take k days_in_month_from_march)) \<and>
    (10 \<le> k \<longrightarrow> year_day l mon = sum_list (take k days_in_month_from_march) - 306) \<and>
    (k \<noteq> 11 \<longrightarrow> month_len l mon = days_in_month_from_march ! k)"
    unfolding assms(2) by cases
      (simp_all add: year_day_def month_len_def days_in_month_from_march_def lessThan_Suc numeral_eq_Suc)
  then show "k < 10 \<Longrightarrow> year_day l mon = 59 + (if l then 1 else 0) + sum_list (take k days_in_month_from_march)"
    "10 \<le> k \<Longrightarrow> year_day l mon = sum_list (take k days_in_month_from_march) - 306"
    "k \<noteq> 11 \<Longrightarrow> month_len l mon = days_in_month_from_march ! k" by blast+
qed

section \<open>Calendar times\<close>

text \<open>\<open>tm\<close> is the calendar time of second \<open>t\<close>: its fields are in range and count to \<open>t\<close>.\<close>

definition day_secs :: "tm \<Rightarrow> int" where
  "day_secs tm = 3600 * tm_hour tm + 60 * tm_min tm + tm_sec tm"

definition calendar :: "int \<Rightarrow> tm \<Rightarrow> bool" where
  "calendar t tm \<longleftrightarrow>
     (let y = 1900 + tm_year tm; l = leap_year y; m = nat (tm_mon tm) in
      0 \<le> tm_mon tm \<and> tm_mon tm < 12 \<and> 1 \<le> tm_mday tm \<and> tm_mday tm \<le> month_len l m \<and>
      0 \<le> tm_hour tm \<and> tm_hour tm < 24 \<and> 0 \<le> tm_min tm \<and> tm_min tm < 60 \<and> 0 \<le> tm_sec tm \<and> tm_sec tm < 60 \<and>
      tm_yday tm = year_day l m + tm_mday tm - 1 \<and> tm_wday tm = (4 + t div 86400) mod 7 \<and>
      t = 86400 * (jan1 y + tm_yday tm) + day_secs tm)"

lemma calendarD:
  assumes "calendar t tm"
  shows "0 \<le> tm_mon tm" and "1 \<le> tm_mday tm"
    and "tm_mday tm \<le> month_len (leap_year (1900 + tm_year tm)) (nat (tm_mon tm))"
    and "tm_yday tm = year_day (leap_year (1900 + tm_year tm)) (nat (tm_mon tm)) + tm_mday tm - 1"
    and "tm_wday tm = (4 + t div 86400) mod 7"
    and "0 \<le> tm_min tm" and "tm_min tm < 60" and "0 \<le> tm_sec tm" and "tm_sec tm < 60"
  using assms unfolding calendar_def Let_def by blast+

lemma jan1_mono: "y \<le> y' \<Longrightarrow> jan1 y \<le> jan1 y'"
  by (induction y' rule: int_ge_induct) (simp_all add: jan1_next)

lemma year_day_Suc: "year_day l (Suc m) = year_day l m + month_len l m"
  by (simp add: year_day_def)

lemma month_len_pos: "0 < month_len l m"
  by (simp add: month_len_def)

lemma month_len_bounds: "28 \<le> month_len l m" "month_len l m \<le> 31"
  by (simp_all add: month_len_def)

lemma year_day_mono: "m \<le> m' \<Longrightarrow> year_day l m \<le> year_day l m'"
  by (rule lift_Suc_mono_le [of "year_day l"]) (simp_all add: year_day_Suc month_len_pos less_imp_le)

lemma year_day_12: "year_day l 12 = (if l then 366 else 365)"
  by (simp add: year_day_def month_len_def lessThan_Suc numeral_eq_Suc)

lemma calendar_year:
  assumes "calendar t tm"
  shows "0 \<le> tm_yday tm" and "jan1 (1900 + tm_year tm) + tm_yday tm < jan1 (1900 + tm_year tm + 1)"
    and "t div 86400 = jan1 (1900 + tm_year tm) + tm_yday tm" and "t mod 86400 = day_secs tm"
proof -
  let ?l = "leap_year (1900 + tm_year tm)"
  have m: "Suc (nat (tm_mon tm)) \<le> 12" using assms by (simp add: calendar_def Let_def nat_less_iff Suc_le_eq)
  show "0 \<le> tm_yday tm"
    using assms year_day_mono [of 0 "nat (tm_mon tm)" ?l] by (simp add: calendar_def Let_def year_day_def)
  have "tm_yday tm < year_day ?l 12"
    using assms year_day_mono [OF m, of ?l] by (simp add: calendar_def Let_def year_day_Suc)
  then show "jan1 (1900 + tm_year tm) + tm_yday tm < jan1 (1900 + tm_year tm + 1)"
    unfolding jan1_next year_day_12 by simp
  have e: "0 \<le> day_secs tm" "day_secs tm < 86400" "t = 86400 * (jan1 (1900 + tm_year tm) + tm_yday tm) + day_secs tm"
    using assms by (auto simp: calendar_def Let_def day_secs_def)
  show "t div 86400 = jan1 (1900 + tm_year tm) + tm_yday tm" by (rule int_div_pos_eq [OF e(3,1,2)])
  show "t mod 86400 = day_secs tm" by (rule int_mod_pos_eq [OF e(3,1,2)])
qed

lemma month_unique:
  assumes "year_day l m \<le> d" "d < year_day l (Suc m)" "year_day l m' \<le> d" "d < year_day l (Suc m')"
  shows "m = m'"
proof (rule ccontr)
  assume "m \<noteq> m'"
  then consider "Suc m \<le> m'" | "Suc m' \<le> m" by linarith
  then show False using assms year_day_mono [of "Suc m" m' l] year_day_mono [of "Suc m'" m l] by cases auto
qed

lemma hms_unique:
  assumes "3600 * h + 60 * m + s = 3600 * h' + 60 * m' + (s' :: int)" "0 \<le> m" "m < 60" "0 \<le> s" "s < 60"
    "0 \<le> m'" "m' < 60" "0 \<le> s'" "s' < 60"
  shows "h = h'" "m = m'" "s = s'"
proof -
  have "\<not> h < h'" "\<not> h' < h" using assms by linarith+
  then show h: "h = h'" by linarith
  have "\<not> m < m'" "\<not> m' < m" using assms h by linarith+
  then show m: "m = m'" by linarith
  show "s = s'" using assms(1) h m by simp
qed

lemma calendar_unique:
  assumes "calendar t tm" and "calendar t tm'"
  shows "tm = tm'"
proof -
  note c = calendar_year [OF assms(1)] and c' = calendar_year [OF assms(2)]
  have y: "tm_year tm = tm_year tm'"
  proof (rule ccontr)
    assume "tm_year tm \<noteq> tm_year tm'"
    then consider "1900 + tm_year tm + 1 \<le> 1900 + tm_year tm'" | "1900 + tm_year tm' + 1 \<le> 1900 + tm_year tm" by linarith
    then show False using c c' jan1_mono by cases fastforce+
  qed
  then have yd: "tm_yday tm = tm_yday tm'" using c(3) c'(3) by simp
  let ?l = "leap_year (1900 + tm_year tm)"
  note g = calendarD [OF assms(1)] and g' = calendarD [OF assms(2)]
  have "nat (tm_mon tm) = nat (tm_mon tm')"
    by (rule month_unique [of ?l _ "tm_yday tm"]) (use g(2-4) g'(2-4) y yd in \<open>simp_all add: year_day_Suc\<close>)
  then have m: "tm_mon tm = tm_mon tm'" using g(1) g'(1) by simp
  then have d: "tm_mday tm = tm_mday tm'" "tm_wday tm = tm_wday tm'" using g(4,5) g'(4,5) y yd by simp_all
  have "day_secs tm = day_secs tm'" using c(4) c'(4) by simp
  note h = hms_unique [OF this [unfolded day_secs_def]]
  show ?thesis using h [OF g(6-9) g'(6-9)] y yd m d by simp
qed

lemma calendar_range:
  assumes "calendar t tm" and "INT_MIN \<le> tm_year tm" and "tm_year tm \<le> INT_MAX"
  shows "INT_MIN * 31622400 \<le> t" and "t \<le> INT_MAX * 31622400"
proof -
  note c = calendar_year [OF assms(1)]
  have lo: "jan1 (1900 + INT_MIN) \<le> jan1 (1900 + tm_year tm)" using assms(2) by (intro jan1_mono) simp
  have hi: "jan1 (1900 + tm_year tm + 1) \<le> jan1 (1901 + INT_MAX)" using assms(3) by (intro jan1_mono) simp
  have "INT_MIN * 366 \<le> jan1 (1900 + INT_MIN)" "jan1 (1901 + INT_MAX) \<le> INT_MAX * 366"
    by (simp_all add: jan1_def INT_MIN_def INT_MAX_def leaps_def)
  then have d: "INT_MIN * 366 \<le> t div 86400" "t div 86400 < INT_MAX * 366" using c lo hi by linarith+
  have t: "t = 86400 * (t div 86400) + t mod 86400" "0 \<le> t mod 86400" "t mod 86400 < 86400" by simp_all
  show "INT_MIN * 31622400 \<le> t" "t \<le> INT_MAX * 31622400"
    using d t unfolding INT_MIN_def INT_MAX_def by linarith+
qed

text \<open>The last part of the conversion: the year is known, the month and the day are looked up.\<close>

lemma month_lookup:
  assumes "0 \<le> r" and "march y + r < march (y + 1)"
  defines "l \<equiv> (if leap_year (2000 + y) then 1 else 0)"
  obtains k d where "month_loop days_in_month_from_march 0 r = Some (int k, d)" "k < 12"
    "0 \<le> d" "d < month_len (leap_year (2000 + y + (if k \<ge> 10 then 1 else 0))) (if k \<ge> 10 then k - 10 else k + 2)"
    "(if r + 31 + 28 + l \<ge> 365 + l then r + 31 + 28 + l - (365 + l) else r + 31 + 28 + l) =
     year_day (leap_year (2000 + y + (if k \<ge> 10 then 1 else 0))) (if k \<ge> 10 then k - 10 else k + 2) + d"
    "jan1 (2000 + y + (if k \<ge> 10 then 1 else 0)) +
     year_day (leap_year (2000 + y + (if k \<ge> 10 then 1 else 0))) (if k \<ge> 10 then k - 10 else k + 2) + d = march y + r + 11017"
proof -
  let ?ds = days_in_month_from_march
  have r: "r < (if leap_year (2001 + y) then 366 else 365)" using assms(2) march_next [of y] by simp
  have ds: "sum_list ?ds = 366" "\<forall>d \<in> set ?ds. 0 < d" "length ?ds = 12" "?ds ! 11 = 29" "sum_list (take 11 ?ds) = 337"
    by (simp_all add: days_in_month_from_march_def)
  have "r < sum_list ?ds" using r by (simp add: ds(1) split: if_splits)
  from month_loop_spec [OF assms(1) this ds(2), of 0] obtain k where k: "k < 12"
    "month_loop ?ds 0 r = Some (int k, r - sum_list (take k ?ds))" "0 \<le> r - sum_list (take k ?ds)"
    "r - sum_list (take k ?ds) < ?ds ! k"
    by (auto simp: ds(3))
  define d where "d = r - sum_list (take k ?ds)"
  let ?Y = "2000 + y + (if k \<ge> 10 then 1 else 0)"
  let ?m = "if k \<ge> 10 then k - 10 else k + 2"
  note m = march_month [OF k(1) refl, of "leap_year ?Y"]
  have next_year: "jan1 (2000 + y + 1) = march y + 11017 + 306" 
    using jan1_march [of y] jan1_next [of "2000 + y"] by (simp split: if_splits)
  have len: "d < month_len (leap_year ?Y) ?m"
  proof (cases "k = 11")
    case True
    then show ?thesis using r ds(5) by (simp add: d_def month_len_def add.commute split: if_splits)
  next
    case False
    then show ?thesis using m(3) k(4) by (simp add: d_def)
  qed
  show thesis
  proof (cases "10 \<le> k")
    case True
    have "306 \<le> sum_list (take k ?ds)"
    proof -
      have "k = 10 \<or> k = 11" using k(1) True by linarith
      then show ?thesis by (auto simp: days_in_month_from_march_def)
    qed
    then have r306: "306 \<le> r" using k(3) by simp
    have yd: "year_day (leap_year ?Y) ?m = sum_list (take k ?ds) - 306" using m(2) True by blast
    show thesis
    proof (rule that [of k d])
      show "(if r + 31 + 28 + l \<ge> 365 + l then r + 31 + 28 + l - (365 + l) else r + 31 + 28 + l) = year_day (leap_year ?Y) ?m + d"
        using r306 yd by (simp add: d_def)
      show "jan1 ?Y + year_day (leap_year ?Y) ?m + d = march y + r + 11017"
        using next_year yd True by (simp add: d_def)
    qed (use k d_def len in auto)
  next
    case False
    have sum: "sum_list (take k ?ds) + ?ds ! k \<le> 306"
    proof -
      have "k \<in> {0, 1, 2, 3, 4, 5, 6, 7, 8, 9}" using False by auto
      then show ?thesis by (auto simp: days_in_month_from_march_def)
    qed
    then have r306: "r < 306" using k(4) by simp
    have yd: "year_day (leap_year ?Y) ?m = 59 + (if leap_year ?Y then 1 else 0) + sum_list (take k ?ds)"
      using m(1) False by simp
    show thesis
    proof (rule that [of k d])
      show "(if r + 31 + 28 + l \<ge> 365 + l then r + 31 + 28 + l - (365 + l) else r + 31 + 28 + l) = year_day (leap_year ?Y) ?m + d"
        using r306 yd False by (simp add: d_def l_def)
      show "jan1 ?Y + year_day (leap_year ?Y) ?m + d = march y + r + 11017"
        using jan1_march [of y] yd False by (simp add: d_def)
    qed (use k d_def len in auto)
  qed
qed

text \<open>The clock fields.\<close>

lemma clock_fields:
  assumes "0 \<le> s" and "s < (86400 :: int)"
  shows "3600 * (s sdiv 3600) + 60 * (s sdiv 60 smod 60) + s smod 60 = s"
    and "0 \<le> s sdiv 3600" "s sdiv 3600 < 24" "0 \<le> s sdiv 60 smod 60" "s sdiv 60 smod 60 < 60"
    "0 \<le> s smod 60" "s smod 60 < 60"
proof -
  have h: "s div 3600 = s div 60 div 60" using zdiv_zmult2_eq [of 60 s 60] by simp
  have n: "0 \<le> s div 60" using assms by (simp add: pos_imp_zdiv_nonneg_iff)
  have "60 * (s div 60) + s mod 60 = s" "60 * (s div 60 div 60) + s div 60 mod 60 = s div 60" by (rule mult_div_mod_eq)+
  then have "3600 * (s div 60 div 60) + 60 * (s div 60 mod 60) + s mod 60 = s" by linarith
  then show "3600 * (s sdiv 3600) + 60 * (s sdiv 60 smod 60) + s smod 60 = s"
    using sdiv_nonneg [OF assms(1), of 3600] sdiv_nonneg [OF assms(1), of 60] sdiv_nonneg [OF n, of 60] h by simp
  show "0 \<le> s sdiv 3600" "s sdiv 3600 < 24" "0 \<le> s sdiv 60 smod 60" "s sdiv 60 smod 60 < 60"
    "0 \<le> s smod 60" "s smod 60 < 60"
    using assms n by (simp_all add: sdiv_nonneg)
qed

lemma secs_to_tm_core:
  assumes "INT_MIN * 31622400 \<le> t" and "t \<le> INT_MAX * 31622400"
  obtains tm where "calendar t tm"
    "secs_to_tm t = (if INT_MIN \<le> tm_year tm \<and> tm_year tm \<le> INT_MAX then Some tm else None)"
proof -
  define days where "days = (t - LEAPOCH) div 86400"
  define s where "s = (t - LEAPOCH) mod 86400"
  have t: "t = 86400 * (days + 11017) + s" "0 \<le> s" "s < 86400"
    by (simp_all add: days_def s_def LEAPOCH_def)
  have td: "t div 86400 = days + 11017" by (rule int_div_pos_eq [OF t])
  have "days \<le> 800000000000" "- 800000000000 \<le> days"
    using assms [unfolded INT_MIN_def INT_MAX_def] t by simp_all
  then have "\<bar>days\<bar> \<le> 800000000000" by (simp add: abs_le_iff)
  then obtain y l r where y: "split_years days = (y, l, r)" "days = march y + r" "0 \<le> r" "march y + r < march (y + 1)"
    "l = (if leap_year (2000 + y) then 1 else 0)" by (rule split_years_spec)
  obtain k d where k: "month_loop days_in_month_from_march 0 r = Some (int k, d)" "k < 12"
    "0 \<le> d" "d < month_len (leap_year (2000 + y + (if k \<ge> 10 then 1 else 0))) (if k \<ge> 10 then k - 10 else k + 2)"
    "(if r + 31 + 28 + l \<ge> 365 + l then r + 31 + 28 + l - (365 + l) else r + 31 + 28 + l) =
     year_day (leap_year (2000 + y + (if k \<ge> 10 then 1 else 0))) (if k \<ge> 10 then k - 10 else k + 2) + d"
    "jan1 (2000 + y + (if k \<ge> 10 then 1 else 0)) +
     year_day (leap_year (2000 + y + (if k \<ge> 10 then 1 else 0))) (if k \<ge> 10 then k - 10 else k + 2) + d = march y + r + 11017"
    using month_lookup [OF y(3,4)] unfolding y(5) by metis
  let ?Y = "2000 + y + (if k \<ge> 10 then 1 else 0)"
  let ?m = "if k \<ge> 10 then k - 10 else k + 2"
  let ?yday = "year_day (leap_year ?Y) ?m + d"
  define tm where "tm = \<lparr> tm_sec = s smod 60, tm_min = s sdiv 60 smod 60, tm_hour = s sdiv 3600, tm_mday = d + 1,
    tm_mon = int ?m, tm_year = ?Y - 1900, tm_wday = (3 + days) mod 7, tm_yday = ?yday \<rparr>"
  have wd: "(3 + days) mod 7 = (4 + t div 86400) mod 7"
  proof -
    have "4 + (days + 11017) = (3 + days) + 7 * 1574" by simp
    then show ?thesis unfolding td by (metis mod_mult_self2)
  qed
  note c = clock_fields [OF t(2,3)]
  have "calendar t tm"
    unfolding calendar_def Let_def wd [symmetric] tm_def tm.simps day_secs_def
    using k(2-4,6) c t(1) y(2) by (auto simp: algebra_simps)
  moreover have "secs_to_tm t = (if INT_MIN \<le> tm_year tm \<and> tm_year tm \<le> INT_MAX then Some tm else None)"
  proof -
    have fix1: "(if (t - LEAPOCH) smod 86400 < 0 then ((t - LEAPOCH) smod 86400 + 86400, (t - LEAPOCH) sdiv 86400 - 1)
        else ((t - LEAPOCH) smod 86400, (t - LEAPOCH) sdiv 86400)) = (s, days)"
      using floor_fix [of 86400 "t - LEAPOCH" Pair] by (simp add: days_def s_def)
    have fix2: "(if (3 + days) smod 7 < 0 then (3 + days) smod 7 + 7 else (3 + days) smod 7) = (3 + days) mod 7"
      by (rule floor_fix_mod) simp
    have guard: "\<not> (t < INT_MIN * 31622400 \<or> t > INT_MAX * 31622400)" using assms by simp
    show ?thesis
      unfolding secs_to_tm_def if_not_P [OF guard] Let_def fix1 prod.case fix2 y(1) k(1,5) option.case
      by (auto simp: tm_def)
  qed
  ultimately show thesis by (rule that)
qed

section \<open>Years and months to seconds\<close>

text \<open>The branch for 1902 to 2038, where every fourth year is a leap year.\<close>

lemma leaps_near:
  assumes "2 \<le> y" and "y \<le> 138"
  shows "leaps (1899 + y) = (y - 69) div 4 + 477" and "leap_year (1900 + y) \<longleftrightarrow> (y - 68) mod 4 = 0"
proof -
  have q: "(1899 + y) div 4 = 492 + (y - 69) div 4"
    using div_plus_div_distrib_dvd_left [of 4 1968 "y - 69"] by (simp add: algebra_simps)
  have c: "(1899 + y) div 100 - (1899 + y) div 400 = 15"
  proof (cases "y \<le> 100")
    case True
    have "(1899 + y) div 100 = 19" by (rule int_div_pos_eq [of _ _ _ "y - 1"]) (use assms True in auto)
    moreover have "(1899 + y) div 400 = 4" by (rule int_div_pos_eq [of _ _ _ "y + 299"]) (use assms True in auto)
    ultimately show ?thesis by simp
  next
    case False
    have "(1899 + y) div 100 = 20" by (rule int_div_pos_eq [of _ _ _ "y - 101"]) (use assms False in auto)
    moreover have "(1899 + y) div 400 = 5" by (rule int_div_pos_eq [of _ _ _ "y - 101"]) (use assms False in auto)
    ultimately show ?thesis by simp
  qed
  have "a - b + c = d + 477" if "a = 492 + d" "b - c = 15" for a b c d :: int using that by simp
  from this [OF q c] show "leaps (1899 + y) = (y - 69) div 4 + 477" unfolding leaps_def .
  have "4 dvd 1900 + y \<longleftrightarrow> (y - 68) mod 4 = 0"
    using dvd_add_right_iff [of 4 1968 "y - 68"] by (simp add: dvd_eq_mod_eq_0 algebra_simps)
  moreover have "100 dvd 1900 + y \<Longrightarrow> y = 100"
  proof -
    assume "100 dvd 1900 + y"
    then have "100 dvd y" using dvd_add_right_iff [of 100 1900 y] by simp
    then obtain k where "y = 100 * k" by blast
    then show ?thesis using assms by auto
  qed
  ultimately show "leap_year (1900 + y) \<longleftrightarrow> (y - 68) mod 4 = 0"
    unfolding leap_year_def by auto
qed

lemma year_near: "(year - 2) mod 2 ^ 64 \<le> (136 :: int) \<longleftrightarrow> 2 \<le> year \<and> year \<le> 138" if "\<bar>year\<bar> \<le> 2 ^ 33"
proof (cases "2 \<le> year")
  case True
  then have "(year - 2) mod 2 ^ 64 = year - 2" using that by (intro mod_pos_pos_trivial) auto
  then show ?thesis using True by auto
next
  case False
  have "(year - 2) mod 2 ^ 64 = (year - 2 + 2 ^ 64) mod 2 ^ 64" by (rule mod_add_self2 [symmetric])
  also have "\<dots> = year - 2 + 2 ^ 64" using that False by (intro mod_pos_pos_trivial) auto
  finally show ?thesis using False that by simp
qed

text \<open>The general branch: the year as 400-year cycles, centuries, four-year cycles and years.\<close>

lemma jan1_parts:
  assumes "0 \<le> a" and "a \<le> 3" and "0 \<le> q" and "q \<le> 24" and "0 \<le> c" and "c \<le> 3"
    and "x = a + 4 * q + 100 * c + 400 * n"
  shows "jan1 (2000 + x) = 365 * x + 10958 + (q + 97 * n + 24 * c - (if a = 0 \<and> (q \<noteq> 0 \<or> c = 0) then 1 else 0))"
  using march_parts [OF assms] jan1_march [of x] assms(7) by simp

text \<open>The century decision of the code, on the year of its 400-year cycle.\<close>

definition century :: "int \<Rightarrow> int \<times> int" where
  "century rem =
     (if rem \<ge> 200 then if rem \<ge> 300 then (3, rem - 300) else (2, rem - 200)
      else if rem \<ge> 100 then (1, rem - 100) else (0, rem))"

lemma century_spec:
  assumes "0 \<le> rem" and "rem < 400"
  obtains c r where "century rem = (c, r)" "rem = 100 * c + r" "0 \<le> c" "c \<le> 3" "0 \<le> r" "r < 100"
proof (cases "century rem")
  case (Pair c r)
  show thesis by (rule that [OF Pair]) (use Pair assms in \<open>auto simp: century_def split: if_splits\<close>)
qed

lemma year_to_secs_far:
  assumes "\<bar>year\<bar> \<le> 2 ^ 33" and "\<not> (2 \<le> year \<and> year \<le> 138)"
  shows "year_to_secs year = (86400 * jan1 (1900 + year), leap_year (1900 + year))"
proof -
  let ?x = "year - 100"
  define n where "n = ?x div 400"
  define m where "m = ?x mod 400"
  have m: "0 \<le> m" "m < 400" "?x = 400 * n + m" by (simp_all add: n_def m_def)
  obtain c r where c: "century m = (c, r)" "m = 100 * c + r" "0 \<le> c" "c \<le> 3" "0 \<le> r" "r < 100"
    by (rule century_spec [OF m(1,2)])
  define q where "q = r div 4"
  define a where "a = r mod 4"
  have q: "r = 4 * q + a" "0 \<le> a" "a \<le> 3" "0 \<le> q" "q \<le> 24" using c(5,6) by (auto simp: q_def a_def)
  have x: "?x = a + 4 * q + 100 * c + 400 * n" using m(3) c(2) q(1) by simp
  note j = jan1_parts [OF q(2-5) c(3,4) x] and l = march_parts(2) [OF q(2-5) c(3,4) x]
  have y: "2000 + ?x = 1900 + year" by simp
  have near: "\<not> (year - 2) mod 2 ^ 64 \<le> 136" using year_near [OF assms(1)] assms(2) by blast
  have "\<bar>?x\<bar> \<le> 400 * 25000000" using assms(1) by simp
  then have s1: "s32 (?x sdiv 400) = ?x sdiv 400"
    by (intro s32_id) (use sdiv_bound [of 400 ?x 25000000] in \<open>simp_all add: INT_MIN_def INT_MAX_def\<close>)
  have fix1: "(if ?x smod 400 < 0 then (?x sdiv 400 - 1, ?x smod 400 + 400) else (?x sdiv 400, ?x smod 400)) = (n, m)"
    using floor_fix [of 400 ?x "\<lambda>a b. (b, a)"] by (simp add: n_def m_def)
  have r: "r smod 4 = a" "r sdiv 4 = q" using c(5) by (simp_all add: sdiv_nonneg q_def a_def)
  have lp: "(if m = 0 then (True, 0, 0)
      else case century m of (centuries, rem) \<Rightarrow>
        if rem = 0 then (False, centuries, 0) else (rem smod 4 = 0, centuries, rem sdiv 4)) = (leap_year (2000 + ?x), c, q)"
    unfolding c(1) prod.case r l using c(2-6) q by auto
  have n: "- 22000000 \<le> n" "n \<le> 22000000" using assms(1) m by auto
  have s2: "s32 (q + 97 * n + 24 * c - (if b then 1 else 0)) = q + 97 * n + 24 * c - (if b then 1 else 0)" for b
    by (rule s32_id) (use n q(4,5) c(3,4) in \<open>simp_all add: INT_MIN_def INT_MAX_def\<close>)
  have "year_to_secs year =
      (?x * 31536000 + (q + 97 * n + 24 * c - (if leap_year (2000 + ?x) then 1 else 0)) * 86400 + 946684800 + 86400,
       leap_year (2000 + ?x))"
    unfolding year_to_secs_def if_not_P [OF near] Let_def s1 fix1 prod.case century_def [symmetric] lp s2 ..
  then show ?thesis unfolding j y [symmetric] l by simp
qed

lemma year_to_secs_spec:
  assumes "\<bar>year\<bar> \<le> 2 ^ 33"
  shows "year_to_secs year = (86400 * jan1 (1900 + year), leap_year (1900 + year))"
proof (cases "2 \<le> year \<and> year \<le> 138")
  case True
  note l = leaps_near [OF conjunct1 [OF True] conjunct2 [OF True]]
  have near: "(year - 2) mod 2 ^ 64 \<le> 136" using year_near [OF assms] True by blast
  have d: "(year - 68) div 4 = (year - 69) div 4 + (if (year - 68) mod 4 = 0 then 1 else 0)"
    using div_next [of 4 "year - 68"] by (simp add: dvd_eq_mod_eq_0)
  have "jan1 (1900 + year) = 365 * (year - 70) + (year - 69) div 4"
    using l(1) by (simp add: jan1_def add.commute)
  then show ?thesis
    unfolding year_to_secs_def if_P [OF near] Let_def drop_bit_eq_div take_bit_eq_mod l(2)
    using d by (simp add: split: if_splits)
next
  case False
  then show ?thesis by (rule year_to_secs_far [OF assms])
qed

lemma month_to_secs_spec:
  assumes "0 \<le> m" and "m < 12"
  shows "month_to_secs m l = 86400 * year_day l (nat m)"
proof -
  obtain k where k: "m = int k" "k < 12" using assms by (metis nonneg_int_cases of_nat_less_numeral_iff)
  consider "k = 0" | "k = 1" | "k = 2" | "k = 3" | "k = 4" | "k = 5" | "k = 6" | "k = 7" | "k = 8" | "k = 9"
    | "k = 10" | "k = 11" using k(2) by (simp add: numeral_eq_Suc less_Suc_eq) blast
  then show ?thesis unfolding k(1)
    by cases (simp_all add: month_to_secs_def year_day_def month_len_def lessThan_Suc numeral_eq_Suc)
qed

text \<open>The fields hold \<^verbatim>\<open>int\<close> values, and \<^verbatim>\<open>tm_mday-1\<close> does not overflow.\<close>

definition int_fields :: "tm \<Rightarrow> bool" where
  "int_fields tm \<longleftrightarrow>
     (\<forall>x \<in> {tm_sec tm, tm_min tm, tm_hour tm, tm_mday tm, tm_mon tm, tm_year tm}. INT_MIN \<le> x \<and> x \<le> INT_MAX) \<and>
     tm_mday tm \<noteq> INT_MIN"

lemma mday_narrow: "int_fields tm \<Longrightarrow> s32 (tm_mday tm - 1) = tm_mday tm - 1"
  by (rule s32_id) (auto simp: int_fields_def)

lemma tm_to_secs_spec:
  assumes "int_fields tm"
  defines "y \<equiv> 1900 + tm_year tm + tm_mon tm div 12"
  shows "tm_to_secs tm =
    86400 * (jan1 y + year_day (leap_year y) (nat (tm_mon tm mod 12)) + tm_mday tm - 1) + day_secs tm"
proof -
  have norm: "(if tm_mon tm \<ge> 12 \<or> tm_mon tm < 0 then
        let adj = tm_mon tm sdiv 12; month = tm_mon tm smod 12;
            (adj, month) = (if month < 0 then (adj - 1, month + 12) else (adj, month))
        in (tm_year tm + adj, month)
      else (tm_year tm, tm_mon tm)) = (tm_year tm + tm_mon tm div 12, tm_mon tm mod 12)"
  proof (cases "tm_mon tm \<ge> 12 \<or> tm_mon tm < 0")
    case True
    have "(if tm_mon tm smod 12 < 0 then (tm_mon tm sdiv 12 - 1, tm_mon tm smod 12 + 12)
        else (tm_mon tm sdiv 12, tm_mon tm smod 12)) = (tm_mon tm div 12, tm_mon tm mod 12)"
      using floor_fix [of 12 "tm_mon tm" "\<lambda>a b. (b, a)"] by simp
    then show ?thesis using True by (simp only: Let_def prod.case if_True)
  next
    case False
    then show ?thesis by simp
  qed
  let ?Y = "tm_year tm + tm_mon tm div 12"
  have "- 200000000 \<le> tm_mon tm div 12" "tm_mon tm div 12 \<le> 200000000"
    using assms(1) zdiv_mono1 [of "tm_mon tm" 2400000000 12] zdiv_mono1 [of "- 2400000000" "tm_mon tm" 12]
    by (simp_all add: int_fields_def INT_MIN_def INT_MAX_def)
  then have "\<bar>?Y\<bar> \<le> 2 ^ 33" using assms(1) unfolding int_fields_def INT_MIN_def INT_MAX_def by (auto simp: abs_le_iff)
  note ys = year_to_secs_spec [OF this]
  have y: "1900 + ?Y = y" by (simp add: y_def)
  show ?thesis
    unfolding tm_to_secs_def norm [unfolded Let_def] Let_def prod.case ys y
    using month_to_secs_spec [of "tm_mon tm mod 12" "leap_year y"] mday_narrow [OF assms(1)]
    by (simp add: day_secs_def algebra_simps)
qed

lemma secs_to_tm_iff:
  "secs_to_tm t = Some tm \<longleftrightarrow> calendar t tm \<and> INT_MIN \<le> tm_year tm \<and> tm_year tm \<le> INT_MAX"
proof (cases "INT_MIN * 31622400 \<le> t \<and> t \<le> INT_MAX * 31622400")
  case True
  then obtain tm' where c: "calendar t tm'"
    "secs_to_tm t = (if INT_MIN \<le> tm_year tm' \<and> tm_year tm' \<le> INT_MAX then Some tm' else None)"
    using secs_to_tm_core [of t] by blast
  have "calendar t tm \<longleftrightarrow> tm = tm'" using calendar_unique [OF c(1)] c(1) by metis
  moreover have "secs_to_tm t = Some tm \<longleftrightarrow> tm = tm' \<and> INT_MIN \<le> tm_year tm' \<and> tm_year tm' \<le> INT_MAX"
    unfolding c(2) by (cases "tm = tm'") simp_all
  ultimately show ?thesis by metis
next
  case False
  then have "secs_to_tm t = None" unfolding secs_to_tm_def by (simp only: not_le [symmetric]) auto
  moreover have "\<not> (calendar t tm \<and> INT_MIN \<le> tm_year tm \<and> tm_year tm \<le> INT_MAX)"
    using calendar_range False by blast
  ultimately show ?thesis by simp
qed

lemma tm_to_secs_calendar:
  assumes "calendar t tm" and "INT_MIN \<le> tm_year tm" and "tm_year tm \<le> INT_MAX"
  shows "tm_to_secs tm = t"
proof -
  have m: "0 \<le> tm_mon tm" "tm_mon tm < 12"
    and h: "0 \<le> tm_hour tm" "tm_hour tm < 24"
    and t: "t = 86400 * (jan1 (1900 + tm_year tm) + tm_yday tm) + day_secs tm"
    using assms(1) unfolding calendar_def Let_def by blast+
  have "tm_mday tm \<le> 31"
    using calendarD(3) [OF assms(1)] month_len_bounds(2) by (rule order_trans)
  then have i: "int_fields tm"
    using assms(2,3) m h calendarD(2,6-9) [OF assms(1)] by (simp add: int_fields_def INT_MIN_def INT_MAX_def)
  have d: "tm_mon tm div 12 = 0" "tm_mon tm mod 12 = tm_mon tm" using m by simp_all
  show ?thesis using tm_to_secs_spec [OF i] calendarD(4) [OF assms(1)] unfolding d t by simp
qed

section \<open>ISO weeks\<close>

text \<open>The ISO 8601 week of a day: a week belongs to the year of its Thursday.  \<open>wday\<close> counts from
  Sunday, \<open>yday\<close> from the first of January; \<open>prev\<close> and \<open>len\<close> are the lengths of the last year and this one.\<close>

definition year_len :: "int \<Rightarrow> int" where
  "year_len y = (if leap_year y then 366 else 365)"

definition iso_week :: "int \<Rightarrow> int \<Rightarrow> int \<Rightarrow> int \<Rightarrow> int" where
  "iso_week prev len wday yday =
     (let thursday = yday - (wday + 6) mod 7 + 3
      in if thursday < 0 then (thursday + prev) div 7 + 1
         else if thursday < len then thursday div 7 + 1 else (thursday - len) div 7 + 1)"

lemma smod_zero: "0 < k \<Longrightarrow> x smod k = 0 \<longleftrightarrow> k dvd (x :: int)"
  by (cases "x < 0") (simp_all add: sdiv_neg sdiv_nonneg flip: dvd_eq_mod_eq_0)

lemma leap_year_shift: "400 dvd k \<Longrightarrow> leap_year (k + y) \<longleftrightarrow> leap_year y"
proof -
  assume k: "400 dvd k"
  have "n dvd k + y \<longleftrightarrow> n dvd y" if "n dvd 400" for n using k that by (meson dvd_add_right_iff dvd_trans)
  then show ?thesis by (simp add: leap_year_def)
qed

lemma is_leap_spec: "is_leap y \<longleftrightarrow> leap_year (1900 + y)"
  using leap_year_shift [of 2000 "y - 100"] by (simp add: is_leap_def smod_zero leap_year_def add.commute Let_def)

lemma week_sevenths:
  "(7 * q + a) div 7 = q + a div 7" "(7 * q - a) div 7 = q + (- a) div (7 :: int)"
  "(a - 7 * q) mod 7 = a mod 7" "(7 * q + a) mod 7 = a mod (7 :: int)"
  using div_mult_self4 [of 7 q a] div_mult_self4 [of 7 q "- a"] mod_mult_self2 [of a 7 "- q"] by simp_all

text \<open>The code's corrections, without the unsigned arithmetic.\<close>

lemma week_cases:
  assumes "0 \<le> w" and "w < (7 :: int)" and "0 \<le> d" and "d < (if l then 366 else 365)"
  defines "v \<equiv> (d + 7 - (w + 6) mod 7) div 7 + (if (w + 371 - d - 2) mod 7 \<le> 2 then 1 else 0)"
  shows "(if v = 0 then if (w + 7 - d - 1) mod 7 = 4 \<or> (w + 7 - d - 1) mod 7 = 5 \<and> p then 53 else 52
     else if v = 53 then if (w + 371 - d) mod 7 \<noteq> 4 \<and> ((w + 371 - d) mod 7 \<noteq> 3 \<or> \<not> l) then 1 else v else v) =
    iso_week (if p then 366 else 365) (if l then 366 else 365) w d"
proof -
  define q r where "q = d div 7" "r = d mod 7"
  then have d: "d = 7 * q + r" "0 \<le> r" "r < 7" by simp_all
  have "w \<in> {0, 1, 2, 3, 4, 5, 6}" "r \<in> {0, 1, 2, 3, 4, 5, 6}" using assms(1,2) d by auto
  then show ?thesis
    using assms(3,4) unfolding v_def iso_week_def d(1) Let_def
    by (elim insertE emptyE; simp add: week_sevenths split del: if_split; simp add: week_sevenths split: if_splits; presburger?)
qed

section \<open>Properties\<close>

text \<open>
  C21.  \<open>gmtime_r\<close> computes the proleptic Gregorian calendar: for every second count, negative ones
  included, it returns the calendar time (date, clock, day of the week and day of the year), and it
  fails exactly when the year does not fit an \<^verbatim>\<open>int\<close>.
\<close>

theorem gmtime_calendar:
  "gmtime_r t = Some tm \<longleftrightarrow> calendar t tm \<and> INT_MIN \<le> tm_year tm \<and> tm_year tm \<le> INT_MAX"
  unfolding gmtime_r_def by (rule secs_to_tm_iff)

text \<open>
  C22.  \<open>timegm\<close> after \<open>gmtime_r\<close> gives back the second count and leaves the calendar time unchanged:
  the two conversions, with their different cycle arithmetic, are inverse to each other.
\<close>

theorem timegm_gmtime:
  assumes "gmtime_r t = Some tm"
  shows "timegm tm = Some (t, tm)"
proof -
  have c: "calendar t tm" "INT_MIN \<le> tm_year tm" "tm_year tm \<le> INT_MAX"
    using assms unfolding gmtime_r_def secs_to_tm_iff by blast+
  have "secs_to_tm t = Some tm" using assms by (simp add: gmtime_r_def)
  then show ?thesis by (simp add: timegm_def tm_to_secs_calendar [OF c])
qed

text \<open>
  C23.  \<open>timegm\<close> normalises: whatever \<^verbatim>\<open>int\<close> values the fields hold, a \<^verbatim>\<open>tm_mday\<close> of \<^verbatim>\<open>INT_MIN\<close>
  excepted (there \<^verbatim>\<open>tm_mday-1\<close> overflows), the second count is that of the
  date obtained by carrying months into years, days, hours, minutes and seconds being counted on
  from the first of that month, and on success the structure is rewritten to its calendar time.
\<close>

theorem timegm_normalises:
  assumes "int_fields tm"
  shows "timegm tm = Some (t, new) \<longleftrightarrow>
    t = 86400 * (jan1 (1900 + tm_year tm + tm_mon tm div 12) +
          year_day (leap_year (1900 + tm_year tm + tm_mon tm div 12)) (nat (tm_mon tm mod 12)) + tm_mday tm - 1) + day_secs tm \<and>
    calendar t new \<and> INT_MIN \<le> tm_year new \<and> tm_year new \<le> INT_MAX"
  unfolding tm_to_secs_spec [OF assms, symmetric] secs_to_tm_iff [symmetric]
  by (auto simp: timegm_def Let_def split: option.splits)

definition y2k_leap_day :: tm where
  "y2k_leap_day = \<lparr> tm_sec = 59, tm_min = 59, tm_hour = 23, tm_mday = 29, tm_mon = 1, tm_year = 100,
     tm_wday = 2, tm_yday = 59 \<rparr>"

lemma y2k_calendar: "calendar 951868799 y2k_leap_day"
  unfolding calendar_def y2k_leap_day_def Let_def day_secs_def
  by (simp add: leap_year_def month_len_def year_day_def jan1_def leaps_def)

theorem timegm_gmtime_witness: "timegm y2k_leap_day = Some (951868799, y2k_leap_day)"
proof (rule timegm_gmtime)
  show "gmtime_r 951868799 = Some y2k_leap_day"
    using y2k_calendar by (simp add: gmtime_r_def secs_to_tm_iff y2k_leap_day_def INT_MIN_def INT_MAX_def)
qed

theorem timegm_normalises_witness:
  "timegm (y2k_leap_day\<lparr>tm_mon := 13, tm_year := 99, tm_mday := 28, tm_hour := 47\<rparr>) = Some (951868799, y2k_leap_day)"
proof -
  let ?tm = "y2k_leap_day\<lparr>tm_mon := 13, tm_year := 99, tm_mday := 28, tm_hour := 47\<rparr>"
  have "int_fields ?tm" by (simp add: int_fields_def y2k_leap_day_def INT_MIN_def INT_MAX_def)
  from timegm_normalises [OF this, of 951868799 y2k_leap_day] y2k_calendar show ?thesis
    by (simp add: y2k_leap_day_def INT_MIN_def INT_MAX_def jan1_def leaps_def leap_year_def year_day_def month_len_def day_secs_def)
qed

text \<open>
  C24.  \<open>week_num\<close>, the week number of \<open>strftime\<close>'s \<^verbatim>\<open>%V\<close>, is the ISO 8601 week: the days around new year
  are counted in the week of their Thursday, in the last year, this one or the next.
\<close>

theorem week_num_iso:
  assumes "0 \<le> tm_wday tm" and "tm_wday tm < 7" and "0 \<le> tm_yday tm" and "tm_yday tm < year_len (1900 + tm_year tm)"
  shows "week_num tm = iso_week (year_len (1899 + tm_year tm)) (year_len (1900 + tm_year tm)) (tm_wday tm) (tm_yday tm)"
proof -
  let ?w = "tm_wday tm" and ?d = "tm_yday tm"
  let ?v = "(?d + 7 - (?w + 6) mod 7) div 7 + (if (?w + 371 - ?d - 2) mod 7 \<le> 2 then 1 else 0)"
  have d: "?d < 366" "?d < (if leap_year (1900 + tm_year tm) then 366 else 365)"
    using assms(4) by (auto simp: year_len_def split: if_splits)
  have w: "0 \<le> (?w + 6) mod 7" "(?w + 6) mod 7 < 7" by simp_all
  have u: "x mod 2 ^ 32 = x" if "0 \<le> x" "x < 400" for x :: int using that by simp
  have us: "(?w + 6) mod 2 ^ 32 = ?w + 6" "(?d + 7 - (?w + 6) mod 7) mod 2 ^ 32 = ?d + 7 - (?w + 6) mod 7"
    "(?w + 371 - ?d - 2) mod 2 ^ 32 = ?w + 371 - ?d - 2" "(?w + 371 - ?d) mod 2 ^ 32 = ?w + 371 - ?d"
    by (rule u; use assms(1-3) d(1) w in linarith)+
  have dec31: "?v = 0 \<Longrightarrow> (?w + 7 - ?d - 1) mod 2 ^ 32 = ?w + 7 - ?d - 1"
  proof -
    assume "?v = 0"
    moreover have "0 \<le> (?d + 7 - (?w + 6) mod 7) div 7" using assms(3) w by (simp add: pos_imp_zdiv_nonneg_iff)
    ultimately have "(?d + 7 - (?w + 6) mod 7) div 7 = 0" by (simp split: if_splits)
    then have "?d < (?w + 6) mod 7" using assms(3) w by (simp add: zdiv_eq_0_iff)
    moreover have "(?w + 6) mod 7 \<le> ?w + 6" using assms(1) by (simp add: zmod_le_nonneg_dividend)
    ultimately show ?thesis by (intro u) (use assms(1-3) in linarith)+
  qed
  have prev: "leap_year (1900 + (tm_year tm smod 400 - 1)) \<longleftrightarrow> leap_year (1899 + tm_year tm)"
  proof -
    have "tm_year tm = 400 * (tm_year tm sdiv 400) + tm_year tm smod 400"
      by (simp add: mult_sdiv_smod_eq)
    then have "1899 + tm_year tm = 400 * (tm_year tm sdiv 400) + (1900 + (tm_year tm smod 400 - 1))" by simp
    then show ?thesis using leap_year_shift by (metis dvd_triv_left)
  qed
  have val: "(if b then x + 1 else x) = x + (if b then 1 else 0)" for b and x :: int by simp
  have "week_num tm =
     (if ?v = 0 then if (?w + 7 - ?d - 1) mod 7 = 4 \<or> (?w + 7 - ?d - 1) mod 7 = 5 \<and> leap_year (1899 + tm_year tm) then 53 else 52
      else if ?v = 53 then if (?w + 371 - ?d) mod 7 \<noteq> 4 \<and> ((?w + 371 - ?d) mod 7 \<noteq> 3 \<or> \<not> leap_year (1900 + tm_year tm)) then 1 else ?v
      else ?v)"
    unfolding week_num_def Let_def us val is_leap_spec prev using dec31 by (cases "?v = 0") (simp_all only: if_True if_False)
  then show ?thesis
    unfolding year_len_def week_cases [OF assms(1-3) d(2)] .
qed

theorem week_num_iso_witness: "week_num (y2k_leap_day\<lparr>tm_yday := 0, tm_wday := 6\<rparr>) = 52"
  using week_num_iso [of "y2k_leap_day\<lparr>tm_yday := 0, tm_wday := 6\<rparr>"]
  by (simp add: y2k_leap_day_def year_len_def leap_year_def iso_week_def)

end
