(* ===== verification/Musl_Tz.thy ===== *)
theory Musl_Tz
  imports Musl_Time Musl_Intscan
begin

text \<open>
  Time zones of musl, \<^verbatim>\<open>time/__tz.c\<close>, with \<^verbatim>\<open>localtime_r.c\<close> and \<^verbatim>\<open>mktime.c\<close>.

  The POSIX form of \<^verbatim>\<open>TZ\<close> is parsed from a byte list; its end is the terminator, and a step of the
  read position beyond it is the value \<open>None\<close>.  A zone is the record the parser fills in; the
  zoneinfo files \<^verbatim>\<open>__secs_to_zone\<close> looks at first are not part of the model (the pointer \<^verbatim>\<open>zi\<close> is
  null).  The two loops that look for the year of a time are partial functions, shown to return.
\<close>

section \<open>Parsing TZ\<close>

definition TZNAME_MAX :: nat where "TZNAME_MAX = 6"

fun getint_loop :: "u32 \<Rightarrow> byte list \<Rightarrow> u32 \<times> byte list" where
  "getint_loop x [] = (x, [])"
| "getint_loop x (c # s) = (if isdigit c then getint_loop (ucast c - 48 + 10 * x) s else (x, c # s))"

definition getint :: "byte list \<Rightarrow> int \<times> byte list" where
  "getint s = (let (x, s) = getint_loop 0 s in (sint x, s))"

definition getoff :: "byte list \<Rightarrow> int \<times> byte list" where
  "getoff s =
     (let (neg, s) = (if cur s = 45 then (True, tl s) else if cur s = 43 then (False, tl s) else (False, s));
          (h, s) = getint s;
          off = s32 (3600 * h);
          (off, s) =
            (if cur s = 58 then
               let (m, s) = getint (tl s); off = s32 (off + 60 * m) in
               if cur s = 58 then let (x, s) = getint (tl s) in (s32 (off + x), s) else (off, s)
             else (off, s))
      in (if neg then s32 (- off) else off, s))"

text \<open>\<^verbatim>\<open>++*p\<close>: past the terminator it is a fault.\<close>

definition skip :: "byte list \<Rightarrow> byte list option" where
  "skip s = (case s of [] \<Rightarrow> None | c # s \<Rightarrow> Some s)"

record tzrule =
  rule0 :: int
  rule1 :: int
  rule2 :: int
  rule3 :: int
  rule4 :: int

definition getrule :: "byte list \<Rightarrow> tzrule \<Rightarrow> (tzrule \<times> byte list) option" where
  "getrule s rule =
     (let r = uint (cur s); rule = rule\<lparr>rule0 := r\<rparr> in
      do { (rule, s) \<leftarrow>
             (if r \<noteq> 77 then
                do { (rule, s) \<leftarrow> (if r = 74 then do { s \<leftarrow> skip s; Some (rule, s) } else Some (rule\<lparr>rule0 := 0\<rparr>, s));
                     let (x, s) = getint s in Some (rule\<lparr>rule1 := x\<rparr>, s) }
              else
                do { s \<leftarrow> skip s;
                     let (x1, s) = getint s in do {
                     s \<leftarrow> skip s;
                     let (x2, s) = getint s in do {
                     s \<leftarrow> skip s;
                     let (x3, s) = getint s in Some (rule\<lparr>rule1 := x1, rule2 := x2, rule3 := x3\<rparr>, s) }}});
           if cur s = 47 then do { s \<leftarrow> skip s; let (x, s) = getoff s in Some (rule\<lparr>rule4 := x\<rparr>, s) }
           else Some (rule\<lparr>rule4 := 7200\<rparr>, s) })"

definition isletter :: "byte \<Rightarrow> bool" where
  "isletter c \<longleftrightarrow> (c OR 32) - 97 < 26"

definition getname :: "byte list \<Rightarrow> byte list \<times> byte list" where
  "getname s =
     (if cur s = 60 then
        let w = takeWhile (\<lambda>c. c \<noteq> 62) (tl s); rest = dropWhile (\<lambda>c. c \<noteq> 62) (tl s)
        in (take TZNAME_MAX w, tl rest)
      else (take TZNAME_MAX (takeWhile isletter s), dropWhile isletter s))"

record zone =
  std_name :: "byte list"
  dst_name :: "byte list"
  tz_timezone :: int
  tz_daylight :: bool
  dst_off :: int
  r0 :: tzrule
  r1 :: tzrule

definition no_rule :: tzrule where
  "no_rule = \<lparr> rule0 = 0, rule1 = 0, rule2 = 0, rule3 = 0, rule4 = 0 \<rparr>"

definition do_tzset :: "byte list \<Rightarrow> zone option" where
  "do_tzset s =
     (let (std, s) = getname s;
          (tz, s) = getoff s;
          (dst, s) = getname s;
          (daylight, off, s) =
            (if dst \<noteq> [] then
               if cur s = 43 \<or> cur s = 45 \<or> isdigit (cur s) then let (x, s) = getoff s in (True, x, s)
               else (True, s32 (tz - 3600), s)
             else (False, tz, s))
      in do { (a, s) \<leftarrow> (if cur s = 44 then getrule (tl s) no_rule else Some (no_rule, s));
              (b, s) \<leftarrow> (if cur s = 44 then getrule (tl s) no_rule else Some (no_rule, s));
              Some \<lparr> std_name = std, dst_name = dst, tz_timezone = tz, tz_daylight = daylight, dst_off = off,
                r0 = a, r1 = b \<rparr> })"

section \<open>Rules to seconds\<close>

definition days_in_month :: "int \<Rightarrow> bool \<Rightarrow> int" where
  "days_in_month m leap =
     (if m = 2 then 28 + (if leap then 1 else 0) else 30 + take_bit 1 (drop_bit (nat (m - 1)) 0xad5))"

text \<open>The year is an \<^verbatim>\<open>int\<close> parameter.  A month outside the table of \<^verbatim>\<open>__month_to_secs\<close> is a fault.\<close>

definition rule_to_secs :: "tzrule \<Rightarrow> int \<Rightarrow> int option" where
  "rule_to_secs rule year =
     (let (t, leap) = year_to_secs (s32 year) in
      do { t \<leftarrow>
             (if rule0 rule \<noteq> 77 then
                let x = rule1 rule;
                    x = (if rule0 rule = 74 \<and> (x < 60 \<or> \<not> leap) then s32 (x - 1) else x)
                in Some (t + s32 (86400 * x))
              else
                let m = rule1 rule; n = rule2 rule; d = rule3 rule in
                if m < 1 \<or> m > 12 then None
                else
                  let t = t + month_to_secs (m - 1) leap;
                      wday = s32 ((t + 4 * 86400) smod (7 * 86400)) sdiv 86400;
                      days = s32 (d - wday);
                      days = (if days < 0 then days + 7 else days);
                      n = (if n = 5 \<and> s32 (days + 28) \<ge> days_in_month m leap then 4 else n)
                  in Some (t + s32 (86400 * (days + 7 * (n - 1)))));
           Some (t + rule4 rule) })"

section \<open>The zone in effect\<close>

partial_function (option) year_down :: "int \<Rightarrow> int \<Rightarrow> int option" where
  "year_down t y = (if fst (year_to_secs y) > t then year_down t (y - 1) else Some y)"

partial_function (option) year_up :: "int \<Rightarrow> int \<Rightarrow> int option" where
  "year_up t y = (if fst (year_to_secs (y + 1)) < t then year_up t (y + 1) else Some y)"

declare year_down.simps [code] year_up.simps [code]

record zoneinfo =
  isdst :: int
  offset :: int
  oppoff :: int
  zonename :: "byte list"

definition zone_std :: "zone \<Rightarrow> zoneinfo" where
  "zone_std z = \<lparr> isdst = 0, offset = - tz_timezone z, oppoff = s32 (- dst_off z), zonename = std_name z \<rparr>"

definition zone_dst :: "zone \<Rightarrow> zoneinfo" where
  "zone_dst z = \<lparr> isdst = 1, offset = s32 (- dst_off z), oppoff = - tz_timezone z, zonename = dst_name z \<rparr>"

definition secs_to_zone :: "zone \<Rightarrow> int \<Rightarrow> bool \<Rightarrow> zoneinfo option" where
  "secs_to_zone z t local =
     (if \<not> tz_daylight z then Some (zone_std z)
      else do {
        y \<leftarrow> year_down t (t sdiv 31556952 + 70);
        y \<leftarrow> year_up t y;
        t0 \<leftarrow> rule_to_secs (r0 z) y;
        t1 \<leftarrow> rule_to_secs (r1 z) y;
        let (t0, t1) = (if \<not> local then (t0 + tz_timezone z, t1 + dst_off z) else (t0, t1))
        in if t0 < t1 then if t \<ge> t0 \<and> t < t1 then Some (zone_dst z) else Some (zone_std z)
           else if t \<ge> t1 \<and> t < t0 then Some (zone_std z) else Some (zone_dst z) })"

section \<open>Local time\<close>

text \<open>A local calendar time: the calendar fields, the daylight flag and the zone's offset.\<close>

definition localtime_r :: "zone \<Rightarrow> int \<Rightarrow> (tm \<times> int \<times> int) option" where
  "localtime_r z t =
     (if t < INT_MIN * 31622400 \<or> t > INT_MAX * 31622400 then None
      else do { i \<leftarrow> secs_to_zone z t False;
                tm \<leftarrow> secs_to_tm (t + offset i);
                Some (tm, isdst i, offset i) })"

definition mktime :: "zone \<Rightarrow> tm \<Rightarrow> int \<Rightarrow> (int \<times> tm \<times> int \<times> int) option" where
  "mktime z tm dst =
     (let t = tm_to_secs tm in
      do { i \<leftarrow> secs_to_zone z t True;
           let t = (if dst \<ge> 0 \<and> isdst i \<noteq> dst then t - (oppoff i - offset i) else t);
               t = t - offset i
           in do { i \<leftarrow> secs_to_zone z t False;
                   new \<leftarrow> secs_to_tm (t + offset i);
                   Some (t, new, isdst i, offset i) } })"

section \<open>The year of a time\<close>

lemma year_down_returns:
  assumes "lo \<le> y" and "- (2 ^ 33) \<le> lo" and "y \<le> 2 ^ 33" and "86400 * jan1 (1900 + lo) \<le> t"
  shows "\<exists>y'. year_down t y = Some y' \<and> lo \<le> y' \<and> y' \<le> y"
  using assms(1,3)
proof (induction y rule: int_ge_induct)
  case base
  then show ?case using assms(2,4) by (subst year_down.simps) (simp add: year_to_secs_spec)
next
  case (step y)
  have y: "\<bar>y + 1\<bar> \<le> 2 ^ 33" using step assms(2) by simp
  show ?case using step.IH step.hyps step.prems by (subst year_down.simps) (auto simp: year_to_secs_spec [OF y])
qed

lemma year_up_returns:
  assumes "y \<le> hi" and "hi < 2 ^ 33" and "- (2 ^ 33) \<le> y" and "t \<le> 86400 * jan1 (1900 + (hi + 1))"
  shows "\<exists>y'. year_up t y = Some y' \<and> y \<le> y' \<and> y' \<le> hi"
  using assms(1,3)
proof (induction y rule: int_le_induct)
  case base
  then have "\<bar>hi + 1\<bar> \<le> 2 ^ 33" using assms(2) by simp
  then show ?case using assms(4) by (subst year_up.simps) (simp add: year_to_secs_spec)
next
  case (step y)
  have y: "\<bar>y\<bar> \<le> 2 ^ 33" using step assms(2) by simp
  show ?case using step.IH step.hyps step.prems by (subst year_up.simps) (auto simp: year_to_secs_spec [OF y])
qed

definition zone_time :: "int \<Rightarrow> bool" where
  "zone_time t \<longleftrightarrow> \<bar>t\<bar> \<le> 70000000000000000"

lemma year_bounds:
  "86400 * jan1 (1900 + - (2 ^ 32)) \<le> - 70000000000000000" "70000000000000000 \<le> 86400 * jan1 (1900 + (2 ^ 32 + 1))"
  by (simp_all add: jan1_def leaps_def)

lemma year_search:
  assumes "zone_time t"
  obtains y y' where "year_down t (t sdiv 31556952 + 70) = Some y" "year_up t y = Some y'" "\<bar>y'\<bar> \<le> 2 ^ 32"
proof -
  let ?y = "t sdiv 31556952 + 70"
  have "- 3000000000 \<le> t sdiv 31556952" "t sdiv 31556952 \<le> 3000000000"
    using sdiv_bound [of 31556952 t 3000000000] assms by (simp_all add: zone_time_def)
  then have y: "- (2 ^ 32) \<le> ?y" "?y \<le> 2 ^ 32" by simp_all
  have t: "86400 * jan1 (1900 + - (2 ^ 32)) \<le> t" "t \<le> 86400 * jan1 (1900 + (2 ^ 32 + 1))"
    using year_bounds assms unfolding zone_time_def by linarith+
  obtain y0 where d: "year_down t ?y = Some y0" "- (2 ^ 32) \<le> y0" "y0 \<le> ?y"
    using year_down_returns [OF y(1) _ _ t(1)] y(2) by auto
  moreover obtain y1 where "year_up t y0 = Some y1" "y0 \<le> y1" "y1 \<le> 2 ^ 32"
    using year_up_returns [of y0 "2 ^ 32" t] d y(2) t(2) by auto
  ultimately show thesis using that [of y0 y1] by (simp add: abs_le_iff)
qed

text \<open>Whether a rule's month lies in the table does not depend on the year.\<close>

definition rule_ok :: "tzrule \<Rightarrow> bool" where
  "rule_ok r \<longleftrightarrow> rule0 r = 77 \<longrightarrow> 1 \<le> rule1 r \<and> rule1 r \<le> 12"

lemma rule_to_secs_returns: "rule_ok r \<longleftrightarrow> (\<exists>t. rule_to_secs r y = Some t)"
  by (auto simp: rule_to_secs_def rule_ok_def Let_def split: prod.split)

lemma secs_to_zone_rules:
  assumes "secs_to_zone z t loc = Some i" and "tz_daylight z"
  shows "rule_ok (r0 z) \<and> rule_ok (r1 z)"
  using assms rule_to_secs_returns by (auto simp: secs_to_zone_def bind_eq_Some_conv)

lemma secs_to_zone_returns:
  assumes "zone_time t" and "tz_daylight z \<Longrightarrow> rule_ok (r0 z) \<and> rule_ok (r1 z)"
  obtains i where "secs_to_zone z t loc = Some i" "i = zone_std z \<or> tz_daylight z \<and> i = zone_dst z"
proof (cases "tz_daylight z")
  case True
  obtain y y' where "year_down t (t sdiv 31556952 + 70) = Some y" "year_up t y = Some y'"
    using year_search [OF assms(1)] by blast
  moreover obtain t0 t1 where "rule_to_secs (r0 z) y' = Some t0" "rule_to_secs (r1 z) y' = Some t1"
    using assms(2) [OF True] rule_to_secs_returns by blast
  ultimately have "\<exists>i. secs_to_zone z t loc = Some i \<and> (i = zone_std z \<or> i = zone_dst z)"
    using True by (simp add: secs_to_zone_def Let_def split: prod.split)
  then show thesis using that True by blast
qed (use that in \<open>simp add: secs_to_zone_def\<close>)

section \<open>The day of a rule\<close>

lemma days_in_month_spec:
  assumes "1 \<le> m" and "m \<le> 12"
  shows "days_in_month m l = month_len l (nat (m - 1))"
proof -
  obtain k where k: "m = int k + 1" "k < 12" using assms that [of "nat (m - 1)"] by auto
  consider "k = 0" | "k = 1" | "k = 2" | "k = 3" | "k = 4" | "k = 5" | "k = 6" | "k = 7" | "k = 8" | "k = 9"
    | "k = 10" | "k = 11" using k(2) by (simp add: numeral_eq_Suc less_Suc_eq) blast
  then show ?thesis unfolding k(1)
    by cases (simp_all add: days_in_month_def month_len_def drop_bit_eq_div take_bit_eq_mod)
qed

text \<open>\<open>D\<close> is the \<open>n\<close>-th weekday \<open>d\<close> of a month that begins on day \<open>F\<close> and has \<open>len\<close> days; \<open>n\<close> = 5 is the last.\<close>

definition nth_weekday :: "int \<Rightarrow> int \<Rightarrow> int \<Rightarrow> int \<Rightarrow> int \<Rightarrow> bool" where
  "nth_weekday F len n d D \<longleftrightarrow>
     (4 + D) mod 7 = d \<and> F \<le> D \<and> D < F + len \<and>
     (if n < 5 then F + 7 * (n - 1) \<le> D \<and> D < F + 7 * n else F + len \<le> D + 7)"

lemma wday_code:
  assumes "0 \<le> F"
  shows "((86400 * F + 4 * 86400) smod (7 * 86400)) sdiv 86400 = (4 + F) mod (7 :: int)"
proof -
  have e: "86400 * F + 4 * 86400 = 86400 * (4 + F)" by simp
  have s: "(86400 * (4 + F)) smod (7 * 86400) = 86400 * ((4 + F) mod 7)"
    using assms by (simp add: sdiv_nonneg mult_mod_right)
  have "(86400 * ((4 + F) mod 7)) sdiv 86400 = (86400 * ((4 + F) mod 7)) div 86400" by (simp add: sdiv_nonneg)
  then show ?thesis unfolding e s by simp
qed

lemma s32_range: "\<bar>s32 x\<bar> \<le> 2 ^ 31"
  using pos_mod_bound [of "0x100000000" "x + 0x80000000"] pos_mod_sign [of "0x100000000" "x + 0x80000000"]
  unfolding s32_def by (simp add: abs_le_iff)

lemma wday_narrow: "s32 (x smod (7 * 86400)) = x smod (7 * 86400)"
  by (rule s32_id) (cases "x < 0"; simp add: sdiv_neg sdiv_nonneg INT_MIN_def INT_MAX_def)+

lemma weekday_choice:
  fixes F :: int
  assumes "0 \<le> d" and "d < 7" and "1 \<le> n" and "n \<le> 5" and "28 \<le> len" and "len \<le> 31"
  defines "k \<equiv> (if d - (4 + F) mod 7 < 0 then d - (4 + F) mod 7 + 7 else d - (4 + F) mod 7)"
  shows "nth_weekday F len n d (F + (k + 7 * ((if n = 5 \<and> k + 28 \<ge> len then 4 else n) - 1)))"
proof -
  have w: "0 \<le> (4 + F) mod 7" "(4 + F) mod 7 < 7" by simp_all
  have k: "0 \<le> k" "k < 7" using w assms(1,2) by (auto simp: k_def)
  have kd: "(4 + F + k) mod 7 = d"
  proof -
    have "(4 + F + k) mod 7 = ((4 + F) mod 7 + k) mod 7" by (simp add: mod_add_left_eq)
    also have "\<dots> = d mod 7" by (auto simp: k_def)
    finally show ?thesis using assms(1,2) by simp
  qed
  have wk: "(4 + (F + (k + 7 * j))) mod 7 = d" for j
  proof -
    have "4 + (F + (k + 7 * j)) = 4 + F + k + 7 * j" by simp
    then show ?thesis using kd by (metis mod_mult_self2)
  qed
  show ?thesis using k assms(3-6) unfolding nth_weekday_def wk by auto
qed

section \<open>Properties\<close>

text \<open>
  A rule \<^verbatim>\<open>Mm.n.d\<close> names the right day: from 1970 on, \<open>rule_to_secs\<close> returns the rule's time of
  day on the \<open>n\<close>-th weekday \<open>d\<close> of month \<open>m\<close> of the year (the last one for \<open>n\<close> = 5).
\<close>

theorem rule_to_secs_weekday:
  assumes "70 \<le> y" and "y \<le> INT_MAX" and "rule0 r = 77" and "1 \<le> rule1 r" and "rule1 r \<le> 12"
    and "1 \<le> rule2 r" and "rule2 r \<le> 5" and "0 \<le> rule3 r" and "rule3 r < 7"
  shows "\<exists>D. rule_to_secs r y = Some (86400 * D + rule4 r) \<and>
    nth_weekday (jan1 (1900 + y) + year_day (leap_year (1900 + y)) (nat (rule1 r - 1)))
      (month_len (leap_year (1900 + y)) (nat (rule1 r - 1))) (rule2 r) (rule3 r) D"
proof -
  let ?l = "leap_year (1900 + y)"
  let ?m = "nat (rule1 r - 1)"
  let ?F = "jan1 (1900 + y) + year_day ?l ?m"
  have sy: "s32 y = y" by (rule s32_id) (use assms(1,2) in \<open>simp_all add: INT_MIN_def\<close>)
  have ys: "year_to_secs y = (86400 * jan1 (1900 + y), ?l)"
    by (rule year_to_secs_spec) (use assms(1,2) in \<open>simp add: INT_MAX_def\<close>)
  have ms: "month_to_secs (rule1 r - 1) ?l = 86400 * year_day ?l ?m"
    by (rule month_to_secs_spec) (use assms in simp_all)
  have "0 \<le> jan1 (1900 + y)" using jan1_mono [of 1970 "1900 + y"] assms(1) by (simp add: jan1_def)
  moreover have "0 \<le> year_day ?l ?m" using year_day_mono [of 0 ?m ?l] by (simp add: year_day_def)
  ultimately have F: "0 \<le> ?F" by simp
  have t: "86400 * jan1 (1900 + y) + 86400 * year_day ?l ?m = 86400 * ?F" by simp
  note dm = days_in_month_spec [OF assms(4,5), of ?l]
  let ?w = "(4 + ?F) mod 7"
  let ?k = "if rule3 r - ?w < 0 then rule3 r - ?w + 7 else rule3 r - ?w"
  let ?n = "if rule2 r = 5 \<and> ?k + 28 \<ge> month_len ?l ?m then 4 else rule2 r"
  have k: "0 \<le> ?k" "?k < 7" using assms(8,9) by auto
  have w: "s32 ((86400 * ?F + 4 * 86400) smod (7 * 86400)) sdiv 86400 = ?w"
    using wday_code [OF F] wday_narrow [of "86400 * ?F + 4 * 86400"] by simp
  have d: "s32 (rule3 r - ?w) = rule3 r - ?w"
    by (rule s32_id) (use assms(8,9) in \<open>simp_all add: INT_MIN_def INT_MAX_def\<close>)
  have k28: "s32 (?k + 28) = ?k + 28"
    by (rule s32_id) (use k in \<open>simp_all only: INT_MIN_def INT_MAX_def\<close>)
  have p: "s32 (86400 * (?k + 7 * (?n - 1))) = 86400 * (?k + 7 * (?n - 1))"
    by (rule s32_id) (use k assms(6,7) in \<open>simp_all add: INT_MIN_def INT_MAX_def\<close>)
  have "rule_to_secs r y = Some (86400 * ?F + 86400 * (?k + 7 * (?n - 1)) + rule4 r)"
    unfolding rule_to_secs_def Let_def sy ys prod.case ms t w d k28 dm p using assms(3-5) by simp
  then have "rule_to_secs r y = Some (86400 * (?F + (?k + 7 * (?n - 1))) + rule4 r)" by (simp only: distrib_left)
  then show ?thesis using weekday_choice [OF assms(8,9,6,7) month_len_bounds, of ?F] by blast
qed

text \<open>
  C25.  Local time round trip: for every zone given in POSIX form, with or without daylight saving,
  \<open>mktime\<close> applied to what \<open>localtime_r\<close> returned gives back the second count, the calendar fields,
  the daylight flag and the offset, also in the hour that occurs twice and for times whose local
  and universal years differ.
\<close>

theorem mktime_localtime:
  assumes "localtime_r z t = Some (tm, dst, off)"
    and "\<bar>tz_timezone z\<bar> \<le> 2 ^ 31"
  shows "mktime z tm dst = Some (t, tm, dst, off)"
proof -
  have guard: "INT_MIN * 31622400 \<le> t" "t \<le> INT_MAX * 31622400"
    using assms(1) unfolding localtime_r_def by (auto split: if_splits)
  then have zt: "zone_time t" by (simp add: zone_time_def INT_MIN_def INT_MAX_def)
  have ok: "rule_ok (r0 z) \<and> rule_ok (r1 z)" if "tz_daylight z"
    using assms(1) secs_to_zone_rules that unfolding localtime_r_def by (auto simp: bind_eq_Some_conv split: if_splits)
  obtain i where i: "secs_to_zone z t False = Some i" "i = zone_std z \<or> tz_daylight z \<and> i = zone_dst z"
    by (rule secs_to_zone_returns [OF zt ok])
  have tm: "secs_to_tm (t + offset i) = Some tm" "dst = isdst i" "off = offset i"
    using assms(1) i(1) guard unfolding localtime_r_def by (auto simp: bind_eq_Some_conv split: if_splits)
  have "\<bar>offset i\<bar> \<le> 2 ^ 31"
    using i(2) assms(2) s32_range [of "- dst_off z"] by (auto simp: zone_std_def zone_dst_def)
  then have zl: "zone_time (t + offset i)"
    using guard unfolding zone_time_def INT_MIN_def INT_MAX_def by simp
  obtain j where j: "secs_to_zone z (t + offset i) True = Some j" "j = zone_std z \<or> tz_daylight z \<and> j = zone_dst z"
    by (rule secs_to_zone_returns [OF zl ok])
  have c: "tm_to_secs tm = t + offset i"
    using tm(1) tm_to_secs_calendar unfolding secs_to_tm_iff by blast
  have there: "(if dst \<ge> 0 \<and> isdst j \<noteq> dst then t + offset i - (oppoff j - offset j) else t + offset i) - offset j = t"
    using i(2) j(2) tm(2) by (auto simp: zone_std_def zone_dst_def)
  show ?thesis unfolding mktime_def Let_def c j(1) bind.bind_lunit there unfolding i(1) tm bind.bind_lunit ..
qed

text \<open>The rules of a malformed \<^verbatim>\<open>TZ\<close>: after \<^verbatim>\<open>M3\<close> the position is stepped over the terminator.\<close>

theorem getrule_overruns: "getrule (bytes ''M3'') r = None"
  by (simp add: getrule_def cur_def skip_def getint_def isdigit_def)

text \<open>Before 1970 the remainder that gives the weekday is negative, and the rule of the first
  Saturday of March 1969 (the first of that month) names the eighth.\<close>

theorem rule_before_1970:
  "rule_to_secs \<lparr> rule0 = 77, rule1 = 3, rule2 = 1, rule3 = 6, rule4 = 0 \<rparr> 69 =
     Some (86400 * (jan1 1969 + year_day False 2 + 7)) \<and> (4 + (jan1 1969 + year_day False 2)) mod 7 = 6"
proof -
  have j: "jan1 1969 = - 365" "leap_year 1969 = False" by (simp_all add: jan1_def leaps_def leap_year_def)
  have m: "year_day False 2 = 59" by (simp add: year_day_def month_len_def numeral_2_eq_2)
  have "year_to_secs 69 = (86400 * - 365, False)" using year_to_secs_spec [of 69] j by simp
  moreover have "month_to_secs 2 False = 59 * 86400" by (simp add: month_to_secs_def)
  moreover have "((86400 * - 365 + 59 * 86400 + 4 * 86400) smod (7 * 86400)) sdiv 86400 = (- 1 :: int)"
    by (simp add: signed_divide_int_def signed_modulo_int_def)
  moreover have "s32 69 = 69" "s32 (- 86400) = - 86400" "s32 7 = 7" "s32 35 = 35" "s32 604800 = 604800"
    by (simp_all add: s32_def)
  ultimately show ?thesis by (simp add: rule_to_secs_def days_in_month_def j m)
qed

definition berlin :: zone where
  "berlin = \<lparr> std_name = bytes ''CET'', dst_name = bytes ''CEST'', tz_timezone = - 3600, tz_daylight = True,
     dst_off = - 7200, r0 = \<lparr> rule0 = 77, rule1 = 3, rule2 = 5, rule3 = 0, rule4 = 7200 \<rparr>,
     r1 = \<lparr> rule0 = 77, rule1 = 10, rule2 = 5, rule3 = 0, rule4 = 10800 \<rparr> \<rparr>"

lemma berlin_parsed: "do_tzset (bytes ''CET-1CEST,M3.5.0,M10.5.0/3'') = Some berlin"
  by code_simp

theorem rule_to_secs_weekday_witness:
  "\<exists>D. rule_to_secs (r0 berlin) 124 = Some (86400 * D + 7200) \<and>
    nth_weekday (jan1 2024 + year_day True 2) 31 5 0 D"
  using rule_to_secs_weekday [of 124 "r0 berlin"]
  by (simp add: berlin_def INT_MAX_def leap_year_def month_len_def)

definition spring_forward :: tm where
  "spring_forward = \<lparr> tm_sec = 0, tm_min = 0, tm_hour = 3, tm_mday = 31, tm_mon = 2, tm_year = 124, tm_wday = 0, tm_yday = 90 \<rparr>"

theorem mktime_localtime_witness:
  "mktime berlin spring_forward 1 = Some (1711846800, spring_forward, 1, 7200)"
proof (rule mktime_localtime)
  show "localtime_r berlin 1711846800 = Some (spring_forward, 1, 7200)" by code_simp
qed (simp_all add: berlin_def)

end
