(* ===== verification/Musl_Search.thy ===== *)
theory Musl_Search
  imports Main "HOL-Library.Monad_Syntax" "HOL-Library.Multiset"
begin

text \<open>
  The search trees of musl, \<^verbatim>\<open>search/tsearch.c\<close>, \<^verbatim>\<open>tdelete.c\<close>, \<^verbatim>\<open>tfind.c\<close>, \<^verbatim>\<open>twalk.c\<close> and
  \<^verbatim>\<open>tdestroy.c\<close>.

  A tree is the datatype of its nodes, with the height field the code stores.  The array \<^verbatim>\<open>a\<close> of
  pointers to child slots that \<^verbatim>\<open>tsearch\<close> and \<^verbatim>\<open>tdelete\<close> fill on the way down is a path: the nodes
  passed, from the last one up to the root, each with the side taken and the other subtree.
  Writing through a slot and walking the array back up is plugging the path together again.  The
  array has \<^verbatim>\<open>MAXH\<close> slots; a descent that needs more is the value \<open>None\<close>.  The operations take the
  tree \<^verbatim>\<open>*rootp\<close>; their answer to a null \<^verbatim>\<open>rootp\<close> (a null pointer, at once) is not modelled.
\<close>

section \<open>Nodes\<close>

datatype 'k node = Null | Node (key: 'k) (left: "'k node") (right: "'k node") (hf: int)

fun height :: "'k node \<Rightarrow> int" where
  "height Null = 0"
| "height (Node k l r h) = h"

text \<open>\<^verbatim>\<open>x->a[dir]\<close> and a node given by its child on side \<open>dir\<close> and the other one.\<close>

fun child :: "bool \<Rightarrow> 'k node \<Rightarrow> 'k node" where
  "child d Null = Null"
| "child d (Node k l r h) = (if d then r else l)"

definition mk :: "bool \<Rightarrow> 'k \<Rightarrow> 'k node \<Rightarrow> 'k node \<Rightarrow> int \<Rightarrow> 'k node" where
  "mk d k other this h = (if d then Node k other this h else Node k this other h)"

definition rot :: "'k node \<Rightarrow> bool \<Rightarrow> 'k node \<times> int" where
  "rot x d =
     (let y = child d x;
          z = child (\<not> d) y;
          hx = height x;
          hz = height z
      in if hz > height (child d y) then
           let x' = mk d (key x) (child (\<not> d) x) (child (\<not> d) z) hz;
               y' = mk (\<not> d) (key y) (child d y) (child d z) hz;
               z' = mk d (key z) x' y' (hz + 1)
           in (z', height z' - hx)
         else
           let x' = mk d (key x) (child (\<not> d) x) z (hz + 1);
               y' = mk d (key y) x' (child d y) (hz + 2)
           in (y', height y' - hx))"

definition tsearch_balance :: "'k node \<Rightarrow> 'k node \<times> int" where
  "tsearch_balance n =
     (let h0 = height (left n); h1 = height (right n) in
      if (h0 - h1 + 1) mod 2 ^ 32 < 3 then
        let h = (if h0 < h1 then h1 + 1 else h0 + 1)
        in (Node (key n) (left n) (right n) h, h - hf n)
      else rot n (h0 < h1))"

section \<open>Paths\<close>

text \<open>A frame: the side taken, and the key, the other subtree and the height field of the node.\<close>

datatype 'k frame = Frame (side: bool) (fkey: 'k) (sibling: "'k node") (fh: int)

fun plug1 :: "'k frame \<Rightarrow> 'k node \<Rightarrow> 'k node" where
  "plug1 (Frame d k s h) t = mk d k s t h"

fun plug :: "'k frame list \<Rightarrow> 'k node \<Rightarrow> 'k node" where
  "plug [] t = t"
| "plug (f # fs) t = plug fs (plug1 f t)"

text \<open>\<^verbatim>\<open>while (i && __tsearch_balance(a[--i]));\<close>\<close>

fun rebalance :: "'k frame list \<Rightarrow> 'k node \<Rightarrow> 'k node" where
  "rebalance [] t = t"
| "rebalance (f # fs) t =
     (let (n, c) = tsearch_balance (plug1 f t) in if c \<noteq> 0 then rebalance fs n else plug fs n)"

definition MAXH :: nat where "MAXH = 96"

text \<open>The descent; \<open>i\<close> slots of the array with room for \<open>cap\<close> are in use.\<close>

fun descend :: "('k \<Rightarrow> 'k \<Rightarrow> int) \<Rightarrow> 'k \<Rightarrow> nat \<Rightarrow> nat \<Rightarrow> 'k frame list \<Rightarrow> 'k node \<Rightarrow> ('k frame list \<times> 'k node) option" where
  "descend cmp x cap i fs Null = Some (fs, Null)"
| "descend cmp x cap i fs (Node k l r h) =
     (let c = cmp x k in
      if c = 0 then Some (fs, Node k l r h)
      else if i < cap then
        (if c > 0 then descend cmp x cap (i + 1) (Frame True k l h # fs) r
         else descend cmp x cap (i + 1) (Frame False k r h # fs) l)
      else None)"

section \<open>Operations\<close>

text \<open>\<open>tsearch\<close> returns the tree and the key of the node found or made; \<open>ok\<close> is the result of
  \<^verbatim>\<open>malloc\<close>, and without memory nothing is returned.\<close>

definition tsearch :: "('k \<Rightarrow> 'k \<Rightarrow> int) \<Rightarrow> bool \<Rightarrow> 'k \<Rightarrow> 'k node \<Rightarrow> ('k node \<times> 'k option) option" where
  "tsearch cmp ok x t =
     do { (fs, n) \<leftarrow> descend cmp x MAXH 1 [] t;
          case n of
            Node k l r h \<Rightarrow> Some (t, Some k)
          | Null \<Rightarrow> if \<not> ok then Some (t, None)
                    else Some (rebalance fs (Node x Null Null 1), Some x) }"

fun tfind :: "('k \<Rightarrow> 'k \<Rightarrow> int) \<Rightarrow> 'k \<Rightarrow> 'k node \<Rightarrow> 'k node" where
  "tfind cmp x Null = Null"
| "tfind cmp x (Node k l r h) =
     (let c = cmp x k in if c = 0 then Node k l r h else tfind cmp x (if c > 0 then r else l))"

text \<open>Down the right edge of the left subtree to the preceding node.\<close>

fun rightmost :: "nat \<Rightarrow> nat \<Rightarrow> 'k frame list \<Rightarrow> 'k node \<Rightarrow> ('k frame list \<times> 'k node) option" where
  "rightmost cap i fs (Node k l (Node k' l' r' h') h) =
     (if i < cap then rightmost cap (i + 1) (Frame True k l h # fs) (Node k' l' r' h') else None)"
| "rightmost cap i fs n = Some (fs, n)"

text \<open>\<open>tdelete\<close> returns the tree and the key of the parent, \<open>None\<close> when the key is absent; for the
  root, where the code returns an arbitrary non-null pointer, it is the key of the root.\<close>

definition tdelete :: "('k \<Rightarrow> 'k \<Rightarrow> int) \<Rightarrow> 'k \<Rightarrow> 'k node \<Rightarrow> ('k node \<times> 'k option) option" where
  "tdelete cmp x t =
     do { (fs, n) \<leftarrow> descend cmp x (MAXH + 1) 2 [] t;
          case n of
            Null \<Rightarrow> Some (t, None)
          | Node k l r h \<Rightarrow>
              let parent = (case fs of [] \<Rightarrow> key t | f # _ \<Rightarrow> fkey f) in
              if l \<noteq> Null then
                if length fs + 2 < MAXH + 1 then
                  do { (gs, p) \<leftarrow> rightmost (MAXH + 1) (length fs + 3) [] l;
                       Some (rebalance (gs @ Frame False (key p) r h # fs) (left p), Some parent) }
                else None
              else Some (rebalance fs r, Some parent) }"

datatype visit = preorder | postorder | endorder | leaf

fun walk :: "'k node \<Rightarrow> nat \<Rightarrow> ('k \<times> visit \<times> nat) list" where
  "walk Null d = []"
| "walk (Node k l r h) d =
     (if h = 1 then [(k, leaf, d)]
      else (k, preorder, d) # walk l (d + 1) @ (k, postorder, d) # walk r (d + 1) @ [(k, endorder, d)])"

definition twalk :: "'k node \<Rightarrow> ('k \<times> visit \<times> nat) list" where
  "twalk t = walk t 0"

text \<open>The keys in the order in which \<open>tdestroy\<close> frees them.\<close>

fun tdestroy :: "'k node \<Rightarrow> 'k list" where
  "tdestroy Null = []"
| "tdestroy (Node k l r h) = tdestroy l @ tdestroy r @ [k]"

section \<open>Order and balance\<close>

fun inorder :: "'k node \<Rightarrow> 'k list" where
  "inorder Null = []"
| "inorder (Node k l r h) = inorder l @ k # inorder r"

fun avl :: "'k node \<Rightarrow> bool" where
  "avl Null \<longleftrightarrow> True"
| "avl (Node k l r h) \<longleftrightarrow>
     avl l \<and> avl r \<and> \<bar>height l - height r\<bar> \<le> 1 \<and> h = 1 + max (height l) (height r)"

text \<open>The keys before and after the hole of a path, and the condition a path puts on the height of
  the tree in its hole.\<close>

fun before :: "'k frame list \<Rightarrow> 'k list" where
  "before [] = []"
| "before (Frame d k s h # fs) = before fs @ (if d then inorder s @ [k] else [])"

fun after :: "'k frame list \<Rightarrow> 'k list" where
  "after [] = []"
| "after (Frame d k s h # fs) = (if d then [] else k # inorder s) @ after fs"

fun path_avl :: "'k frame list \<Rightarrow> int \<Rightarrow> bool" where
  "path_avl [] H \<longleftrightarrow> True"
| "path_avl (Frame d k s h # fs) H \<longleftrightarrow>
     avl s \<and> \<bar>H - height s\<bar> \<le> 1 \<and> h = 1 + max H (height s) \<and> path_avl fs h"

lemma height_nonneg: "avl t \<Longrightarrow> 0 \<le> height t"
  by (induction t) auto

lemma height_0_iff: "avl t \<Longrightarrow> height t = 0 \<longleftrightarrow> t = Null"
  using height_nonneg by (cases t) fastforce+

lemma mk_simps [simp]:
  "height (mk d k s t h) = h" "child d (mk d k s t h) = t" "child (\<not> d) (mk d k s t h) = s"
  "key (mk d k s t h) = k" "inorder (mk d k s t h) = (if d then inorder s @ k # inorder t else inorder t @ k # inorder s)"
  "avl (mk d k s t h) \<longleftrightarrow> avl s \<and> avl t \<and> \<bar>height s - height t\<bar> \<le> 1 \<and> h = 1 + max (height s) (height t)"
  by (auto simp: mk_def max.commute abs_minus_commute)

lemma node_as_mk: "t \<noteq> Null \<Longrightarrow> t = mk d (key t) (child (\<not> d) t) (child d t) (height t)"
  by (cases t) (simp_all add: mk_def)

lemma inorder_plug: "inorder (plug fs t) = before fs @ inorder t @ after fs"
proof (induction fs t rule: plug.induct)
  case (2 f fs t)
  then show ?case by (cases f) simp
qed simp

lemma avl_plug: "path_avl fs (height t) \<Longrightarrow> avl t \<Longrightarrow> avl (plug fs t)"
proof (induction fs t rule: plug.induct)
  case (2 f fs t)
  then show ?case by (cases f) (simp add: abs_minus_commute max.commute)
qed simp

text \<open>One rotation: \<open>x\<close> is a node whose child on side \<open>d\<close> is two higher than the other.\<close>

lemma rot_spec:
  assumes "avl s" and "avl t" and "height t = height s + 2"
  obtains n where "rot (mk d k s t h) d = (n, height n - h)" "avl n" "inorder n = inorder (mk d k s t h)"
    "height n = height t \<or> height n = height t + 1"
proof -
  have ht: "t \<noteq> Null" using assms height_nonneg [of s] by auto
  define y1 y2 ky hy where "y1 = child (\<not> d) t" "y2 = child d t" "ky = key t" "hy = height t"
  have y: "t = mk d ky y1 y2 hy" using node_as_mk [OF ht, of d] by (simp add: y1_y2_ky_hy_def)
  have ay: "avl y1" "avl y2" "\<bar>height y1 - height y2\<bar> \<le> 1" "hy = 1 + max (height y1) (height y2)"
    using assms(2) unfolding y by simp_all
  show thesis
  proof (cases "height y1 > height y2")
    case True
    then have "y1 \<noteq> Null" using height_nonneg [OF ay(2)] by auto
    define z1 z2 kz where "z1 = child (\<not> d) y1" "z2 = child d y1" "kz = key y1"
    have z: "y1 = mk d kz z1 z2 (height y1)" using node_as_mk [OF \<open>y1 \<noteq> Null\<close>, of d] by (simp add: z1_z2_kz_def)
    have az: "avl z1" "avl z2" "\<bar>height z1 - height z2\<bar> \<le> 1" "height y1 = 1 + max (height z1) (height z2)"
      using ay(1) by (subst (asm) z, simp)+
    let ?x = "mk d k s z1 (height y1)"
    let ?y = "mk (\<not> d) ky y2 z2 (height y1)"
    let ?n = "mk d kz ?x ?y (height y1 + 1)"
    have "rot (mk d k s t h) d = (?n, height ?n - h)"
      using True by (simp add: rot_def Let_def y z1_z2_kz_def)
    moreover have "avl ?n" using assms(1,3) ay az True unfolding y by auto
    moreover have "inorder ?n = inorder (mk d k s t h)"
      unfolding y by (subst (4) z) (simp add: mk_def)
    moreover have "height ?n = height t" using ay True unfolding y by simp
    ultimately show thesis using that by blast
  next
    case False
    let ?x = "mk d k s y1 (height y1 + 1)"
    let ?n = "mk d ky ?x y2 (height y1 + 2)"
    have "rot (mk d k s t h) d = (?n, height ?n - h)"
      using False by (simp add: rot_def Let_def y)
    moreover have "avl ?n" using assms(1,3) ay False unfolding y by auto
    moreover have "inorder ?n = inorder (mk d k s t h)" unfolding y by (simp add: mk_def)
    moreover have "height ?n = height t \<or> height ?n = height t + 1" using ay False unfolding y by auto
    ultimately show thesis using that by blast
  qed
qed

lemma unbalanced_iff: "\<bar>a - b\<bar> \<le> 2 \<Longrightarrow> (a - b + 1) mod 2 ^ 32 < 3 \<longleftrightarrow> \<bar>a - b\<bar> \<le> (1 :: int)"
proof -
  assume "\<bar>a - b\<bar> \<le> 2"
  then consider "a - b = - 2" | "a - b = - 1" | "a - b = 0" | "a - b = 1" | "a - b = 2" by linarith
  then show ?thesis
  proof cases
    case 1
    then have "a - b + 1 = - 1" by simp
    then show ?thesis unfolding 1 by simp
  qed (simp_all only:, simp_all)
qed

lemma balance_spec:
  assumes "avl s" and "avl t" and "\<bar>height s - height t\<bar> \<le> 2"
  obtains n where "tsearch_balance (mk d k s t h) = (n, height n - h)" "avl n" "inorder n = inorder (mk d k s t h)"
    "if \<bar>height s - height t\<bar> \<le> 1 then height n = 1 + max (height s) (height t)
     else height n = max (height s) (height t) \<or> height n = max (height s) (height t) + 1"
proof (cases "\<bar>height s - height t\<bar> \<le> 1")
  case True
  have "(height (left (mk d k s t h)) - height (right (mk d k s t h)) + 1) mod 2 ^ 32 < 3"
    using True unbalanced_iff [of "height s" "height t"] unbalanced_iff [of "height t" "height s"]
    by (simp add: mk_def abs_minus_commute)
  then have "tsearch_balance (mk d k s t h) =
      (mk d k s t (1 + max (height s) (height t)), 1 + max (height s) (height t) - h)"
    by (auto simp: tsearch_balance_def mk_def Let_def max_def)
  then show thesis using that True assms by simp
next
  case False
  have u: "\<not> (height (left (mk d k s t h)) - height (right (mk d k s t h)) + 1) mod 2 ^ 32 < 3"
    using False assms(3) unbalanced_iff [of "height s" "height t"] unbalanced_iff [of "height t" "height s"]
    by (simp add: mk_def abs_minus_commute)
  show thesis
  proof (cases "height t = height s + 2")
    case True
    then have "tsearch_balance (mk d k s t h) = rot (mk d k s t h) d"
      unfolding tsearch_balance_def Let_def if_not_P [OF u] by (simp add: mk_def)
    moreover obtain n where "rot (mk d k s t h) d = (n, height n - h)" "avl n" "inorder n = inorder (mk d k s t h)"
      "height n = height t \<or> height n = height t + 1" by (rule rot_spec [OF assms(1,2) True])
    ultimately show thesis using that [of n] True False by (simp add: max_def)
  next
    case t: False
    then have st: "height s = height t + 2" using False assms(3) by linarith
    have sw: "mk d k s t h = mk (\<not> d) k t s h" by (simp add: mk_def)
    have "tsearch_balance (mk d k s t h) = rot (mk (\<not> d) k t s h) (\<not> d)"
      unfolding tsearch_balance_def Let_def if_not_P [OF u] using st by (simp add: mk_def)
    moreover obtain n where "rot (mk (\<not> d) k t s h) (\<not> d) = (n, height n - h)" "avl n"
      "inorder n = inorder (mk (\<not> d) k t s h)" "height n = height s \<or> height n = height s + 1"
      by (rule rot_spec [OF assms(2,1) st])
    ultimately show thesis using that [of n] st False sw by (simp add: max_def)
  qed
qed

text \<open>The loop back up, with its early exit, restores the balance of the whole tree when the tree
  in the hole has become one higher or one lower.\<close>

lemma rebalance_spec:
  "path_avl fs H \<Longrightarrow> avl t \<Longrightarrow> \<bar>height t - H\<bar> \<le> 1 \<Longrightarrow>
   avl (rebalance fs t) \<and> inorder (rebalance fs t) = before fs @ inorder t @ after fs"
proof (induction fs t arbitrary: H rule: rebalance.induct)
  case (2 f fs t)
  obtain d k s h where f: "f = Frame d k s h" by (cases f)
  have p: "avl s" "\<bar>H - height s\<bar> \<le> 1" "h = 1 + max H (height s)" "path_avl fs h"
    using "2.prems"(1) unfolding f path_avl.simps by blast+
  have "\<bar>height s - height t\<bar> \<le> 2" using p(2) "2.prems"(3) by linarith
  then obtain n where n: "tsearch_balance (plug1 f t) = (n, height n - h)" "avl n" "inorder n = inorder (mk d k s t h)"
    "if \<bar>height s - height t\<bar> \<le> 1 then height n = 1 + max (height s) (height t)
     else height n = max (height s) (height t) \<or> height n = max (height s) (height t) + 1"
    using balance_spec [OF p(1) "2.prems"(2), of d k h] unfolding f plug1.simps by blast
  have near: "\<bar>height n - h\<bar> \<le> 1"
    using n(4) p(2,3) "2.prems"(3) by (auto split: if_splits)
  have order: "before fs @ inorder n @ after fs = before (f # fs) @ inorder t @ after (f # fs)"
    unfolding n(3) f by simp
  show ?case
  proof (cases "height n = h")
    case True
    then have "rebalance (f # fs) t = plug fs n" using n(1) by simp
    then show ?thesis using avl_plug [of fs n] p(4) True n(2) order by (simp add: inorder_plug)
  next
    case False
    then show ?thesis using "2.IH" [OF n(1) [symmetric] refl _ p(4) n(2) near] n(1) order by simp
  qed
qed simp

section \<open>The way down\<close>

text \<open>What the code relies on of \<^verbatim>\<open>cmp\<close>: it compares by a linear order.\<close>

definition compares :: "('k::linorder \<Rightarrow> 'k \<Rightarrow> int) \<Rightarrow> bool" where
  "compares cmp \<longleftrightarrow> (\<forall>a b. (cmp a b = 0 \<longleftrightarrow> a = b) \<and> (cmp a b > 0 \<longleftrightarrow> b < a))"

lemma comparesD:
  assumes "compares cmp"
  shows "cmp a b = 0 \<longleftrightarrow> a = b" and "cmp a b > 0 \<longleftrightarrow> b < a"
  using assms by (simp_all add: compares_def)

definition ascending :: "'k::linorder list \<Rightarrow> bool" where
  "ascending xs \<longleftrightarrow> sorted_wrt (<) xs"

lemma ascending_append [simp]:
  "ascending (xs @ ys) \<longleftrightarrow> ascending xs \<and> ascending ys \<and> (\<forall>x \<in> set xs. \<forall>y \<in> set ys. x < y)"
  "ascending (x # ys) \<longleftrightarrow> (\<forall>y \<in> set ys. x < y) \<and> ascending ys" "ascending []"
  by (auto simp: ascending_def sorted_wrt_append)

text \<open>A path and the subtree in its hole: together they are the tree, and \<open>x\<close> belongs into the hole.\<close>

definition hole_for :: "'k::linorder \<Rightarrow> 'k frame list \<Rightarrow> 'k node \<Rightarrow> bool" where
  "hole_for x fs n \<longleftrightarrow> path_avl fs (height n) \<and> avl n \<and> ascending (before fs @ inorder n @ after fs) \<and>
     (\<forall>k \<in> set (before fs). k < x) \<and> (\<forall>k \<in> set (after fs). x < k)"

lemma hole_down:
  assumes "hole_for x fs (Node k l r h)"
  shows "k < x \<Longrightarrow> hole_for x (Frame True k l h # fs) r" and "x < k \<Longrightarrow> hole_for x (Frame False k r h # fs) l"
  using assms by (auto simp: hole_for_def abs_minus_commute max.commute dest: less_trans)

lemma descend_spec:
  assumes "compares cmp"
  shows "hole_for x fs t \<Longrightarrow> i + nat (height t) \<le> cap \<Longrightarrow>
   \<exists>gs n. descend cmp x cap i fs t = Some (gs, n) \<and> hole_for x gs n \<and> (n = Null \<or> key n = x) \<and>
     before gs @ inorder n @ after gs = before fs @ inorder t @ after fs \<and>
     length gs + nat (height n) \<le> length fs + nat (height t)"
proof (induction t arbitrary: fs i)
  case Null
  then show ?case by simp
next
  case (Node k l r h)
  have a: "avl l" "avl r" "h = 1 + max (height l) (height r)" using Node.prems(1) by (auto simp: hole_for_def)
  have ht: "0 \<le> height l" "0 \<le> height r" using height_nonneg a by auto
  have room: "i < cap" "i + 1 + nat (height l) \<le> cap" "i + 1 + nat (height r) \<le> cap"
    using Node.prems(2) a(3) ht by auto
  have lens: "Suc (nat (height l)) \<le> nat h" "Suc (nat (height r)) \<le> nat h" using a(3) ht by auto
  consider "x = k" | "k < x" | "x < k" by fastforce
  then show ?case
  proof cases
    case 1
    then show ?thesis using Node.prems(1) comparesD(1) [OF assms, of x k] by simp
  next
    case 2
    have c: "cmp x k \<noteq> 0" "cmp x k > 0" using comparesD [OF assms, of x k] 2 by auto
    show ?thesis using Node.IH(2) [OF hole_down(1) [OF Node.prems(1) 2] room(3)] c room(1) lens by auto
  next
    case 3
    have c: "cmp x k \<noteq> 0" "\<not> cmp x k > 0" using comparesD [OF assms, of x k] 3 by auto
    show ?thesis using Node.IH(1) [OF hole_down(2) [OF Node.prems(1) 3] room(2)] c room(1) lens by auto
  qed
qed

text \<open>The height of the tree a path makes of a hole of height \<open>H\<close>.\<close>

fun top_height :: "'k frame list \<Rightarrow> int \<Rightarrow> int" where
  "top_height [] H = H"
| "top_height (Frame d k s h # fs) H = top_height fs h"

lemma path_append:
  "before (gs @ fs) = before fs @ before gs" "after (gs @ fs) = after gs @ after fs"
  "path_avl (gs @ fs) H \<longleftrightarrow> path_avl gs H \<and> path_avl fs (top_height gs H)"
  "top_height (gs @ fs) H = top_height fs (top_height gs H)"
proof (induction gs arbitrary: H)
  case (Cons f gs)
  { case 1 show ?case using Cons by (cases f) simp }
  { case 2 show ?case using Cons by (cases f) simp }
  { case 3 show ?case using Cons by (cases f) simp }
  { case 4 show ?case using Cons by (cases f) simp }
qed simp_all

lemma rightmost_spec:
  "avl n \<Longrightarrow> n \<noteq> Null \<Longrightarrow> i + nat (height n) \<le> cap + 1 \<Longrightarrow>
   \<exists>gs k l h. rightmost cap i fs n = Some (gs @ fs, Node k l Null h) \<and> path_avl gs h \<and> top_height gs h = height n \<and>
     avl l \<and> h = height l + 1 \<and> inorder n = before gs @ inorder l @ [k] \<and> after gs = []"
proof (induction cap i fs n rule: rightmost.induct [case_names further Null last])
  case (further cap i fs k l k' l' r' h' h)
  let ?r = "Node k' l' r' h'"
  let ?f = "Frame True k l h"
  have a: "avl l" "avl ?r" "h = 1 + max (height l) (height ?r)" "\<bar>height l - height ?r\<bar> \<le> 1" using further.prems(1) by auto
  have h': "0 < h'" using height_nonneg [OF a(2)] height_0_iff [OF a(2)] by auto
  then have room: "i < cap" "i + 1 + nat (height ?r) \<le> cap + 1"
    using further.prems(3) a(3) height_nonneg [OF a(1)] by auto
  obtain gs k1 l1 h1 where r: "rightmost cap (i + 1) (?f # fs) ?r = Some (gs @ ?f # fs, Node k1 l1 Null h1)"
    "path_avl gs h1" "top_height gs h1 = height ?r" "avl l1" "h1 = height l1 + 1"
    "inorder ?r = before gs @ inorder l1 @ [k1]" "after gs = []"
    using further.IH [OF room(1) a(2) _ room(2)] by auto
  have "path_avl (gs @ [?f]) h1" "top_height (gs @ [?f]) h1 = height (Node k l ?r h)"
    using r(2,3) a by (simp_all add: path_append abs_minus_commute max.commute)
  moreover have "inorder (Node k l ?r h) = before (gs @ [?f]) @ inorder l1 @ [k1]"
    using r(6) by (simp add: path_append)
  moreover have "rightmost cap i fs (Node k l ?r h) = Some ((gs @ [?f]) @ fs, Node k1 l1 Null h1)"
    using r(1) room(1) by simp
  ultimately show ?case using r(4,5,7) by (intro exI [of _ "gs @ [?f]"]) (auto simp: path_append)
next
  case (last cap i fs k l h)
  then show ?case using height_nonneg [of l] by (intro exI [of _ "[]"]) auto
qed simp

section \<open>The height of a balanced tree\<close>

fun min_nodes :: "nat \<Rightarrow> nat" where
  "min_nodes 0 = 0"
| "min_nodes (Suc 0) = 1"
| "min_nodes (Suc (Suc n)) = 1 + min_nodes (Suc n) + min_nodes n"

lemma min_nodes_mono: "m \<le> n \<Longrightarrow> min_nodes m \<le> min_nodes n"
proof (rule lift_Suc_mono_le [of min_nodes])
  show "min_nodes n \<le> min_nodes (Suc n)" for n by (induction n rule: min_nodes.induct) auto
qed

lemma avl_nodes: "avl t \<Longrightarrow> min_nodes (nat (height t)) \<le> length (inorder t)"
proof (induction t)
  case (Node k l r h)
  have a: "avl l" "avl r" "h = 1 + max (height l) (height r)" "\<bar>height l - height r\<bar> \<le> 1" using Node.prems by auto
  have ht: "0 \<le> height l" "0 \<le> height r" using height_nonneg a by auto
  have IH: "min_nodes (nat (height l)) \<le> length (inorder l)" "min_nodes (nat (height r)) \<le> length (inorder r)"
    using Node a by auto
  define m where "m = nat (min (height l) (height r))"
  have "nat h = Suc (nat (max (height l) (height r)))" using a(3) ht by auto
  moreover have "nat (max (height l) (height r)) = m \<or> nat (max (height l) (height r)) = Suc m"
    using a(4) ht unfolding m_def by auto
  moreover have "min_nodes (nat (max (height l) (height r))) + min_nodes m \<le> length (inorder l) + length (inorder r)"
    using IH by (cases "height l \<le> height r") (simp_all add: m_def)
  moreover have "min_nodes (Suc m) \<le> 1 + min_nodes m + min_nodes m" 
    using min_nodes_mono [of "m - 1" m] by (cases m) auto
  ultimately show ?case by auto
qed simp

fun min_iter :: "nat \<Rightarrow> int \<Rightarrow> int \<Rightarrow> int" where
  "min_iter 0 a b = a"
| "min_iter (Suc n) a b = min_iter n b (1 + b + a)"

lemma min_iter_nodes: "min_iter n (int (min_nodes k)) (int (min_nodes (Suc k))) = int (min_nodes (k + n))"
proof (induction n arbitrary: k)
  case (Suc n)
  then show ?case using Suc [of "Suc k"] by (simp add: add.assoc)
qed simp

lemma min_iter_numeral: "min_iter (numeral n) a b = min_iter (pred_numeral n) b (1 + b + a)"
  by (simp add: numeral_eq_Suc)

lemma min_nodes_95: "2 ^ 64 \<le> min_nodes 95"
proof -
  have "int (min_nodes 95) = min_iter 95 0 1"
    using min_iter_nodes [of 95 0] by (simp only: min_nodes.simps(1,2) add_0_left of_nat_0 of_nat_1)
  moreover have "2 ^ 64 \<le> min_iter 95 0 1" by (simp add: min_iter_numeral)
  ultimately have "int (2 ^ 64) \<le> int (min_nodes 95)" by (simp only: of_nat_power of_nat_numeral)
  then show ?thesis by (simp only: of_nat_le_iff)
qed

text \<open>A tree whose nodes have addresses is never as high as the array of the descent is long.\<close>

lemma avl_height_bound:
  assumes "avl t" and "length (inorder t) < 2 ^ 64"
  shows "nat (height t) < 95"
proof (rule ccontr)
  assume "\<not> nat (height t) < 95"
  then have "min_nodes 95 \<le> min_nodes (nat (height t))" by (intro min_nodes_mono) simp
  then show False using avl_nodes [OF assms(1)] min_nodes_95 assms(2) by simp
qed

section \<open>Insertion and deletion\<close>

definition search_tree :: "'k::linorder node \<Rightarrow> bool" where
  "search_tree t \<longleftrightarrow> avl t \<and> ascending (inorder t)"

lemma hole_start: "search_tree t \<Longrightarrow> hole_for x [] t"
  by (simp add: search_tree_def hole_for_def)

lemma tsearch_spec:
  assumes "compares cmp" and "search_tree t" and "length (inorder t) < 2 ^ 64"
  shows "\<exists>t'. tsearch cmp ok x t = Some (t', if x \<in> set (inorder t) \<or> ok then Some x else None) \<and> search_tree t' \<and>
    set (inorder t') = set (inorder t) \<union> (if ok then {x} else {})"
proof -
  have "1 + nat (height t) \<le> MAXH" using avl_height_bound [of t] assms(2,3) by (simp add: search_tree_def MAXH_def)
  from descend_spec [OF assms(1) hole_start [OF assms(2), of x] this] obtain fs n where
    d: "descend cmp x MAXH 1 [] t = Some (fs, n)" "hole_for x fs n" "n = Null \<or> key n = x"
      "before fs @ inorder n @ after fs = inorder t" by auto
  show ?thesis
  proof (cases n)
    case Null
    have io: "inorder t = before fs @ after fs" using d(4) Null by simp
    have x: "x \<notin> set (inorder t)" using d(2) io by (auto simp: hole_for_def)
    show ?thesis
    proof (cases ok)
      case True
      let ?t = "rebalance fs (Node x Null Null 1)"
      have "avl ?t" "inorder ?t = before fs @ [x] @ after fs"
        using rebalance_spec [of fs 0 "Node x Null Null 1"] d(2) Null by (auto simp: hole_for_def)
      moreover have "ascending (before fs @ [x] @ after fs)" using d(2) Null by (auto simp: hole_for_def)
      ultimately show ?thesis using d(1) Null True io by (auto simp: tsearch_def search_tree_def)
    next
      case False
      then show ?thesis using d(1) Null x assms(2) by (simp add: tsearch_def)
    qed
  next
    case (Node k l r h)
    then have "x \<in> set (inorder t)" "k = x" using d(3,4) by (auto simp flip: d(4))
    then show ?thesis using d(1) Node assms(2) by (auto simp: tsearch_def)
  qed
qed

lemma tdelete_spec:
  assumes "compares cmp" and "search_tree t" and "length (inorder t) < 2 ^ 64"
  shows "\<exists>t' p. tdelete cmp x t = Some (t', p) \<and> (p = None \<longleftrightarrow> x \<notin> set (inorder t)) \<and> search_tree t' \<and>
    set (inorder t') = set (inorder t) - {x}"
proof -
  have hb: "nat (height t) < 95" using avl_height_bound [of t] assms(2,3) by (simp add: search_tree_def)
  then have "2 + nat (height t) \<le> MAXH + 1" by (simp add: MAXH_def)
  from descend_spec [OF assms(1) hole_start [OF assms(2), of x] this] obtain fs n where
    d: "descend cmp x (MAXH + 1) 2 [] t = Some (fs, n)" "hole_for x fs n" "n = Null \<or> key n = x"
      "before fs @ inorder n @ after fs = inorder t" "length fs + nat (height n) \<le> nat (height t)" by auto
  show ?thesis
  proof (cases n)
    case Null
    have "x \<notin> set (before fs @ inorder n @ after fs)" using d(2) Null by (auto simp: hole_for_def)
    then have "x \<notin> set (inorder t)" unfolding d(4) .
    then show ?thesis using d(1) Null assms(2) by (simp add: tdelete_def)
  next
    case (Node k l r h)
    have k: "k = x" using d(3) Node by simp
    have a: "avl l" "avl r" "h = 1 + max (height l) (height r)" "path_avl fs h" "\<bar>height l - height r\<bar> \<le> 1"
      and asc: "ascending (before fs @ (inorder l @ k # inorder r) @ after fs)"
      using d(2) Node by (auto simp: hole_for_def)
    have io: "inorder t = before fs @ inorder l @ k # inorder r @ after fs" using d(4) Node by simp
    have goal: ?thesis if "tdelete cmp x t = Some (t', Some p)" "avl t'"
      "inorder t' = before fs @ inorder l @ inorder r @ after fs" for t' p
      using that asc io k unfolding search_tree_def by auto
    show ?thesis
    proof (cases "l = Null")
      case True
      have "avl (rebalance fs r)" "inorder (rebalance fs r) = before fs @ inorder r @ after fs"
        using rebalance_spec [OF a(4,2)] a(3) True height_nonneg [OF a(2)] by auto
      then show ?thesis using d(1) Node True by (intro goal) (auto simp: tdelete_def Let_def)
    next
      case False
      have hl: "0 < height l" using height_nonneg [OF a(1)] height_0_iff [OF a(1)] False by auto
      have hn: "length fs + 1 + nat (height l) \<le> nat (height t)"
        using d(5) Node a(3) hl height_nonneg [OF a(2)] by auto
      have "length fs + 3 + nat (height l) \<le> MAXH + 1 + 1" using hn hb by (simp add: MAXH_def)
      from rightmost_spec [OF a(1) False this, of "[]"] obtain gs k1 l1 h1 where
        r: "rightmost (MAXH + 1) (length fs + 3) [] l = Some (gs, Node k1 l1 Null h1)" "path_avl gs h1"
          "top_height gs h1 = height l" "avl l1" "h1 = height l1 + 1" "inorder l = before gs @ inorder l1 @ [k1]" "after gs = []"
        by auto
      let ?fs = "gs @ Frame False k1 r h # fs"
      have p: "path_avl ?fs h1" using r(2,3) a by (simp add: path_append abs_minus_commute max.commute)
      have "avl (rebalance ?fs l1)" "inorder (rebalance ?fs l1) = before fs @ inorder l @ inorder r @ after fs"
        using rebalance_spec [OF p r(4)] r(5-7) by (auto simp: path_append)
      then show ?thesis using d(1) Node False r(1) hn hb hl
        by (intro goal) (auto simp: tdelete_def Let_def MAXH_def)
    qed
  qed
qed

lemma tfind_spec:
  assumes "compares cmp"
  shows "ascending (inorder t) \<Longrightarrow>
    (x \<in> set (inorder t) \<longrightarrow> (\<exists>l r h. tfind cmp x t = Node x l r h)) \<and> (x \<notin> set (inorder t) \<longrightarrow> tfind cmp x t = Null)"
proof (induction t)
  case (Node k l r h)
  consider "x = k" | "k < x" | "x < k" by fastforce
  then show ?case
  proof cases
    case 1
    then show ?thesis using comparesD(1) [OF assms, of x k] by simp
  next
    case 2
    then have "cmp x k \<noteq> 0" "cmp x k > 0" "x \<notin> set (inorder l)" using comparesD [OF assms, of x k] Node.prems by auto
    then show ?thesis using Node 2 by auto
  next
    case 3
    then have "cmp x k \<noteq> 0" "\<not> cmp x k > 0" "x \<notin> set (inorder r)" using comparesD [OF assms, of x k] Node.prems by auto
    then show ?thesis using Node 3 by auto
  qed
qed simp

section \<open>Sets of keys\<close>

text \<open>The interface of a set kept in a search structure: what a search finds after insertions and
  deletions.  The client's view is a sequence of operations and the set they leave; an insertion
  comes with the result of its \<^verbatim>\<open>malloc\<close>, and one that finds no memory adds nothing.\<close>

datatype 'k request = Add 'k bool | Remove 'k

fun run_requests ::
  "('k \<Rightarrow> bool \<Rightarrow> 's \<Rightarrow> 's option) \<Rightarrow> ('k \<Rightarrow> 's \<Rightarrow> 's option) \<Rightarrow> 'k request list \<Rightarrow> 's \<Rightarrow> 's option" where
  "run_requests add remove [] s = Some s"
| "run_requests add remove (Add x mem # rs) s = do { s \<leftarrow> add x mem s; run_requests add remove rs s }"
| "run_requests add remove (Remove x # rs) s = do { s \<leftarrow> remove x s; run_requests add remove rs s }"

fun requested :: "'k request list \<Rightarrow> 'k set \<Rightarrow> 'k set" where
  "requested [] A = A"
| "requested (Add x mem # rs) A = requested rs (if mem then insert x A else A)"
| "requested (Remove x # rs) A = requested rs (A - {x})"

locale key_set =
  fixes ok :: "'s \<Rightarrow> bool" and keys :: "'s \<Rightarrow> 'k set" and add :: "'k \<Rightarrow> bool \<Rightarrow> 's \<Rightarrow> 's option"
    and remove :: "'k \<Rightarrow> 's \<Rightarrow> 's option" and room :: nat
  assumes finite_keys: "ok s \<Longrightarrow> finite (keys s)"
    and add_law: "ok s \<Longrightarrow> card (keys s) < room \<Longrightarrow>
      \<exists>s'. add x mem s = Some s' \<and> ok s' \<and> keys s' = (if mem then insert x (keys s) else keys s)"
    and remove_law: "ok s \<Longrightarrow> card (keys s) < room \<Longrightarrow> \<exists>s'. remove x s = Some s' \<and> ok s' \<and> keys s' = keys s - {x}"
begin

lemma run_result:
  "ok s \<Longrightarrow> card (keys s) + length rs \<le> room \<Longrightarrow>
   \<exists>s'. run_requests add remove rs s = Some s' \<and> ok s' \<and> keys s' = requested rs (keys s)"
proof (induction rs arbitrary: s)
  case (Cons q rs)
  have fin: "finite (keys s)" using Cons.prems(1) by (rule finite_keys)
  have c: "card (keys s) < room" using Cons.prems(2) by simp
  show ?case
  proof (cases q)
    case (Add x mem)
    obtain s' where s': "add x mem s = Some s'" "ok s'" "keys s' = (if mem then insert x (keys s) else keys s)"
      using add_law [OF Cons.prems(1) c] by blast
    have "card (keys s') \<le> Suc (card (keys s))" using s'(3) fin by (simp add: card_insert_if)
    then show ?thesis using Cons.IH [OF s'(2)] Cons.prems(2) s' Add by simp
  next
    case (Remove x)
    obtain s' where s': "remove x s = Some s'" "ok s'" "keys s' = keys s - {x}"
      using remove_law [OF Cons.prems(1) c] by blast
    have "card (keys s') \<le> card (keys s)" using s'(3) fin by (simp add: card_Diff1_le)
    then show ?thesis using Cons.IH [OF s'(2)] Cons.prems(2) s' Remove by simp
  qed
qed simp

end

definition tree_keys :: "'k node \<Rightarrow> 'k set" where
  "tree_keys t = set (inorder t)"

lemma card_tree_keys: "ascending (inorder t) \<Longrightarrow> card (tree_keys t) = length (inorder t)"
  unfolding tree_keys_def ascending_def by (intro distinct_card) (simp add: strict_sorted_iff)

definition tree_add :: "('k \<Rightarrow> 'k \<Rightarrow> int) \<Rightarrow> 'k \<Rightarrow> bool \<Rightarrow> 'k node \<Rightarrow> 'k node option" where
  "tree_add cmp x mem t = map_option fst (tsearch cmp mem x t)"

definition tree_remove :: "('k \<Rightarrow> 'k \<Rightarrow> int) \<Rightarrow> 'k \<Rightarrow> 'k node \<Rightarrow> 'k node option" where
  "tree_remove cmp x t = map_option fst (tdelete cmp x t)"

text \<open>The trees of any comparison function that compares by a linear order are such a set.\<close>

locale ordered_tree =
  fixes cmp :: "'k::linorder \<Rightarrow> 'k \<Rightarrow> int"
  assumes order_law: "compares cmp"

sublocale ordered_tree \<subseteq> tree: key_set search_tree tree_keys "tree_add cmp" "tree_remove cmp" "2 ^ 64 - 1"
proof
  fix s :: "'k node" and x mem
  assume s: "search_tree s"
  show "finite (tree_keys s)" by (simp add: tree_keys_def)
  assume "card (tree_keys s) < 2 ^ 64 - 1"
  then have n: "length (inorder s) < 2 ^ 64" using card_tree_keys [of s] s by (simp add: search_tree_def)
  show "\<exists>s'. tree_add cmp x mem s = Some s' \<and> search_tree s' \<and>
      tree_keys s' = (if mem then insert x (tree_keys s) else tree_keys s)"
    using tsearch_spec [OF order_law s n, of mem x] by (auto simp: tree_add_def tree_keys_def)
  show "\<exists>s'. tree_remove cmp x s = Some s' \<and> search_tree s' \<and> tree_keys s' = tree_keys s - {x}"
    using tdelete_spec [OF order_law s n, of x] by (auto simp: tree_remove_def tree_keys_def)
qed

context ordered_tree
begin

lemma found_after:
  assumes "length rs < 2 ^ 64"
  shows "\<exists>t. run_requests (tree_add cmp) (tree_remove cmp) rs Null = Some t \<and> search_tree t \<and>
    (\<forall>x. tfind cmp x t \<noteq> Null \<longleftrightarrow> x \<in> requested rs {})"
proof -
  have "search_tree (Null :: 'k node)" "tree_keys (Null :: 'k node) = {}"
    by (simp_all add: search_tree_def tree_keys_def)
  then obtain t where t: "run_requests (tree_add cmp) (tree_remove cmp) rs Null = Some t" "search_tree t"
      "tree_keys t = requested rs {}"
    using tree.run_result [of "Null :: 'k node" rs] assms by auto
  then show ?thesis using tfind_spec [OF order_law, of t] by (fastforce simp: search_tree_def tree_keys_def)
qed

end

text \<open>The comparison of a linear order, as C's comparison functions report it.\<close>

definition order_cmp :: "'k::linorder \<Rightarrow> 'k \<Rightarrow> int" where
  "order_cmp a b = (if a < b then - 1 else if b < a then 1 else 0)"

lemma order_cmp_compares: "compares order_cmp"
  by (auto simp: compares_def order_cmp_def)

interpretation order_tree: ordered_tree order_cmp
  by unfold_locales (rule order_cmp_compares)

section \<open>Walks\<close>

lemma height_1_leaf: "avl (Node k l r 1) \<Longrightarrow> l = Null \<and> r = Null"
  using height_nonneg [of l] height_nonneg [of r] height_0_iff [of l] height_0_iff [of r] by fastforce

lemma walk_inorder:
  "avl t \<Longrightarrow> map fst (filter (\<lambda>(k, v, d). v = postorder \<or> v = leaf) (walk t d)) = inorder t"
proof (induction t arbitrary: d)
  case (Node k l r h)
  then show ?case using height_1_leaf [of k l r] by (cases "h = 1") auto
qed simp

lemma tdestroy_all: "mset (tdestroy t) = mset (inorder t)"
  by (induction t) auto

section \<open>Properties\<close>

text \<open>
  C28.  \<open>tsearch\<close> keeps the tree sorted and balanced with correct height fields, although the
  loop back up stops at the first node whose height did not change: it returns the node of the
  key, adds the key when memory is available, changes no other key, and the descent never uses
  more than the \<^verbatim>\<open>MAXH\<close> slots of its array.
\<close>

theorem tsearch_keeps_tree:
  assumes "compares cmp" and "search_tree t" and "length (inorder t) < 2 ^ 64"
  shows "\<exists>t'. tsearch cmp ok x t = Some (t', if x \<in> set (inorder t) \<or> ok then Some x else None) \<and>
    search_tree t' \<and> set (inorder t') = set (inorder t) \<union> (if ok then {x} else {})"
  by (rule tsearch_spec [OF assms])

text \<open>
  C29.  \<open>tdelete\<close> removes exactly the given key, reports whether it was there, and keeps the tree
  sorted and balanced: the preceding key takes the place of an inner node and the loop back up
  repairs the heights, without using more than the slots of its array.
\<close>

theorem tdelete_keeps_tree:
  assumes "compares cmp" and "search_tree t" and "length (inorder t) < 2 ^ 64"
  shows "\<exists>t' p. tdelete cmp x t = Some (t', p) \<and> (p = None \<longleftrightarrow> x \<notin> set (inorder t)) \<and> search_tree t' \<and>
    set (inorder t') = set (inorder t) - {x}"
  by (rule tdelete_spec [OF assms])

text \<open>
  C30.  For keys of any linearly ordered type and any comparison function that compares by that
  order, any sequence of fewer than \<open>2 ^ 64\<close> insertions and deletions on an empty tree runs without
  overrunning the path arrays, whichever allocations fail, and leaves a sorted and balanced tree; a
  search then finds a key exactly when the last request about it that took effect added it, an
  insertion without memory having no effect.
\<close>

theorem tree_requests:
  assumes "compares cmp" and "length rs < 2 ^ 64"
  shows "\<exists>t. run_requests (tree_add cmp) (tree_remove cmp) rs Null = Some t \<and> search_tree t \<and>
    (\<forall>x. tfind cmp x t \<noteq> Null \<longleftrightarrow> x \<in> requested rs {})"
  by (rule ordered_tree.found_after [OF ordered_tree.intro [OF assms(1)] assms(2)])

definition demo_tree :: "int node" where
  "demo_tree = Node 5 (Node 3 Null Null 1) (Node 8 (Node 7 Null Null 1) (Node 9 Null Null 1) 2) 3"

lemma demo_tree_ok: "search_tree demo_tree" "length (inorder demo_tree) < 2 ^ 64" "set (inorder demo_tree) = {3, 5, 7, 8, 9}"
  by (auto simp: demo_tree_def search_tree_def)

theorem tsearch_keeps_tree_witness:
  "\<exists>t'. tsearch order_cmp True 10 demo_tree = Some (t', Some 10) \<and> search_tree t' \<and> set (inorder t') = {3, 5, 7, 8, 9, 10}"
  using tsearch_keeps_tree [OF order_cmp_compares demo_tree_ok(1,2), of True 10] demo_tree_ok(3)
  by (auto simp: insert_commute)

theorem tdelete_keeps_tree_witness:
  "\<exists>t' p. tdelete order_cmp 3 demo_tree = Some (t', p) \<and> p \<noteq> None \<and> search_tree t' \<and> set (inorder t') = {5, 7, 8, 9}"
  using tdelete_keeps_tree [OF order_cmp_compares demo_tree_ok(1,2), of 3] demo_tree_ok(3) by fastforce

theorem tree_requests_witness:
  "\<exists>t. run_requests (tree_add order_cmp) (tree_remove order_cmp)
      [Add (1 :: int) True, Add 2 True, Add 3 False, Add 4 True, Remove 2] Null = Some t \<and> search_tree t \<and>
    tfind order_cmp 4 t \<noteq> Null \<and> tfind order_cmp 3 t = Null \<and> tfind order_cmp 2 t = Null"
proof -
  let ?rs = "[Add (1 :: int) True, Add 2 True, Add 3 False, Add 4 True, Remove 2]"
  have "4 \<in> requested ?rs {}" "3 \<notin> requested ?rs {}" "2 \<notin> requested ?rs {}" by simp_all
  moreover have "length ?rs < 2 ^ 64" by simp
  note tree_requests [OF order_cmp_compares this]
  ultimately show ?thesis by blast
qed

end
