(* ===== verification/Musl_Hsearch.thy ===== *)
theory Musl_Hsearch
  imports C_Prelude "HOL-Library.Monad_Syntax"
begin

text \<open>
  The hash table of musl, \<^verbatim>\<open>search/hsearch.c\<close>: open addressing with quadratic probing in a table
  whose size is a power of two.

  A slot is \<open>None\<close> when its key pointer is null.  The probe loop has no bound of its own; it is a
  partial function, \<open>None\<close> being a loop that never ends, and it is shown to end because the table
  always keeps a free slot and the probe sequence visits every slot.  \<open>ok\<close> arguments are the
  results of \<^verbatim>\<open>calloc\<close>.
\<close>

section \<open>The table\<close>

type_synonym 'd entry = "(byte list \<times> 'd) option"

record 'd htab =
  entries :: "'d entry list"
  mask :: u64
  used :: u64

definition MINSIZE :: u64 where "MINSIZE = 8"
definition MAXSIZE :: u64 where "MAXSIZE = (- 1) div 2 + 1"

definition keyhash :: "byte list \<Rightarrow> u64" where
  "keyhash k = foldl (\<lambda>h c. 31 * h + ucast c) 0 k"

text \<open>\<^verbatim>\<open>for (i=hash,j=1; ; i+=j++)\<close> until the slot satisfies \<open>stop\<close>.\<close>

partial_function (option) probe :: "('d entry \<Rightarrow> bool) \<Rightarrow> 'd entry list \<Rightarrow> u64 \<Rightarrow> u64 \<Rightarrow> u64 \<Rightarrow> nat option" where
  "probe stop tab m i j =
     (let e = unat (i AND m) in if stop (tab ! e) then Some e else probe stop tab m (i + j) (j + 1))"

declare probe.simps [code]

definition lookup :: "byte list \<Rightarrow> u64 \<Rightarrow> 'd htab \<Rightarrow> nat option" where
  "lookup key hash t =
     probe (\<lambda>e. case e of None \<Rightarrow> True | Some (k, d) \<Rightarrow> k = key) (entries t) (mask t) hash 1"

text \<open>\<^verbatim>\<open>for (newsize = MINSIZE; newsize < nel; newsize *= 2);\<close> (a loop that wraps around does not end).\<close>

partial_function (option) grow :: "u64 \<Rightarrow> u64 \<Rightarrow> u64 option" where
  "grow nel newsize = (if newsize < nel then grow nel (newsize * 2) else Some newsize)"

declare grow.simps [code]

definition reinsert :: "u64 \<Rightarrow> 'd entry list \<Rightarrow> byte list \<times> 'd \<Rightarrow> 'd entry list option" where
  "reinsert m tab e = do { i \<leftarrow> probe (\<lambda>e. e = None) tab m (keyhash (fst e)) 1; Some (tab[i := Some e]) }"

fun reinsert_all :: "u64 \<Rightarrow> 'd entry list \<Rightarrow> 'd entry list \<Rightarrow> 'd entry list option" where
  "reinsert_all m tab [] = Some tab"
| "reinsert_all m tab (None # es) = reinsert_all m tab es"
| "reinsert_all m tab (Some e # es) = do { tab \<leftarrow> reinsert m tab e; reinsert_all m tab es }"

text \<open>The result tells whether the allocation succeeded; \<open>[]\<close> stands for a table without entries.\<close>

definition resize :: "bool \<Rightarrow> u64 \<Rightarrow> 'd htab \<Rightarrow> ('d htab \<times> bool) option" where
  "resize ok nel t =
     do { newsize \<leftarrow> grow (if nel > MAXSIZE then MAXSIZE else nel) MINSIZE;
          if \<not> ok then Some (t, False)
          else
            let m = newsize - 1; new = replicate (unat newsize) None in
            do { new \<leftarrow> reinsert_all m new (entries t);
                 Some (t\<lparr>entries := new, mask := m\<rparr>, True) } }"

definition hcreate_r :: "bool \<Rightarrow> bool \<Rightarrow> u64 \<Rightarrow> 'd htab option option" where
  "hcreate_r ok1 ok2 nel =
     (if \<not> ok1 then Some None
      else do { (t, r) \<leftarrow> resize ok2 nel \<lparr>entries = [], mask = 0, used = 0\<rparr>;
                Some (if r then Some t else None) })"

definition hdestroy_r :: "'d htab option \<Rightarrow> 'd htab option" where
  "hdestroy_r t = None"

datatype ACTION = FIND | ENTER

definition hsearch_r :: "bool \<Rightarrow> byte list \<times> 'd \<Rightarrow> ACTION \<Rightarrow> 'd htab \<Rightarrow> ('d htab \<times> 'd entry) option" where
  "hsearch_r ok item action t =
     (let hash = keyhash (fst item) in
      do { e \<leftarrow> lookup (fst item) hash t;
           if entries t ! e \<noteq> None then Some (t, entries t ! e)
           else if action = FIND then Some (t, None)
           else
             let t = t\<lparr>entries := (entries t)[e := Some item], used := used t + 1\<rparr> in
             if used t > mask t - mask t div 4 then
               do { (t', r) \<leftarrow> resize ok (2 * used t) t;
                    if \<not> r then Some (t'\<lparr>used := used t' - 1, entries := (entries t')[e := None]\<rparr>, None)
                    else do { e \<leftarrow> lookup (fst item) hash t'; Some (t', entries t' ! e) } }
             else Some (t, entries t ! e) })"

section \<open>The probe sequence\<close>

definition tri :: "nat \<Rightarrow> nat" where
  "tri t = t * (t + 1) div 2"

lemma tri_Suc: "tri (Suc t) = tri t + Suc t"
proof -
  have "Suc t * (Suc t + 1) = t * (t + 1) + 2 * Suc t" by simp
  then show ?thesis unfolding tri_def by (simp only: div_mult_self2)
qed

definition slot :: "nat \<Rightarrow> u64 \<Rightarrow> nat \<Rightarrow> nat" where
  "slot n h t = (unat h + tri t) mod 2 ^ n"

lemma two_tri: "2 * tri t = t * (t + 1)"
proof -
  have "even (t * (t + 1))" by simp
  then show ?thesis unfolding tri_def by (rule dvd_mult_div_cancel)
qed

text \<open>Within the first \<open>2 ^ n\<close> probes no slot is visited twice.\<close>

lemma tri_mono: "a \<le> b \<Longrightarrow> tri a \<le> tri b"
  by (rule lift_Suc_mono_le [of tri]) (simp_all add: tri_Suc)

lemma tri_diff: "a \<le> b \<Longrightarrow> 2 * (tri b - tri a) = (b - a) * (b + a + 1)"
  unfolding diff_mult_distrib2 two_tri
proof -
  assume "a \<le> b"
  then obtain d where "b = a + d" using le_Suc_ex by blast
  then show "b * (b + 1) - a * (a + 1) = (b - a) * (b + a + 1)" by (simp add: algebra_simps)
qed

text \<open>Within the first \<open>2 ^ n\<close> probes no slot is visited twice.\<close>

lemma slot_inj:
  assumes "a < b" and "b < 2 ^ n"
  shows "slot n h a \<noteq> slot n h b"
proof
  assume "slot n h a = slot n h b"
  then have "2 ^ n dvd (unat h + tri b) - (unat h + tri a)"
    unfolding slot_def using tri_mono [of a b] assms(1) by (intro mod_eq_dvd_iff_nat [THEN iffD1]) simp_all
  then have "2 * 2 ^ n dvd 2 * (tri b - tri a)" by simp
  then have d: "2 ^ Suc n dvd (b - a) * (b + a + 1)" using tri_diff [of a b] assms(1) by simp
  show False
  proof (cases "even (b - a)")
    case True
    then have "odd (b + a + 1)" using assms(1) by simp
    then have "coprime (2 ^ Suc n) (b + a + 1)" by simp
    then have "2 ^ Suc n dvd b - a" using d coprime_dvd_mult_left_iff by blast
    then show False using assms by (auto dest: dvd_imp_le)
  next
    case False
    then have "coprime (2 ^ Suc n) (b - a)" by simp
    then have "2 ^ Suc n dvd b + a + 1" using d coprime_dvd_mult_right_iff by blast
    then show False using assms by (auto dest: dvd_imp_le)
  qed
qed

lemma slots_all: "(\<lambda>t. slot n h t) ` {..<2 ^ n} = {..<2 ^ n}"
proof (rule endo_inj_surj)
  show "slot n h ` {..<2 ^ n} \<subseteq> {..<2 ^ n}" by (auto simp: slot_def)
  show "inj_on (slot n h) {..<2 ^ n}"
    by (rule linorder_inj_onI) (use slot_inj in auto)
qed simp

lemma slot_hit: "s < 2 ^ n \<Longrightarrow> \<exists>t < 2 ^ n. slot n h t = s"
  using slots_all [of n h] by (metis (mono_tags) image_iff lessThan_iff)

text \<open>The slot the machine arithmetic computes at step \<open>t\<close>.\<close>

lemma masked_index: "n \<le> 64 \<Longrightarrow> m = 2 ^ n - 1 \<Longrightarrow> unat ((i :: u64) AND m) = unat i mod 2 ^ n"
proof -
  assume "n \<le> 64" "m = 2 ^ n - 1"
  then have e: "i AND m = take_bit n i" by (simp add: take_bit_eq_mask mask_eq_exp_minus_1)
  show ?thesis unfolding e unsigned_take_bit_eq by (rule take_bit_eq_mod)
qed

lemma step_index:
  assumes "n \<le> 64" and "m = 2 ^ n - 1"
  shows "unat ((h + of_nat (tri t)) AND m) = slot n h t"
proof -
  have "unat (h + of_nat (tri t) :: u64) = (unat h + tri t) mod 2 ^ 64"
    by (simp add: unat_word_ariths unat_of_nat mod_simps)
  moreover have "(2 :: nat) ^ n dvd 2 ^ 64" using assms(1) by (rule le_imp_power_dvd)
  ultimately show ?thesis unfolding masked_index [OF assms] slot_def by (simp only: mod_mod_cancel)
qed

lemma probe_finds:
  assumes "n \<le> 64" and "m = 2 ^ n - 1" and "stop (tab ! slot n h t)" and "\<forall>u < t. \<not> stop (tab ! slot n h u)"
  shows "probe stop tab m h 1 = Some (slot n h t)"
proof -
  have "probe stop tab m (h + of_nat (tri u)) (of_nat (Suc u)) = Some (slot n h t)" if "u \<le> t" for u
    using that
  proof (induction u rule: inc_induct)
    case base
    then show ?case using assms(3) by (subst probe.simps) (simp only: step_index [OF assms(1,2)] Let_def if_True)
  next
    case (step u)
    have next_probe: "h + of_nat (tri u) + of_nat (Suc u) = h + of_nat (tri (Suc u))" "of_nat (Suc u) + 1 = (of_nat (Suc (Suc u)) :: u64)"
      by (simp_all add: tri_Suc)
    show ?case using step assms(4)
      by (subst probe.simps) (simp only: step_index [OF assms(1,2)] Let_def if_False next_probe)
  qed
  from this [of 0] show ?thesis by (simp add: tri_def)
qed

text \<open>The first probe that satisfies \<open>stop\<close>: it exists when some slot does.\<close>

lemma probe_returns:
  assumes "n \<le> 64" and "m = 2 ^ n - 1" and "s < 2 ^ n" and "stop (tab ! s)"
  obtains t where "t < 2 ^ n" "probe stop tab m h 1 = Some (slot n h t)" "stop (tab ! slot n h t)"
    "\<forall>u < t. \<not> stop (tab ! slot n h u)"
proof -
  obtain t0 where t0: "t0 < 2 ^ n" "stop (tab ! slot n h t0)" 
    using slot_hit [OF assms(3), of h] assms(4) by auto
  define P where "P = (\<lambda>t. stop (tab ! slot n h t))"
  define t where "t = (LEAST t. P t)"
  have P: "P t0" using t0(2) by (simp add: P_def)
  have t: "P t" "t \<le> t0" "\<forall>u < t. \<not> P u"
    unfolding t_def using LeastI [of P, OF P] Least_le [of P, OF P] not_less_Least [of _ P] by blast+
  have "probe stop tab m h 1 = Some (slot n h t)"
    by (rule probe_finds [OF assms(1,2)]) (use t in \<open>simp_all add: P_def\<close>)
  then show thesis using that [of t] t t0(1) by (simp add: P_def)
qed

section \<open>The table as a map\<close>

definition holds :: "'d entry list \<Rightarrow> byte list \<rightharpoonup> 'd" where
  "holds tab = map_of (List.map_filter id tab)"

text \<open>A slot is reached: the probes of its key before it find occupied slots.\<close>

definition reached :: "nat \<Rightarrow> 'd entry list \<Rightarrow> nat \<Rightarrow> bool" where
  "reached n tab s \<longleftrightarrow>
     (case tab ! s of None \<Rightarrow> True
      | Some (k, d) \<Rightarrow> \<exists>t < 2 ^ n. slot n (keyhash k) t = s \<and> (\<forall>u < t. tab ! slot n (keyhash k) u \<noteq> None))"

definition table :: "nat \<Rightarrow> 'd entry list \<Rightarrow> bool" where
  "table n tab \<longleftrightarrow> length tab = 2 ^ n \<and> (\<forall>s < 2 ^ n. reached n tab s) \<and>
     (\<forall>s < 2 ^ n. \<forall>s' < 2 ^ n. \<forall>k d d'. tab ! s = Some (k, d) \<longrightarrow> tab ! s' = Some (k, d') \<longrightarrow> s = s')"

lemma map_filter_id: "List.map_filter id (x # tab) = (case x of None \<Rightarrow> List.map_filter id tab | Some e \<Rightarrow> e # List.map_filter id tab)"
  by (simp add: List.map_filter_def split: option.split)

lemma holdsD: "holds tab k = Some d \<Longrightarrow> Some (k, d) \<in> set tab"
  unfolding holds_def by (auto simp: List.map_filter_def dest!: map_of_SomeD)

lemma holds_iff:
  assumes "table n tab"
  shows "holds tab k = Some d \<longleftrightarrow> Some (k, d) \<in> set tab"
proof
  assume "Some (k, d) \<in> set tab"
  then have m: "(k, d) \<in> set (List.map_filter id tab)" by (force simp: List.map_filter_def)
  then obtain d' where d': "holds tab k = Some d'"
    unfolding holds_def by (metis map_of_eq_None_iff fst_conv image_eqI not_None_eq)
  from holdsD [OF this] obtain s' where s': "s' < length tab" "tab ! s' = Some (k, d')" by (auto simp: in_set_conv_nth)
  from \<open>Some (k, d) \<in> set tab\<close> obtain s where s: "s < length tab" "tab ! s = Some (k, d)" by (auto simp: in_set_conv_nth)
  have "s = s'" using assms s s' unfolding table_def by metis
  then show "holds tab k = Some d" using s s' d' by simp
qed (rule holdsD)

lemma holds_None_iff:
  assumes "table n tab"
  shows "holds tab k = None \<longleftrightarrow> (\<forall>d. Some (k, d) \<notin> set tab)"
  using holds_iff [OF assms, of k] by (cases "holds tab k") auto

text \<open>Looking up a key in a table with a free slot: its slot, or a free one in its probe sequence.\<close>

lemma lookup_spec:
  assumes "table n (entries t)" and "n \<le> 63" and "htab.mask t = 2 ^ n - 1" and "s < 2 ^ n" and "entries t ! s = None"
  obtains u where "u < 2 ^ n" "lookup k (keyhash k) t = Some (slot n (keyhash k) u)"
    "\<forall>v < u. entries t ! slot n (keyhash k) v \<noteq> None"
    "entries t ! slot n (keyhash k) u = map_option (Pair k) (holds (entries t) k)"
proof -
  let ?tab = "entries t" and ?stop = "\<lambda>e. case e of None \<Rightarrow> True | Some (k', d) \<Rightarrow> k' = k"
  let ?slot = "slot n (keyhash k)"
  have n: "n \<le> 64" and s: "?stop (?tab ! s)" using assms(2,5) by simp_all
  obtain u where u: "u < 2 ^ n" "lookup k (keyhash k) t = Some (?slot u)" "?stop (?tab ! ?slot u)"
    "\<forall>v < u. \<not> ?stop (?tab ! ?slot v)"
    unfolding lookup_def by (rule probe_returns [OF n assms(3,4), of ?stop ?tab "keyhash k", OF s])
  have occ: "\<forall>v < u. ?tab ! ?slot v \<noteq> None"
  proof (intro allI impI notI)
    fix v assume "v < u" "?tab ! ?slot v = None"
    then show False using spec [OF u(4), of v] by simp
  qed
  have len: "?slot v < length ?tab" for v using assms(1) by (simp add: table_def slot_def)
  have "?tab ! ?slot u = map_option (Pair k) (holds ?tab k)"
  proof (cases "?tab ! ?slot u")
    case (Some e)
    then obtain d where d: "?tab ! ?slot u = Some (k, d)" using u(3) by (cases e) auto
    then have "Some (k, d) \<in> set ?tab" using len nth_mem by metis
    then show ?thesis using d holds_iff [OF assms(1), of k d] by simp
  next
    case None
    have "holds ?tab k = None"
    proof (rule ccontr)
      assume "holds ?tab k \<noteq> None"
      then obtain d where "Some (k, d) \<in> set ?tab" using holds_iff [OF assms(1)] by blast
      then obtain s' where s': "s' < 2 ^ n" "?tab ! s' = Some (k, d)"
        using assms(1) by (auto simp: in_set_conv_nth table_def)
      have "reached n ?tab s'" using assms(1) s'(1) by (simp add: table_def)
      then obtain v where v: "v < 2 ^ n" "?slot v = s'" "\<forall>w < v. ?tab ! ?slot w \<noteq> None"
        unfolding reached_def s'(2) by auto
      have "\<not> v < u" using u(4) v(2) s'(2) by auto
      moreover have "\<not> u < v" using v(3) None by auto
      ultimately show False using v(2) s'(2) None by (simp add: not_less)
    qed
    then show ?thesis using None by simp
  qed
  then show thesis using that u occ by blast
qed

section \<open>Filling slots\<close>

definition occ :: "'d entry list \<Rightarrow> nat" where
  "occ tab = length (filter (\<lambda>e. e \<noteq> None) tab)"

lemma occ_simps [simp]:
  "occ [] = 0" "occ (None # es) = occ es" "occ (Some e # es) = Suc (occ es)" "occ (replicate n None) = 0"
  by (simp_all add: occ_def)

lemma free_slot:
  assumes "occ tab < length tab"
  obtains s where "s < length tab" "tab ! s = None"
proof -
  have "\<exists>e \<in> set tab. e = None"
  proof (rule ccontr)
    assume "\<not> (\<exists>e \<in> set tab. e = None)"
    then have "filter (\<lambda>e. e \<noteq> None) tab = tab" by (intro filter_True) metis
    then show False using assms by (simp add: occ_def)
  qed
  then show thesis using that by (auto simp: in_set_conv_nth)
qed

lemma occ_update: "i < length tab \<Longrightarrow> tab ! i = None \<Longrightarrow> occ (tab[i := Some e]) = Suc (occ tab)"
proof (induction tab arbitrary: i)
  case (Cons a tab)
  then show ?case by (cases i) (auto simp: occ_def)
qed simp

text \<open>Filling the free slot a lookup ended at keeps the table; clearing it again restores the old one.\<close>

lemma table_insert:
  assumes "table n tab" and "u < 2 ^ n" and "tab ! slot n (keyhash k) u = None"
    and "\<forall>v < u. tab ! slot n (keyhash k) v \<noteq> None" and "holds tab k = None"
    and tab'_def: "tab' = tab[slot n (keyhash k) u := Some (k, d)]"
  shows "table n tab'" and "holds tab' = (holds tab)(k \<mapsto> d)" and "occ tab' = Suc (occ tab)"
proof -
  let ?i = "slot n (keyhash k) u"
  have len: "length tab = 2 ^ n" "?i < 2 ^ n" using assms(1) by (simp_all add: table_def slot_def)
  have nth: "tab' ! s = (if s = ?i then Some (k, d) else tab ! s)" if "s < 2 ^ n" for s
    using that len by (simp add: tab'_def nth_list_update)
  have fresh: "tab ! s \<noteq> Some (k, e)" if "s < 2 ^ n" for s e
    using assms(5) holds_None_iff [OF assms(1), of k] that len(1) nth_mem [of s tab] by metis
  have more: "tab ! s \<noteq> None \<Longrightarrow> s < 2 ^ n \<Longrightarrow> tab' ! s \<noteq> None" for s using nth by simp
  have slots: "slot n h v < 2 ^ n" for h v by (simp add: slot_def)
  have "reached n tab' s" if s: "s < 2 ^ n" for s
  proof (cases "s = ?i")
    case True
    then show ?thesis using assms(2,4) nth [OF s] more slots by (auto simp: reached_def)
  next
    case False
    have r: "reached n tab s" using assms(1) s by (simp add: table_def)
    show ?thesis
    proof (cases "tab ! s")
      case None
      then show ?thesis using False nth [OF s] by (simp add: reached_def)
    next
      case (Some p)
      then obtain x e where p: "tab ! s = Some (x, e)" by (cases p) auto
      then obtain t where "t < 2 ^ n" "slot n (keyhash x) t = s" "\<forall>v < t. tab ! slot n (keyhash x) v \<noteq> None"
        using r by (auto simp: reached_def)
      then show ?thesis using False nth [OF s] p more slots by (auto simp: reached_def)
    qed
  qed
  moreover have "s = s'" if "s < 2 ^ n" "s' < 2 ^ n" "tab' ! s = Some (x, e)" "tab' ! s' = Some (x, e')" for s s' x e e'
  proof (cases "s = ?i \<or> s' = ?i")
    case True
    then show ?thesis using that nth fresh by (auto split: if_splits)
  next
    case False
    then show ?thesis using that nth assms(1) unfolding table_def by (metis (full_types))
  qed
  moreover have "length tab' = 2 ^ n" using len(1) by (simp add: tab'_def)
  ultimately show t: "table n tab'" unfolding table_def by blast
  have "Some (x, e) \<in> set tab' \<longleftrightarrow> (x, e) = (k, d) \<or> Some (x, e) \<in> set tab" for x e
  proof
    assume "Some (x, e) \<in> set tab'"
    then show "(x, e) = (k, d) \<or> Some (x, e) \<in> set tab"
      unfolding tab'_def using set_update_subset_insert [of tab ?i "Some (k, d)"] by blast
  next
    assume "(x, e) = (k, d) \<or> Some (x, e) \<in> set tab"
    then show "Some (x, e) \<in> set tab'"
    proof
      assume "(x, e) = (k, d)"
      then show ?thesis using len set_update_memI [of ?i tab] by (simp add: tab'_def)
    next
      assume "Some (x, e) \<in> set tab"
      then obtain s where s: "s < 2 ^ n" "tab ! s = Some (x, e)" using len(1) by (auto simp: in_set_conv_nth)
      then have "tab' ! s = Some (x, e)" using nth assms(3) by auto
      then show ?thesis using s(1) len(1) nth_mem [of s tab'] by (simp add: tab'_def)
    qed
  qed
  then have "holds tab' x = Some e \<longleftrightarrow> ((holds tab)(k \<mapsto> d)) x = Some e" for x e
    using holds_iff [OF t] holds_iff [OF assms(1)] assms(5) holds_None_iff [OF assms(1), of k] by auto
  then show "holds tab' = (holds tab)(k \<mapsto> d)" by (intro ext) (metis not_None_eq)
  show "occ tab' = Suc (occ tab)" unfolding tab'_def using len assms(3) by (intro occ_update) simp_all
qed

lemma reinsert_spec:
  assumes "table n tab" and "n \<le> 63" and "m = 2 ^ n - 1" and "occ tab < 2 ^ n" and "holds tab k = None"
  obtains tab' where "reinsert m tab (k, d) = Some tab'" "table n tab'" "holds tab' = (holds tab)(k \<mapsto> d)"
    "occ tab' = Suc (occ tab)"
proof -
  have len: "length tab = 2 ^ n" using assms(1) by (simp add: table_def)
  obtain s where s: "s < 2 ^ n" "tab ! s = None" using free_slot [of tab] assms(4) len by auto
  have n: "n \<le> 64" using assms(2) by simp
  obtain u where u: "u < 2 ^ n" "probe (\<lambda>e. e = None) tab m (keyhash k) 1 = Some (slot n (keyhash k) u)"
    "tab ! slot n (keyhash k) u = None" "\<forall>v < u. \<not> tab ! slot n (keyhash k) v = None"
    by (rule probe_returns [OF n assms(3) s(1), of "\<lambda>e. e = None" tab "keyhash k", OF s(2)])
  show thesis
    by (rule that [OF _ table_insert [OF assms(1) u(1,3) u(4) assms(5) refl]])
      (simp add: reinsert_def u(2))
qed

text \<open>Entries with different keys, none of them in the table yet, can all be put into it.\<close>

fun distinct_keys :: "'d entry list \<Rightarrow> bool" where
  "distinct_keys [] \<longleftrightarrow> True"
| "distinct_keys (None # es) \<longleftrightarrow> distinct_keys es"
| "distinct_keys (Some (k, d) # es) \<longleftrightarrow> (\<forall>d'. Some (k, d') \<notin> set es) \<and> distinct_keys es"

lemma reinsert_all_spec:
  "table n tab \<Longrightarrow> n \<le> 63 \<Longrightarrow> m = 2 ^ n - 1 \<Longrightarrow> occ tab + occ es \<le> 2 ^ n \<Longrightarrow> distinct_keys es \<Longrightarrow>
   \<forall>k d. Some (k, d) \<in> set es \<longrightarrow> holds tab k = None \<Longrightarrow>
   \<exists>tab'. reinsert_all m tab es = Some tab' \<and> table n tab' \<and> occ tab' = occ tab + occ es \<and> holds tab' = holds tab ++ holds es"
proof (induction m tab es rule: reinsert_all.induct)
  case (1 m tab)
  then show ?case by (simp add: holds_def)
next
  case (2 m tab es)
  then show ?case by (simp add: holds_def map_filter_id)
next
  case (3 m tab e es)
  obtain k d where e: "e = (k, d)" by (cases e)
  have free: "occ tab < 2 ^ n" "holds tab k = None" using "3.prems"(4,6) by (auto simp: e)
  obtain tab1 where t1: "reinsert m tab e = Some tab1" "table n tab1" "holds tab1 = (holds tab)(k \<mapsto> d)" "occ tab1 = Suc (occ tab)"
    unfolding e by (rule reinsert_spec [OF "3.prems"(1-3) free])
  have fresh: "\<forall>d'. Some (k, d') \<notin> set es" "distinct_keys es" using "3.prems"(5) by (simp_all add: e)
  have other: "\<forall>k' d'. Some (k', d') \<in> set es \<longrightarrow> holds tab1 k' = None"
    using "3.prems"(6) fresh(1) t1(3) by auto
  have room: "occ tab1 + occ es \<le> 2 ^ n" using "3.prems"(4) t1(4) by simp
  obtain tab' where t': "reinsert_all m tab1 es = Some tab'" "table n tab'" "occ tab' = occ tab1 + occ es"
    "holds tab' = holds tab1 ++ holds es"
    using "3.IH" [OF t1(1) t1(2) "3.prems"(2,3) room fresh(2) other] by blast
  have "holds es k = None" using fresh(1) holdsD [of es k] by fastforce
  then have "holds tab1 ++ holds es = holds tab ++ holds (Some e # es)"
    unfolding t1(3) by (auto simp: e holds_def map_filter_id map_add_def fun_eq_iff split: option.split)
  then show ?case using t1(1,4) t' by simp
qed

lemma table_distinct: "table n tab \<Longrightarrow> distinct_keys tab"
proof -
  assume t: "table n tab"
  have "distinct_keys es" if "\<And>s s' k d d'. s < length es \<Longrightarrow> s' < length es \<Longrightarrow> es ! s = Some (k, d) \<Longrightarrow> es ! s' = Some (k, d') \<Longrightarrow> s = s'"
    for es :: "'a entry list" using that
  proof (induction es rule: distinct_keys.induct)
    case (2 es)
    then show ?case by (metis Suc_less_eq diff_Suc_1 distinct_keys.simps(2) length_Cons nth_Cons_Suc)
  next
    case (3 k d es)
    have "Some (k, d') \<notin> set es" for d'
    proof
      assume "Some (k, d') \<in> set es"
      then obtain s where "s < length es" "es ! s = Some (k, d')" by (auto simp: in_set_conv_nth)
      then show False using "3.prems" [of 0 "Suc s" k d d'] by simp
    qed
    moreover have "distinct_keys es"
      by (rule "3.IH") (use "3.prems" in \<open>metis Suc_less_eq diff_Suc_1 length_Cons nth_Cons_Suc\<close>)
    ultimately show ?case by simp
  qed simp
  then show ?thesis using t unfolding table_def by (metis (full_types))
qed

lemma empty_table: "table n (replicate (2 ^ n) None)" "holds (replicate l None) = Map.empty"
  by (simp_all add: table_def reached_def holds_def List.map_filter_def)

section \<open>Growing\<close>

lemma MAXSIZE_eq: "MAXSIZE = 2 ^ 63"
  unfolding MAXSIZE_def by code_simp

lemma exp_unat: "n \<le> 63 \<Longrightarrow> unat (2 ^ n :: u64) = 2 ^ n"
proof -
  assume "n \<le> 63"
  then have "(2 :: nat) ^ n < 2 ^ 64" by (intro power_strict_increasing) simp_all
  moreover have "(2 :: u64) ^ n = of_nat (2 ^ n)" by simp
  ultimately show ?thesis by (simp only: unat_of_nat) simp
qed

lemma grow_spec:
  assumes "k \<le> 63" and "nel \<le> 2 ^ 63"
  shows "\<exists>n. k \<le> n \<and> n \<le> 63 \<and> grow nel (2 ^ k) = Some (2 ^ n) \<and> unat nel \<le> 2 ^ n"
  using assms(1)
proof (induction k rule: inc_induct)
  case base
  have "unat nel \<le> 2 ^ 63" using assms(2) exp_unat [of 63] by (simp add: word_le_nat_alt)
  moreover have "\<not> 2 ^ 63 < nel" using assms(2) by (simp only: not_less)
  then have "grow nel (2 ^ 63) = Some (2 ^ 63)" by (subst grow.simps) (simp only: if_False)
  ultimately show ?case by blast
next
  case (step k)
  show ?case
  proof (cases "2 ^ k < nel")
    case True
    then have "grow nel (2 ^ k) = grow nel (2 ^ Suc k)" by (subst grow.simps) (simp add: mult.commute)
    then show ?thesis using step.IH by (metis Suc_leD)
  next
    case False
    then have "grow nel (2 ^ k) = Some (2 ^ k)" by (subst grow.simps) simp
    moreover have "unat nel \<le> 2 ^ k" using False exp_unat [of k] step.hyps by (simp add: not_less word_le_nat_alt)
    ultimately show ?thesis using step.hyps by (intro exI [of _ k]) simp
  qed
qed

lemma resize_spec:
  assumes "distinct_keys (entries t)" and "occ (entries t) \<le> unat nel" and "unat nel \<le> 2 ^ 62"
  shows "resize False nel t = Some (t, False)"
    and "\<exists>n new. resize True nel t = Some (t\<lparr>entries := new, mask := 2 ^ n - 1\<rparr>, True) \<and> 3 \<le> n \<and> n \<le> 63 \<and>
      unat nel \<le> 2 ^ n \<and> table n new \<and> occ new = occ (entries t) \<and> holds new = holds (entries t)"
proof -
  have nel: "nel \<le> 2 ^ 63" using assms(3) exp_unat [of 63] by (simp add: word_le_nat_alt)
  then have m: "(if nel > MAXSIZE then MAXSIZE else nel) = nel" by (simp only: MAXSIZE_eq not_less [symmetric] if_False)
  have "MINSIZE = 2 ^ 3" by (simp add: MINSIZE_def)
  then obtain n where n: "3 \<le> n" "n \<le> 63" "grow nel MINSIZE = Some (2 ^ n)" "unat nel \<le> 2 ^ n"
    using grow_spec [of 3 nel] nel by auto
  show "resize False nel t = Some (t, False)" unfolding resize_def m n(3) by simp
  let ?new = "replicate (2 ^ n) None :: 'a entry list"
  have "\<exists>new. reinsert_all (2 ^ n - 1) ?new (entries t) = Some new \<and> table n new \<and>
      occ new = occ ?new + occ (entries t) \<and> holds new = holds ?new ++ holds (entries t)"
    by (rule reinsert_all_spec [OF empty_table(1) n(2) refl _ assms(1)]) (use assms(2) n(4) in \<open>auto simp: empty_table(2)\<close>)
  then obtain new where "reinsert_all (2 ^ n - 1) ?new (entries t) = Some new" "table n new"
      "occ new = occ (entries t)" "holds new = holds (entries t)" by (auto simp: empty_table(2))
  then show "\<exists>n new. resize True nel t = Some (t\<lparr>entries := new, mask := 2 ^ n - 1\<rparr>, True) \<and> 3 \<le> n \<and> n \<le> 63 \<and>
      unat nel \<le> 2 ^ n \<and> table n new \<and> occ new = occ (entries t) \<and> holds new = holds (entries t)"
    unfolding resize_def m n(3) using n by (intro exI [of _ n] exI [of _ new]) (simp add: exp_unat)
qed

section \<open>The invariant and the operations\<close>

text \<open>Between calls at most three quarters of the slots are used.\<close>

definition wf_table :: "'d htab \<Rightarrow> bool" where
  "wf_table t \<longleftrightarrow> (\<exists>n. 3 \<le> n \<and> n \<le> 63 \<and> table n (entries t) \<and> mask t = 2 ^ n - 1 \<and>
     unat (used t) = occ (entries t) \<and> occ (entries t) \<le> (2 ^ n - 1) - (2 ^ n - 1) div 4)"

definition contents :: "'d htab \<Rightarrow> byte list \<rightharpoonup> 'd" where
  "contents t = holds (entries t)"

lemma mask_unat: "n \<le> 63 \<Longrightarrow> unat (2 ^ n - 1 :: u64) = 2 ^ n - 1"
proof -
  assume n: "n \<le> 63"
  have "(1 :: u64) \<le> 2 ^ n" using exp_unat [OF n] by (simp add: word_le_nat_alt)
  then show ?thesis using exp_unat [OF n] by (simp add: unat_sub)
qed

lemma threshold:
  assumes "n \<le> 63" and "m = (2 ^ n - 1 :: u64)"
  shows "x > m - m div 4 \<longleftrightarrow> unat x > (2 ^ n - 1) - (2 ^ n - 1) div 4"
proof -
  have "m div 4 \<le> m" by (simp add: word_le_nat_alt unat_div)
  then have "unat (m - m div 4) = (2 ^ n - 1) - (2 ^ n - 1) div 4"
    using mask_unat [OF assms(1)] assms(2) by (simp add: unat_sub unat_div)
  then show ?thesis by (simp add: word_less_nat_alt)
qed

lemma below_threshold: "3 \<le> n \<Longrightarrow> 2 * x \<le> 2 ^ n \<Longrightarrow> x \<le> (2 ^ n - 1) - (2 ^ n - 1) div (4 :: nat)"
proof -
  assume "3 \<le> n" "2 * x \<le> 2 ^ n"
  moreover have "(8 :: nat) \<le> 2 ^ n" using power_increasing [OF \<open>3 \<le> n\<close>, of "2 :: nat"] by simp
  ultimately show ?thesis by linarith
qed

lemma hcreate_spec:
  fixes t :: "'d htab"
  assumes "unat nel \<le> 2 ^ 62"
  shows "hcreate_r True True nel = Some (Some t) \<Longrightarrow> wf_table t \<and> contents t = Map.empty"
    and "\<exists>t :: 'd htab. hcreate_r ok1 ok2 nel = Some (if ok1 \<and> ok2 then Some t else None)"
proof -
  let ?t = "\<lparr>entries = [], mask = 0, used = 0\<rparr> :: 'd htab"
  have t: "distinct_keys (entries ?t)" "occ (entries ?t) \<le> unat nel" by simp_all
  note r = resize_spec [OF t assms]
  obtain n new where n: "resize True nel ?t = Some (?t\<lparr>entries := new, mask := 2 ^ n - 1\<rparr>, True)" "3 \<le> n" "n \<le> 63"
    "table n new" "occ new = 0" "holds new = holds []" using r(2) by auto
  show "wf_table t \<and> contents t = Map.empty" if "hcreate_r True True nel = Some (Some t)"
  proof -
    have t: "t = ?t\<lparr>entries := new, mask := 2 ^ n - 1\<rparr>" using that n(1) by (simp add: hcreate_r_def)
    show ?thesis unfolding t using n by (auto simp: wf_table_def contents_def holds_def List.map_filter_def)
  qed
  show "\<exists>t :: 'd htab. hcreate_r ok1 ok2 nel = Some (if ok1 \<and> ok2 then Some t else None)"
    using r(1) n(1) by (cases ok1; cases ok2) (simp_all add: hcreate_r_def)
qed

text \<open>\<open>ENTER\<close> with a key that is not there: the free slot \<open>u\<close> of the lookup is filled, and the table may grow.\<close>

lemma hsearch_enter:
  assumes n: "3 \<le> n" "n \<le> 63" "table n (entries t)" "mask t = 2 ^ n - 1" "unat (used t) = occ (entries t)"
    and small: "occ (entries t) < 2 ^ 60"
    and u: "u < 2 ^ n" "lookup k (keyhash k) t = Some (slot n (keyhash k) u)"
      "\<forall>v < u. entries t ! slot n (keyhash k) v \<noteq> None"
    and e: "entries t ! slot n (keyhash k) u = None" "holds (entries t) k = None"
    and ok: "ok \<or> \<not> used t + 1 > mask t - mask t div 4"
  shows "\<exists>t'. wf_table t' \<and> hsearch_r ok (k, d) ENTER t = Some (t', Some (k, d)) \<and> contents t' = (contents t)(k \<mapsto> d)"
proof -
  let ?i = "slot n (keyhash k) u"
  have i: "?i < length (entries t)" using n(3) by (simp add: table_def slot_def)
  note ins = table_insert [OF n(3) u(1) e(1) u(3) e(2) refl, of d]
  let ?t = "t\<lparr>entries := (entries t)[?i := Some (k, d)], used := used t + 1\<rparr>"
  have used1: "unat (used t + 1) = Suc (occ (entries t))" using n(5) small by (simp add: unat_word_ariths)
  show ?thesis
  proof (cases "used t + 1 > mask t - mask t div 4")
    case False
    have "Suc (occ (entries t)) \<le> (2 ^ n - 1) - (2 ^ n - 1) div 4"
      using False threshold [OF n(2,4), of "used t + 1"] used1 by (simp only: not_less)
    then have w: "wf_table ?t" unfolding wf_table_def using n ins(1,3) used1 by (intro exI [of _ n]) simp
    show ?thesis using False w u(2) e(1) ins(2) i
      by (intro exI [of _ ?t]) (simp add: hsearch_r_def contents_def)
  next
    case True
    have nel: "unat (2 * (used t + 1)) = 2 * Suc (occ (entries t))"
      using n(5) small by (simp add: unat_word_ariths)
    have r: "distinct_keys (entries ?t)" "occ (entries ?t) \<le> unat (2 * (used t + 1))" "unat (2 * (used t + 1)) \<le> 2 ^ 62"
      using table_distinct [OF ins(1)] ins(3) nel small by simp_all
    obtain n' new where n': "resize True (2 * (used t + 1)) ?t = Some (?t\<lparr>entries := new, mask := 2 ^ n' - 1\<rparr>, True)"
      "3 \<le> n'" "n' \<le> 63" "unat (2 * (used t + 1)) \<le> 2 ^ n'" "table n' new" "occ new = occ (entries ?t)"
      "holds new = holds (entries ?t)" using resize_spec(2) [OF r] by auto
    let ?t' = "?t\<lparr>entries := new, mask := 2 ^ n' - 1\<rparr>"
    have below: "occ new \<le> (2 ^ n' - 1) - (2 ^ n' - 1) div 4"
      by (rule below_threshold [OF n'(2)]) (use n'(4,6) nel ins(3) in simp)
    have w: "wf_table ?t'" unfolding wf_table_def using n' below used1 ins(3) by (intro exI [of _ n']) simp
    have len': "length new = 2 ^ n'" using n'(5) by (simp add: table_def)
    have "occ new < 2 ^ n'" using n'(4,6) nel ins(3) by simp
    then obtain s' where s': "s' < 2 ^ n'" "new ! s' = None" using free_slot [of new] len' by auto
    obtain u' where u': "lookup k (keyhash k) ?t' = Some (slot n' (keyhash k) u')"
      "entries ?t' ! slot n' (keyhash k) u' = map_option (Pair k) (holds (entries ?t') k)"
      using lookup_spec [of n' ?t' s' k] n'(3,5) s' by auto
    have c: "contents ?t' = (contents t)(k \<mapsto> d)" using n'(7) ins(2) by (simp add: contents_def)
    have "hsearch_r ok (k, d) ENTER t = Some (?t', Some (k, d))"
      using True ok u(2) e(1) n'(1) u' n'(7) ins(2) by (simp add: hsearch_r_def)
    then show ?thesis using w c by (intro exI [of _ ?t']) simp
  qed
qed

lemma hsearch_no_memory:
  assumes "table n (entries t)" "unat (used t) = occ (entries t)" "occ (entries t) < 2 ^ 60"
    and u: "u < 2 ^ n" "lookup k (keyhash k) t = Some (slot n (keyhash k) u)"
      "\<forall>v < u. entries t ! slot n (keyhash k) v \<noteq> None"
    and e: "entries t ! slot n (keyhash k) u = None" "holds (entries t) k = None"
    and full: "used t + 1 > mask t - mask t div 4"
  shows "hsearch_r False (k, d) ENTER t = Some (t, None)"
proof -
  let ?t = "t\<lparr>entries := (entries t)[slot n (keyhash k) u := Some (k, d)], used := used t + 1\<rparr>"
  note ins = table_insert [OF assms(1) u(1) e(1) u(3) e(2) refl, of d]
  have "unat (2 * (used t + 1)) = 2 * Suc (occ (entries t))" using assms(2,3) by (simp add: unat_word_ariths)
  then have r: "distinct_keys (entries ?t)" "occ (entries ?t) \<le> unat (2 * (used t + 1))" "unat (2 * (used t + 1)) \<le> 2 ^ 62"
    using table_distinct [OF ins(1)] ins(3) assms(3) by simp_all
  have "(entries t)[slot n (keyhash k) u := None] = entries t" using e(1) list_update_id by metis
  then show ?thesis using full u(2) e(1) resize_spec(1) [OF r] by (simp add: hsearch_r_def)
qed

section \<open>Properties\<close>

text \<open>
  C31.  The hash table is a map: \<open>hsearch_r\<close> always returns (the probe loops end because a slot stays
  free), \<open>FIND\<close> reports exactly the entries present, \<open>ENTER\<close> of a known key returns the old entry and
  changes nothing, \<open>ENTER\<close> of a new key adds it and keeps all others, through any rehash, and fails
  only when memory for a larger table is missing, leaving the table as it was.
\<close>

theorem hsearch_is_map:
  assumes "wf_table t" and "unat (used t) < 2 ^ 60"
  shows "\<exists>t' r. hsearch_r ok (k, d) act t = Some (t', r) \<and> wf_table t' \<and>
    (case contents t k of
       Some d' \<Rightarrow> t' = t \<and> r = Some (k, d')
     | None \<Rightarrow>
         if act = FIND then t' = t \<and> r = None
         else r = Some (k, d) \<and> contents t' = (contents t)(k \<mapsto> d) \<or> r = None \<and> \<not> ok \<and> t' = t)"
proof -
  obtain n where n: "3 \<le> n" "n \<le> 63" "table n (entries t)" "mask t = 2 ^ n - 1" "unat (used t) = occ (entries t)"
    "occ (entries t) \<le> (2 ^ n - 1) - (2 ^ n - 1) div 4" using assms(1) by (auto simp: wf_table_def)
  have len: "length (entries t) = 2 ^ n" and small: "occ (entries t) < 2 ^ 60"
    using n(3,5) assms(2) by (simp_all add: table_def)
  have "(2 ^ n - 1) - (2 ^ n - 1) div 4 < (2 ^ n :: nat)"
    by (metis diff_less less_imp_diff_less zero_less_numeral zero_less_one zero_less_power)
  with n(6) have "occ (entries t) < 2 ^ n" by (rule le_less_trans)
  then obtain s where s: "s < 2 ^ n" "entries t ! s = None" using free_slot [of "entries t"] len by auto
  obtain u where u: "u < 2 ^ n" "lookup k (keyhash k) t = Some (slot n (keyhash k) u)"
    "\<forall>v < u. entries t ! slot n (keyhash k) v \<noteq> None"
    "entries t ! slot n (keyhash k) u = map_option (Pair k) (holds (entries t) k)"
    by (rule lookup_spec [OF n(3,2,4) s])
  show ?thesis
  proof (cases "contents t k")
    case (Some d')
    then show ?thesis using assms(1) u(2,4) by (simp add: hsearch_r_def contents_def)
  next
    case None
    then have e: "entries t ! slot n (keyhash k) u = None" "holds (entries t) k = None"
      using u(4) by (simp_all add: contents_def)
    show ?thesis
    proof (cases act)
      case FIND
      then show ?thesis using assms(1) u(2) e None by (simp add: hsearch_r_def)
    next
      case ENTER
      show ?thesis
      proof (cases "ok \<or> \<not> used t + 1 > mask t - mask t div 4")
        case True
        then show ?thesis using hsearch_enter [OF n(1-5) small u(1-3) e True, of d] ENTER None by auto
      next
        case False
        then show ?thesis using hsearch_no_memory [OF n(3,5) small u(1-3) e, of d] ENTER None assms(1) by simp
      qed
    qed
  qed
qed

definition demo_table :: "nat htab" where
  "demo_table = \<lparr>entries = replicate 8 None, mask = 7, used = 0\<rparr>"

lemma demo_table_ok: "wf_table demo_table" "contents demo_table = Map.empty"
  using empty_table(1) [of 3] by (auto simp: demo_table_def wf_table_def contents_def empty_table(2) intro!: exI [of _ 3])

theorem hsearch_is_map_witness:
  "\<exists>t'. hsearch_r True (bytes ''key'', 5) ENTER demo_table = Some (t', Some (bytes ''key'', 5)) \<and>
     contents t' = [bytes ''key'' \<mapsto> 5]"
  using hsearch_is_map [OF demo_table_ok(1), of True "bytes ''key''" 5 ENTER] demo_table_ok(2)
  by (auto simp: demo_table_def)

end
