(* ===== verification/Toybox_Hash.thy ===== *)
theory Toybox_Hash
  imports Musl_Sha256 Musl_Sha512 Musl_Md5 "HOL-Library.Monad_Syntax"
begin

text \<open>
  \<^verbatim>\<open>lib/hash.c\<close> of toybox, the builtin hashes behind md5sum, sha1sum, sha224sum, sha256sum,
  sha384sum and sha512sum: the four compression functions, the chunking loop \<open>hash_update\<close> and
  \<open>hash_by_name\<close>, which reads a file, pads, prints the digest in hexadecimal and wipes its
  memory.  The configuration is the one without floating point (the MD5 constants come from
  the table) on the little-endian target.

  \<^verbatim>\<open>struct browns\<close> is the record \<open>browns\<close>.  The union \<open>state\<close> is used by each
  method through one member only, so both members are fields; the union \<open>buffer\<close> is written
  as bytes and read as words, so it is the 128 bytes, with little-endian loads and stores.
  Both loops that depend on the chunk size are partial functions: that they return is part of
  the theorems.
\<close>

record browns =
  rconsttable32 :: "u32 list"
  rconsttable64 :: "u64 list"
  count :: u64
  overflow :: u64
  state_i32 :: "u32 list"
  state_i64 :: "u64 list"
  buffer :: "byte list"

definition md5nofloat :: "u32 list" where
  "md5nofloat = concat
    [[0xd76aa478, 0xe8c7b756, 0x242070db, 0xc1bdceee, 0xf57c0faf, 0x4787c62a],
     [0xa8304613, 0xfd469501, 0x698098d8, 0x8b44f7af, 0xffff5bb1, 0x895cd7be],
     [0x6b901122, 0xfd987193, 0xa679438e, 0x49b40821, 0xf61e2562, 0xc040b340],
     [0x265e5a51, 0xe9b6c7aa, 0xd62f105d, 0x02441453, 0xd8a1e681, 0xe7d3fbc8],
     [0x21e1cde6, 0xc33707d6, 0xf4d50d87, 0x455a14ed, 0xa9e3e905, 0xfcefa3f8],
     [0x676f02d9, 0x8d2a4c8a, 0xfffa3942, 0x8771f681, 0x6d9d6122, 0xfde5380c],
     [0xa4beea44, 0x4bdecfa9, 0xf6bb4b60, 0xbebfbc70, 0x289b7ec6, 0xeaa127fa],
     [0xd4ef3085, 0x04881d05, 0xd9d4d039, 0xe6db99e5, 0x1fa27cf8, 0xc4ac5665],
     [0xf4292244, 0x432aff97, 0xab9423a7, 0xfc93a039, 0x655b59c3, 0x8f0ccc92],
     [0xffeff47d, 0x85845dd1, 0x6fa87e4f, 0xfe2ce6e0, 0xa3014314, 0x4e0811a1],
     [0xf7537e82, 0xbd3af235, 0x2ad7d2bb, 0xeb86d391]]"

definition sha512nofloat :: "u64 list" where
  "sha512nofloat = concat
    [[0x428a2f98d728ae22, 0x7137449123ef65cd, 0xb5c0fbcfec4d3b2f],
     [0xe9b5dba58189dbbc, 0x3956c25bf348b538, 0x59f111f1b605d019],
     [0x923f82a4af194f9b, 0xab1c5ed5da6d8118, 0xd807aa98a3030242],
     [0x12835b0145706fbe, 0x243185be4ee4b28c, 0x550c7dc3d5ffb4e2],
     [0x72be5d74f27b896f, 0x80deb1fe3b1696b1, 0x9bdc06a725c71235],
     [0xc19bf174cf692694, 0xe49b69c19ef14ad2, 0xefbe4786384f25e3],
     [0x0fc19dc68b8cd5b5, 0x240ca1cc77ac9c65, 0x2de92c6f592b0275],
     [0x4a7484aa6ea6e483, 0x5cb0a9dcbd41fbd4, 0x76f988da831153b5],
     [0x983e5152ee66dfab, 0xa831c66d2db43210, 0xb00327c898fb213f],
     [0xbf597fc7beef0ee4, 0xc6e00bf33da88fc2, 0xd5a79147930aa725],
     [0x06ca6351e003826f, 0x142929670a0e6e70, 0x27b70a8546d22ffc],
     [0x2e1b21385c26c926, 0x4d2c6dfc5ac42aed, 0x53380d139d95b3df],
     [0x650a73548baf63de, 0x766a0abb3c77b2a8, 0x81c2c92e47edaee6],
     [0x92722c851482353b, 0xa2bfe8a14cf10364, 0xa81a664bbc423001],
     [0xc24b8b70d0f89791, 0xc76c51a30654be30, 0xd192e819d6ef5218],
     [0xd69906245565a910, 0xf40e35855771202a, 0x106aa07032bbd1b8],
     [0x19a4c116b8d2d0c8, 0x1e376c085141ab53, 0x2748774cdf8eeb99],
     [0x34b0bcb5e19b48a8, 0x391c0cb3c5c95a63, 0x4ed8aa4ae3418acb],
     [0x5b9cca4f7763e373, 0x682e6ff3d6b2b8a3, 0x748f82ee5defb2fc],
     [0x78a5636f43172f60, 0x84c87814a1f0ab72, 0x8cc702081a6439ec],
     [0x90befffa23631e28, 0xa4506cebde82bde9, 0xbef9a3f7b2c67915],
     [0xc67178f2e372532b, 0xca273eceea26619c, 0xd186b8c721c0c207],
     [0xeada7dd6cde0eb1e, 0xf57d4f7fee6ed178, 0x06f067aa72176fba],
     [0x0a637dc5a2c898a6, 0x113f9804bef90dae, 0x1b710b35131c471b],
     [0x28db77f523047d84, 0x32caab7b40c72493, 0x3c9ebe0a15c9bebc],
     [0x431d67c49c100d4c, 0x4cc5d4becb3e42b6, 0x597f299cfc657e2a],
     [0x5fcb6fab3ad6faec, 0x6c44198c4a475817]]"

definition sha1rconsts :: "u32 list" where
  "sha1rconsts = [0x5A827999, 0x6ED9EBA1, 0x8F1BBCDC, 0xCA62C1D6]"

text \<open>The rotation macros, at the width of their operand, and the byte swaps of the C library.\<close>

definition rol :: "'w::len word \<Rightarrow> nat \<Rightarrow> 'w word" where
  "rol value bits = push_bit bits value OR drop_bit (LENGTH('w) - bits) value"

definition ror :: "'w::len word \<Rightarrow> nat \<Rightarrow> 'w word" where
  "ror value bits = drop_bit bits value OR push_bit (LENGTH('w) - bits) value"

definition bswap_32 :: "u32 \<Rightarrow> u32" where
  "bswap_32 x = drop_bit 24 x OR (drop_bit 8 x AND 0xff00) OR (push_bit 8 x AND 0xff0000) OR push_bit 24 x"

definition bswap_64 :: "u64 \<Rightarrow> u64" where
  "bswap_64 x = push_bit 32 (ucast (bswap_32 (ucast x)) + 0) OR ucast (bswap_32 (ucast (drop_bit 32 x)))"

definition SWAP_LE32 :: "u32 \<Rightarrow> u32" where "SWAP_LE32 x = x"

definition SWAP_BE32 :: "u32 \<Rightarrow> u32" where "SWAP_BE32 x = bswap_32 x"

definition SWAP_LE64 :: "u64 \<Rightarrow> u64" where "SWAP_LE64 x = x"

definition SWAP_BE64 :: "u64 \<Rightarrow> u64" where "SWAP_BE64 x = bswap_64 x"

text \<open>The word views of the buffer: the first 64 bytes as 32-bit words, all 128 as 64-bit words.\<close>

definition load32 :: "byte list \<Rightarrow> nat \<Rightarrow> u32" where
  "load32 b i = be_word (rev (take 4 (drop (4 * i) b)))"

definition load64 :: "byte list \<Rightarrow> nat \<Rightarrow> u64" where
  "load64 b i = be_word (rev (take 8 (drop (8 * i) b)))"

definition buffer_i32 :: "browns \<Rightarrow> u32 list" where
  "buffer_i32 hash = map (load32 (buffer hash)) [0..<16]"

definition buffer_i64 :: "browns \<Rightarrow> u64 list" where
  "buffer_i64 hash = map (load64 (buffer hash)) [0..<16]"

definition put_buffer_i32 :: "u32 list \<Rightarrow> browns \<Rightarrow> browns" where
  "put_buffer_i32 ws hash = hash\<lparr>buffer := mem_write 0 (concat (map le32 ws)) (buffer hash)\<rparr>"

definition add_i32 :: "nat \<Rightarrow> u32 list \<Rightarrow> browns \<Rightarrow> browns" where
  "add_i32 n xs hash = hash\<lparr>state_i32 := foldl (\<lambda>s i. s[i := s ! i + xs ! i]) (state_i32 hash) [0..<n]\<rparr>"

definition add_i64 :: "nat \<Rightarrow> u64 list \<Rightarrow> browns \<Rightarrow> browns" where
  "add_i64 n xs hash = hash\<lparr>state_i64 := foldl (\<lambda>s i. s[i := s ! i + xs ! i]) (state_i64 hash) [0..<n]\<rparr>"

section \<open>MD5\<close>

definition md5_transform_step :: "u32 list \<Rightarrow> u32 list \<Rightarrow> u32 list \<Rightarrow> nat \<Rightarrow> u32 list" where
  "md5_transform_step K b x i =
     (let a = nat ((- int i) AND 3);
          (in', rot, temp) =
            (if i < 16 then
               (i, 7 + 5 * (i AND 3),
                let temp = x ! ((a + 1) AND 3)
                in (temp AND x ! ((a + 2) AND 3)) OR (NOT temp AND x ! ((a + 3) AND 3)))
             else if i < 32 then
               ((1 + 5 * i) AND 15,
                (let temp = (i AND 3) + 1; rot = temp * 5 in if temp AND 2 \<noteq> 0 then rot - 1 else rot),
                let temp = x ! ((a + 3) AND 3)
                in (x ! ((a + 1) AND 3) AND temp) OR (x ! ((a + 2) AND 3) AND NOT temp))
             else if i < 48 then
               ((5 + 3 * (i AND 15)) AND 15,
                (let rot = i AND 3 in 4 + 5 * rot + ((rot + 1) AND 6)),
                x ! ((a + 1) AND 3) XOR x ! ((a + 2) AND 3) XOR x ! ((a + 3) AND 3))
             else
               ((7 * (i AND 15)) AND 15,
                (let rot = (i AND 3) + 1 in 5 * rot + drop_bit 1 ((rot + 2) AND 2)),
                x ! ((a + 2) AND 3) XOR (x ! ((a + 1) AND 3) OR NOT (x ! ((a + 3) AND 3)))));
          temp = temp + (x ! a + SWAP_LE32 (b ! in') + K ! i)
      in x[a := x ! ((a + 1) AND 3) + (push_bit rot temp OR drop_bit (32 - rot) temp)])"

definition md5_transform :: "browns \<Rightarrow> browns" where
  "md5_transform hash =
     (let b = buffer_i32 hash;
          x = map (\<lambda>i. state_i32 hash ! i) [0..<4];
          x = foldl (md5_transform_step (rconsttable32 hash) b) x [0..<64]
      in add_i32 4 x hash)"

section \<open>SHA-1\<close>

text \<open>
  \<open>rot[5]\<close> holds pointers into the state array: here their indices.  The message block is
  expanded in place, as a ring of sixteen words in the buffer.
\<close>

type_synonym sha1_vars = "u32 list \<times> nat list \<times> u32 list \<times> nat"

definition sha1_operation :: "nat \<Rightarrow> sha1_vars \<Rightarrow> nat \<Rightarrow> sha1_vars" where
  "sha1_operation i v j =
     (case v of (st, rot, block, cnt) \<Rightarrow>
        let p = (\<lambda>k. st ! (rot ! k));
            work = p 2 XOR p 3;
            work = (if i = 0 then (work AND p 1) XOR p 3
                    else if i = 2 then ((p 1 OR p 2) AND p 3) OR (p 1 AND p 2)
                    else work XOR p 1);
            block =
              (if i = 0 \<and> j < 16
               then block[cnt := (ror (block ! cnt) 8 AND 0xFF00FF00) OR (rol (block ! cnt) 8 AND 0x00FF00FF)]
               else block[cnt AND 15 :=
                 rol (block ! ((cnt + 13) AND 15) XOR block ! ((cnt + 8) AND 15) XOR
                      block ! ((cnt + 2) AND 15) XOR block ! (cnt AND 15)) 1]);
            work = work + (if i = 0 \<and> j < 16 then block ! cnt else block ! (cnt AND 15));
            st = st[rot ! 4 := st ! (rot ! 4) + (work + rol (st ! (rot ! 0)) 5 + sha1rconsts ! i)];
            st = st[rot ! 1 := rol (st ! (rot ! 1)) 30]
        in (st, rot ! 4 # take 4 rot, block, cnt + 1))"

definition sha1_transform :: "browns \<Rightarrow> browns" where
  "sha1_transform hash =
     (let oldstate = map (\<lambda>i. state_i32 hash ! i) [0..<5];
          (st, rot, block, cnt) =
            foldl (\<lambda>v i. foldl (sha1_operation i) v [0..<20])
              (state_i32 hash, [0, 1, 2, 3, 4], buffer_i32 hash, 0) [0..<4]
      in add_i32 5 oldstate (put_buffer_i32 block (hash\<lparr>state_i32 := st\<rparr>)))"

section \<open>SHA-2\<close>

definition sha2_32_schedule :: "u32 list \<Rightarrow> u32 list" where
  "sha2_32_schedule =
     (\<lambda>M. foldl (\<lambda>block i.
        let s0 = ror (block ! (i - 15)) 7 XOR ror (block ! (i - 15)) 18 XOR drop_bit 3 (block ! (i - 15));
            s1 = ror (block ! (i - 2)) 17 XOR ror (block ! (i - 2)) 19 XOR drop_bit 10 (block ! (i - 2))
        in block @ [block ! (i - 16) + s0 + block ! (i - 7) + s1]) M [16..<64])"

definition sha2_32_round :: "u32 list \<Rightarrow> u32 list \<Rightarrow> u32 list \<Rightarrow> nat \<Rightarrow> u32 list" where
  "sha2_32_round K block rot i =
     (let S1 = ror (rot ! 4) 6 XOR ror (rot ! 4) 11 XOR ror (rot ! 4) 25;
          ch = (rot ! 4 AND rot ! 5) XOR (NOT (rot ! 4) AND rot ! 6);
          temp1 = rot ! 7 + S1 + ch + K ! i + block ! i;
          S0 = ror (rot ! 0) 2 XOR ror (rot ! 0) 13 XOR ror (rot ! 0) 22;
          maj = (rot ! 0 AND rot ! 1) XOR (rot ! 0 AND rot ! 2) XOR (rot ! 1 AND rot ! 2);
          temp2 = S0 + maj;
          rot = mem_write 1 (take 7 rot) rot;
          rot = rot[4 := rot ! 4 + temp1]
      in rot[0 := temp1 + temp2])"

definition sha2_32_transform :: "browns \<Rightarrow> browns" where
  "sha2_32_transform hash =
     (let block = sha2_32_schedule (map (\<lambda>i. SWAP_BE32 (buffer_i32 hash ! i)) [0..<16]);
          rot = map (\<lambda>i. state_i32 hash ! i) [0..<8];
          rot = foldl (sha2_32_round (rconsttable32 hash) block) rot [0..<64]
      in add_i32 8 rot hash)"

definition sha2_64_schedule :: "u64 list \<Rightarrow> u64 list" where
  "sha2_64_schedule =
     (\<lambda>M. foldl (\<lambda>block i.
        let s0 = ror (block ! (i - 15)) 1 XOR ror (block ! (i - 15)) 8 XOR drop_bit 7 (block ! (i - 15));
            s1 = ror (block ! (i - 2)) 19 XOR ror (block ! (i - 2)) 61 XOR drop_bit 6 (block ! (i - 2))
        in block @ [block ! (i - 16) + s0 + block ! (i - 7) + s1]) M [16..<80])"

definition sha2_64_round :: "u64 list \<Rightarrow> u64 list \<Rightarrow> u64 list \<Rightarrow> nat \<Rightarrow> u64 list" where
  "sha2_64_round K block rot i =
     (let S1 = ror (rot ! 4) 14 XOR ror (rot ! 4) 18 XOR ror (rot ! 4) 41;
          ch = (rot ! 4 AND rot ! 5) XOR (NOT (rot ! 4) AND rot ! 6);
          temp1 = rot ! 7 + S1 + ch + K ! i + block ! i;
          S0 = ror (rot ! 0) 28 XOR ror (rot ! 0) 34 XOR ror (rot ! 0) 39;
          maj = (rot ! 0 AND rot ! 1) XOR (rot ! 0 AND rot ! 2) XOR (rot ! 1 AND rot ! 2);
          temp2 = S0 + maj;
          rot = mem_write 1 (take 7 rot) rot;
          rot = rot[4 := rot ! 4 + temp1]
      in rot[0 := temp1 + temp2])"

definition sha2_64_transform :: "browns \<Rightarrow> browns" where
  "sha2_64_transform hash =
     (let block = sha2_64_schedule (map (\<lambda>i. SWAP_BE64 (buffer_i64 hash ! i)) [0..<16]);
          rot = map (\<lambda>i. state_i64 hash ! i) [0..<8];
          rot = foldl (sha2_64_round (rconsttable64 hash) block) rot [0..<80]
      in add_i64 8 rot hash)"

section \<open>Feeding data\<close>

text \<open>
  The loop of \<open>hash_update\<close>: fill the buffer from position \<open>j\<close>, and mix the chunk in
  whenever it is complete.
\<close>

partial_function (option) hash_update_loop ::
    "(browns \<Rightarrow> browns) \<Rightarrow> nat \<Rightarrow> nat \<Rightarrow> byte list \<Rightarrow> browns \<Rightarrow> browns option" where
  "hash_update_loop transform chunksize j data hash =
     (let i = min (chunksize - j) (length data);
          hash = hash\<lparr>buffer := mem_write j (take i data) (buffer hash)\<rparr>
      in if j + i \<noteq> chunksize then Some hash
         else hash_update_loop transform chunksize 0 (drop i data) (transform hash))"

definition hash_update :: "byte list \<Rightarrow> (browns \<Rightarrow> browns) \<Rightarrow> nat \<Rightarrow> browns \<Rightarrow> browns option" where
  "hash_update data transform chunksize hash =
     (let j = unat (count hash AND of_nat (chunksize - 1));
          hash = (if count hash + of_nat (length data) < count hash
                  then hash\<lparr>overflow := overflow hash + 1\<rparr> else hash);
          hash = hash\<lparr>count := count hash + of_nat (length data)\<rparr>
      in hash_update_loop transform chunksize j data hash)"

section \<open>The digest of a file\<close>

definition stridx :: "string \<Rightarrow> char \<Rightarrow> int" where
  "stridx haystack needle =
     (if needle = CHR 0x00 then -1
      else if needle \<in> set haystack then int (length (takeWhile (\<lambda>c. c \<noteq> needle) haystack))
      else -1)"

text \<open>
  The state that \<open>hash_by_name\<close> starts from, for the index of the method: the constants
  and the initial value of the hash.  The structure comes zeroed from \<open>xzalloc\<close>.
\<close>

definition xzalloc_browns :: browns where
  "xzalloc_browns =
     \<lparr>rconsttable32 = [], rconsttable64 = [], count = 0, overflow = 0,
      state_i32 = replicate 16 0, state_i64 = replicate 16 0, buffer = replicate 128 0\<rparr>"

definition select_tables :: "string \<Rightarrow> nat \<Rightarrow> browns \<Rightarrow> browns" where
  "select_tables name method hash =
     (if method = 0 then hash\<lparr>rconsttable32 := md5nofloat\<rparr>
      else if name ! 3 = CHR ''2''
      then hash\<lparr>rconsttable32 := map (\<lambda>i. ucast (drop_bit 32 (sha512nofloat ! i))) [0..<64]\<rparr>
      else hash\<lparr>rconsttable64 := sha512nofloat\<rparr>)"

definition select_state :: "nat \<Rightarrow> browns \<Rightarrow> browns" where
  "select_state method hash =
     (if method \<le> 1 then hash\<lparr>state_i32 := mem_write 0
        [0x67452301, 0xEFCDAB89, 0x98BADCFE, 0x10325476, 0xC3D2E1F0] (state_i32 hash)\<rparr>
      else if method = 2 then hash\<lparr>state_i32 := mem_write 0
        [0xc1059ed8, 0x367cd507, 0x3070dd17, 0xf70e5939, 0xffc00b31, 0x68581511, 0x64f98fa7, 0xbefa4fa4]
        (state_i32 hash)\<rparr>
      else if method = 3 then hash\<lparr>state_i32 := mem_write 0
        [0x6a09e667, 0xbb67ae85, 0x3c6ef372, 0xa54ff53a, 0x510e527f, 0x9b05688c, 0x1f83d9ab, 0x5be0cd19]
        (state_i32 hash)\<rparr>
      else if method = 4 then hash\<lparr>state_i64 := mem_write 0
        [0xcbbb9d5dc1059ed8, 0x629a292a367cd507, 0x9159015a3070dd17, 0x152fecd8f70e5939,
         0x67332667ffc00b31, 0x8eb44a8768581511, 0xdb0c2e0d64f98fa7, 0x47b5481dbefa4fa4]
        (state_i64 hash)\<rparr>
      else hash\<lparr>state_i64 := mem_write 0
        [0x6a09e667f3bcc908, 0xbb67ae8584caa73b, 0x3c6ef372fe94f82b, 0xa54ff53a5f1d36f1,
         0x510e527fade682d1, 0x9b05688c2b3e6c1f, 0x1f83d9abfb41bd6b, 0x5be0cd19137e2179]
        (state_i64 hash)\<rparr>)"

text \<open>
  The read loop, over the byte strings the reads of the file return one after the other; an
  empty one (the end of the file or an error) and the end of the list stop it.
\<close>

fun hash_reads ::
    "(browns \<Rightarrow> browns) \<Rightarrow> nat \<Rightarrow> byte list list \<Rightarrow> browns \<Rightarrow> byte list \<Rightarrow> (browns \<times> byte list) option" where
  "hash_reads transform chunksize [] hash libbuf = Some (hash, libbuf)"
| "hash_reads transform chunksize (r # rs) hash libbuf =
     (if length r < 1 then Some (hash, libbuf)
      else do {
        let libbuf = mem_write 0 r libbuf;
        hash \<leftarrow> hash_update (take (length r) libbuf) transform chunksize hash;
        hash_reads transform chunksize rs hash libbuf })"

text \<open>The loop that appends the one bit and the zeros, a byte at a time.\<close>

partial_function (option) hash_pad ::
    "(browns \<Rightarrow> browns) \<Rightarrow> nat \<Rightarrow> nat \<Rightarrow> byte \<Rightarrow> browns \<Rightarrow> browns option" where
  "hash_pad transform chunksize i buf hash =
     do {
       hash \<leftarrow> hash_update [buf] transform chunksize hash;
       if unat (count hash AND of_nat (chunksize - 1)) \<noteq> chunksize - i
       then hash_pad transform chunksize i 0 hash else Some hash }"

declare hash_update_loop.simps [code] hash_pad.simps [code]

text \<open>
  The conversions \<^verbatim>\<open>%08x\<close> and \<^verbatim>\<open>%016llx\<close> of the C library's printf: the digits of
  \<open>fmt_x\<close>, one zero for the value zero, and zeros up to the field width.
\<close>

definition xdigits :: string where
  "xdigits = ''0123456789abcdef''"

fun fmt_x_acc :: "nat \<Rightarrow> string \<Rightarrow> string" where
  "fmt_x_acc x s = (if x = 0 then s else fmt_x_acc (x div 16) (xdigits ! (x mod 16) # s))"

declare fmt_x_acc.simps [simp del]

definition print_hex :: "nat \<Rightarrow> nat \<Rightarrow> string" where
  "print_hex w x =
     (let a = fmt_x_acc x []; p = max (length a) (if x = 0 then 1 else 0)
      in replicate (w - p) (CHR ''0'') @ replicate (p - length a) (CHR ''0'') @ a)"

definition method_of :: "string \<Rightarrow> int" where
  "method_of name = stridx ''us2581'' (name ! 4)"

definition length_field :: "nat \<Rightarrow> browns \<Rightarrow> byte list" where
  "length_field method hash =
     (let count0 = push_bit 3 (overflow hash) + drop_bit 61 (count hash);
          count1 = push_bit 3 (count hash);
          swap = (if method = 0 then SWAP_LE64 else SWAP_BE64);
          bytes = le64 (swap count0) @ le64 (swap count1)
      in drop (if method < 4 then 8 else 0) bytes)"

definition print_digest :: "nat \<Rightarrow> nat \<Rightarrow> browns \<Rightarrow> string" where
  "print_digest method digestlen hash =
     (if 4 \<le> method
      then concat (map (\<lambda>i. print_hex 16 (unat (state_i64 hash ! i))) [0..<digestlen div 8])
      else concat (map (\<lambda>i. print_hex 8 (unat
        (if method = 0 then bswap_32 (state_i32 hash ! i) else state_i32 hash ! i))) [0..<digestlen div 4]))"

definition wipe_browns :: "browns \<Rightarrow> browns" where
  "wipe_browns hash =
     hash\<lparr>rconsttable32 := [], rconsttable64 := [], count := 0, overflow := 0,
       state_i32 := map (\<lambda>_. 0) (state_i32 hash), state_i64 := map (\<lambda>_. 0) (state_i64 hash),
       buffer := map (\<lambda>_. 0) (buffer hash)\<rparr>"

text \<open>
  \<open>hash_by_name\<close>: the text it writes to \<open>result\<close>, the structure and the global \<open>libbuf\<close>
  it leaves behind.  A name whose fifth character selects no method indexes the tables out of
  bounds: no result.
\<close>

definition hash_by_name :: "byte list list \<Rightarrow> string \<Rightarrow> byte list \<Rightarrow> (string \<times> browns \<times> byte list) option" where
  "hash_by_name fd name libbuf =
     (if length name < 5 \<or> method_of name < 0 then None
      else do {
        let method = nat (method_of name);
        let hash = select_tables name method xzalloc_browns;
        let transform = [md5_transform, sha1_transform, sha2_32_transform, sha2_32_transform,
              sha2_64_transform, sha2_64_transform] ! method;
        let digestlen = [16, 20, 28, 32, 48, 64] ! method;
        let chunksize = (if 4 \<le> method then 128 else 64);
        let hash = (select_state method hash)\<lparr>count := 0\<rparr>;
        (hash, libbuf) \<leftarrow> hash_reads transform chunksize fd hash libbuf;
        let field = length_field method hash;
        let i = (if 4 \<le> method then 16 else 8);
        hash \<leftarrow> hash_pad transform chunksize i 0x80 hash;
        hash \<leftarrow> hash_update field transform chunksize hash;
        Some (print_digest method digestlen hash, wipe_browns hash, map (\<lambda>_. 0) libbuf) })"

section \<open>Rotations, byte order and arrays\<close>

lemma rol_rotl: "0 < k \<Longrightarrow> k < LENGTH('w) \<Longrightarrow> rol (x :: 'w::len word) k = word_rotl k x"
  by (simp add: rol_def rotl_by_shifts)

lemma ror_rotr: "0 < k \<Longrightarrow> k < LENGTH('w) \<Longrightarrow> ror (x :: 'w::len word) k = word_rotr k x"
  by (simp add: ror_def rotr_by_shifts)

lemma byte_masks:
  "(0xff00 :: u32) = push_bit 8 (mask 8)" "(0xff0000 :: u32) = push_bit 16 (mask 8)"
  "(0xFF00FF00 :: u32) = push_bit 24 (mask 8) OR push_bit 8 (mask 8)"
  "(0x00FF00FF :: u32) = push_bit 16 (mask 8) OR mask 8"
  by code_simp+

lemma len_32: "LENGTH(32) = 32"
  by simp

lemmas word_bits = bit_or_iff bit_and_iff bit_push_bit_iff bit_drop_bit_eq comp_def bit_mask_iff possible_bit_word len_32

lemma bit_word_out: "32 \<le> n \<Longrightarrow> \<not> bit (x :: u32) n"
  using bit_imp_le_length [of x n] by auto

lemma bit_bswap_32:
  assumes n: "n < 32"
  shows "bit (bswap_32 x) n =
     (if n < 8 then bit x (n + 24) else if n < 16 then bit x (n + 8)
      else if n < 24 then bit x (n - 8) else bit x (n - 24))"
proof -
  consider "n < 8" | "8 \<le> n" "n < 16" | "16 \<le> n" "n < 24" | "24 \<le> n" by linarith
  then show ?thesis
    unfolding bswap_32_def byte_masks word_bits
    by cases (use n in \<open>simp_all add: bit_word_out add.commute less_diff_conv2\<close>)
qed

lemma sha1_swap: "(ror (x :: u32) 8 AND 0xFF00FF00) OR (rol x 8 AND 0x00FF00FF) = bswap_32 x"
proof (rule bit_word_eqI)
  fix n assume "n < LENGTH(32)"
  then have n: "n < 32" by simp
  consider "n < 8" | "8 \<le> n" "n < 16" | "16 \<le> n" "n < 24" | "24 \<le> n" by linarith
  then show "bit ((ror x 8 AND 0xFF00FF00) OR (rol x 8 AND 0x00FF00FF)) n = bit (bswap_32 x) n"
    unfolding ror_def rol_def byte_masks word_bits
    by cases (use n in \<open>simp_all add: bit_bswap_32 bit_word_out add.commute less_diff_conv2\<close>)
qed

lemma bit_be_word:
  "bit (be_word bs :: 'w::len word) n \<longleftrightarrow>
     n < LENGTH('w) \<and> n < 8 * length bs \<and> bit (rev bs ! (n div 8)) (n mod 8)"
proof (induction bs arbitrary: n rule: rev_induct)
  case Nil
  then show ?case by (simp add: be_word_def)
next
  case (snoc b bs)
  have e: "be_word (bs @ [b]) = (push_bit 8 (be_word bs) OR ucast b :: 'w word)" by (simp add: be_word_def)
  show ?case
  proof (cases "n < 8")
    case True
    then show ?thesis by (auto simp: e bit_simps dest: bit_imp_le_length)
  next
    case False
    then obtain m where m: "n = 8 + m" by (metis le_Suc_ex not_less)
    have "\<not> bit b n" using False bit_imp_le_length [of b n] by auto
    moreover have "(8 + m) div 8 = Suc (m div 8)" by simp
    ultimately show ?thesis by (auto simp: e m snoc.IH bit_simps)
  qed
qed

lemma bit_byte_parts: "\<exists>k r. n = 8 * k + r \<and> r < (8::nat)"
  by (intro exI [of _ "n div 8"] exI [of _ "n mod 8"]) simp

lemma bit_bswap_32_parts: "k < 4 \<Longrightarrow> r < 8 \<Longrightarrow> bit (bswap_32 x) (8 * k + r) = bit x (8 * (3 - k) + r)"
proof -
  assume k: "k < 4" and r: "r < 8"
  then consider "k = 0" | "k = 1" | "k = 2" | "k = 3" by linarith
  then show ?thesis using r by cases (simp_all add: bit_bswap_32 add.commute)
qed

lemma bswap_32_be_word:
  assumes "length bs = 4"
  shows "bswap_32 (be_word (rev bs)) = be_word bs"
proof (rule bit_word_eqI)
  fix n assume n: "n < LENGTH(32)"
  obtain k r where kr: "n = 8 * k + r" "r < 8" using bit_byte_parts by blast
  then have k: "k < 4" using n by simp
  then show "bit (bswap_32 (be_word (rev bs))) n = bit (be_word bs :: u32) n"
    unfolding kr(1) bit_bswap_32_parts [OF k kr(2)] bit_be_word using k kr(2) assms by (auto simp: rev_nth)
qed

lemma be_word_append:
  assumes "length as = 4" "length bs = 4"
  shows "be_word (as @ bs) = (push_bit 32 (ucast (be_word as :: u32)) OR ucast (be_word bs :: u32) :: u64)"
proof (rule bit_word_eqI)
  fix n assume n: "n < LENGTH(64)"
  show "bit (be_word (as @ bs) :: u64) n =
      bit (push_bit 32 (ucast (be_word as :: u32)) OR ucast (be_word bs :: u32) :: u64) n"
  proof (cases "n < 32")
    case True
    then have "n div 8 < 4" by simp
    with True n assms show ?thesis by (auto simp: bit_be_word bit_simps nth_append)
  next
    case False
    then obtain m where m: "n = 32 + m" by (metis le_Suc_ex not_less)
    have "(32 + m) div 8 = 4 + m div 8" "(32 + m) mod 8 = m mod 8" by (simp_all add: mod_add_eq [of 32, symmetric])
    with m n assms show ?thesis by (auto simp: bit_be_word bit_simps nth_append)
  qed
qed

lemma rev_be32: "k < 4 \<Longrightarrow> rev (be32 x) ! k = ucast (drop_bit (8 * k) x)"
proof -
  assume "k < 4"
  then consider "k = 0" | "k = 1" | "k = 2" | "k = 3" by linarith
  then show ?thesis by cases (simp_all add: be32_def)
qed

lemma be_word_be32: "be_word (be32 x) = x"
proof (rule bit_word_eqI)
  fix n assume n: "n < LENGTH(32)"
  obtain k r where kr: "n = 8 * k + r" "r < 8" using bit_byte_parts by blast
  with n show "bit (be_word (be32 x) :: u32) n = bit x n"
    by (simp add: bit_be_word rev_be32 bit_simps)
qed

lemma be32_be_word:
  assumes "length bs = 4"
  shows "be32 (be_word bs) = bs"
proof -
  have "rev (be32 (be_word bs)) ! k = rev bs ! k" if k: "k < 4" for k
  proof (rule bit_word_eqI)
    fix r assume "r < LENGTH(8)"
    with k assms show "bit (rev (be32 (be_word bs)) ! k) r = bit (rev bs ! k) r"
      by (simp add: rev_be32 bit_simps bit_be_word)
  qed
  then have "rev (be32 (be_word bs)) = rev bs" using assms by (intro nth_equalityI) simp_all
  then show ?thesis by simp
qed

lemma be64_halves: "be64 x = be32 (ucast (drop_bit 32 x)) @ be32 (ucast x)"
proof -
  have low: "ucast (drop_bit k (ucast x :: u32)) = (ucast (drop_bit k x) :: byte)" if "k \<le> 24" for k
    using that by (intro bit_word_eqI) (simp add: bit_simps)
  have high: "ucast (drop_bit k (ucast (drop_bit 32 x) :: u32)) = (ucast (drop_bit (32 + k) x) :: byte)"
    if "k \<le> 24" for k
    using that by (intro bit_word_eqI) (simp add: bit_simps add.assoc)
  show ?thesis
    using low [of 0] high [of 0] by (simp add: be64_def be32_def low high)
qed

lemma bswap_64_be_word:
  assumes "length as = 4" "length bs = 4"
  shows "bswap_64 (be_word (rev bs @ rev as)) = be_word (as @ bs)"
proof -
  define X :: u64 where "X = be_word (rev bs @ rev as)"
  have X: "X = push_bit 32 (ucast (be_word (rev bs) :: u32)) OR ucast (be_word (rev as) :: u32)"
    unfolding X_def using assms by (simp add: be_word_append)
  have "ucast X = (be_word (rev as) :: u32)" "ucast (drop_bit 32 X) = (be_word (rev bs) :: u32)"
    unfolding X by (intro bit_word_eqI; simp add: bit_simps; auto dest: bit_imp_le_length)+
  then show ?thesis
    using assms by (simp add: bswap_64_def X_def [symmetric] bswap_32_be_word be_word_append)
qed

lemma be32_bswap_32: "be32 (bswap_32 x) = le32 x"
  using bswap_32_be_word [of "le32 x"] by (simp add: be32_be_word le32_def be_word_be32)

lemma le64_bswap_64: "le64 (bswap_64 x) = be64 x"
  unfolding le64_def be64_halves
proof -
  have "ucast (drop_bit 32 (bswap_64 x)) = bswap_32 (ucast x)"
    "ucast (bswap_64 x) = bswap_32 (ucast (drop_bit 32 x))"
    unfolding bswap_64_def by (intro bit_word_eqI; simp add: bit_simps; auto dest: bit_imp_le_length)+
  then show "rev (be32 (ucast (drop_bit 32 (bswap_64 x))) @ be32 (ucast (bswap_64 x))) =
      be32 (ucast (drop_bit 32 x)) @ be32 (ucast x)"
    by (simp add: be32_bswap_32 le32_def)
qed

text \<open>The swapped words of the buffer are the big-endian words of the block.\<close>

lemma swapped_i32:
  assumes "64 \<le> length (buffer hash)" "i < 16"
  shows "bswap_32 (buffer_i32 hash ! i) = be_words 4 (take 64 (buffer hash)) ! i"
proof -
  have "take 4 (drop (4 * i) (take 64 (buffer hash))) = take 4 (drop (4 * i) (buffer hash))"
    using assms by (simp add: drop_take min_def)
  moreover have "length (take 4 (drop (4 * i) (buffer hash))) = 4" using assms by simp
  ultimately show ?thesis
    using assms(2) by (simp add: buffer_i32_def load32_def be_words_def bswap_32_be_word)
qed

lemma swapped_i64:
  assumes "128 \<le> length (buffer hash)" "i < 16"
  shows "bswap_64 (buffer_i64 hash ! i) = be_words 8 (take 128 (buffer hash)) ! i"
proof -
  define p where "p = take 4 (drop (8 * i) (buffer hash))"
  define q where "q = take 4 (drop 4 (drop (8 * i) (buffer hash)))"
  have "take 8 (drop (8 * i) (take 128 (buffer hash))) = take 8 (drop (8 * i) (buffer hash))"
    using assms by (simp add: drop_take min_def)
  moreover have "take 8 (drop (8 * i) (buffer hash)) = p @ q"
    using take_add [of 4 4 "drop (8 * i) (buffer hash)"] by (simp add: p_def q_def)
  moreover have "length p = 4" "length q = 4" using assms by (simp_all add: p_def q_def)
  ultimately show ?thesis
    using assms(2) by (simp add: buffer_i64_def load64_def be_words_def bswap_64_be_word)
qed

text \<open>Adding an array to the first elements of the state.\<close>

lemma foldl_add:
  "n \<le> length s \<Longrightarrow> foldl (\<lambda>s i. s[i := s ! i + xs ! i]) s [0..<n] =
     map (\<lambda>i. s ! i + xs ! i :: 'w::len word) [0..<n] @ drop n s"
proof (induction n)
  case (Suc n)
  then have "drop n s = s ! n # drop (Suc n) s" by (simp add: Cons_nth_drop_Suc)
  with Suc show ?case by (simp add: nth_append list_update_append)
qed simp

section \<open>The SHA-2 transforms compute the standard's compression functions\<close>

lemma length_8_list: "length xs = 8 \<longleftrightarrow> (\<exists>a b c d e f g h. xs = [a, b, c, d, e, f, g, h])"
  by (auto simp: numeral_eq_Suc length_Suc_conv)

lemma rot_rounds:
  assumes "\<And>rot i. length rot = 8 \<Longrightarrow> i < n \<Longrightarrow>
      length (f rot i) = 8 \<and> vars_of (f rot i) = sha2_round \<Sigma>0 \<Sigma>1 (K i) (W i) (vars_of rot)"
    and "length rot = 8"
  shows "length (foldl f rot [0..<n]) = 8 \<and> vars_of (foldl f rot [0..<n]) = sha2_rounds \<Sigma>0 \<Sigma>1 K W n (vars_of rot)"
  using assms by (induction n) simp_all

lemma upt_8: "[0..<8] = [0, 1, 2, 3, 4, 5, 6, 7 :: nat]"
  by (simp add: upt_rec)

lemma add_vars_array:
  assumes "8 \<le> length s"
  shows "map (\<lambda>i. s ! i + rot ! i) [0..<8] = add_vars (take 8 s) (vars_of rot)"
  using assms by (simp add: add_vars_def vars_of_def upt_8)

lemma vars_of_take: "8 \<le> length s \<Longrightarrow> vars_of (map (\<lambda>i. s ! i) [0..<8]) = vars_of (take 8 s)"
  by (simp add: vars_of_def upt_8)

lemma sha2_32_round_fips:
  assumes "length rot = 8"
  shows "length (sha2_32_round K block rot i) = 8 \<and> vars_of (sha2_32_round K block rot i) =
     sha2_round sha256_Sigma0 sha256_Sigma1 (K ! i) (block ! i) (vars_of rot)"
  using assms
  by (auto simp: length_8_list sha2_32_round_def sha2_round_def vars_of_def mem_write_def Let_def
      sha256_Sigma0_def sha256_Sigma1_def sha2_Ch_def sha2_Maj_def ror_rotr)

lemma sha2_64_round_fips:
  assumes "length rot = 8"
  shows "length (sha2_64_round K block rot i) = 8 \<and> vars_of (sha2_64_round K block rot i) =
     sha2_round sha512_Sigma0 sha512_Sigma1 (K ! i) (block ! i) (vars_of rot)"
  using assms
  by (auto simp: length_8_list sha2_64_round_def sha2_round_def vars_of_def mem_write_def Let_def
      sha512_Sigma0_def sha512_Sigma1_def sha2_Ch_def sha2_Maj_def ror_rotr)

lemma sha2_32_schedule_fips:
  "length M = 16 \<Longrightarrow> sha2_32_schedule M = map (sha2_W sha256_sigma0 sha256_sigma1 M) [0..<64]"
  unfolding sha2_32_schedule_def Let_def
  by (rule schedule_array) (simp_all add: sha256_sigma0_def sha256_sigma1_def ror_rotr)

lemma sha2_64_schedule_fips:
  "length M = 16 \<Longrightarrow> sha2_64_schedule M = map (sha2_W sha512_sigma0 sha512_sigma1 M) [0..<80]"
  unfolding sha2_64_schedule_def Let_def
  by (rule schedule_array) (simp_all add: sha512_sigma0_def sha512_sigma1_def ror_rotr)

lemma sha2_32_transform_fips:
  assumes "64 \<le> length (buffer hash)" "8 \<le> length (state_i32 hash)" "rconsttable32 hash = sha256_K"
  shows "sha2_32_transform hash =
    hash\<lparr>state_i32 := fips_sha256_compress (take 8 (state_i32 hash)) (take 64 (buffer hash)) @ drop 8 (state_i32 hash)\<rparr>"
proof -
  define M :: "u32 list" where "M = be_words 4 (take 64 (buffer hash))"
  define block where "block = sha2_32_schedule M"
  define rot where "rot = foldl (sha2_32_round sha256_K block) (map (\<lambda>i. state_i32 hash ! i) [0..<8]) [0..<64]"
  have m: "map (\<lambda>i. SWAP_BE32 (buffer_i32 hash ! i)) [0..<16] = M"
    using assms(1) by (intro nth_equalityI) (simp_all add: SWAP_BE32_def swapped_i32 M_def)
  have W: "block = map (sha2_W sha256_sigma0 sha256_sigma1 M) [0..<64]"
    by (simp add: block_def sha2_32_schedule_fips M_def)
  have "vars_of rot = sha2_rounds sha256_Sigma0 sha256_Sigma1 (\<lambda>i. sha256_K ! i) (\<lambda>i. block ! i) 64
      (vars_of (take 8 (state_i32 hash)))"
    unfolding rot_def vars_of_take [OF assms(2), symmetric]
    by (rule rot_rounds [THEN conjunct2]) (simp_all add: sha2_32_round_fips)
  also have "\<dots> = sha2_rounds sha256_Sigma0 sha256_Sigma1 (\<lambda>i. sha256_K ! i)
      (sha2_W sha256_sigma0 sha256_sigma1 M) (length sha256_K) (vars_of (take 8 (state_i32 hash)))"
    unfolding length_sha256_K by (rule sha2_rounds_cong) (simp add: W)
  finally have "add_vars (take 8 (state_i32 hash)) (vars_of rot) =
      fips_sha256_compress (take 8 (state_i32 hash)) (take 64 (buffer hash))"
    by (simp add: fips_sha256_compress_def sha2_compress_def M_def)
  then show ?thesis
    using assms(2,3) unfolding sha2_32_transform_def Let_def m block_def [symmetric] add_i32_def
    by (simp add: rot_def [symmetric] foldl_add add_vars_array)
qed

lemma sha2_64_transform_fips:
  assumes "128 \<le> length (buffer hash)" "8 \<le> length (state_i64 hash)" "rconsttable64 hash = sha512_K"
  shows "sha2_64_transform hash =
    hash\<lparr>state_i64 := fips_sha512_compress (take 8 (state_i64 hash)) (take 128 (buffer hash)) @ drop 8 (state_i64 hash)\<rparr>"
proof -
  define M :: "u64 list" where "M = be_words 8 (take 128 (buffer hash))"
  define block where "block = sha2_64_schedule M"
  define rot where "rot = foldl (sha2_64_round sha512_K block) (map (\<lambda>i. state_i64 hash ! i) [0..<8]) [0..<80]"
  have m: "map (\<lambda>i. SWAP_BE64 (buffer_i64 hash ! i)) [0..<16] = M"
    using assms(1) by (intro nth_equalityI) (simp_all add: SWAP_BE64_def swapped_i64 M_def)
  have W: "block = map (sha2_W sha512_sigma0 sha512_sigma1 M) [0..<80]"
    by (simp add: block_def sha2_64_schedule_fips M_def)
  have "vars_of rot = sha2_rounds sha512_Sigma0 sha512_Sigma1 (\<lambda>i. sha512_K ! i) (\<lambda>i. block ! i) 80
      (vars_of (take 8 (state_i64 hash)))"
    unfolding rot_def vars_of_take [OF assms(2), symmetric]
    by (rule rot_rounds [THEN conjunct2]) (simp_all add: sha2_64_round_fips)
  also have "\<dots> = sha2_rounds sha512_Sigma0 sha512_Sigma1 (\<lambda>i. sha512_K ! i)
      (sha2_W sha512_sigma0 sha512_sigma1 M) (length sha512_K) (vars_of (take 8 (state_i64 hash)))"
    unfolding length_sha512_K by (rule sha2_rounds_cong) (simp add: W)
  finally have "add_vars (take 8 (state_i64 hash)) (vars_of rot) =
      fips_sha512_compress (take 8 (state_i64 hash)) (take 128 (buffer hash))"
    by (simp add: fips_sha512_compress_def sha2_compress_def M_def)
  then show ?thesis
    using assms(2,3) unfolding sha2_64_transform_def Let_def m block_def [symmetric] add_i64_def
    by (simp add: rot_def [symmetric] foldl_add add_vars_array)
qed

section \<open>The MD5 transform computes RFC 1321's compression function\<close>

lemma and_masks: "n AND 3 = n mod 4" "n AND 15 = n mod 16" for n :: nat
proof -
  have "n AND mask 2 = n mod 4" "n AND mask 4 = n mod 16" unfolding take_bit_eq_mask [symmetric] take_bit_eq_mod by simp_all
  moreover have "mask 2 = (3 :: nat)" "mask 4 = (15 :: nat)" by (simp_all add: mask_eq_exp_minus_1)
  ultimately show "n AND 3 = n mod 4" "n AND 15 = n mod 16" by simp_all
qed

lemma mod_4_cases: "n mod 4 = 0 \<or> n mod 4 = 1 \<or> n mod 4 = 2 \<or> n mod 4 = (3::nat)"
  by presburger

lemma md5_index: "nat ((- int i) AND 3) = (4 - i mod 4) mod 4"
proof -
  have "(- int i) AND 3 = (- int i) mod 4"
    using take_bit_eq_mask [of 2 "- int i"] by (simp add: take_bit_eq_mod mask_eq_exp_minus_1)
  moreover have "(- int i) mod 4 = (- int (i mod 4)) mod 4"
    by (metis mod_minus_eq of_nat_mod of_nat_numeral)
  ultimately show ?thesis using mod_4_cases [of i] by auto
qed

definition md5_view :: "u32 list \<Rightarrow> nat \<Rightarrow> md5_vars" where
  "md5_view x i =
     (let a = (4 - i mod 4) mod 4
      in (x ! a, x ! ((a + 1) mod 4), x ! ((a + 2) mod 4), x ! ((a + 3) mod 4)))"

lemma md5_rotation: "push_bit (rfc_md5_s i) t OR drop_bit (32 - rfc_md5_s i) t = word_rotl (rfc_md5_s i) (t :: u32)"
proof -
  have "0 < rfc_md5_s i" "rfc_md5_s i < 32" using mod_4_cases [of i] by (auto simp: rfc_md5_s_def)
  then show ?thesis by (simp add: rotl_by_shifts [where 'w = 32, simplified])
qed

lemma md5_parameters:
  "i < 16 \<Longrightarrow> 7 + 5 * (i mod 4) = rfc_md5_s i"
  "16 \<le> i \<Longrightarrow> i < 32 \<Longrightarrow>
     (if (i mod 4 + 1) AND 2 \<noteq> 0 then (i mod 4 + 1) * 5 - 1 else (i mod 4 + 1) * 5) = rfc_md5_s i"
  "32 \<le> i \<Longrightarrow> i < 48 \<Longrightarrow> 4 + 5 * (i mod 4) + ((i mod 4 + 1) AND 6) = rfc_md5_s i"
  "48 \<le> i \<Longrightarrow> 5 * (i mod 4 + 1) + drop_bit 1 ((i mod 4 + 1 + 2) AND 2) = rfc_md5_s i"
  "i < 16 \<Longrightarrow> i = rfc_md5_k i"
  "16 \<le> i \<Longrightarrow> i < 32 \<Longrightarrow> (1 + 5 * i) mod 16 = rfc_md5_k i"
  "32 \<le> i \<Longrightarrow> i < 48 \<Longrightarrow> (5 + 3 * (i mod 16)) mod 16 = rfc_md5_k i"
  "48 \<le> i \<Longrightarrow> (7 * (i mod 16)) mod 16 = rfc_md5_k i"
proof -
  have small: "Suc (Suc 0) AND 2 = 2" "Suc (Suc 0) AND 6 = 2" "drop_bit (Suc 0) (Suc (Suc (Suc 0))) = Suc 0"
    "drop_bit (Suc 0) (Suc (Suc (Suc (Suc 0)))) = 2" by code_simp+
  show "i < 16 \<Longrightarrow> 7 + 5 * (i mod 4) = rfc_md5_s i"
    "16 \<le> i \<Longrightarrow> i < 32 \<Longrightarrow>
       (if (i mod 4 + 1) AND 2 \<noteq> 0 then (i mod 4 + 1) * 5 - 1 else (i mod 4 + 1) * 5) = rfc_md5_s i"
    "32 \<le> i \<Longrightarrow> i < 48 \<Longrightarrow> 4 + 5 * (i mod 4) + ((i mod 4 + 1) AND 6) = rfc_md5_s i"
    "48 \<le> i \<Longrightarrow> 5 * (i mod 4 + 1) + drop_bit 1 ((i mod 4 + 1 + 2) AND 2) = rfc_md5_s i"
    using mod_4_cases [of i] by (auto simp only: rfc_md5_s_def)(auto simp: small)
  show "i < 16 \<Longrightarrow> i = rfc_md5_k i" "16 \<le> i \<Longrightarrow> i < 32 \<Longrightarrow> (1 + 5 * i) mod 16 = rfc_md5_k i"
    by (simp_all add: rfc_md5_k_def)
  show "32 \<le> i \<Longrightarrow> i < 48 \<Longrightarrow> (5 + 3 * (i mod 16)) mod 16 = rfc_md5_k i"
    using mod_add_right_eq [of 5 "3 * (i mod 16)" 16] mod_add_right_eq [of 5 "3 * i" 16]
    by (simp add: rfc_md5_k_def mod_mult_right_eq add.commute)
  show "48 \<le> i \<Longrightarrow> (7 * (i mod 16)) mod 16 = rfc_md5_k i"
    by (simp add: rfc_md5_k_def mod_mult_right_eq)
qed

lemma md5_transform_step_rfc:
  assumes "i < 64"
  shows "md5_transform_step K b x i =
    (case md5_view x i of (v0, v1, v2, v3) \<Rightarrow>
       x[(4 - i mod 4) mod 4 :=
         v1 + word_rotl (rfc_md5_s i) (rfc_md5_f i v1 v2 v3 + (v0 + b ! rfc_md5_k i + K ! i))])"
proof -
  note unfold_step = md5_transform_step_def md5_view_def md5_index and_masks Let_def SWAP_LE32_def
    prod.case if_True if_False rfc_md5_f_def
  consider "i < 16" | "(i < 16) = False" "16 \<le> i" "i < 32"
    | "(i < 16) = False" "(i < 32) = False" "32 \<le> i" "i < 48"
    | "(i < 16) = False" "(i < 32) = False" "(i < 48) = False" "48 \<le> i" by force
  then show ?thesis
  proof cases
    case 1
    then show ?thesis
      using md5_rotation [of i] md5_parameters(1,5) [of i]
      by (simp add: md5_transform_step_def md5_view_def md5_index and_masks Let_def SWAP_LE32_def rfc_md5_f_def)
  next
    case 2
    show ?thesis
      by (simp only: unfold_step 2(1,3) md5_parameters(2) [OF 2(2,3)] md5_parameters(6) [OF 2(2,3)] md5_rotation)
  next
    case 3
    show ?thesis
      by (simp only: unfold_step 3(1,2,4) md5_parameters(3) [OF 3(3,4)] md5_parameters(7) [OF 3(3,4)] md5_rotation)
  next
    case 4
    show ?thesis
      by (simp only: unfold_step 4(1,2,3) md5_parameters(4) [OF 4(4)] md5_parameters(8) [OF 4(4)] md5_rotation)
  qed
qed

lemma md5_view_step:
  assumes "i < 64" "length x = 4" "K ! i = md5_tab ! i"
  shows "length (md5_transform_step K b x i) = 4 \<and>
    md5_view (md5_transform_step K b x i) (Suc i) = rfc_md5_step b i (md5_view x i)"
proof -
  obtain x0 x1 x2 x3 where x: "x = [x0, x1, x2, x3]"
    using assms(2) by (auto simp: numeral_eq_Suc length_Suc_conv)
  have "Suc i mod 4 = Suc (i mod 4) mod 4" by (simp add: mod_Suc_eq)
  then show ?thesis
    using mod_4_cases [of i]
    by (auto simp: md5_transform_step_rfc [OF assms(1)] md5_view_def x assms(3) rfc_md5_step_def Let_def ac_simps)
qed

lemma md5_view_0: "n mod 4 = 0 \<Longrightarrow> md5_view x n = (x ! 0, x ! 1, x ! 2, x ! 3)"
proof -
  have "(4 - 0) mod 4 = (0::nat)" "(0 + 1) mod 4 = (1::nat)" "(0 + 2) mod 4 = (2::nat)" "(0 + 3) mod 4 = (3::nat)"
    by simp_all
  then show "n mod 4 = 0 \<Longrightarrow> ?thesis" by (simp only: md5_view_def Let_def)
qed

lemma md5_view_steps:
  assumes "length x = 4" "K = md5_tab" "n \<le> 64"
  shows "length (foldl (md5_transform_step K b) x [0..<n]) = 4 \<and>
    md5_view (foldl (md5_transform_step K b) x [0..<n]) n = rfc_md5_steps b n (md5_view x 0)"
  using assms(3) by (induction n) (simp_all add: assms(1,2) md5_view_step)

lemma md5_transform_rfc:
  assumes "64 \<le> length (buffer hash)" "4 \<le> length (state_i32 hash)" "rconsttable32 hash = md5_tab"
  shows "md5_transform hash =
    hash\<lparr>state_i32 := rfc_md5_compress (take 4 (state_i32 hash)) (take 64 (buffer hash)) @ drop 4 (state_i32 hash)\<rparr>"
proof -
  define x0 where "x0 = map (\<lambda>i. state_i32 hash ! i) [0..<4]"
  define x where "x = foldl (md5_transform_step (rconsttable32 hash) (buffer_i32 hash)) x0 [0..<64]"
  have upt_4: "[0..<4] = [0, 1, 2, 3 :: nat]" by (simp add: upt_rec)
  have b: "buffer_i32 hash = le_words (take 64 (buffer hash))"
    using assms(1) by (simp add: buffer_i32_def le_words_def load32_def drop_take min_def)
  have "md5_view x 64 = rfc_md5_steps (buffer_i32 hash) 64 (md5_view x0 0)"
    unfolding x_def using assms(3) by (intro md5_view_steps [THEN conjunct2]) (simp_all add: x0_def)
  then have "rfc_md5_steps (buffer_i32 hash) 64
      (state_i32 hash ! 0, state_i32 hash ! 1, state_i32 hash ! 2, state_i32 hash ! 3) = (x ! 0, x ! 1, x ! 2, x ! 3)"
    using assms(2) md5_view_0 [of 64 x] md5_view_0 [of 0 x0] by (simp add: x0_def upt_4)
  then have "rfc_md5_compress (take 4 (state_i32 hash)) (take 64 (buffer hash)) =
      map (\<lambda>i. state_i32 hash ! i + x ! i) [0..<4]"
    using assms(2) by (simp add: rfc_md5_compress_def upt_4 b [symmetric])
  then show ?thesis
    using assms(2) unfolding md5_transform_def Let_def x0_def [symmetric] x_def [symmetric] add_i32_def
    by (simp add: foldl_add)
qed

section \<open>The SHA-1 transform computes the standard's compression function\<close>

text \<open>SHA-1 of FIPS 180-4: the message schedule as a recurrence, the rounds on a tuple.\<close>

fun fips_sha1_W :: "u32 list \<Rightarrow> nat \<Rightarrow> u32" where
  "fips_sha1_W M t =
     (if t < 16 then M ! t
      else word_rotl 1 (fips_sha1_W M (t - 3) XOR fips_sha1_W M (t - 8) XOR fips_sha1_W M (t - 14) XOR
             fips_sha1_W M (t - 16)))"

declare fips_sha1_W.simps [simp del]

definition fips_sha1_f :: "nat \<Rightarrow> u32 \<Rightarrow> u32 \<Rightarrow> u32 \<Rightarrow> u32" where
  "fips_sha1_f t x y z =
     (if t < 20 then sha2_Ch x y z else if t < 40 then x XOR y XOR z
      else if t < 60 then sha2_Maj x y z else x XOR y XOR z)"

definition fips_sha1_K :: "nat \<Rightarrow> u32" where
  "fips_sha1_K t =
     (if t < 20 then 0x5a827999 else if t < 40 then 0x6ed9eba1 else if t < 60 then 0x8f1bbcdc else 0xca62c1d6)"

fun fips_sha1_rounds ::
    "u32 list \<Rightarrow> nat \<Rightarrow> u32 \<times> u32 \<times> u32 \<times> u32 \<times> u32 \<Rightarrow> u32 \<times> u32 \<times> u32 \<times> u32 \<times> u32" where
  "fips_sha1_rounds M 0 v = v"
| "fips_sha1_rounds M (Suc t) v =
     (case fips_sha1_rounds M t v of (a, b, c, d, e) \<Rightarrow>
        (word_rotl 5 a + fips_sha1_f t b c d + e + fips_sha1_K t + fips_sha1_W M t, a, word_rotl 30 b, c, d))"

definition fips_sha1_compress :: "u32 list \<Rightarrow> byte list \<Rightarrow> u32 list" where
  "fips_sha1_compress H b =
     (case fips_sha1_rounds (be_words 4 b) 80 (H ! 0, H ! 1, H ! 2, H ! 3, H ! 4) of (a, b, c, d, e) \<Rightarrow>
        [H ! 0 + a, H ! 1 + b, H ! 2 + c, H ! 3 + d, H ! 4 + e])"

text \<open>The ring: the last sixteen words of the schedule, and before that the words still to be swapped.\<close>

definition sha1_ring :: "u32 list \<Rightarrow> u32 list \<Rightarrow> nat \<Rightarrow> u32 list \<Rightarrow> bool" where
  "sha1_ring b0 M c block \<longleftrightarrow>
     length block = 16 \<and> (\<forall>t<c. c \<le> t + 16 \<longrightarrow> block ! (t mod 16) = fips_sha1_W M t) \<and>
     (\<forall>t<16. c \<le> t \<longrightarrow> block ! t = b0 ! t)"

lemma sha1_ring_update:
  assumes "sha1_ring b0 M c block" "v = fips_sha1_W M c"
  shows "sha1_ring b0 M (Suc c) (block[c mod 16 := v])"
proof -
  have "c mod 16 \<noteq> t mod 16" if "t < c" "c \<le> 15 + t" for t
  proof
    assume "c mod 16 = t mod 16"
    then have "16 dvd c - t" using that mod_eq_dvd_iff_nat [of t c 16] by simp
    then show False using that by (auto dest: dvd_imp_le)
  qed
  moreover have "c mod 16 = c" if "c < 16" using that by simp
  ultimately show ?thesis
    using assms by (auto simp: sha1_ring_def nth_list_update less_Suc_eq)
qed

lemma sha1_ring_swap:
  assumes "sha1_ring b0 M c block" "c < 16" "\<forall>t<16. bswap_32 (b0 ! t) = M ! t"
  shows "bswap_32 (block ! c) = fips_sha1_W M c"
  using assms by (simp add: sha1_ring_def fips_sha1_W.simps [of M c])

lemma sha1_ring_expand:
  assumes "sha1_ring b0 M c block" "16 \<le> c"
  shows "rol (block ! ((c + 13) mod 16) XOR block ! ((c + 8) mod 16) XOR
      block ! ((c + 2) mod 16) XOR block ! (c mod 16)) 1 = fips_sha1_W M c"
proof -
  have at: "block ! ((c + (16 - k)) mod 16) = fips_sha1_W M (c - k)" if "0 < k" "k \<le> 16" for k
  proof -
    have "c + (16 - k) = (c - k) + 16" using that assms(2) by simp
    then have "(c + (16 - k)) mod 16 = (c - k) mod 16" by (simp only: mod_add_self2)
    then show ?thesis using assms that by (simp add: sha1_ring_def)
  qed
  show ?thesis
    using at [of 3] at [of 8] at [of 14] at [of 16] assms(2)
    by (simp add: fips_sha1_W.simps [of M c] rol_rotl)
qed

definition sha1_rot :: "nat \<Rightarrow> nat list" where
  "sha1_rot c = map (\<lambda>k. (k + 4 * c) mod 5) [0, 1, 2, 3, 4]"

definition sha1_view :: "u32 list \<Rightarrow> nat list \<Rightarrow> u32 \<times> u32 \<times> u32 \<times> u32 \<times> u32" where
  "sha1_view st rot = (st ! (rot ! 0), st ! (rot ! 1), st ! (rot ! 2), st ! (rot ! 3), st ! (rot ! 4))"

lemma sha1_rot_next: "sha1_rot c ! 4 # take 4 (sha1_rot c) = sha1_rot (Suc c)"
proof -
  have "(k + 1 + 4 * Suc c) mod 5 = (k + 4 * c) mod 5" for k
    using mod_add_self2 [of "k + 4 * c" 5] by (simp add: ac_simps)
  from this [of 0] this [of 1] this [of 2] this [of 3] show ?thesis
    by (simp add: sha1_rot_def)
qed

lemma sha1_rot_distinct: "\<exists>r0 r1 r2 r3 r4. sha1_rot c = [r0, r1, r2, r3, r4] \<and> distinct [r0, r1, r2, r3, r4] \<and>
    r0 < 5 \<and> r1 < 5 \<and> r2 < 5 \<and> r3 < 5 \<and> r4 < 5"
proof -
  have eq: "(k + 4 * c) mod 5 = (k + (4 * c) mod 5) mod 5" for k by (simp add: mod_add_right_eq)
  have "(4 * c) mod 5 < 5" by simp
  then consider "(4 * c) mod 5 = 0" | "(4 * c) mod 5 = 1" | "(4 * c) mod 5 = 2" | "(4 * c) mod 5 = 3" | "(4 * c) mod 5 = 4"
    by linarith
  then show ?thesis unfolding sha1_rot_def by cases (simp_all add: eq)
qed

lemma sha1_mix:
  assumes "t = 20 * i + j" "j < 20" "i < 4"
  shows "(if i = 0 then ((y XOR z) AND x) XOR z else if i = 2 then ((x OR y) AND z) OR (x AND y)
      else (y XOR z) XOR x) = fips_sha1_f t x y z" "sha1rconsts ! i = fips_sha1_K t"
proof -
  have mix: "((y XOR z) AND x) XOR z = sha2_Ch x y z" "((x OR y) AND z) OR (x AND y) = sha2_Maj x y z"
    "(y XOR z) XOR x = x XOR y XOR z"
    by (simp_all add: Ch_optimised [symmetric] Maj_optimised [symmetric] ac_simps)
  from assms(3) consider "i = 0" | "i = 1" | "i = 2" | "i = 3" by linarith
  note i = this
  show "(if i = 0 then ((y XOR z) AND x) XOR z else if i = 2 then ((x OR y) AND z) OR (x AND y)
      else (y XOR z) XOR x) = fips_sha1_f t x y z"
    unfolding mix using i assms(1,2) by cases (simp_all add: fips_sha1_f_def)
  show "sha1rconsts ! i = fips_sha1_K t"
    using i assms(1,2) by cases (simp_all add: sha1rconsts_def fips_sha1_K_def)
qed

definition sha1_inv :: "u32 list \<Rightarrow> u32 list \<Rightarrow> u32 list \<Rightarrow> nat \<Rightarrow> sha1_vars \<Rightarrow> bool" where
  "sha1_inv st0 b0 M c v \<longleftrightarrow>
     (case v of (st, rot, block, cnt) \<Rightarrow>
        cnt = c \<and> rot = sha1_rot c \<and> sha1_ring b0 M c block \<and> length st = length st0 \<and>
        drop 5 st = drop 5 st0 \<and>
        sha1_view st rot = fips_sha1_rounds M c (sha1_view st0 (sha1_rot 0)))"

lemma sha1_operation_inv:
  assumes inv: "sha1_inv st0 b0 M c v" and c: "c = 20 * i + j" "j < 20" "i < 4"
    and b0: "\<forall>t<16. bswap_32 (b0 ! t) = M ! t" and st0: "5 \<le> length st0"
  shows "sha1_inv st0 b0 M (Suc c) (sha1_operation i v j)"
proof -
  obtain st block where v: "v = (st, sha1_rot c, block, c)" and ring: "sha1_ring b0 M c block"
    and st: "length st = length st0" "drop 5 st = drop 5 st0"
    and view: "sha1_view st (sha1_rot c) = fips_sha1_rounds M c (sha1_view st0 (sha1_rot 0))"
    using inv by (auto simp: sha1_inv_def)
  obtain r0 r1 r2 r3 r4 where r: "sha1_rot c = [r0, r1, r2, r3, r4]" "distinct [r0, r1, r2, r3, r4]"
      "r0 < 5" "r1 < 5" "r2 < 5" "r3 < 5" "r4 < 5"
    using sha1_rot_distinct by blast
  define w where "w = fips_sha1_W M c"
  have block: "(if i = 0 \<and> j < 16
      then block[c := (ror (block ! c) 8 AND 0xFF00FF00) OR (rol (block ! c) 8 AND 0x00FF00FF)]
      else block[c AND 15 := rol (block ! ((c + 13) AND 15) XOR block ! ((c + 8) AND 15) XOR
        block ! ((c + 2) AND 15) XOR block ! (c AND 15)) 1]) = block[c mod 16 := w]"
  proof (cases "i = 0 \<and> j < 16")
    case True
    then have "c < 16" using c by simp
    with True show ?thesis using sha1_ring_swap [OF ring _ b0] by (simp add: sha1_swap w_def)
  next
    case False
    then have "16 \<le> c" using c by linarith
    with False show ?thesis using sha1_ring_expand [OF ring] by (auto simp: and_masks w_def)
  qed
  have word: "(if i = 0 \<and> j < 16 then block[c mod 16 := w] ! c else block[c mod 16 := w] ! (c AND 15)) = w"
    using ring c by (auto simp: and_masks sha1_ring_def)
  define a where "a = st ! r4 + (fips_sha1_f c (st ! r1) (st ! r2) (st ! r3) + w + rol (st ! r0) 5 + fips_sha1_K c)"
  have op: "sha1_operation i v j = (st[r4 := a, r1 := rol (st ! r1) 30], sha1_rot (Suc c), block[c mod 16 := w], Suc c)"
    unfolding v sha1_operation_def prod.case Let_def block word sha1_mix [OF c] sha1_rot_next
    using not_sym [of r1 r4] r(2) by (auto simp: r(1) a_def)
  have "sha1_view (st[r4 := a, r1 := rol (st ! r1) 30]) (sha1_rot (Suc c)) = (a, st ! r0, rol (st ! r1) 30, st ! r2, st ! r3)"
    unfolding sha1_rot_next [symmetric] r(1) using r(2-) st(1) st0 by (auto simp: sha1_view_def)
  also have "\<dots> = fips_sha1_rounds M (Suc c) (sha1_view st0 (sha1_rot 0))"
    unfolding fips_sha1_rounds.simps view [symmetric] r(1)
    by (simp add: sha1_view_def a_def w_def rol_rotl ac_simps)
  finally show ?thesis
    using r(4,7) st sha1_ring_update [OF ring w_def]
    by (simp add: op sha1_inv_def drop_update_cancel)
qed

lemma sha1_operations_inv:
  assumes "sha1_inv st0 b0 M (20 * i) v" "i < 4" "\<forall>t<16. bswap_32 (b0 ! t) = M ! t" "5 \<le> length st0" "n \<le> 20"
  shows "sha1_inv st0 b0 M (20 * i + n) (foldl (sha1_operation i) v [0..<n])"
  using assms(5) by (induction n) (use assms(1) sha1_operation_inv [OF _ refl _ assms(2-4)] in simp_all)

lemma sha1_loops_inv:
  assumes "sha1_inv st0 b0 M 0 v" "\<forall>t<16. bswap_32 (b0 ! t) = M ! t" "5 \<le> length st0" "n \<le> 4"
  shows "sha1_inv st0 b0 M (20 * n) (foldl (\<lambda>v i. foldl (sha1_operation i) v [0..<20]) v [0..<n])"
  using assms(4)
proof (induction n)
  case (Suc n)
  then show ?case using sha1_operations_inv [of st0 b0 M n _ 20] assms(2,3) by (simp add: add.commute)
qed (use assms(1) in simp)

lemma sha1_transform_fips:
  assumes "64 \<le> length (buffer hash)" "5 \<le> length (state_i32 hash)"
  shows "\<exists>b. length b = length (buffer hash) \<and> sha1_transform hash =
    hash\<lparr>state_i32 := fips_sha1_compress (take 5 (state_i32 hash)) (take 64 (buffer hash)) @ drop 5 (state_i32 hash),
      buffer := b\<rparr>"
proof -
  define M :: "u32 list" where "M = be_words 4 (take 64 (buffer hash))"
  define s where "s = state_i32 hash"
  have "sha1_inv s (buffer_i32 hash) M 0 (s, [0, 1, 2, 3, 4], buffer_i32 hash, 0)"
    by (simp add: sha1_inv_def sha1_ring_def buffer_i32_def sha1_rot_def)
  then have "sha1_inv s (buffer_i32 hash) M (20 * 4)
      (foldl (\<lambda>v i. foldl (sha1_operation i) v [0..<20]) (s, [0, 1, 2, 3, 4], buffer_i32 hash, 0) [0..<4])"
    by (rule sha1_loops_inv) (use assms in \<open>simp_all add: swapped_i32 M_def s_def\<close>)
  then obtain st block where loop: "foldl (\<lambda>v i. foldl (sha1_operation i) v [0..<20])
        (s, [0, 1, 2, 3, 4], buffer_i32 hash, 0) [0..<4] = (st, [0, 1, 2, 3, 4], block, 80)"
      and block: "length block = 16" and st: "length st = length s" "drop 5 st = drop 5 s"
      and view: "sha1_view st [0, 1, 2, 3, 4] = fips_sha1_rounds M 80 (sha1_view s [0, 1, 2, 3, 4])"
    by (auto simp: sha1_inv_def sha1_rot_def sha1_ring_def)
  have upt_5: "[0..<5] = [0, 1, 2, 3, 4 :: nat]" by (simp add: upt_rec)
  have "fips_sha1_compress (take 5 s) (take 64 (buffer hash)) = map (\<lambda>i. st ! i + map (\<lambda>i. s ! i) [0..<5] ! i) [0..<5]"
    using view [symmetric] assms(2)
    by (simp add: fips_sha1_compress_def M_def sha1_view_def upt_5 s_def add.commute)
  moreover have "length (concat (map le32 block)) = 64"
    using block by (simp add: length_concat comp_def sum_list_triv)
  ultimately show ?thesis
    unfolding sha1_transform_def Let_def s_def [symmetric] loop prod.case add_i32_def put_buffer_i32_def
    using assms st by (intro exI [of _ "mem_write 0 (concat (map le32 block)) (buffer hash)"])
      (simp add: foldl_add length_mem_write s_def)
qed

section \<open>Chunking\<close>

text \<open>
  What \<open>hash_update\<close> and the loops of \<open>hash_by_name\<close> rely on: the chunk size is a
  power of two that fits the buffer, and a transform mixes the first chunk of the buffer into
  the hash value \<open>val\<close>, leaves the counters alone and keeps the structure well formed.
  \<open>absorbed\<close> is the representation: the structure has consumed a message.
\<close>

lemma rest_block_block: "length xs = n \<Longrightarrow> rest_block n (xs @ ys) = rest_block n ys"
  using rest_block_drop [of n "xs @ ys"] by simp

lemma count_wraps:
  assumes "d < 2 ^ 64"
  shows "(n + d) div 2 ^ 64 =
    (if (of_nat n :: u64) + of_nat d < of_nat n then n div 2 ^ 64 + 1 else n div 2 ^ 64)"
proof -
  define q r where "q = n div 2 ^ 64" and "r = n mod 2 ^ 64"
  have n: "n = q * 2 ^ 64 + r" "r < 2 ^ 64" by (simp_all add: q_def r_def)
  have u: "unat (of_nat n :: u64) = r" "unat (of_nat (n + d) :: u64) = (r + d) mod 2 ^ 64"
    by (simp_all add: unat_of_nat r_def mod_add_left_eq del: of_nat_add)
  have lt: "(of_nat n :: u64) + of_nat d < of_nat n \<longleftrightarrow> (r + d) mod 2 ^ 64 < r"
    unfolding word_less_nat_alt of_nat_add [symmetric] u ..
  have dv: "(n + d) div 2 ^ 64 = q + (r + d) div 2 ^ 64"
    unfolding n(1) by (simp add: add.assoc)
  show ?thesis
  proof (cases "r + d < 2 ^ 64")
    case True
    then show ?thesis unfolding lt dv by (simp add: q_def)
  next
    case False
    then have "(r + d) div 2 ^ 64 = 1" "(r + d) mod 2 ^ 64 = r + d - 2 ^ 64"
      using n(2) assms by (simp_all add: div_nat_eqI mod_if)
    then show ?thesis unfolding lt dv using assms False n(2) by (simp add: q_def)
  qed
qed

locale chunk_hash =
  fixes k :: nat and transform :: "browns \<Rightarrow> browns"
    and ok :: "browns \<Rightarrow> bool" and val :: "browns \<Rightarrow> 'h" and compress :: "'h \<Rightarrow> byte list \<Rightarrow> 'h"
  assumes k: "k \<le> 7"
    and ok_buffer: "ok h \<Longrightarrow> length (buffer h) = 128"
    and ok_set_buffer: "ok h \<Longrightarrow> length b = 128 \<Longrightarrow> ok (h\<lparr>buffer := b\<rparr>)"
    and ok_count: "ok (h\<lparr>count := c\<rparr>) = ok h"
    and ok_overflow: "ok (h\<lparr>overflow := c\<rparr>) = ok h"
    and val_buffer: "val (h\<lparr>buffer := b\<rparr>) = val h"
    and val_count: "val (h\<lparr>count := c\<rparr>) = val h"
    and val_overflow: "val (h\<lparr>overflow := c\<rparr>) = val h"
    and transform_ok: "ok h \<Longrightarrow> ok (transform h)"
    and transform_val: "ok h \<Longrightarrow> val (transform h) = compress (val h) (take (2 ^ k) (buffer h))"
    and transform_count: "ok h \<Longrightarrow> count (transform h) = count h"
    and transform_overflow: "ok h \<Longrightarrow> overflow (transform h) = overflow h"
begin

abbreviation "cs \<equiv> 2 ^ k :: nat"

lemmas ok_simps = ok_buffer ok_set_buffer ok_count ok_overflow val_buffer val_count val_overflow
  transform_ok transform_val transform_count transform_overflow

definition absorbed :: "'h \<Rightarrow> browns \<Rightarrow> byte list \<Rightarrow> bool" where
  "absorbed iv h msg \<longleftrightarrow>
     ok h \<and> count h = of_nat (length msg) \<and> overflow h = of_nat (length msg div 2 ^ 64) \<and>
     val h = foldl compress iv (full_blocks cs msg) \<and>
     take (length msg mod cs) (buffer h) = rest_block cs msg"

lemma cs: "0 < cs" "cs \<le> 128" "cs dvd 2 ^ 64"
proof -
  have "cs \<le> 2 ^ 7" using k by (intro power_increasing) auto
  then show "cs \<le> 128" by simp
  show "cs dvd 2 ^ 64" using k by (intro le_imp_power_dvd) simp
qed simp

lemma position: "unat (of_nat n AND of_nat (cs - 1) :: u64) = n mod cs"
proof -
  have "of_nat (cs - 1) = (mask k :: u64)" by (simp add: mask_eq_exp_minus_1 of_nat_diff)
  then have "of_nat n AND of_nat (cs - 1) = take_bit k (of_nat n :: u64)"
    by (simp add: take_bit_eq_mask)
  moreover have "unat (take_bit k (of_nat n :: u64)) = n mod cs"
    unfolding unsigned_take_bit_eq unat_of_nat using cs(3) by (simp add: take_bit_eq_mod mod_mod_cancel)
  ultimately show ?thesis by simp
qed

lemma update_loop:
  assumes "ok h" "j < cs"
  shows "\<exists>h'. hash_update_loop transform cs j data h = Some h' \<and> ok h' \<and> count h' = count h \<and> overflow h' = overflow h \<and>
     val h' = foldl compress (val h) (full_blocks cs (take j (buffer h) @ data)) \<and>
     take ((j + length data) mod cs) (buffer h') = rest_block cs (take j (buffer h) @ data)"
  using assms
proof (induction "length data" arbitrary: data j h rule: less_induct)
  case less
  have len: "length (buffer h) = 128" using less.prems ok_buffer by blast
  show ?case
  proof (cases "j + length data < cs")
    case True
    define h' where "h' = h\<lparr>buffer := mem_write j data (buffer h)\<rparr>"
    have "hash_update_loop transform cs j data h = Some h'"
      using True by (subst hash_update_loop.simps) (simp add: h'_def)
    moreover have "length (mem_write j data (buffer h)) = 128"
      using True cs(2) len by (simp add: length_mem_write)
    moreover have "take (j + length data) (mem_write j data (buffer h)) = take j (buffer h) @ data"
      using True cs(2) len by (intro take_mem_write) simp_all
    moreover have "length (take j (buffer h) @ data) < cs" using True by simp
    ultimately show ?thesis using True less.prems
      by (intro exI [of _ h']) (simp add: h'_def ok_simps full_blocks_short rest_block_short)
  next
    case False
    define i where "i = cs - j"
    define b where "b = mem_write j (take i data) (buffer h)"
    have i: "i \<le> length data" "0 < i" "j + i = cs" using False less.prems by (simp_all add: i_def)
    have b: "length b = 128" "take cs b = take j (buffer h) @ take i data"
      unfolding b_def using i cs(2) len by (simp add: length_mem_write, intro take_mem_write) simp_all
    have lb: "length (take j (buffer h) @ take i data) = cs" using i cs(2) len by simp
    define h1 where "h1 = transform (h\<lparr>buffer := b\<rparr>)"
    have h1: "ok h1" "count h1 = count h" "overflow h1 = overflow h" "val h1 = compress (val h) (take cs b)"
      using less.prems b(1) by (simp_all add: h1_def ok_simps)
    have "hash_update_loop transform cs j data h = hash_update_loop transform cs 0 (drop i data) h1"
      using i by (subst hash_update_loop.simps) (simp add: h1_def b_def min_def i_def Let_def)
    moreover have "length (drop i data) < length data" using i by simp
    from less.hyps [OF this h1(1), of 0]
    obtain h' where "hash_update_loop transform cs 0 (drop i data) h1 = Some h'" "ok h'"
        "count h' = count h1" "overflow h' = overflow h1"
        "val h' = foldl compress (val h1) (full_blocks cs (drop i data))"
        "take ((0 + length (drop i data)) mod cs) (buffer h') = rest_block cs (drop i data)"
      using cs(1) by auto
    moreover have split: "take j (buffer h) @ data = (take j (buffer h) @ take i data) @ drop i data" by simp
    moreover have "full_blocks cs (take j (buffer h) @ data) = take cs b # full_blocks cs (drop i data)"
      unfolding split b(2) using lb by (intro full_blocks_block) simp_all
    moreover have "rest_block cs (take j (buffer h) @ data) = rest_block cs (drop i data)"
      unfolding split using lb by (rule rest_block_block)
    moreover have "(length data - i) mod cs = (j + length data) mod cs"
    proof -
      have "j + length data = (length data - i) + cs" using i by simp
      then show ?thesis by (simp only: mod_add_self2)
    qed
    ultimately show ?thesis using h1 by (intro exI [of _ h']) simp
  qed
qed

lemma update_absorbed:
  assumes "absorbed iv h msg" "length data < 2 ^ 64"
  shows "\<exists>h'. hash_update data transform cs h = Some h' \<and> absorbed iv h' (msg @ data)"
proof -
  define n where "n = length msg"
  define h1 where "h1 = h\<lparr>overflow := of_nat ((n + length data) div 2 ^ 64), count := of_nat (n + length data)\<rparr>"
  have a: "ok h" "count h = of_nat n" "overflow h = of_nat (n div 2 ^ 64)"
    "val h = foldl compress iv (full_blocks cs msg)" "take (n mod cs) (buffer h) = rest_block cs msg"
    using assms(1) by (simp_all add: absorbed_def n_def)
  have h1: "ok h1" "val h1 = val h" "buffer h1 = buffer h"
    using a(1) by (simp_all add: h1_def ok_simps)
  have "(n + length data) div 2 ^ 64 =
      (if count h + of_nat (length data) < count h then n div 2 ^ 64 + 1 else n div 2 ^ 64)"
    unfolding a(2) using count_wraps [OF assms(2)] by simp
  then have wrap: "of_nat ((n + length data) div 2 ^ 64) =
      (if count h + of_nat (length data) < count h then overflow h + 1 else overflow h)"
    by (simp add: a(3) add.commute)
  have "hash_update data transform cs h = hash_update_loop transform cs (n mod cs) data h1"
    unfolding hash_update_def Let_def h1_def wrap position [symmetric] by (simp add: a(2))
  moreover have "full_blocks cs (msg @ data) = full_blocks cs msg @ full_blocks cs (rest_block cs msg @ data)"
    "rest_block cs (msg @ data) = rest_block cs (rest_block cs msg @ data)"
    using full_blocks_append [OF cs(1)] rest_block_append [OF cs(1)] by blast+
  moreover have "(n mod cs + length data) mod cs = length (msg @ data) mod cs"
    by (simp add: n_def mod_add_left_eq)
  moreover obtain h' where "hash_update_loop transform cs (n mod cs) data h1 = Some h'" "ok h'"
     "count h' = count h1" "overflow h' = overflow h1"
     "val h' = foldl compress (val h1) (full_blocks cs (take (n mod cs) (buffer h1) @ data))"
     "take ((n mod cs + length data) mod cs) (buffer h') = rest_block cs (take (n mod cs) (buffer h1) @ data)"
    using update_loop [OF h1(1), of "n mod cs" data] cs(1) by auto
  ultimately show ?thesis
    using a h1 by (intro exI [of _ h']) (simp add: absorbed_def h1_def n_def)
qed

lemma reads_absorbed:
  assumes "absorbed iv h msg" "\<forall>r\<in>set rs. 0 < length r \<and> length r \<le> length libbuf" "length libbuf < 2 ^ 64"
  shows "\<exists>h' lb. hash_reads transform cs rs h libbuf = Some (h', lb) \<and> length lb = length libbuf \<and>
     absorbed iv h' (msg @ concat rs)"
  using assms
proof (induction rs arbitrary: h msg libbuf)
  case (Cons r rs)
  define lb where "lb = mem_write 0 r libbuf"
  have r: "0 < length r" "length r \<le> length libbuf" using Cons.prems(2) by simp_all
  then have lb: "length lb = length libbuf" "take (length r) lb = r"
    by (simp_all add: lb_def length_mem_write take_mem_write)
  obtain h' where h': "hash_update r transform cs h = Some h'" "absorbed iv h' (msg @ r)"
    using update_absorbed [OF Cons.prems(1), of r] r Cons.prems(3) by auto
  moreover have "hash_reads transform cs (r # rs) h libbuf = hash_reads transform cs rs h' lb"
    using r lb(2) h'(1) by (simp add: lb_def)
  ultimately show ?case
    using Cons.IH [OF h'(2), of lb] Cons.prems lb(1) by simp
qed simp

lemma pad_absorbed:
  assumes "absorbed iv h msg" "z < cs" "(length msg + 1 + z) mod cs = cs - i"
  shows "\<exists>h'. hash_pad transform cs i b h = Some h' \<and> absorbed iv h' (msg @ b # replicate z 0)"
  using assms
proof (induction z arbitrary: h msg b)
  case 0
  then obtain h' where h': "hash_update [b] transform cs h = Some h'" "absorbed iv h' (msg @ [b])"
    using update_absorbed [of iv h msg "[b]"] by auto
  then have "count h' = of_nat (length msg + 1)" by (simp add: absorbed_def)
  then have "unat (count h' AND of_nat (cs - 1)) = cs - i"
    using 0 position [of "length msg + 1"] by simp
  with h' show ?case by (subst hash_pad.simps) simp
next
  case (Suc z)
  then obtain h' where h': "hash_update [b] transform cs h = Some h'" "absorbed iv h' (msg @ [b])"
    using update_absorbed [of iv h msg "[b]"] by auto
  then have "count h' = of_nat (length msg + 1)" by (simp add: absorbed_def)
  then have "unat (count h' AND of_nat (cs - 1)) = (length msg + 1) mod cs"
    using position [of "length msg + 1"] by simp
  moreover have "(length msg + 1) mod cs \<noteq> cs - i"
  proof
    assume "(length msg + 1) mod cs = cs - i"
    then have "cs dvd Suc z"
      using Suc.prems(3) mod_eq_dvd_iff_nat [of "length msg + 1" "length msg + 1 + Suc z" cs] by simp
    then show False using Suc.prems(2) by (auto dest: dvd_imp_le)
  qed
  ultimately have "hash_pad transform cs i b h = hash_pad transform cs i 0 h'"
    using h' by (subst hash_pad.simps) simp
  moreover have "z < cs" "(length (msg @ [b]) + 1 + z) mod cs = cs - i" using Suc.prems by simp_all
  ultimately show ?case using Suc.IH [OF h'(2), of 0] by simp
qed

lemma padding_length:
  assumes "lim < cs"
  shows "(cs + lim - (n mod cs + 1)) mod cs < cs" "(n + 1 + (cs + lim - (n mod cs + 1)) mod cs) mod cs = lim"
proof -
  have m: "n mod cs + 1 \<le> cs" using cs(1) by (simp add: Suc_leI)
  have "(n + 1 + (cs + lim - (n mod cs + 1)) mod cs) mod cs = (n mod cs + 1 + (cs + lim - (n mod cs + 1))) mod cs"
    by (metis mod_add_left_eq mod_add_right_eq)
  also have "\<dots> = lim" using m assms by simp
  finally show "(n + 1 + (cs + lim - (n mod cs + 1)) mod cs) mod cs = lim" .
qed (use cs(1) in simp)

lemma finish_digest:
  assumes "absorbed iv h msg" "i \<le> cs" "0 < i" "\<And>n. length (enc n) = i" "field = enc (length msg)"
  shows "\<exists>h1 h2. hash_pad transform cs i 0x80 h = Some h1 \<and> hash_update field transform cs h1 = Some h2 \<and>
     ok h2 \<and> val h2 = md_digest cs (cs - i) enc compress iv msg"
proof -
  define z where "z = (cs + (cs - i) - (length msg mod cs + 1)) mod cs"
  have "cs - i < cs" using assms(3) cs(1) by simp
  note pl = padding_length [OF this, of "length msg", folded z_def]
  obtain h1 where h1: "hash_pad transform cs i 0x80 h = Some h1" "absorbed iv h1 (msg @ 0x80 # replicate z 0)"
    using pad_absorbed [OF assms(1) pl] by blast
  have "length field < 2 ^ 64" using assms(2,4,5) cs(2) by simp
  then obtain h2 where h2: "hash_update field transform cs h1 = Some h2"
      "absorbed iv h2 ((msg @ 0x80 # replicate z 0) @ field)"
    using update_absorbed [OF h1(2)] by blast
  then show ?thesis
    using h1 by (intro exI [of _ h1] exI [of _ h2]) (simp add: absorbed_def md_digest_def md_padding_def z_def assms(5))
qed

lemma run_digest:
  assumes "absorbed iv h []" "\<forall>r\<in>set rs. 0 < length r \<and> length r \<le> length libbuf" "length libbuf < 2 ^ 64"
    and "i \<le> cs" "0 < i" "\<And>n. length (enc n) = i"
    and "\<And>h n. count h = of_nat n \<Longrightarrow> overflow h = of_nat (n div 2 ^ 64) \<Longrightarrow> field h = enc n"
  shows "\<exists>h1 lb h2 h3. hash_reads transform cs rs h libbuf = Some (h1, lb) \<and> length lb = length libbuf \<and>
     hash_pad transform cs i 0x80 h1 = Some h2 \<and> hash_update (field h1) transform cs h2 = Some h3 \<and>
     ok h3 \<and> val h3 = md_digest cs (cs - i) enc compress iv (concat rs)"
proof -
  obtain h1 lb where h1: "hash_reads transform cs rs h libbuf = Some (h1, lb)" "length lb = length libbuf"
      "absorbed iv h1 (concat rs)"
    using reads_absorbed [OF assms(1-3)] by auto
  have "field h1 = enc (length (concat rs))" using h1(3) assms(7) by (simp add: absorbed_def)
  from finish_digest [where enc = enc, OF h1(3) assms(4-6) this]
  obtain h2 h3 where "hash_pad transform cs i 0x80 h1 = Some h2" "hash_update (field h1) transform cs h2 = Some h3"
      "ok h3" "val h3 = md_digest cs (cs - i) enc compress iv (concat rs)" by blast
  then show ?thesis using h1(1,2) by (intro exI conjI)
qed

end

section \<open>The four transforms\<close>

definition browns_ok :: "(u32 list \<Rightarrow> bool) \<Rightarrow> (u64 list \<Rightarrow> bool) \<Rightarrow> browns \<Rightarrow> bool" where
  "browns_ok tab32 tab64 h \<longleftrightarrow>
     length (buffer h) = 128 \<and> length (state_i32 h) = 16 \<and> length (state_i64 h) = 16 \<and>
     tab32 (rconsttable32 h) \<and> tab64 (rconsttable64 h)"

lemma length_compress:
  "length (rfc_md5_compress H b) = 4" "length (fips_sha1_compress H b) = 5"
  "length (fips_sha256_compress H b) = 8" "length (fips_sha512_compress H' b') = 8"
  by (simp_all add: rfc_md5_compress_def fips_sha1_compress_def fips_sha256_compress_def fips_sha512_compress_def
      sha2_compress_def add_vars_def split: prod.split)

interpretation md5_chunks: chunk_hash 6 md5_transform "browns_ok (\<lambda>t. t = md5_tab) (\<lambda>_. True)"
    "\<lambda>h. take 4 (state_i32 h)" rfc_md5_compress
  by unfold_locales (simp_all add: browns_ok_def md5_transform_rfc length_compress)

interpretation sha1_chunks: chunk_hash 6 sha1_transform "browns_ok (\<lambda>_. True) (\<lambda>_. True)"
    "\<lambda>h. take 5 (state_i32 h)" fips_sha1_compress
proof unfold_locales
  fix h assume "browns_ok (\<lambda>_. True) (\<lambda>_. True) h"
  moreover from this obtain b where "length b = length (buffer h)" "sha1_transform h =
    h\<lparr>state_i32 := fips_sha1_compress (take 5 (state_i32 h)) (take 64 (buffer h)) @ drop 5 (state_i32 h), buffer := b\<rparr>"
    using sha1_transform_fips [of h] by (auto simp: browns_ok_def)
  ultimately show "browns_ok (\<lambda>_. True) (\<lambda>_. True) (sha1_transform h)"
    "take 5 (state_i32 (sha1_transform h)) = fips_sha1_compress (take 5 (state_i32 h)) (take (2 ^ 6) (buffer h))"
    "count (sha1_transform h) = count h" "overflow (sha1_transform h) = overflow h"
    by (simp_all add: browns_ok_def length_compress)
qed (simp_all add: browns_ok_def)

interpretation sha2_32_chunks: chunk_hash 6 sha2_32_transform "browns_ok (\<lambda>t. t = sha256_K) (\<lambda>_. True)"
    "\<lambda>h. take 8 (state_i32 h)" fips_sha256_compress
  by unfold_locales (simp_all add: browns_ok_def sha2_32_transform_fips length_compress)

interpretation sha2_64_chunks: chunk_hash 7 sha2_64_transform "browns_ok (\<lambda>_. True) (\<lambda>t. t = sha512_K)"
    "\<lambda>h. take 8 (state_i64 h)" fips_sha512_compress
  by unfold_locales (simp_all add: browns_ok_def sha2_64_transform_fips length_compress)

section \<open>Printing and the length field\<close>

definition hex_bytes :: "byte list \<Rightarrow> string" where
  "hex_bytes bs = concat (map (\<lambda>b. [xdigits ! (unat b div 16), xdigits ! (unat b mod 16)]) bs)"

definition nibbles :: "nat \<Rightarrow> nat \<Rightarrow> string" where
  "nibbles n x = map (\<lambda>k. xdigits ! (x div 16 ^ k mod 16)) (rev [0..<n])"

lemma fmt_x_append: "fmt_x_acc x s = fmt_x_acc x [] @ s"
proof (induction x arbitrary: s rule: less_induct)
  case (less x)
  show ?case
  proof (cases "x = 0")
    case False
    then have "x div 16 < x" by simp
    from less [OF this, of "xdigits ! (x mod 16) # s"] less [OF this, of "[xdigits ! (x mod 16)]"]
    show ?thesis using False by (simp add: fmt_x_acc.simps [of x])
  qed (simp add: fmt_x_acc.simps)
qed

lemma nibbles_Suc: "nibbles (Suc n) x = nibbles n (x div 16) @ [xdigits ! (x mod 16)]"
proof -
  have "rev [0..<Suc n] = map Suc (rev [0..<n]) @ [0]"
    by (simp add: rev_map [symmetric] map_Suc_upt upt_conv_Cons [of 0 "Suc n"] del: upt_Suc)
  then show ?thesis by (simp add: nibbles_def div_mult2_eq del: upt_Suc)
qed

lemma padded_nibbles:
  "x < 16 ^ n \<Longrightarrow> length (fmt_x_acc x []) \<le> n \<and>
     replicate (n - length (fmt_x_acc x [])) (CHR ''0'') @ fmt_x_acc x [] = nibbles n x"
proof (induction n arbitrary: x)
  case 0
  then show ?case by (simp add: nibbles_def fmt_x_acc.simps)
next
  case (Suc n)
  have z: "fmt_x_acc 0 [] = []" by (simp add: fmt_x_acc.simps)
  have IH: "length (fmt_x_acc (x div 16) []) \<le> n"
    "replicate (n - length (fmt_x_acc (x div 16) [])) (CHR ''0'') @ fmt_x_acc (x div 16) [] = nibbles n (x div 16)"
    using Suc.IH [of "x div 16"] Suc.prems by (auto simp: less_mult_imp_div_less)
  show ?case
  proof (cases "x = 0")
    case True
    have "nibbles (Suc n) 0 = replicate n (CHR ''0'') @ [CHR ''0'']"
      using IH True by (simp add: nibbles_Suc z xdigits_def)
    then show ?thesis using True by (simp add: z replicate_append_same)
  next
    case False
    then have "fmt_x_acc x [] = fmt_x_acc (x div 16) [] @ [xdigits ! (x mod 16)]"
      by (simp add: fmt_x_acc.simps [of x] fmt_x_append [of "x div 16" "[xdigits ! (x mod 16)]"])
    then show ?thesis using IH by (simp add: nibbles_Suc)
  qed
qed

lemma print_hex_nibbles: "x < 16 ^ n \<Longrightarrow> 0 < n \<Longrightarrow> print_hex n x = nibbles n x"
  using padded_nibbles [of x n]
  by (cases n; cases "x = 0")
    (auto simp: print_hex_def Let_def fmt_x_acc.simps [of 0] replicate_append_same max_def)

lemma byte_nibbles: "(y mod 256) div 16 = y div 16 mod 16" "y mod 256 mod 16 = y mod (16::nat)"
proof -
  show "(y mod 256) div 16 = y div 16 mod 16" using mod_mult2_eq [of y 16 16] by simp
  show "y mod 256 mod 16 = y mod 16" by (simp add: mod_mod_cancel)
qed

lemma unat_drop_bit: "unat (drop_bit k (x :: 'w::len word)) = unat x div 2 ^ k"
  unfolding unsigned_drop_bit_eq using unat_lt [of x] by (simp add: take_bit_nat_eq_self drop_bit_eq_div)

lemma unat_byte_of: "unat (ucast (drop_bit k (x :: u32)) :: byte) = unat x div 2 ^ k mod 256"
  unfolding unsigned_ucast_eq unat_drop_bit by (simp add: take_bit_eq_mod drop_bit_eq_div)

lemma nibbles_be32: "nibbles 8 (unat x) = hex_bytes (be32 x)"
proof -
  have r: "rev [0..<8] = [7, 6, 5, 4, 3, 2, 1, 0::nat]" by (simp add: upt_8)
  have "unat (ucast x :: byte) = unat x mod 256" using unat_byte_of [of 0 x] by simp
  then show ?thesis
    unfolding nibbles_def r hex_bytes_def be32_def
    by (simp add: unat_byte_of byte_nibbles div_mult2_eq [symmetric])
qed

lemma nibbles_append: "nibbles (n + m) x = nibbles n (x div 16 ^ m) @ nibbles m x"
proof (induction m arbitrary: x)
  case (Suc m)
  then show ?case by (simp add: nibbles_Suc div_mult2_eq)
qed (simp add: nibbles_def)

lemma nibbles_mod: "nibbles n (x mod 16 ^ n) = nibbles n x"
proof -
  have "x mod 16 ^ n div 16 ^ k mod 16 = x div 16 ^ k mod 16" if "k < n" for k
  proof -
    have n: "n = k + Suc (n - Suc k)" using that by simp
    have "x mod 16 ^ n div 16 ^ k = x div 16 ^ k mod 16 ^ Suc (n - Suc k)"
      by (subst n, subst power_add, subst mod_mult2_eq) simp
    then show ?thesis by (simp add: mod_mod_cancel)
  qed
  then show ?thesis by (simp add: nibbles_def)
qed

lemma nibbles_be64: "nibbles 16 (unat (x :: u64)) = hex_bytes (be64 x)"
proof -
  have "unat (ucast (drop_bit 32 x) :: u32) = unat x div 16 ^ 8 mod 16 ^ 8" "unat (ucast x :: u32) = unat x mod 16 ^ 8"
    unfolding unsigned_ucast_eq unat_drop_bit by (simp_all add: take_bit_eq_mod drop_bit_eq_div)
  then have "hex_bytes (be64 x) = nibbles 8 (unat x div 16 ^ 8 mod 16 ^ 8) @ nibbles 8 (unat x mod 16 ^ 8)"
    by (simp only: be64_halves nibbles_be32 [symmetric]) (simp add: hex_bytes_def nibbles_be32 [unfolded hex_bytes_def, symmetric])
  then show ?thesis using nibbles_append [of 8 8 "unat x"] by (simp only: nibbles_mod) simp
qed

lemma print_hex_word:
  "print_hex 8 (unat (x :: u32)) = hex_bytes (be32 x)" "print_hex 16 (unat (y :: u64)) = hex_bytes (be64 y)"
  using unat_lt [of x] unat_lt [of y]
  by (simp_all add: print_hex_nibbles nibbles_be32 nibbles_be64)

lemma hex_bytes_concat: "hex_bytes (concat bss) = concat (map hex_bytes bss)"
  by (induction bss) (simp_all add: hex_bytes_def)

lemma print_digest_bytes:
  "print_digest 0 n h = hex_bytes (concat (map (\<lambda>i. le32 (state_i32 h ! i)) [0..<n div 4]))"
  "0 < m \<Longrightarrow> m < 4 \<Longrightarrow> print_digest m n h = hex_bytes (concat (map (\<lambda>i. be32 (state_i32 h ! i)) [0..<n div 4]))"
  "4 \<le> m \<Longrightarrow> print_digest m n h = hex_bytes (concat (map (\<lambda>i. be64 (state_i64 h ! i)) [0..<n div 8]))"
  by (simp_all add: print_digest_def print_hex_word hex_bytes_concat comp_def be32_bswap_32)

lemma push_bit_3: "push_bit 3 x = x * (8 :: 'w::len word)"
  by (simp add: push_bit_eq_mult)

lemma length_field_64:
  assumes "count h = of_nat n"
  shows "length_field 0 h = len_field 56 56 le64 n" "0 < m \<Longrightarrow> m < 4 \<Longrightarrow> length_field m h = len_field 56 56 be64 n"
  using assms by (simp_all add: length_field_def len_field_def Let_def SWAP_LE64_def SWAP_BE64_def le64_bswap_64 push_bit_3)

lemma length_field_128:
  assumes "count h = of_nat n" "overflow h = of_nat (n div 2 ^ 64)" "4 \<le> m"
  shows "length_field m h = be128 (8 * n)"
proof -
  have "(8 * n) div 2 ^ 64 = 8 * (n div 2 ^ 64) + n mod 2 ^ 64 div 2 ^ 61"
  proof -
    have "8 * n = 8 * (n div 2 ^ 64) * 2 ^ 64 + 8 * (n mod 2 ^ 64)"
      using div_mult_mod_eq [of n "2 ^ 64"] by (metis add_mult_distrib2 mult.assoc)
    then have "(8 * n) div 2 ^ 64 = 8 * (n div 2 ^ 64) + 8 * (n mod 2 ^ 64) div 2 ^ 64"
      using div_mult_self3 [of "2 ^ 64" "8 * (n div 2 ^ 64)" "8 * (n mod 2 ^ 64)"] by simp
    moreover have "8 * (n mod 2 ^ 64) div 2 ^ 64 = n mod 2 ^ 64 div 2 ^ 61"
      using div_mult_mult1 [of 8 "n mod 2 ^ 64" "2 ^ 61"] by simp
    ultimately show ?thesis by simp
  qed
  moreover have "drop_bit 61 (of_nat n :: u64) = of_nat (n mod 2 ^ 64 div 2 ^ 61)"
    by (rule unsigned_word_eqI [where 'a = nat]) (simp only: unat_drop_bit unat_of_nat, simp)
  ultimately have "push_bit 3 (overflow h) + drop_bit 61 (count h) = of_nat ((8 * n) div 2 ^ 64)"
    using assms by (simp add: push_bit_3 mult.commute)
  then show ?thesis
    using assms(1,3) by (simp add: length_field_def Let_def SWAP_BE64_def le64_bswap_64 be128_def push_bit_3 mult.commute)
qed

section \<open>The digest of a file\<close>

text \<open>What each command name promises: the digest of RFC 1321 or FIPS 180-4, truncated for SHA-224 and SHA-384.\<close>

definition sum_digest :: "string \<Rightarrow> byte list \<Rightarrow> byte list" where
  "sum_digest name msg =
     (if name = ''md5sum'' then md5_digest msg
      else if name = ''sha1sum'' then
        (let H = md_digest 64 56 (len_field 56 56 be64) fips_sha1_compress
               [0x67452301, 0xefcdab89, 0x98badcfe, 0x10325476, 0xc3d2e1f0] msg
         in concat (map be32 H))
      else if name = ''sha224sum'' then
        (let H = md_digest 64 56 (len_field 56 56 be64) fips_sha256_compress
               [0xc1059ed8, 0x367cd507, 0x3070dd17, 0xf70e5939, 0xffc00b31, 0x68581511, 0x64f98fa7, 0xbefa4fa4] msg
         in take 28 (sha256_out H))
      else if name = ''sha256sum'' then sha256_digest msg
      else if name = ''sha384sum'' then
        (let H = md_digest 128 112 (\<lambda>n. be128 (8 * n)) fips_sha512_compress
               [0xcbbb9d5dc1059ed8, 0x629a292a367cd507, 0x9159015a3070dd17, 0x152fecd8f70e5939,
                0x67332667ffc00b31, 0x8eb44a8768581511, 0xdb0c2e0d64f98fa7, 0x47b5481dbefa4fa4] msg
         in take 48 (sha512_out H))
      else fips_sha512 msg)"

lemma tables: "md5nofloat = md5_tab" "sha512nofloat = sha512_K"
  "map (\<lambda>i. ucast (drop_bit 32 (sha512_K ! i))) [0..<64] = sha256_K"
proof -
  show "md5nofloat = md5_tab" by (simp add: md5nofloat_def md5_tab_def)
  show "sha512nofloat = sha512_K" by (simp add: sha512nofloat_def sha512_K_def)
  show "map (\<lambda>i. ucast (drop_bit 32 (sha512_K ! i))) [0..<64] = sha256_K" by code_simp
qed

lemma wipe_all: "browns_ok p q h \<Longrightarrow> wipe_browns h = xzalloc_browns"
  by (simp add: wipe_browns_def xzalloc_browns_def browns_ok_def map_replicate_const)

lemma printed_digests:
  "4 \<le> length (state_i32 h) \<Longrightarrow> print_digest 0 16 h = hex_bytes (md5_out (take 4 (state_i32 h)))"
  "5 \<le> length (state_i32 h) \<Longrightarrow> print_digest (Suc 0) 20 h = hex_bytes (concat (map be32 (take 5 (state_i32 h))))"
  "8 \<le> length (state_i32 h) \<Longrightarrow> print_digest 2 28 h = hex_bytes (take 28 (sha256_out (take 8 (state_i32 h))))"
  "8 \<le> length (state_i32 h) \<Longrightarrow> print_digest 3 32 h = hex_bytes (sha256_out (take 8 (state_i32 h)))"
  "8 \<le> length (state_i64 h) \<Longrightarrow> print_digest 4 48 h = hex_bytes (take 48 (sha512_out (take 8 (state_i64 h))))"
  "8 \<le> length (state_i64 h) \<Longrightarrow> print_digest 5 64 h = hex_bytes (sha512_out (take 8 (state_i64 h)))"
proof -
  have upt: "[0..<4] = [0, 1, 2, 3 :: nat]" "[0..<5] = [0, 1, 2, 3, 4 :: nat]"
    "[0..<6] = [0, 1, 2, 3, 4, 5 :: nat]" "[0..<7] = [0, 1, 2, 3, 4, 5, 6 :: nat]"
    by (simp_all add: upt_rec)
  have take_5: "take 5 s = [s ! 0, s ! 1, s ! 2, s ! 3, s ! 4]" if "5 \<le> length s" for s :: "u32 list"
    using that map_nth [of "take 5 s"] by (simp add: upt)
  show "4 \<le> length (state_i32 h) \<Longrightarrow> print_digest 0 16 h = hex_bytes (md5_out (take 4 (state_i32 h)))"
    "5 \<le> length (state_i32 h) \<Longrightarrow> print_digest (Suc 0) 20 h = hex_bytes (concat (map be32 (take 5 (state_i32 h))))"
    "8 \<le> length (state_i32 h) \<Longrightarrow> print_digest 2 28 h = hex_bytes (take 28 (sha256_out (take 8 (state_i32 h))))"
    "8 \<le> length (state_i32 h) \<Longrightarrow> print_digest 3 32 h = hex_bytes (sha256_out (take 8 (state_i32 h)))"
    "8 \<le> length (state_i64 h) \<Longrightarrow> print_digest 4 48 h = hex_bytes (take 48 (sha512_out (take 8 (state_i64 h))))"
    "8 \<le> length (state_i64 h) \<Longrightarrow> print_digest 5 64 h = hex_bytes (sha512_out (take 8 (state_i64 h)))"
    by (simp_all add: print_digest_bytes md5_out_def sha256_out_def sha512_out_def upt upt_8 take_5)
qed

lemma methods:
  "method_of ''md5sum'' = 0" "method_of ''sha1sum'' = 1" "method_of ''sha224sum'' = 2"
  "method_of ''sha256sum'' = 3" "method_of ''sha384sum'' = 4" "method_of ''sha512sum'' = 5"
  by (simp_all add: method_of_def stridx_def)

definition start_browns :: "string \<Rightarrow> nat \<Rightarrow> browns" where
  "start_browns name m = (select_state m (select_tables name m xzalloc_browns))\<lparr>count := 0\<rparr>"

abbreviation "good_reads reads libbuf \<equiv>
  (length libbuf = 4096 \<and> (\<forall>r\<in>set reads. 0 < length r \<and> length r \<le> 4096))"

context chunk_hash
begin

lemma by_name:
  assumes m: "method_of name = int m" "5 \<le> length name"
    and t: "transform = [md5_transform, sha1_transform, sha2_32_transform, sha2_32_transform,
      sha2_64_transform, sha2_64_transform] ! m"
    and c: "cs = (if 4 \<le> m then 128 else 64)" and i: "i = (if 4 \<le> m then 16 else 8)"
    and start: "absorbed iv (start_browns name m) []" and reads: "good_reads reads libbuf"
    and enc: "\<And>n. length (enc n) = i"
    and field: "\<And>h n. count h = of_nat n \<Longrightarrow> overflow h = of_nat (n div 2 ^ 64) \<Longrightarrow> length_field m h = enc n"
  shows "\<exists>h. hash_by_name reads name libbuf =
      Some (print_digest m ([16, 20, 28, 32, 48, 64] ! m) h, wipe_browns h, replicate 4096 0) \<and>
    ok h \<and> val h = md_digest cs (cs - i) enc compress iv (concat reads)"
proof -
  have bounds: "i \<le> cs" "0 < i" "length libbuf < 2 ^ 64" "\<forall>r\<in>set reads. 0 < length r \<and> length r \<le> length libbuf"
    using c i reads by auto
  from run_digest [where enc = enc and field = "length_field m", OF start bounds(4,3,1,2) enc field]
  obtain h1 lb h2 h3 where run: "hash_reads transform cs reads (start_browns name m) libbuf = Some (h1, lb)"
      "length lb = length libbuf" "hash_pad transform cs i 0x80 h1 = Some h2"
      "hash_update (length_field m h1) transform cs h2 = Some h3"
      "ok h3" "val h3 = md_digest cs (cs - i) enc compress iv (concat reads)" by blast
  have nonneg: "\<not> (length name < 5 \<or> method_of name < 0)" and m': "nat (method_of name) = m"
    using m by simp_all
  have "hash_by_name reads name libbuf =
      Some (print_digest m ([16, 20, 28, 32, 48, 64] ! m) h3, wipe_browns h3, replicate 4096 0)"
    unfolding hash_by_name_def m' if_not_P [OF nonneg] Let_def t [symmetric] start_browns_def [symmetric]
      c [symmetric] i [symmetric] run(1) bind.bind_lunit prod.case run(3,4)
    using run(2) reads by (simp add: map_replicate_const)
  with run(5,6) show ?thesis by blast
qed

end

lemmas start_simps = browns_ok_def start_browns_def select_state_def select_tables_def xzalloc_browns_def tables
  mem_write_def rest_block_def

lemma sum_lengths: "length (len_field 56 56 le64 n) = 8" "length (len_field 56 56 be64 n) = 8" "length (be128 n) = 16"
  by (simp_all add: len_field_def be128_def)

lemma md5sum_digest:
  assumes "good_reads reads libbuf"
  shows "hash_by_name reads ''md5sum'' libbuf =
    Some (hex_bytes (sum_digest ''md5sum'' (concat reads)), xzalloc_browns, replicate 4096 0)"
proof -
  have "md5_chunks.absorbed md5_iv (start_browns ''md5sum'' 0) []"
    by (simp add: md5_chunks.absorbed_def start_simps md5_iv_def)
  from md5_chunks.by_name [OF _ _ _ _ _ this assms, of 8 "len_field 56 56 le64"]
  show ?thesis
    using length_field_64(1) wipe_all
    by (auto simp: methods sum_lengths browns_ok_def printed_digests sum_digest_def md5_digest_def)
qed

lemma sha1sum_digest:
  assumes "good_reads reads libbuf"
  shows "hash_by_name reads ''sha1sum'' libbuf =
    Some (hex_bytes (sum_digest ''sha1sum'' (concat reads)), xzalloc_browns, replicate 4096 0)"
proof -
  have "sha1_chunks.absorbed [0x67452301, 0xefcdab89, 0x98badcfe, 0x10325476, 0xc3d2e1f0] (start_browns ''sha1sum'' 1) []"
    by (simp add: sha1_chunks.absorbed_def start_simps)
  from sha1_chunks.by_name [OF _ _ _ _ _ this assms, of 8 "len_field 56 56 be64"]
  show ?thesis
    using length_field_64(2) wipe_all
    by (auto simp: methods sum_lengths browns_ok_def printed_digests sum_digest_def)
qed

lemma sha2_32_sum:
  assumes "good_reads reads libbuf" "method_of name = int m" "m = 2 \<or> m = 3" "5 \<le> length name" "name ! 3 = CHR ''2''"
  shows "\<exists>h. hash_by_name reads name libbuf =
      Some (print_digest m ([16, 20, 28, 32, 48, 64] ! m) h, xzalloc_browns, replicate 4096 0) \<and> length (state_i32 h) = 16 \<and>
    take 8 (state_i32 h) = md_digest 64 56 (len_field 56 56 be64) fips_sha256_compress
      (take 8 (state_i32 (start_browns name m))) (concat reads)"
proof -
  have "sha2_32_chunks.absorbed (take 8 (state_i32 (start_browns name m))) (start_browns name m) []"
    using assms(3,5) by (auto simp: sha2_32_chunks.absorbed_def start_simps)
  from sha2_32_chunks.by_name [OF assms(2,4) _ _ _ this assms(1), of 8 "len_field 56 56 be64"]
  show ?thesis using length_field_64(2) wipe_all assms(3) by (auto simp: sum_lengths browns_ok_def) blast+
qed

lemma sha2_64_sum:
  assumes "good_reads reads libbuf" "method_of name = int m" "m = 4 \<or> m = 5" "5 \<le> length name" "name ! 3 \<noteq> CHR ''2''"
  shows "\<exists>h. hash_by_name reads name libbuf =
      Some (print_digest m ([16, 20, 28, 32, 48, 64] ! m) h, xzalloc_browns, replicate 4096 0) \<and> length (state_i64 h) = 16 \<and>
    take 8 (state_i64 h) = md_digest 128 112 (\<lambda>n. be128 (8 * n)) fips_sha512_compress
      (take 8 (state_i64 (start_browns name m))) (concat reads)"
proof -
  have "sha2_64_chunks.absorbed (take 8 (state_i64 (start_browns name m))) (start_browns name m) []"
    using assms(3,5) by (auto simp: sha2_64_chunks.absorbed_def start_simps)
  from sha2_64_chunks.by_name [OF assms(2,4) _ _ _ this assms(1), of 16 "\<lambda>n. be128 (8 * n)"]
  show ?thesis using length_field_128 wipe_all assms(3) by (auto simp: sum_lengths browns_ok_def) blast+
qed

lemma start_values:
  "take 8 (state_i32 (start_browns name 2)) =
     [0xc1059ed8, 0x367cd507, 0x3070dd17, 0xf70e5939, 0xffc00b31, 0x68581511, 0x64f98fa7, 0xbefa4fa4]"
  "take 8 (state_i32 (start_browns name 3)) = sha256_iv"
  "take 8 (state_i64 (start_browns name 4)) =
     [0xcbbb9d5dc1059ed8, 0x629a292a367cd507, 0x9159015a3070dd17, 0x152fecd8f70e5939,
      0x67332667ffc00b31, 0x8eb44a8768581511, 0xdb0c2e0d64f98fa7, 0x47b5481dbefa4fa4]"
  "take 8 (state_i64 (start_browns name 5)) = sha512_iv"
  by (simp_all add: start_browns_def select_state_def mem_write_def sha256_iv_def sha512_iv_def)

lemma sha2_sum_digest:
  assumes "good_reads reads libbuf" "name \<in> {''sha224sum'', ''sha256sum'', ''sha384sum'', ''sha512sum''}"
  shows "hash_by_name reads name libbuf = Some (hex_bytes (sum_digest name (concat reads)), xzalloc_browns, replicate 4096 0)"
proof -
  consider "name = ''sha224sum''" | "name = ''sha256sum''" | "name = ''sha384sum''" | "name = ''sha512sum''"
    using assms(2) by blast
  then show ?thesis
  proof cases
    case 1
    then show ?thesis using sha2_32_sum [OF assms(1), of name 2]
      by (auto simp: methods printed_digests sum_digest_def start_values)
  next
    case 2
    then show ?thesis using sha2_32_sum [OF assms(1), of name 3]
      by (auto simp: methods printed_digests sum_digest_def start_values sha256_digest_def)
  next
    case 3
    then show ?thesis using sha2_64_sum [OF assms(1), of name 4]
      by (auto simp: methods printed_digests sum_digest_def start_values)
  next
    case 4
    then show ?thesis using sha2_64_sum [OF assms(1), of name 5]
      by (auto simp: methods printed_digests sum_digest_def start_values fips_sha512_def)
  qed
qed

section \<open>Properties\<close>

text \<open>
  C32.  The hash commands: for each of the six names, whatever the file returns to the reads
  (non-empty pieces of at most the 4096 bytes of \<open>libbuf\<close>), \<open>hash_by_name\<close> returns, the text it
  writes is the hexadecimal digest that RFC 1321 or FIPS 180-4 defines for the whole content,
  and the structure and the read buffer are wiped.  SHA-384 and SHA-512 hash the full 128-bit
  length.
\<close>

theorem hash_by_name_digest:
  assumes "name \<in> {''md5sum'', ''sha1sum'', ''sha224sum'', ''sha256sum'', ''sha384sum'', ''sha512sum''}"
    and "length libbuf = 4096" and "\<forall>r\<in>set reads. 0 < length r \<and> length r \<le> 4096"
  shows "hash_by_name reads name libbuf =
    Some (hex_bytes (sum_digest name (concat reads)), xzalloc_browns, replicate 4096 0)"
proof -
  have good: "good_reads reads libbuf" using assms(2,3) by blast
  show ?thesis
  proof (cases "name = ''md5sum'' \<or> name = ''sha1sum''")
    case True
    then show ?thesis by (elim disjE) (simp_all only: md5sum_digest [OF good] sha1sum_digest [OF good])
  next
    case False
    then have "name \<in> {''sha224sum'', ''sha256sum'', ''sha384sum'', ''sha512sum''}"
      using assms(1) by (simp only: insert_iff de_Morgan_disj simp_thms)
    then show ?thesis by (rule sha2_sum_digest [OF good])
  qed
qed

theorem hash_by_name_digest_witness:
  "hash_by_name [[0x61], [0x62, 0x63]] ''sha1sum'' (replicate 4096 7) =
     Some (hex_bytes (sum_digest ''sha1sum'' [0x61, 0x62, 0x63]), xzalloc_browns, replicate 4096 0)"
  using hash_by_name_digest [of "''sha1sum''" "replicate 4096 7" "[[0x61], [0x62, 0x63]]"]
  by (simp only: length_replicate) simp

end
