(* ===== verification/Futex_Threads.thy ===== *)
theory Futex_Threads
  imports C_Prelude
begin

text \<open>
  Threads that share memory through atomic instructions and sleep on a futex: the setting of
  musl's locks and semaphores.  A system is a shared state and a list of program counters, one
  per thread.  A step is one atomic access by one thread (any interleaving), or one
  \<open>FUTEX_WAKE\<close>, which moves as many sleepers as it was asked to wake, chosen by the kernel, out
  of their sleep.  \<open>__timedwait_cp\<close> and the bit layout of the lock words are here too, because
  the read-write lock and the semaphore share them.
\<close>

section \<open>Interleaving\<close>

text \<open>
  The parameters: \<open>step\<close> lists the successors of a thread at a program counter; \<open>sleeper pc\<close>
  is \<open>Some pc'\<close> when a thread at \<open>pc\<close> is asleep and continues at \<open>pc'\<close> once woken;
  \<open>waker pc\<close> is \<open>Some (n, pc')\<close> when the thread is about to wake \<open>n\<close> sleepers.
\<close>

definition sleepers :: "('pc \<Rightarrow> 'pc option) \<Rightarrow> 'pc list \<Rightarrow> nat set" where
  "sleepers sleeper ts = {j. j < length ts \<and> sleeper (ts ! j) \<noteq> None}"

definition wake_up :: "('pc \<Rightarrow> 'pc option) \<Rightarrow> nat set \<Rightarrow> 'pc list \<Rightarrow> 'pc list" where
  "wake_up sleeper W ts =
     map (\<lambda>j. case sleeper (ts ! j) of Some pc' \<Rightarrow> if j \<in> W then pc' else ts ! j | None \<Rightarrow> ts ! j) [0..<length ts]"

inductive threads_step ::
    "('s \<Rightarrow> 'pc \<Rightarrow> ('s \<times> 'pc) list) \<Rightarrow> ('pc \<Rightarrow> 'pc option) \<Rightarrow> ('pc \<Rightarrow> (nat \<times> 'pc) option) \<Rightarrow>
     's \<times> 'pc list \<Rightarrow> 's \<times> 'pc list \<Rightarrow> bool"
  for step sleeper waker where
  local_step: "i < length ts \<Longrightarrow> (s', pc') \<in> set (step s (ts ! i)) \<Longrightarrow>
    threads_step step sleeper waker (s, ts) (s', ts[i := pc'])"
| wake_step: "i < length ts \<Longrightarrow> waker (ts ! i) = Some (n, pc') \<Longrightarrow> W \<subseteq> sleepers sleeper ts \<Longrightarrow>
    card W = min n (card (sleepers sleeper ts)) \<Longrightarrow>
    threads_step step sleeper waker (s, ts) (s, (wake_up sleeper W ts)[i := pc'])"

inductive threads_reach ::
    "('s \<Rightarrow> 'pc \<Rightarrow> ('s \<times> 'pc) list) \<Rightarrow> ('pc \<Rightarrow> 'pc option) \<Rightarrow> ('pc \<Rightarrow> (nat \<times> 'pc) option) \<Rightarrow>
     's \<times> 'pc list \<Rightarrow> 's \<times> 'pc list \<Rightarrow> bool"
  for step sleeper waker x where
  reach_start: "threads_reach step sleeper waker x x"
| reach_step: "threads_reach step sleeper waker x y \<Longrightarrow> threads_step step sleeper waker y z \<Longrightarrow>
    threads_reach step sleeper waker x z"

text \<open>Executing a schedule: which thread steps, and to which of its successors.\<close>

fun run_schedule ::
    "('s \<Rightarrow> 'pc \<Rightarrow> ('s \<times> 'pc) list) \<Rightarrow> (nat \<times> nat) list \<Rightarrow> 's \<times> 'pc list \<Rightarrow> ('s \<times> 'pc list) option" where
  "run_schedule step [] x = Some x"
| "run_schedule step ((i, c) # sched) (s, ts) =
     (if i < length ts \<and> c < length (step s (ts ! i))
      then case step s (ts ! i) ! c of (s', pc') \<Rightarrow> run_schedule step sched (s', ts[i := pc'])
      else None)"

lemma run_schedule_reach:
  "run_schedule step sched y = Some z \<Longrightarrow> threads_reach step sleeper waker x y \<Longrightarrow> threads_reach step sleeper waker x z"
proof (induction step sched y rule: run_schedule.induct)
  case (2 step i c sched s ts)
  let ?y = "case step s (ts ! i) ! c of (s', pc') \<Rightarrow> (s', ts[i := pc'])"
  have ok: "i < length ts" "c < length (step s (ts ! i))" using "2.prems"(1) by (auto split: if_splits)
  obtain s' pc' where n: "step s (ts ! i) ! c = (s', pc')" by fastforce
  then have "(s', pc') \<in> set (step s (ts ! i))" using ok(2) nth_mem by metis
  then have "threads_step step sleeper waker (s, ts) (s', ts[i := pc'])" using ok(1) by (rule local_step [rotated])
  then have "threads_reach step sleeper waker x (s', ts[i := pc'])" by (rule reach_step [OF "2.prems"(2)])
  moreover have "run_schedule step sched (s', ts[i := pc']) = Some z" using "2.prems"(1) ok n by simp
  ultimately show ?case using "2.IH" [OF conjI [OF ok]] n by simp
qed simp

lemma length_wake_up [simp]: "length (wake_up sleeper W ts) = length ts"
  by (simp add: wake_up_def)

section \<open>Invariants of interleaved threads\<close>

text \<open>
  The interface between a primitive and its invariant: it is enough that each access of one
  thread and each wake-up keep it, in systems whose number of threads is acceptable.
\<close>

locale threads_invariant =
  fixes step :: "'s \<Rightarrow> 'pc \<Rightarrow> ('s \<times> 'pc) list" and sleeper :: "'pc \<Rightarrow> 'pc option"
    and waker :: "'pc \<Rightarrow> (nat \<times> 'pc) option" and size_ok :: "nat \<Rightarrow> bool" and inv :: "'s \<times> 'pc list \<Rightarrow> bool"
  assumes keeps_local: "inv (s, ts) \<Longrightarrow> size_ok (length ts) \<Longrightarrow> i < length ts \<Longrightarrow> (s', pc') \<in> set (step s (ts ! i)) \<Longrightarrow>
      inv (s', ts[i := pc'])"
    and keeps_wake: "inv (s, ts) \<Longrightarrow> size_ok (length ts) \<Longrightarrow> i < length ts \<Longrightarrow> waker (ts ! i) = Some (n, pc') \<Longrightarrow>
      W \<subseteq> sleepers sleeper ts \<Longrightarrow> card W = min n (card (sleepers sleeper ts)) \<Longrightarrow>
      inv (s, (wake_up sleeper W ts)[i := pc'])"
begin

lemma keeps_step:
  "threads_step step sleeper waker x y \<Longrightarrow> inv x \<Longrightarrow> size_ok (length (snd x)) \<Longrightarrow>
   inv y \<and> length (snd y) = length (snd x)"
  by (induction rule: threads_step.induct) (auto intro: keeps_local keeps_wake)

lemma keeps_reach:
  assumes "threads_reach step sleeper waker x y" "inv x" "size_ok (length (snd x))"
  shows "inv y \<and> length (snd y) = length (snd x)"
  using assms by (induction rule: threads_reach.induct) (auto dest: keeps_step)

end

section \<open>Counting threads\<close>

definition tally :: "('pc \<Rightarrow> bool) \<Rightarrow> 'pc list \<Rightarrow> nat" where
  "tally P ts = length (filter P ts)"

lemma tally_update:
  "i < length ts \<Longrightarrow> tally P (ts[i := x]) + (if P (ts ! i) then 1 else 0) = tally P ts + (if P x then 1 else 0)"
proof (induction ts arbitrary: i)
  case (Cons t ts)
  show ?case
  proof (cases i)
    case (Suc j)
    then show ?thesis using Cons.IH [of j] Cons.prems by (simp add: tally_def)
  qed (simp add: tally_def)
qed simp

lemma tally_same: "i < length ts \<Longrightarrow> P x = P (ts ! i) \<Longrightarrow> tally P (ts[i := x]) = tally P ts"
  using tally_update [of i ts P x] by (simp split: if_splits)

lemma tally_more: "i < length ts \<Longrightarrow> P x \<Longrightarrow> \<not> P (ts ! i) \<Longrightarrow> tally P (ts[i := x]) = Suc (tally P ts)"
  using tally_update [of i ts P x] by simp

lemma tally_less: "i < length ts \<Longrightarrow> \<not> P x \<Longrightarrow> P (ts ! i) \<Longrightarrow> tally P (ts[i := x]) = tally P ts - 1"
  using tally_update [of i ts P x] by simp

lemma tally_pos: "0 < tally P ts \<longleftrightarrow> (\<exists>i<length ts. P (ts ! i))"
  by (auto simp: tally_def length_filter_conv_card card_gt_0_iff)

lemma tally_memberI: "i < length ts \<Longrightarrow> P (ts ! i) \<Longrightarrow> 0 < tally P ts"
  unfolding tally_pos by blast

lemma tally_le: "tally P ts \<le> length ts"
  by (simp add: tally_def)

lemma tally_other:
  assumes "i < length ts" "j < length ts" "i \<noteq> j" "P (ts ! j)" "P (ts ! i)"
  shows "2 \<le> tally P ts"
proof -
  have "card {i, j} \<le> card {k. k < length ts \<and> P (ts ! k)}"
    using assms by (intro card_mono) auto
  also have "card {k. k < length ts \<and> P (ts ! k)} = tally P ts"
    by (simp add: tally_def length_filter_conv_card)
  finally show ?thesis using assms(3) by simp
qed

lemma tally_map:
  "(\<And>j. j < length ts \<Longrightarrow> P (f j) = P (ts ! j)) \<Longrightarrow> tally P (map f [0..<length ts]) = tally P ts"
  by (simp add: tally_def length_filter_conv_card) (rule arg_cong [where f = card], auto)

lemma sleepers_tally: "card (sleepers sleeper ts) = tally (\<lambda>pc. sleeper pc \<noteq> None) ts"
  by (simp add: sleepers_def tally_def length_filter_conv_card)

lemma wake_up_nth:
  "j < length ts \<Longrightarrow> wake_up sleeper W ts ! j =
     (case sleeper (ts ! j) of Some pc' \<Rightarrow> if j \<in> W then pc' else ts ! j | None \<Rightarrow> ts ! j)"
  by (cases "sleeper (ts ! j)") (simp_all add: wake_up_def)

lemma tally_wake_up:
  "(\<And>pc pc'. sleeper pc = Some pc' \<Longrightarrow> P pc' = P pc) \<Longrightarrow> tally P (wake_up sleeper W ts) = tally P ts"
  unfolding wake_up_def by (rule tally_map) (auto split: option.split)

lemma tally_woken:
  assumes "W \<subseteq> sleepers sleeper ts" "\<And>pc pc'. sleeper pc = Some pc' \<Longrightarrow> P pc' \<and> \<not> P pc"
  shows "tally P (wake_up sleeper W ts) = tally P ts + card W"
proof -
  let ?A = "{j. j < length ts \<and> P (ts ! j)}"
  have W: "j < length ts" "\<exists>pc'. sleeper (ts ! j) = Some pc' \<and> P pc' \<and> \<not> P (ts ! j)" if "j \<in> W" for j
    using that assms by (auto simp: sleepers_def)
  have "{j. j < length ts \<and> P (wake_up sleeper W ts ! j)} = ?A \<union> W"
    using W by (force simp: wake_up_nth split: option.splits if_splits)
  moreover have "?A \<inter> W = {}" using W by blast
  moreover have "finite W" using assms(1) by (rule finite_subset) (simp add: sleepers_def)
  ultimately have "card {j. j < length ts \<and> P (wake_up sleeper W ts ! j)} = card ?A + card W"
    by (simp add: card_Un_disjoint)
  then show ?thesis by (simp add: tally_def length_filter_conv_card)
qed

section \<open>The words the primitives operate on\<close>

text \<open>Bit 31 of a lock word is the sign of the C int; the other bits are a count.\<close>

definition low31 :: "u32 \<Rightarrow> u32" where
  "low31 w = w AND 0x7fffffff"

definition negative :: "u32 \<Rightarrow> bool" where
  "negative w \<longleftrightarrow> w <s 0"

lemma unat_low31: "unat (low31 w) = unat w mod 2 ^ 31"
proof -
  have "low31 w = take_bit 31 w" by (simp add: low31_def take_bit_eq_mask mask_eq_exp_minus_1)
  then show ?thesis by (simp only: unsigned_take_bit_eq) (simp add: take_bit_eq_mod)
qed

lemma negative_bit: "negative w \<longleftrightarrow> bit w 31"
  by (simp add: negative_def word_sless_alt sint_uint signed_take_bit_eq_if_negative bit_uint_iff
      signed_take_bit_nonnegative_iff not_le flip: not_le)

lemma negative_iff: "negative w \<longleftrightarrow> 2 ^ 31 \<le> unat w"
proof -
  have "negative w \<longleftrightarrow> odd (unat w div 2 ^ 31)"
    unfolding bit_iff_odd [symmetric] by (simp add: negative_bit bit_unsigned_iff)
  also have "\<dots> \<longleftrightarrow> 2 ^ 31 \<le> unat w"
  proof -
    have "unat w div 2 ^ 31 < 2" using unat_lt [of w] by (intro less_mult_imp_div_less) simp
    then have "unat w div 2 ^ 31 = 0 \<or> unat w div 2 ^ 31 = 1" by linarith
    then show ?thesis by (auto simp: div_eq_0_iff not_le)
  qed
  finally show ?thesis .
qed

lemma set31: "low31 (w OR 0x80000000) = low31 w" "negative (w OR 0x80000000)"
proof -
  have c: "(0x80000000 :: u32) = push_bit 31 1" "(0x7fffffff :: u32) = mask 31" by code_simp+
  show "low31 (w OR 0x80000000) = low31 w"
    unfolding low31_def c
    by (rule bit_word_eqI) (auto simp only: bit_and_iff bit_or_iff bit_push_bit_iff bit_1_iff bit_mask_iff)
  show "negative (w OR 0x80000000)" unfolding negative_bit c
    by (simp add: bit_or_iff bit_push_bit_iff)
qed

lemma clear31: "low31 (w AND NOT 0x80000000) = low31 w" "\<not> negative (w AND NOT 0x80000000)"
proof -
  have c: "(0x80000000 :: u32) = push_bit 31 1" "(0x7fffffff :: u32) = mask 31" by code_simp+
  show "low31 (w AND NOT 0x80000000) = low31 w"
    unfolding low31_def c
    by (rule bit_word_eqI) (auto simp only: bit_and_iff bit_not_iff bit_push_bit_iff bit_1_iff bit_mask_iff possible_bit_word)
  show "\<not> negative (w AND NOT 0x80000000)" unfolding negative_bit c
    by (simp only: bit_and_iff bit_not_iff bit_push_bit_iff bit_1_iff possible_bit_word) simp
qed

lemma word_eq_unat: "v = w \<longleftrightarrow> unat v = unat (w :: u32)"
  by (auto intro: unsigned_word_eqI [where 'a = nat])

lemma unat_parts: "unat w = unat (low31 w) + (if negative w then 2 ^ 31 else 0)"
proof -
  have "unat w div 2 ^ 31 = (if negative w then 1 else 0)"
    using unat_lt [of w] by (auto simp: negative_iff intro: div_nat_eqI)
  then show ?thesis
    using div_mult_mod_eq [of "unat w" "2 ^ 31"] by (simp add: unat_low31 split: if_splits)
qed

lemma low31_lt: "unat (low31 w) < 2 ^ 31"
  by (simp add: unat_low31)

lemma low31_next:
  assumes "unat (low31 w) < 0x7fffffff"
  shows "unat (low31 (w + 1)) = unat (low31 w) + 1" "negative (w + 1) = negative w"
proof -
  have "unat w + 1 < 2 ^ 32" using assms unat_parts [of w] by (simp split: if_splits)
  then have u: "unat (w + 1) = unat w + 1" using unat_mult_add_small [of w 1 1] by simp
  have small: "unat (low31 w) + 1 < 2 ^ 31" using assms by simp
  have "2 ^ 31 \<le> unat (w + 1) \<longleftrightarrow> 2 ^ 31 \<le> unat w"
    using u unat_parts [of w] small by (cases "negative w") (simp_all only: if_True if_False, linarith+)
  then show neg: "negative (w + 1) = negative w" by (simp only: negative_iff)
  show "unat (low31 (w + 1)) = unat (low31 w) + 1"
    using u unat_parts [of w] unat_parts [of "w + 1", unfolded neg] by linarith
qed

lemma low31_prev:
  assumes "0 < unat (low31 w)"
  shows "unat (low31 (w - 1)) = unat (low31 w) - 1" "negative (w - 1) = negative w"
proof -
  have "unat (low31 (w - 1)) + 1 = unat (low31 w) \<and> negative (w - 1) = negative w"
  proof (cases "unat (low31 (w - 1)) < 0x7fffffff")
    case True
    from low31_next [OF this] show ?thesis by simp
  next
    case False
    then have "unat (low31 (w - 1)) = 0x7fffffff" using low31_lt [of "w - 1"] by simp
    then have "(unat (w - 1) + 1) mod 2 ^ 31 = 0" using unat_parts [of "w - 1"] by (simp split: if_splits)
    moreover have "unat w = (unat (w - 1) + 1) mod 2 ^ 32"
      using unat_word_ariths(1) [of "w - 1" 1] by simp
    ultimately have "unat w mod 2 ^ 31 = 0" by (simp add: mod_mod_cancel)
    with assms show ?thesis by (simp add: unat_low31)
  qed
  then show "unat (low31 (w - 1)) = unat (low31 w) - 1" "negative (w - 1) = negative w" by linarith+
qed

section \<open>Waiting with a deadline\<close>

datatype errno =
    OK | EAGAIN | EBUSY | EINTR | EINVAL | ETIMEDOUT | ECANCELED | EOVERFLOW
  | EDEADLK | EPERM | ENOTRECOVERABLE

text \<open>
  \<open>__timedwait_cp\<close> before the system call: without a deadline it waits for ever; with one, a
  malformed time or a failing clock is \<open>EINVAL\<close> and a passed deadline \<open>ETIMEDOUT\<close>, otherwise
  the remaining time is the timeout.  Times are seconds and nanoseconds.
\<close>

definition timedwait_deadline ::
    "(int \<times> int) option \<Rightarrow> (int \<times> int) option \<Rightarrow> errno + (int \<times> int) option" where
  "timedwait_deadline at now =
     (case at of
        None \<Rightarrow> Inr None
      | Some (s, ns) \<Rightarrow>
          if ns < 0 \<or> ns \<ge> 1000000000 then Inl EINVAL
          else (case now of
             None \<Rightarrow> Inl EINVAL
           | Some (s0, ns0) \<Rightarrow>
               let sec = s - s0; nsec = ns - ns0;
                   (sec, nsec) = (if nsec < 0 then (sec - 1, nsec + 1000000000) else (sec, nsec))
               in if sec < 0 then Inl ETIMEDOUT else Inr (Some (sec, nsec))))"

text \<open>What it makes of the result of the futex call; \<open>ev\<close> is \<open>__eintr_valid_flag\<close>.\<close>

definition timedwait_result :: "bool \<Rightarrow> errno \<Rightarrow> errno" where
  "timedwait_result ev r =
     (let r = (if r \<noteq> EINTR \<and> r \<noteq> ETIMEDOUT \<and> r \<noteq> ECANCELED then OK else r)
      in if r = EINTR \<and> \<not> ev then OK else r)"

lemma timedwait_deadline_early:
  "timedwait_deadline at now = Inl e \<Longrightarrow> e = EINVAL \<or> e = ETIMEDOUT"
  by (auto simp: timedwait_deadline_def Let_def split: option.splits prod.splits if_splits)

lemma timedwait_deadline_timeout:
  "timedwait_deadline (Some at) (Some (s0, ns0)) = Inr (Some (sec, nsec)) \<Longrightarrow> 0 \<le> ns0 \<Longrightarrow> ns0 < 1000000000 \<Longrightarrow>
   0 \<le> sec \<and> 0 \<le> nsec \<and> nsec < 1000000000 \<and>
   sec * 1000000000 + nsec = (fst at * 1000000000 + snd at) - (s0 * 1000000000 + ns0)"
  by (auto simp: timedwait_deadline_def Let_def split: prod.splits if_splits)

end
