(* ===== verification/Musl_Rwlock.thy ===== *)
theory Musl_Rwlock
  imports Futex_Threads
begin

text \<open>
  The read-write lock of musl (\<^verbatim>\<open>pthread_rwlock_*.c\<close>).  The lock word holds the number
  of readers in its low 31 bits, or all ones for a writer, and in bit 31 that somebody may be
  asleep.  Every access to shared memory of \<open>tryrdlock\<close>, \<open>timedrdlock\<close>, \<open>trywrlock\<close>,
  \<open>timedwrlock\<close> and \<open>unlock\<close> is one step of \<open>rw_local\<close>; the program counters
  carry the local variables.  A thread that has the lock is \<open>Held\<close> and may unlock; a thread that is
  \<open>Idle\<close> may start any of the four lock operations (the untimed ones are the timed ones without
  a deadline).  A thread that holds the lock does not lock it again: read locks nested within one
  thread are not modelled.
\<close>

record rwlock =
  rw_lock :: u32
  rw_waiters :: u32

datatype rw_kind = Rd | Wr

text \<open>From where a try is made: by the caller, first in a timed lock, or in its loop.\<close>

datatype rw_call = TryCall | FirstTry | LoopTry

datatype rw_pc =
    Idle
  | Failed errno
  | Held rw_kind
  | RdLoad rw_call
  | RdCas rw_call u32
  | WrCas rw_call
  | SpinLock rw_kind nat
  | SpinWaiters rw_kind nat
  | Reload rw_kind
  | IncWaiters rw_kind u32
  | Mark rw_kind u32
  | Wait rw_kind u32
  | Asleep rw_kind
  | DecWaiters rw_kind errno
  | UnLoad rw_kind
  | UnWaiters rw_kind u32
  | UnCas rw_kind u32 u32
  | UnWake u32

definition rwlock_init :: rwlock where
  "rwlock_init = \<lparr>rw_lock = 0, rw_waiters = 0\<rparr>"

fun try_pc :: "rw_kind \<Rightarrow> rw_call \<Rightarrow> rw_pc" where
  "try_pc Rd c = RdLoad c"
| "try_pc Wr c = WrCas c"

text \<open>Where the result of a try takes its caller.\<close>

definition after_try :: "rw_kind \<Rightarrow> rw_call \<Rightarrow> errno \<Rightarrow> rw_pc" where
  "after_try k c r =
     (if r = OK then Held k
      else if r \<noteq> EBUSY \<or> c = TryCall then Failed r
      else if c = FirstTry then SpinLock k 100
      else Reload k)"

text \<open>\<open>tryrdlock\<close>: the load with its two checks, and the compare-and-swap.\<close>

definition rd_load :: "rw_call \<Rightarrow> rwlock \<Rightarrow> rwlock \<times> rw_pc" where
  "rd_load c rw =
     (let val = rw_lock rw; cnt = low31 val
      in (rw, if cnt = 0x7fffffff then after_try Rd c EBUSY
              else if cnt = 0x7ffffffe then after_try Rd c EAGAIN
              else RdCas c val))"

definition rd_cas :: "rw_call \<Rightarrow> u32 \<Rightarrow> rwlock \<Rightarrow> rwlock \<times> rw_pc" where
  "rd_cas c val rw =
     (if rw_lock rw = val then (rw\<lparr>rw_lock := val + 1\<rparr>, after_try Rd c OK) else (rw, RdLoad c))"

definition wr_cas :: "rw_call \<Rightarrow> rwlock \<Rightarrow> rwlock \<times> rw_pc" where
  "wr_cas c rw =
     (if rw_lock rw = 0 then (rw\<lparr>rw_lock := 0x7fffffff\<rparr>, after_try Wr c OK) else (rw, after_try Wr c EBUSY))"

text \<open>The timed locks: the spin loop, and the loop that marks the lock word and sleeps.\<close>

definition spin_lock :: "rw_kind \<Rightarrow> nat \<Rightarrow> rwlock \<Rightarrow> rwlock \<times> rw_pc" where
  "spin_lock k spins rw =
     (rw, if spins = 0 \<or> rw_lock rw = 0 then try_pc k LoopTry else SpinWaiters k (spins - 1))"

definition spin_waiters :: "rw_kind \<Rightarrow> nat \<Rightarrow> rwlock \<Rightarrow> rwlock \<times> rw_pc" where
  "spin_waiters k spins rw = (rw, if rw_waiters rw \<noteq> 0 then try_pc k LoopTry else SpinLock k spins)"

definition reload :: "rw_kind \<Rightarrow> rwlock \<Rightarrow> rwlock \<times> rw_pc" where
  "reload k rw =
     (let r = rw_lock rw
      in (rw, if r = 0 \<or> (k = Rd \<and> low31 r \<noteq> 0x7fffffff) then try_pc k LoopTry else IncWaiters k r))"

definition mark :: "rw_kind \<Rightarrow> u32 \<Rightarrow> rwlock \<Rightarrow> rwlock \<times> rw_pc" where
  "mark k r rw =
     (let t = r OR 0x80000000
      in (if rw_lock rw = r then rw\<lparr>rw_lock := t\<rparr> else rw, Wait k t))"

text \<open>
  The call of \<open>__timedwait\<close>: it may fail before it sleeps, the kernel refuses to sleep when the
  word has changed, and a sleep may end by itself or with a timeout or a signal.
\<close>

definition wait :: "rw_kind \<Rightarrow> u32 \<Rightarrow> bool \<Rightarrow> rwlock \<Rightarrow> (rwlock \<times> rw_pc) list" where
  "wait k t ev rw =
     [(rw, DecWaiters k EINVAL), (rw, DecWaiters k ETIMEDOUT),
      (rw, if rw_lock rw = t then Asleep k else DecWaiters k (timedwait_result ev EAGAIN))]"

definition sleep_ends :: "rw_kind \<Rightarrow> bool \<Rightarrow> rwlock \<Rightarrow> (rwlock \<times> rw_pc) list" where
  "sleep_ends k ev rw = map (\<lambda>r. (rw, DecWaiters k (timedwait_result ev r))) [OK, EINTR, ETIMEDOUT]"

definition dec_waiters :: "rw_kind \<Rightarrow> errno \<Rightarrow> rwlock \<Rightarrow> rwlock \<times> rw_pc" where
  "dec_waiters k r rw =
     (rw\<lparr>rw_waiters := rw_waiters rw - 1\<rparr>, if r \<noteq> OK \<and> r \<noteq> EINTR then Failed r else try_pc k LoopTry)"

text \<open>\<open>unlock\<close>: the new word from the value and the count, the compare-and-swap, and whether to wake.\<close>

definition unlock_cas :: "rw_kind \<Rightarrow> u32 \<Rightarrow> u32 \<Rightarrow> rwlock \<Rightarrow> rwlock \<times> rw_pc" where
  "unlock_cas k val waiters rw =
     (let cnt = low31 val;
          new = (if cnt = 0x7fffffff \<or> cnt = 1 then 0 else val - 1)
      in if rw_lock rw = val
         then (rw\<lparr>rw_lock := new\<rparr>,
               if new = 0 \<and> (waiters \<noteq> 0 \<or> negative val) then UnWake cnt else Idle)
         else (rw, UnLoad k))"

fun rw_local :: "bool \<Rightarrow> rwlock \<Rightarrow> rw_pc \<Rightarrow> (rwlock \<times> rw_pc) list" where
  "rw_local ev rw Idle = map (Pair rw) [RdLoad TryCall, RdLoad FirstTry, WrCas TryCall, WrCas FirstTry]"
| "rw_local ev rw (Failed e) = [(rw, Idle)]"
| "rw_local ev rw (Held k) = [(rw, UnLoad k)]"
| "rw_local ev rw (RdLoad c) = [rd_load c rw]"
| "rw_local ev rw (RdCas c val) = [rd_cas c val rw]"
| "rw_local ev rw (WrCas c) = [wr_cas c rw]"
| "rw_local ev rw (SpinLock k n) = [spin_lock k n rw]"
| "rw_local ev rw (SpinWaiters k n) = [spin_waiters k n rw]"
| "rw_local ev rw (Reload k) = [reload k rw]"
| "rw_local ev rw (IncWaiters k r) = [(rw\<lparr>rw_waiters := rw_waiters rw + 1\<rparr>, Mark k r)]"
| "rw_local ev rw (Mark k r) = [mark k r rw]"
| "rw_local ev rw (Wait k t) = wait k t ev rw"
| "rw_local ev rw (Asleep k) = sleep_ends k ev rw"
| "rw_local ev rw (DecWaiters k r) = [dec_waiters k r rw]"
| "rw_local ev rw (UnLoad k) = [(rw, UnWaiters k (rw_lock rw))]"
| "rw_local ev rw (UnWaiters k val) = [(rw, UnCas k val (rw_waiters rw))]"
| "rw_local ev rw (UnCas k val waiters) = [unlock_cas k val waiters rw]"
| "rw_local ev rw (UnWake n) = []"

definition rw_sleeper :: "rw_pc \<Rightarrow> rw_pc option" where
  "rw_sleeper pc = (case pc of Asleep k \<Rightarrow> Some (DecWaiters k OK) | _ \<Rightarrow> None)"

definition rw_waker :: "rw_pc \<Rightarrow> (nat \<times> rw_pc) option" where
  "rw_waker pc = (case pc of UnWake cnt \<Rightarrow> Some (unat cnt, Idle) | _ \<Rightarrow> None)"

abbreviation "rw_step ev \<equiv> threads_step (rw_local ev) rw_sleeper rw_waker"

abbreviation "rw_reach ev n \<equiv> threads_reach (rw_local ev) rw_sleeper rw_waker (rwlock_init, replicate n Idle)"

section \<open>Who holds the lock\<close>

fun holds :: "rw_kind \<Rightarrow> rw_pc \<Rightarrow> bool" where
  "holds k (Held k') \<longleftrightarrow> k' = k"
| "holds k (UnLoad k') \<longleftrightarrow> k' = k"
| "holds k (UnWaiters k' v) \<longleftrightarrow> k' = k"
| "holds k (UnCas k' v w) \<longleftrightarrow> k' = k"
| "holds k _ \<longleftrightarrow> False"

fun counted :: "rw_pc \<Rightarrow> bool" where
  "counted (Mark k r) \<longleftrightarrow> True"
| "counted (Wait k t) \<longleftrightarrow> True"
| "counted (Asleep k) \<longleftrightarrow> True"
| "counted (DecWaiters k r) \<longleftrightarrow> True"
| "counted _ \<longleftrightarrow> False"

text \<open>The lock word is exactly the number of readers, or the writer's value.\<close>

definition word_ok :: "u32 \<Rightarrow> nat \<Rightarrow> nat \<Rightarrow> bool" where
  "word_ok w readers writers \<longleftrightarrow>
     writers = 0 \<and> unat (low31 w) = readers \<and> readers \<le> 0x7ffffffe \<and> (readers = 0 \<longrightarrow> w = 0) \<or>
     writers = 1 \<and> readers = 0 \<and> unat (low31 w) = 0x7fffffff"

fun pc_ok :: "rw_pc \<Rightarrow> bool" where
  "pc_ok (RdCas c v) \<longleftrightarrow> unat (low31 v) < 0x7ffffffe"
| "pc_ok (IncWaiters k r) \<longleftrightarrow> low31 r \<noteq> 0"
| "pc_ok (Mark k r) \<longleftrightarrow> low31 r \<noteq> 0"
| "pc_ok (Wait k t) \<longleftrightarrow> low31 t \<noteq> 0 \<and> negative t"
| "pc_ok (UnWake cnt) \<longleftrightarrow> cnt \<noteq> 0"
| "pc_ok _ \<longleftrightarrow> True"

lemma try_pc_simps [simp]: "\<not> holds k' (try_pc k c)" "\<not> counted (try_pc k c)" "pc_ok (try_pc k c)"
  "UnCas k' v w \<noteq> try_pc k c"
  by (cases k; simp)+

definition rw_inv :: "rwlock \<times> rw_pc list \<Rightarrow> bool" where
  "rw_inv x \<longleftrightarrow>
     (case x of (rw, ts) \<Rightarrow>
        word_ok (rw_lock rw) (tally (holds Rd) ts) (tally (holds Wr) ts) \<and>
        rw_waiters rw = of_nat (tally counted ts) \<and> (\<forall>pc\<in>set ts. pc_ok pc))"

lemmas pc_simps = after_try_def rd_load_def rd_cas_def wr_cas_def spin_lock_def
  spin_waiters_def reload_def mark_def wait_def sleep_ends_def dec_waiters_def unlock_cas_def Let_def

lemma low31_values: "low31 0 = 0" "unat (low31 0x7fffffff) = 0x7fffffff" "unat (low31 w) = 0 \<longleftrightarrow> low31 w = 0"
  "low31 w = 0x7fffffff \<longleftrightarrow> unat (low31 w) = 0x7fffffff" "low31 w = 0x7ffffffe \<longleftrightarrow> unat (low31 w) = 0x7ffffffe"
  "low31 w = 1 \<longleftrightarrow> unat (low31 w) = 1"
  by (simp_all add: word_eq_unat [of "low31 w"] unat_low31 word_eq_unat [of "low31 0"])

lemma word_okD:
  "word_ok w r v \<Longrightarrow> 0 < r \<Longrightarrow> v = 0 \<and> unat (low31 w) = r \<and> r \<le> 0x7ffffffe"
  "word_ok w r v \<Longrightarrow> 0 < v \<Longrightarrow> v = 1 \<and> r = 0 \<and> unat (low31 w) = 0x7fffffff"
  "word_ok 0 r v \<Longrightarrow> r = 0 \<and> v = 0"
  "word_ok w r v \<Longrightarrow> low31 w = 0 \<Longrightarrow> w = 0 \<and> r = 0 \<and> v = 0"
  by (auto simp: word_ok_def low31_values)

text \<open>The four operations on the lock word keep it in step with the holders.\<close>

lemma word_ok_read:
  assumes "word_ok w r v" "unat (low31 w) < 0x7ffffffe"
  shows "word_ok (w + 1) (Suc r) v"
proof -
  have "v = 0" "unat (low31 w) = r" using assms unfolding word_ok_def by linarith+
  moreover have "unat (low31 (w + 1)) = unat (low31 w) + 1" using assms(2) by (intro low31_next) simp
  ultimately show ?thesis using assms(2) by (simp add: word_ok_def)
qed

lemma word_ok_write:
  assumes "word_ok 0 r v"
  shows "word_ok 0x7fffffff r (Suc v)"
proof -
  have "r = 0" "Suc v = 1" using word_okD(3) [OF assms] by simp_all
  then show ?thesis unfolding word_ok_def low31_values(2) by blast
qed

lemma word_ok_mark: "word_ok w r v \<Longrightarrow> low31 w \<noteq> 0 \<Longrightarrow> word_ok (w OR 0x80000000) r v"
  by (auto simp: word_ok_def set31 low31_values)

definition unlocked :: "u32 \<Rightarrow> u32" where
  "unlocked w = (if low31 w = 0x7fffffff \<or> low31 w = 1 then 0 else w - 1)"

lemma word_ok_unlock_rd:
  assumes "word_ok w r v" "0 < r"
  shows "word_ok (unlocked w) (r - 1) v"
proof -
  have w: "v = 0" "unat (low31 w) = r" "r \<le> 0x7ffffffe" using word_okD(1) [OF assms] by simp_all
  show ?thesis
  proof (cases "r = 1")
    case True
    then show ?thesis using w by (simp add: unlocked_def word_ok_def low31_values)
  next
    case False
    have "unat (low31 (w - 1)) = r - 1" using low31_prev(1) [of w] w assms(2) by simp
    then show ?thesis using w False assms(2) by (simp add: unlocked_def word_ok_def low31_values)
  qed
qed

lemma word_ok_unlock_wr:
  assumes "word_ok w r v" "0 < v"
  shows "word_ok (unlocked w) r (v - 1)"
  using word_okD(2) [OF assms] by (simp add: word_ok_def low31_values unlocked_def)

text \<open>What one step of a thread does to the lock word, to the holders and to the waiters.\<close>

inductive lock_effect :: "u32 \<Rightarrow> rw_pc \<Rightarrow> u32 \<Rightarrow> rw_pc \<Rightarrow> bool" where
  Keep: "(\<And>k. holds k pc' = holds k pc) \<Longrightarrow> lock_effect w pc w pc'"
| Read: "unat (low31 w) < 0x7ffffffe \<Longrightarrow> (\<And>k. \<not> holds k pc) \<Longrightarrow> lock_effect w pc (w + 1) (Held Rd)"
| Write: "(\<And>k. \<not> holds k pc) \<Longrightarrow> lock_effect 0 pc 0x7fffffff (Held Wr)"
| Marked: "low31 w \<noteq> 0 \<Longrightarrow> (\<And>k. \<not> holds k pc) \<Longrightarrow> (\<And>k. \<not> holds k pc') \<Longrightarrow>
    lock_effect w pc (w OR 0x80000000) pc'"
| Release: "(\<And>k'. \<not> holds k' pc') \<Longrightarrow> lock_effect w (UnCas k w n) (unlocked w) pc'"

lemma rw_local_effect:
  assumes "(rw', pc') \<in> set (rw_local ev rw pc)" "pc_ok pc"
  shows "lock_effect (rw_lock rw) pc (rw_lock rw') pc'"
proof (cases pc)
  case (RdCas c v)
  then show ?thesis using assms lock_effect.Read [of "rw_lock rw" pc]
    by (auto simp: pc_simps intro: lock_effect.Keep split: if_splits)
next
  case (WrCas c)
  then show ?thesis using assms lock_effect.Write [of pc]
    by (auto simp: pc_simps intro: lock_effect.Keep split: if_splits)
next
  case (Mark k r)
  then show ?thesis using assms lock_effect.Marked [of "rw_lock rw" pc pc']
    by (auto simp: pc_simps intro: lock_effect.Keep split: if_splits)
next
  case (UnCas k v n)
  then show ?thesis using assms lock_effect.Release [of pc' "rw_lock rw" k n]
    by (auto simp: pc_simps unlocked_def intro: lock_effect.Keep split: if_splits)
qed (use assms in \<open>auto simp: pc_simps intro!: lock_effect.Keep split: if_splits\<close>)

lemma rw_local_waiters:
  assumes "(rw', pc') \<in> set (rw_local ev rw pc)"
  shows "rw_waiters rw' = rw_waiters rw \<and> counted pc' = counted pc \<or>
    rw_waiters rw' = rw_waiters rw + 1 \<and> counted pc' \<and> \<not> counted pc \<or>
    rw_waiters rw' = rw_waiters rw - 1 \<and> \<not> counted pc' \<and> counted pc"
  using assms by (cases pc) (auto simp: pc_simps split: if_splits)

lemma rw_local_pc_ok:
  assumes "(rw', pc') \<in> set (rw_local ev rw pc)" "pc_ok pc" "low31 (rw_lock rw) = 0 \<longrightarrow> rw_lock rw = 0"
  shows "pc_ok pc'"
proof (cases pc)
  case (RdLoad c)
  have "unat (low31 (rw_lock rw)) < 2 ^ 31" by (rule low31_lt)
  then show ?thesis using assms RdLoad by (auto simp: pc_simps low31_values)
next
  case (UnCas k v w)
  have "unat (low31 1) = 1" by (simp add: unat_low31)
  then show ?thesis using assms UnCas by (auto simp: pc_simps low31_values split: if_splits)
qed (use assms in \<open>auto simp: pc_simps set31 split: if_splits\<close>)

lemma local_inv:
  assumes "rw_inv (rw, ts)" and i: "i < length ts" and st: "(rw', pc') \<in> set (rw_local ev rw (ts ! i))"
  shows "rw_inv (rw', ts[i := pc'])"
proof -
  let ?h = "\<lambda>k ts. tally (holds k) ts"
  have w: "word_ok (rw_lock rw) (?h Rd ts) (?h Wr ts)"
    and c: "rw_waiters rw = of_nat (tally counted ts)" and p: "\<forall>pc\<in>set ts. pc_ok pc"
    using assms(1) by (simp_all add: rw_inv_def)
  have pi: "pc_ok (ts ! i)" using p i by simp
  have free: "low31 (rw_lock rw) = 0 \<longrightarrow> rw_lock rw = 0" using word_okD(4) [OF w] by blast
  have "pc_ok pc'" by (rule rw_local_pc_ok [OF st pi free])
  then have "\<forall>pc\<in>set (ts[i := pc']). pc_ok pc"
    using p set_update_subset_insert [of ts i pc'] by blast
  moreover have "rw_waiters rw' = of_nat (tally counted (ts[i := pc']))"
  proof -
    have "0 < tally counted ts" if "counted (ts ! i)" using tally_memberI [of i ts counted] i that by blast
    then show ?thesis
      using rw_local_waiters [OF st] c tally_same [OF i, of counted pc'] tally_more [OF i, of counted pc']
        tally_less [OF i, of counted pc'] by (auto simp: of_nat_diff)
  qed
  moreover have "word_ok (rw_lock rw') (?h Rd (ts[i := pc'])) (?h Wr (ts[i := pc']))"
    using rw_local_effect [OF st pi]
  proof cases
    case Keep
    then show ?thesis using w i by (simp add: tally_same)
  next
    case Read
    then show ?thesis using word_ok_read [OF w] i by (simp add: tally_same tally_more)
  next
    case Write
    then show ?thesis using word_ok_write [of "?h Rd ts" "?h Wr ts"] w i by (simp add: tally_same tally_more)
  next
    case Marked
    then show ?thesis using word_ok_mark [OF w] i by (simp add: tally_same)
  next
    case (Release k n)
    have "holds k (ts ! i)" using Release by simp
    then have "0 < ?h k ts" using i by (intro tally_memberI)
    then show ?thesis
      using word_ok_unlock_rd [OF w] word_ok_unlock_wr [OF w] Release i
      by (cases k) (simp_all add: tally_same tally_less)
  qed
  ultimately show ?thesis by (simp add: rw_inv_def)
qed

lemma woken: "rw_sleeper pc = Some pc' \<Longrightarrow> \<not> holds k pc \<and> \<not> holds k pc' \<and> counted pc \<and> counted pc' \<and> pc_ok pc'"
  by (auto simp: rw_sleeper_def split: rw_pc.splits)

lemma rw_waker_iff: "rw_waker pc = Some (n, pc') \<longleftrightarrow> (\<exists>cnt. pc = UnWake cnt \<and> n = unat cnt) \<and> pc' = Idle"
  by (auto simp: rw_waker_def split: rw_pc.splits)

lemma wake_inv:
  assumes "rw_inv (rw, ts)" "i < length ts" "rw_waker (ts ! i) = Some (n, pc')"
  shows "rw_inv (rw, (wake_up rw_sleeper W ts)[i := pc'])"
proof -
  obtain cnt where u: "ts ! i = UnWake cnt" "pc' = Idle" using assms(3) by (auto simp: rw_waker_iff)
  then have wi: "wake_up rw_sleeper W ts ! i = UnWake cnt" using assms(2) by (simp add: wake_up_nth rw_sleeper_def)
  have t: "tally P ((wake_up rw_sleeper W ts)[i := pc']) = tally P ts" if "P = holds k \<or> P = counted" for P k
  proof -
    have "P pc' = P (wake_up rw_sleeper W ts ! i)" using that u wi by auto
    then have "tally P ((wake_up rw_sleeper W ts)[i := pc']) = tally P (wake_up rw_sleeper W ts)"
      using assms(2) by (intro tally_same) simp_all
    also have "\<dots> = tally P ts" using that woken by (intro tally_wake_up) blast
    finally show ?thesis .
  qed
  have p: "\<forall>pc\<in>set ts. pc_ok pc" using assms(1) by (simp add: rw_inv_def)
  have "pc_ok (wake_up rw_sleeper W ts ! j)" if "j < length ts" for j
    using that p woken by (auto simp: wake_up_nth split: option.split)
  then have "\<forall>pc\<in>set (wake_up rw_sleeper W ts). pc_ok pc" by (auto simp: in_set_conv_nth)
  moreover have "pc_ok pc'" using u by simp
  ultimately have "\<forall>pc\<in>set ((wake_up rw_sleeper W ts)[i := pc']). pc_ok pc"
    using set_update_subset_insert [of "wake_up rw_sleeper W ts" i pc'] by blast
  then show ?thesis
    using assms(1) t [of "holds Rd" Rd] t [of "holds Wr" Wr] t [of counted Rd] by (simp add: rw_inv_def)
qed

interpretation rw_word: threads_invariant "rw_local ev" rw_sleeper rw_waker "\<lambda>_. True" rw_inv for ev
  by unfold_locales (auto intro: local_inv wake_inv)

lemma start_inv: "rw_inv (rwlock_init, replicate n Idle)"
proof -
  have "tally (holds k) (replicate n Idle) = 0" "tally counted (replicate n Idle) = 0" for k
    by (simp_all add: tally_def)
  then show ?thesis by (simp add: rw_inv_def rwlock_init_def word_ok_def low31_values)
qed

section \<open>No wake-up is lost\<close>

text \<open>
  A thread is \<open>retrying\<close> when it is about to wake sleepers, or is awake in the loop of a timed lock
  and tries again before it can sleep or give up.
\<close>

fun retrying :: "rw_pc \<Rightarrow> bool" where
  "retrying (UnWake n) \<longleftrightarrow> True"
| "retrying (RdLoad c) \<longleftrightarrow> c = LoopTry"
| "retrying (RdCas c v) \<longleftrightarrow> c = LoopTry"
| "retrying (WrCas c) \<longleftrightarrow> c = LoopTry"
| "retrying (Reload k) \<longleftrightarrow> True"
| "retrying (DecWaiters k r) \<longleftrightarrow> r = OK \<or> r = EINTR"
| "retrying _ \<longleftrightarrow> False"

fun asleep :: "rw_pc \<Rightarrow> bool" where
  "asleep (Asleep k) \<longleftrightarrow> True"
| "asleep _ \<longleftrightarrow> False"

definition some_thread :: "(rw_pc \<Rightarrow> bool) \<Rightarrow> rw_pc list \<Rightarrow> bool" where
  "some_thread P ts \<longleftrightarrow> (\<exists>j<length ts. P (ts ! j))"

definition wake_inv2 :: "rwlock \<times> rw_pc list \<Rightarrow> bool" where
  "wake_inv2 x \<longleftrightarrow>
     (case x of (rw, ts) \<Rightarrow> some_thread asleep ts \<longrightarrow>
        (\<forall>j<length ts. \<forall>k v. ts ! j = UnCas k v 0 \<longrightarrow> negative (rw_lock rw)) \<and>
        (rw_lock rw = 0 \<longrightarrow> some_thread retrying ts))"

lemma asleep_simps [simp]: "\<not> asleep (try_pc k c)" "retrying (try_pc k c) \<longleftrightarrow> c = LoopTry" "asleep pc \<Longrightarrow> counted pc"
  by (cases k; simp; fail)+ (cases pc; simp)

lemma rw_sleeper_iff: "rw_sleeper pc = Some pc' \<longleftrightarrow> (\<exists>k. pc = Asleep k \<and> pc' = DecWaiters k OK)"
  "rw_sleeper pc = None \<longleftrightarrow> \<not> asleep pc"
  by (auto simp: rw_sleeper_def split: rw_pc.splits)

lemma local_asleep:
  assumes "(rw', pc') \<in> set (rw_local ev rw pc)" "asleep pc'" "pc_ok pc"
  shows "rw_lock rw' = rw_lock rw \<and> negative (rw_lock rw) \<and> rw_lock rw \<noteq> 0"
  using assms by (cases pc) (auto simp: pc_simps low31_values split: if_splits)

lemma local_retrying:
  assumes "(rw', pc') \<in> set (rw_local ev rw pc)" "rw_lock rw = 0" "rw_lock rw' = 0" "retrying pc"
  shows "retrying pc'"
  using assms by (cases pc) (auto simp: pc_simps low31_values split: if_splits)

lemma local_release:
  assumes "(rw', pc') \<in> set (rw_local ev rw pc)" "rw_lock rw \<noteq> 0" "rw_lock rw' = 0" "pc_ok pc"
  shows "\<exists>k w. pc = UnCas k (rw_lock rw) w \<and> (w \<noteq> 0 \<or> negative (rw_lock rw) \<longrightarrow> retrying pc')"
  using assms low31_next(1) [of "rw_lock rw"] set31(1) [of "rw_lock rw"]
  by (cases pc) (auto simp: pc_simps low31_values split: if_splits)

lemma local_uncas:
  assumes "(rw', pc') \<in> set (rw_local ev rw pc)" "pc' = UnCas k v 0"
  shows "rw_waiters rw = 0 \<and> rw' = rw"
  using assms by (cases pc) (auto simp: pc_simps split: if_splits)

lemma some_threadI: "j < length ts \<Longrightarrow> P (ts ! j) \<Longrightarrow> some_thread P ts"
  unfolding some_thread_def by blast

text \<open>While a thread is in the middle of \<open>unlock\<close>, steps of other threads leave bit 31 of the word set.\<close>

lemma negative_kept:
  assumes inv: "rw_inv (rw, ts)" and i: "i < length ts" and j: "j < length ts" "j \<noteq> i" "holds k (ts ! j)"
    and st: "(rw', pc') \<in> set (rw_local ev rw (ts ! i))" and neg: "negative (rw_lock rw)"
  shows "negative (rw_lock rw')"
proof -
  have w: "word_ok (rw_lock rw) (tally (holds Rd) ts) (tally (holds Wr) ts)" and pi: "pc_ok (ts ! i)"
    using inv i by (simp_all add: rw_inv_def)
  show ?thesis
    using rw_local_effect [OF st pi]
  proof cases
    case Read
    then show ?thesis using low31_next(2) [of "rw_lock rw"] neg by simp
  next
    case Write
    then show ?thesis using neg by (simp add: negative_iff)
  next
    case (Release k' n)
    have hi: "holds k' (ts ! i)" using Release by simp
    have pos: "0 < tally (holds k') ts" "0 < tally (holds k) ts"
      using tally_memberI [of i ts "holds k'"] tally_memberI [of j ts "holds k"] i j hi by blast+
    have "k' = k" using pos word_okD(1,2) [OF w] by (cases k; cases k') auto
    then have two: "2 \<le> tally (holds k) ts" using tally_other [of i ts j "holds k"] i j hi by simp
    then have "k = Rd" using word_okD(2) [OF w] by (cases k) auto
    then have "2 \<le> unat (low31 (rw_lock rw))" "unat (low31 (rw_lock rw)) \<le> 0x7ffffffe"
      using two word_okD(1) [OF w] by simp_all
    then show ?thesis
      using Release low31_prev(2) [of "rw_lock rw"] neg by (simp add: unlocked_def low31_values)
  qed (use neg set31 in simp_all)
qed

lemma local_wake_inv:
  assumes inv: "rw_inv (rw, ts)" "wake_inv2 (rw, ts)" and n: "length ts < 2 ^ 32" and i: "i < length ts"
    and st: "(rw', pc') \<in> set (rw_local ev rw (ts ! i))"
  shows "wake_inv2 (rw', ts[i := pc'])"
proof -
  have pi: "pc_ok (ts ! i)" and c: "rw_waiters rw = of_nat (tally counted ts)"
    using inv i by (simp_all add: rw_inv_def)
  have other: "some_thread asleep ts" if "some_thread asleep (ts[i := pc'])" "\<not> asleep pc'"
    using that i unfolding some_thread_def length_list_update by (metis nth_list_update)
  have "negative (rw_lock rw')"
    if s: "some_thread asleep (ts[i := pc'])" and j: "j < length ts" "ts[i := pc'] ! j = UnCas k v 0" for j k v
  proof (cases "asleep pc'")
    case True
    then show ?thesis using local_asleep [OF st _ pi] by simp
  next
    case False
    then have s0: "some_thread asleep ts" using other s by blast
    show ?thesis
    proof (cases "j = i")
      case True
      then have "rw_waiters rw = 0" using local_uncas [OF st] j i by simp
      moreover have "tally counted ts < 2 ^ 32" using n tally_le [of counted ts] by simp
      ultimately have "tally counted ts = 0" using c unat_of_nat_small [of "tally counted ts", where 'a = 32] by simp
      then show ?thesis using s0 tally_memberI [of _ ts counted] by (fastforce simp: some_thread_def)
    next
      case False
      then have "ts ! j = UnCas k v 0" using j by simp
      moreover from this have "negative (rw_lock rw)" using inv(2) s0 j(1) by (auto simp: wake_inv2_def)
      ultimately show ?thesis using negative_kept [OF inv(1) i j(1) False _ st] by simp
    qed
  qed
  moreover have "some_thread retrying (ts[i := pc'])" if s: "some_thread asleep (ts[i := pc'])" and z: "rw_lock rw' = 0"
  proof -
    have na: "\<not> asleep pc'" using local_asleep [OF st _ pi] z by auto
    then have s0: "some_thread asleep ts" using other s by blast
    show ?thesis
    proof (cases "rw_lock rw = 0")
      case True
      then obtain j where j: "j < length ts" "retrying (ts ! j)"
        using inv(2) s0 by (auto simp: wake_inv2_def some_thread_def)
      then show ?thesis
        using local_retrying [OF st True z] i by (cases "j = i") (auto intro: some_threadI [of j])
    next
      case False
      then obtain k w where r: "ts ! i = UnCas k (rw_lock rw) w" "w \<noteq> 0 \<or> negative (rw_lock rw) \<longrightarrow> retrying pc'"
        using local_release [OF st _ z pi] by blast
      then have "retrying pc'" using inv(2) s0 i by (cases "w = 0") (auto simp: wake_inv2_def)
      then show ?thesis using i by (intro some_threadI [of i]) simp_all
    qed
  qed
  ultimately show ?thesis by (auto simp: wake_inv2_def)
qed

lemma wake_wake_inv:
  assumes inv: "rw_inv (rw, ts)" "wake_inv2 (rw, ts)" and i: "i < length ts" "rw_waker (ts ! i) = Some (n, pc')"
    and W: "W \<subseteq> sleepers rw_sleeper ts" "card W = min n (card (sleepers rw_sleeper ts))"
  shows "wake_inv2 (rw, (wake_up rw_sleeper W ts)[i := pc'])"
proof -
  let ?ts = "(wake_up rw_sleeper W ts)[i := pc']"
  obtain cnt where u: "ts ! i = UnWake cnt" "n = unat cnt" "pc' = Idle" using i by (auto simp: rw_waker_iff)
  have "pc_ok (ts ! i)" using inv(1) i by (simp add: rw_inv_def)
  then have n: "0 < n" using u by (simp add: unat_gt_0)
  have nth: "?ts ! j = (if j = i then Idle else case rw_sleeper (ts ! j) of Some p \<Rightarrow> if j \<in> W then p else ts ! j | None \<Rightarrow> ts ! j)"
    if "j < length ts" for j
    using that u i by (simp add: nth_list_update wake_up_nth)
  have old: "ts ! j = pc" if "?ts ! j = pc" "j < length ts" "asleep pc \<or> pc = UnCas k v 0" for j pc k v
    using that nth [OF that(2)] by (auto simp: rw_sleeper_iff split: if_splits option.splits)
  have s0: "some_thread asleep ts" if "some_thread asleep ?ts"
    using that old by (auto simp: some_thread_def)
  have "some_thread retrying ?ts" if s: "some_thread asleep ?ts"
  proof -
    from s0 [OF s] obtain j where "j < length ts" "asleep (ts ! j)" by (auto simp: some_thread_def)
    then have "j \<in> sleepers rw_sleeper ts" by (simp add: sleepers_def rw_sleeper_iff)
    moreover have "finite (sleepers rw_sleeper ts)" by (simp add: sleepers_def)
    ultimately have "0 < card (sleepers rw_sleeper ts)" by (auto simp: card_gt_0_iff)
    then have "W \<noteq> {}" using W(2) n by auto
    then obtain l where "l \<in> W" "l \<in> sleepers rw_sleeper ts" using W(1) by blast
    then have l: "l \<in> W" "l < length ts" "rw_sleeper (ts ! l) \<noteq> None" by (simp_all add: sleepers_def)
    then obtain p where "rw_sleeper (ts ! l) = Some p" by blast
    moreover from this have "l \<noteq> i" using u by (auto simp: rw_sleeper_iff)
    ultimately have "?ts ! l = p" using nth [OF l(2)] l(1) by simp
    then have "retrying (?ts ! l)" using \<open>rw_sleeper (ts ! l) = Some p\<close> by (auto simp: rw_sleeper_iff)
    then show ?thesis using l(2) by (intro some_threadI [of l]) simp_all
  qed
  moreover have "negative (rw_lock rw)" if "some_thread asleep ?ts" "j < length ts" "?ts ! j = UnCas k v 0" for j k v
    using inv(2) s0 [OF that(1)] old [OF that(3,2), of k v] that(2) by (simp add: wake_inv2_def)
  ultimately show ?thesis by (auto simp: wake_inv2_def)
qed

interpretation rw_wakeups: threads_invariant "rw_local ev" rw_sleeper rw_waker "\<lambda>n. n < 2 ^ 32"
    "\<lambda>x. rw_inv x \<and> wake_inv2 x" for ev
  by unfold_locales (auto intro: local_inv wake_inv local_wake_inv wake_wake_inv)

lemma start_wake_inv: "wake_inv2 (rwlock_init, replicate n Idle)"
proof -
  have "\<not> some_thread asleep (replicate n Idle)" by (auto simp: some_thread_def)
  then show ?thesis by (simp add: wake_inv2_def)
qed

section \<open>Properties\<close>

text \<open>
  C36.  The read-write lock excludes: whatever the interleaving of any number of threads that lock,
  try, time out and unlock, a writer is alone (never two writers, never a reader beside one), and
  the low 31 bits of the lock word are exactly the number of readers, at most 0x7ffffffe, or all
  ones under a writer; a word of zero means that nobody holds the lock.
\<close>

theorem rwlock_exclusion:
  assumes "rw_reach ev n (rw, ts)"
  shows "tally (holds Wr) ts \<le> 1 \<and> (tally (holds Wr) ts = 1 \<longrightarrow> tally (holds Rd) ts = 0) \<and>
    unat (low31 (rw_lock rw)) = (if tally (holds Wr) ts = 1 then 0x7fffffff else tally (holds Rd) ts) \<and>
    tally (holds Rd) ts \<le> 0x7ffffffe \<and>
    (rw_lock rw = 0 \<longleftrightarrow> tally (holds Rd) ts = 0 \<and> tally (holds Wr) ts = 0)"
proof -
  have w: "word_ok (rw_lock rw) (tally (holds Rd) ts) (tally (holds Wr) ts)"
    using rw_word.keeps_reach [OF assms start_inv] by (simp add: rw_inv_def)
  then consider "tally (holds Wr) ts = 0" "unat (low31 (rw_lock rw)) = tally (holds Rd) ts"
      "tally (holds Rd) ts \<le> 0x7ffffffe" "tally (holds Rd) ts = 0 \<longrightarrow> rw_lock rw = 0"
    | "tally (holds Wr) ts = 1" "tally (holds Rd) ts = 0" "unat (low31 (rw_lock rw)) = 0x7fffffff"
    unfolding word_ok_def by linarith
  then show ?thesis
    by cases (use low31_values(1) in \<open>auto\<close>)
qed

text \<open>
  C37.  No wake-up is lost: with fewer than 2^32 threads, when the lock is free and a thread sleeps
  waiting for it, some thread is about to wake a sleeper or is awake and will try to take the lock
  again before it sleeps.  So the lock is never free with everybody asleep, although an unlock
  after the last reader wakes only one thread, timeouts and signals may end any sleep, and the
  waiter count is read before the compare-and-swap.
\<close>

theorem rwlock_no_lost_wakeup:
  assumes "rw_reach ev n (rw, ts)" "n < 2 ^ 32" "rw_lock rw = 0" "some_thread asleep ts"
  shows "some_thread retrying ts"
  using rw_wakeups.keeps_reach [OF assms(1)] start_inv start_wake_inv assms(2-4) by (simp add: wake_inv2_def)

text \<open>
  A schedule of two threads: the first takes the lock for writing, the second wants to read, spins a
  hundred times and sleeps, and the first stores zero and is about to wake it.
\<close>

definition demo_schedule :: "(nat \<times> nat) list" where
  "demo_schedule =
     [(0, 2), (0, 0), (1, 1), (1, 0)] @ replicate 201 (1, 0) @ [(1, 0), (1, 0), (1, 0), (1, 0), (1, 2)] @
     [(0, 0), (0, 0), (0, 0), (0, 0)]"

lemma demo_run: "run_schedule (rw_local True) demo_schedule (rwlock_init, replicate 2 Idle) =
    Some (\<lparr>rw_lock = 0, rw_waiters = 1\<rparr>, [UnWake 0x7fffffff, Asleep Rd])"
  by code_simp

lemma demo_reach: "rw_reach True 2 (\<lparr>rw_lock = 0, rw_waiters = 1\<rparr>, [UnWake 0x7fffffff, Asleep Rd])"
  by (rule run_schedule_reach [OF demo_run reach_start])

theorem rwlock_exclusion_witness:
  "tally (holds Wr) [UnWake 0x7fffffff, Asleep Rd] \<le> 1 \<and>
   ((0::u32) = 0 \<longleftrightarrow> tally (holds Rd) [UnWake 0x7fffffff, Asleep Rd] = 0 \<and> tally (holds Wr) [UnWake 0x7fffffff, Asleep Rd] = 0)"
  using rwlock_exclusion [OF demo_reach] by simp

theorem rwlock_no_lost_wakeup_witness: "some_thread retrying [UnWake 0x7fffffff, Asleep Rd]"
  by (rule rwlock_no_lost_wakeup [OF demo_reach]) (auto simp: some_thread_def less_Suc_eq)

end
