(* ===== verification/Musl_Sem.thy ===== *)
theory Musl_Sem
  imports Futex_Threads
begin

text \<open>
  The semaphore of musl (\<^verbatim>\<open>sem_*.c\<close>): the value in the low 31 bits of a word whose
  bit 31 says that somebody may be asleep, and a count of waiters.  As for the read-write lock
  each shared access of \<open>sem_post\<close>, \<open>sem_trywait\<close> and \<open>sem_timedwait\<close> is one step.  The
  fields \<open>posts\<close> and \<open>takes\<close> are ghosts that count the successful
  operations.
\<close>

record sem =
  sem_val :: u32
  sem_waiters :: u32
  posts :: nat
  takes :: nat

datatype sem_call = STry | SFirst | SLoop

datatype sem_pc =
    SIdle
  | SFailed errno
  | SGot
  | SExited
  | PostLoad
  | PostWaiters u32
  | PostCas u32 u32
  | PostWake u32
  | TryLoad sem_call
  | TryCas sem_call u32
  | SpinVal nat
  | SpinWait nat
  | SInc
  | SMark
  | SWait
  | SAsleep
  | SDec errno
  | SCleanup

definition SEM_VALUE_MAX :: u32 where
  "SEM_VALUE_MAX = 0x7fffffff"

definition sem_init :: "u32 \<Rightarrow> errno + sem" where
  "sem_init value =
     (if SEM_VALUE_MAX < value then Inl EINVAL
      else Inr \<lparr>sem_val = value, sem_waiters = 0, posts = 0, takes = 0\<rparr>)"

definition sem_getvalue :: "sem \<Rightarrow> u32" where
  "sem_getvalue s = sem_val s AND SEM_VALUE_MAX"

text \<open>\<open>sem_post\<close>.\<close>

definition post_check :: "u32 \<Rightarrow> sem \<Rightarrow> sem_pc" where
  "post_check val s = (if val AND SEM_VALUE_MAX = SEM_VALUE_MAX then SFailed EOVERFLOW else PostCas val (sem_waiters s))"

definition post_cas :: "u32 \<Rightarrow> u32 \<Rightarrow> sem \<Rightarrow> sem \<times> sem_pc" where
  "post_cas val waiters s =
     (let new = val + 1;
          new = (if waiters \<le>s 1 then new AND NOT 0x80000000 else new)
      in if sem_val s = val
         then (s\<lparr>sem_val := new, posts := posts s + 1\<rparr>,
               if negative val then PostWake (if \<not> waiters \<le>s 1 then 1 else 0x7fffffff) else SIdle)
         else (s, PostLoad))"

text \<open>\<open>sem_trywait\<close>, and where a failure takes its caller.\<close>

definition try_failed :: "sem_call \<Rightarrow> sem_pc" where
  "try_failed c = (case c of STry \<Rightarrow> SFailed EAGAIN | SFirst \<Rightarrow> SpinVal 100 | SLoop \<Rightarrow> SInc)"

definition try_load :: "sem_call \<Rightarrow> sem \<Rightarrow> sem_pc" where
  "try_load c s = (let val = sem_val s in if val AND SEM_VALUE_MAX \<noteq> 0 then TryCas c val else try_failed c)"

definition try_cas :: "sem_call \<Rightarrow> u32 \<Rightarrow> sem \<Rightarrow> sem \<times> sem_pc" where
  "try_cas c val s =
     (if sem_val s = val then (s\<lparr>sem_val := val - 1, takes := takes s + 1\<rparr>, SGot) else (s, TryLoad c))"

text \<open>
  \<open>sem_timedwait\<close>: the spin loop and the loop that sleeps.  The wait is a cancellation point, whose
  cleanup handler decrements the waiters.
\<close>

definition spin_val :: "nat \<Rightarrow> sem \<Rightarrow> sem_pc" where
  "spin_val spins s = (if spins = 0 \<or> sem_val s AND SEM_VALUE_MAX \<noteq> 0 then TryLoad SLoop else SpinWait (spins - 1))"

definition spin_wait :: "nat \<Rightarrow> sem \<Rightarrow> sem_pc" where
  "spin_wait spins s = (if sem_waiters s \<noteq> 0 then TryLoad SLoop else SpinVal spins)"

definition sem_mark :: "sem \<Rightarrow> sem" where
  "sem_mark s = (if sem_val s = 0 then s\<lparr>sem_val := 0x80000000\<rparr> else s)"

definition sem_futex :: "bool \<Rightarrow> sem \<Rightarrow> sem_pc list" where
  "sem_futex ev s =
     [SDec EINVAL, SDec ETIMEDOUT, SCleanup,
      if sem_val s = 0x80000000 then SAsleep else SDec (timedwait_result ev EAGAIN)]"

definition sem_sleep_ends :: "bool \<Rightarrow> sem_pc list" where
  "sem_sleep_ends ev = SCleanup # map (\<lambda>r. SDec (timedwait_result ev r)) [OK, EINTR, ETIMEDOUT, ECANCELED]"

definition sem_dec :: "sem \<Rightarrow> sem" where
  "sem_dec s = s\<lparr>sem_waiters := sem_waiters s - 1\<rparr>"

fun sem_local :: "bool \<Rightarrow> sem \<Rightarrow> sem_pc \<Rightarrow> (sem \<times> sem_pc) list" where
  "sem_local ev s SIdle = map (Pair s) [PostLoad, TryLoad STry, TryLoad SFirst]"
| "sem_local ev s (SFailed e) = [(s, SIdle)]"
| "sem_local ev s SGot = [(s, SIdle)]"
| "sem_local ev s SExited = []"
| "sem_local ev s PostLoad = [(s, PostWaiters (sem_val s))]"
| "sem_local ev s (PostWaiters val) = [(s, post_check val s)]"
| "sem_local ev s (PostCas val waiters) = [post_cas val waiters s]"
| "sem_local ev s (PostWake n) = []"
| "sem_local ev s (TryLoad c) = [(s, try_load c s)]"
| "sem_local ev s (TryCas c val) = [try_cas c val s]"
| "sem_local ev s (SpinVal n) = [(s, spin_val n s)]"
| "sem_local ev s (SpinWait n) = [(s, spin_wait n s)]"
| "sem_local ev s SInc = [(s\<lparr>sem_waiters := sem_waiters s + 1\<rparr>, SMark)]"
| "sem_local ev s SMark = [(sem_mark s, SWait)]"
| "sem_local ev s SWait = map (Pair s) (sem_futex ev s)"
| "sem_local ev s SAsleep = map (Pair s) (sem_sleep_ends ev)"
| "sem_local ev s (SDec r) = [(sem_dec s, if r \<noteq> OK then SFailed r else TryLoad SLoop)]"
| "sem_local ev s SCleanup = [(sem_dec s, SExited)]"

definition sem_sleeper :: "sem_pc \<Rightarrow> sem_pc option" where
  "sem_sleeper pc = (case pc of SAsleep \<Rightarrow> Some (SDec OK) | _ \<Rightarrow> None)"

definition sem_waker :: "sem_pc \<Rightarrow> (nat \<times> sem_pc) option" where
  "sem_waker pc = (case pc of PostWake n \<Rightarrow> Some (unat n, SIdle) | _ \<Rightarrow> None)"

abbreviation "sem_step ev \<equiv> threads_step (sem_local ev) sem_sleeper sem_waker"

abbreviation "sem_reach ev s0 n \<equiv> threads_reach (sem_local ev) sem_sleeper sem_waker (s0, replicate n SIdle)"

section \<open>The invariant\<close>

text \<open>The threads that will look at the value again before they sleep, and those about to wake a sleeper.\<close>

fun sem_active :: "sem_pc \<Rightarrow> bool" where
  "sem_active (PostWake n) \<longleftrightarrow> True"
| "sem_active (TryLoad c) \<longleftrightarrow> c = SLoop"
| "sem_active (TryCas c v) \<longleftrightarrow> c = SLoop"
| "sem_active (SDec r) \<longleftrightarrow> r = OK"
| "sem_active _ \<longleftrightarrow> False"

fun sem_pc_ok :: "sem_pc \<Rightarrow> bool" where
  "sem_pc_ok (PostCas v w) \<longleftrightarrow> unat (low31 v) < 0x7fffffff"
| "sem_pc_ok (TryCas c v) \<longleftrightarrow> 0 < unat (low31 v)"
| "sem_pc_ok (PostWake n) \<longleftrightarrow> n = 1 \<or> n = 0x7fffffff"
| "sem_pc_ok _ \<longleftrightarrow> True"

definition sem_inv :: "nat \<Rightarrow> sem \<times> sem_pc list \<Rightarrow> bool" where
  "sem_inv v0 x \<longleftrightarrow>
     (case x of (s, ts) \<Rightarrow>
        unat (low31 (sem_val s)) + takes s = v0 + posts s \<and> (\<forall>pc\<in>set ts. sem_pc_ok pc) \<and>
        (SAsleep \<in> set ts \<longrightarrow>
           (if negative (sem_val s) then unat (low31 (sem_val s)) \<le> tally sem_active ts
            else PostWake 0x7fffffff \<in> set ts)))"

lemma low31_SEM: "w AND SEM_VALUE_MAX = low31 w"
  by (simp add: low31_def SEM_VALUE_MAX_def)

lemmas sem_simps = post_check_def post_cas_def try_failed_def try_load_def try_cas_def spin_val_def spin_wait_def
  sem_mark_def sem_futex_def sem_sleep_ends_def sem_dec_def low31_SEM Let_def

lemma sem_low31: "low31 0x7fffffff = 0x7fffffff" "unat (low31 w) = 0 \<longleftrightarrow> low31 w = 0"
  "low31 w = 0x7fffffff \<longleftrightarrow> unat (low31 w) = 0x7fffffff" "low31 0x80000000 = 0" "low31 0 = 0" "negative 0x80000000"
  by (simp_all add: word_eq_unat [of "low31 _"] unat_low31 negative_iff)

text \<open>What one step of a thread does to the value.\<close>

inductive sem_effect :: "sem \<Rightarrow> sem_pc \<Rightarrow> sem \<Rightarrow> sem_pc \<Rightarrow> bool" where
  Same: "sem_val s' = sem_val s \<Longrightarrow> posts s' = posts s \<Longrightarrow> takes s' = takes s \<Longrightarrow>
    (pc' = SAsleep \<Longrightarrow> sem_val s = 0x80000000) \<Longrightarrow>
    (sem_active pc \<Longrightarrow> \<not> sem_active pc' \<Longrightarrow> low31 (sem_val s) = 0) \<Longrightarrow> sem_effect s pc s' pc'"
| Post: "unat (low31 (sem_val s')) = unat (low31 (sem_val s)) + 1 \<Longrightarrow> posts s' = posts s + 1 \<Longrightarrow> takes s' = takes s \<Longrightarrow>
    negative (sem_val s) \<and> negative (sem_val s') \<and> pc' = PostWake 1 \<or>
    negative (sem_val s) \<and> \<not> negative (sem_val s') \<and> pc' = PostWake 0x7fffffff \<or>
    \<not> negative (sem_val s) \<and> \<not> negative (sem_val s') \<and> pc' = SIdle \<Longrightarrow> sem_effect s (PostCas v w) s' pc'"
| Take: "unat (low31 (sem_val s')) + 1 = unat (low31 (sem_val s)) \<Longrightarrow> takes s' = takes s + 1 \<Longrightarrow> posts s' = posts s \<Longrightarrow>
    negative (sem_val s') = negative (sem_val s) \<Longrightarrow> sem_effect s (TryCas c v) s' SGot"
| Marked: "sem_val s = 0 \<Longrightarrow> sem_val s' = 0x80000000 \<Longrightarrow> posts s' = posts s \<Longrightarrow> takes s' = takes s \<Longrightarrow>
    sem_effect s SMark s' SWait"

lemma sem_local_effect:
  assumes "(s', pc') \<in> set (sem_local ev s pc)" "sem_pc_ok pc"
  shows "sem_effect s pc s' pc'"
proof (cases pc)
  case (PostCas v w)
  show ?thesis
  proof (cases "sem_val s = v")
    case True
    have v: "unat (low31 v) < 0x7fffffff" using assms(2) PostCas by simp
    note nv = low31_next [OF v]
    show ?thesis
      unfolding PostCas
      using assms(1) PostCas True nv
      by (intro sem_effect.Post) (auto simp: sem_simps clear31 [simplified])
  next
    case False
    then show ?thesis using assms PostCas by (auto simp: sem_simps intro!: sem_effect.Same)
  qed
next
  case (TryCas c v)
  show ?thesis
  proof (cases "sem_val s = v")
    case True
    have v: "0 < unat (low31 v)" using assms(2) TryCas by simp
    have e: "s' = s\<lparr>sem_val := v - 1, takes := takes s + 1\<rparr>" "pc' = SGot"
      using assms(1) TryCas True by (simp_all add: sem_simps)
    show ?thesis unfolding TryCas e(2) using low31_prev [OF v] v e(1) True by (intro sem_effect.Take) simp_all
  next
    case False
    then show ?thesis using assms TryCas by (auto simp: sem_simps intro!: sem_effect.Same)
  qed
next
  case SMark
  then show ?thesis using assms sem_effect.Marked [of s s']
    by (cases "sem_val s = 0") (auto simp: sem_simps intro!: sem_effect.Same)
qed (use assms in \<open>auto simp: sem_simps split: sem_call.splits if_splits intro!: sem_effect.Same\<close>)

lemma sem_local_pc_ok:
  assumes "(s', pc') \<in> set (sem_local ev s pc)" "sem_pc_ok pc"
  shows "sem_pc_ok pc'"
proof (cases pc)
  case (PostWaiters v)
  have "unat (low31 v) < 2 ^ 31" by (rule low31_lt)
  then have "unat (low31 v) < 0x7fffffff" if "low31 v \<noteq> 0x7fffffff" using that sem_low31(3) [of v] by simp
  then show ?thesis using assms PostWaiters by (auto simp: post_check_def low31_SEM) (auto simp: SEM_VALUE_MAX_def)
next
  case (TryLoad c)
  then show ?thesis using assms sem_low31(2) [of "sem_val s"] by (auto simp: sem_simps split: sem_call.splits)
qed (use assms in \<open>auto simp: sem_simps split: sem_call.splits if_splits\<close>)

lemma sem_local_inv:
  assumes inv: "sem_inv v0 (s, ts)" and i: "i < length ts" and st: "(s', pc') \<in> set (sem_local ev s (ts ! i))"
  shows "sem_inv v0 (s', ts[i := pc'])"
proof -
  let ?v = "unat (low31 (sem_val s))" and ?a = "tally sem_active ts" and ?a' = "tally sem_active (ts[i := pc'])"
  have v: "?v + takes s = v0 + posts s" and p: "\<forall>pc\<in>set ts. sem_pc_ok pc"
    and w: "SAsleep \<in> set ts \<Longrightarrow> if negative (sem_val s) then ?v \<le> ?a else PostWake 0x7fffffff \<in> set ts"
    using inv by (simp_all add: sem_inv_def)
  have pi: "sem_pc_ok (ts ! i)" using p i by simp
  have notwake: "ts ! i \<noteq> PostWake n" for n using st by auto
  have "sem_pc_ok pc'" using st pi by (rule sem_local_pc_ok)
  then have p': "\<forall>pc\<in>set (ts[i := pc']). sem_pc_ok pc"
    using p set_update_subset_insert [of ts i pc'] by blast
  have asl: "SAsleep \<in> set ts" if "SAsleep \<in> set (ts[i := pc'])" "pc' \<noteq> SAsleep"
    using that set_update_subset_insert [of ts i pc'] by blast
  have wake: "PostWake n \<in> set (ts[i := pc'])" if "PostWake n \<in> set ts" for n
    using that notwake [of n] by (metis in_set_conv_nth length_list_update nth_list_update_neq)
  note same = tally_same [OF i, of sem_active pc'] and more = tally_more [OF i, of sem_active pc']
    and less = tally_less [OF i, of sem_active pc']
  have "unat (low31 (sem_val s')) + takes s' = v0 + posts s' \<and>
     (SAsleep \<in> set (ts[i := pc']) \<longrightarrow>
        (if negative (sem_val s') then unat (low31 (sem_val s')) \<le> ?a' else PostWake 0x7fffffff \<in> set (ts[i := pc'])))"
    using sem_local_effect [OF st pi]
  proof cases
    case Same
    have "?v \<le> ?a'" if "?v \<le> ?a"
    proof (cases "sem_active (ts ! i) \<and> \<not> sem_active pc'")
      case True
      then show ?thesis using Same(5) by (simp add: sem_low31)
    next
      case False
      then show ?thesis using that same more by (cases "sem_active pc'"; cases "sem_active (ts ! i)") simp_all
    qed
    then show ?thesis
      using Same v w asl wake by (cases "pc' = SAsleep") (auto simp: sem_low31 split: if_splits)
  next
    case (Post v' w')
    then have "sem_active pc' \<Longrightarrow> ?a' = Suc ?a" using more by simp
    moreover have "PostWake 0x7fffffff \<in> set (ts[i := pc'])" if "pc' = PostWake 0x7fffffff"
      using that i by (simp add: set_update_memI)
    moreover have "pc' \<noteq> SAsleep" using Post by auto
    ultimately show ?thesis using Post v w asl wake by (auto split: if_splits)
  next
    case (Take c v')
    have "?a - 1 \<le> ?a'" using same less Take by (cases "c = SLoop") simp_all
    then show ?thesis using Take v w asl wake by (auto split: if_splits)
  next
    case Marked
    then show ?thesis using v by (simp add: sem_low31)
  qed
  then show ?thesis using p' by (simp add: sem_inv_def)
qed

lemma sem_sleeper_iff: "sem_sleeper pc = Some pc' \<longleftrightarrow> pc = SAsleep \<and> pc' = SDec OK"
  by (auto simp: sem_sleeper_def split: sem_pc.splits)

lemma sem_sleeper_None: "(\<exists>y. sem_sleeper pc = Some y) \<longleftrightarrow> pc = SAsleep"
  by (simp add: sem_sleeper_iff)

lemma sem_waker_iff: "sem_waker pc = Some (n, pc') \<longleftrightarrow> (\<exists>c. pc = PostWake c \<and> n = unat c) \<and> pc' = SIdle"
  by (auto simp: sem_waker_def split: sem_pc.splits)

lemma sem_wake_inv:
  assumes inv: "sem_inv v0 (s, ts)" and n: "length ts < 2 ^ 31" and i: "i < length ts" "sem_waker (ts ! i) = Some (m, pc')"
    and W: "W \<subseteq> sleepers sem_sleeper ts" "card W = min m (card (sleepers sem_sleeper ts))"
  shows "sem_inv v0 (s, (wake_up sem_sleeper W ts)[i := pc'])"
proof -
  let ?wu = "wake_up sem_sleeper W ts"
  have v: "unat (low31 (sem_val s)) + takes s = v0 + posts s" and p: "\<forall>pc\<in>set ts. sem_pc_ok pc"
    and w: "SAsleep \<in> set ts \<Longrightarrow> if negative (sem_val s) then unat (low31 (sem_val s)) \<le> tally sem_active ts
      else PostWake 0x7fffffff \<in> set ts"
    using inv by (simp_all add: sem_inv_def)
  obtain c where c: "ts ! i = PostWake c" "m = unat c" "pc' = SIdle" using i(2) by (auto simp: sem_waker_iff)
  have nth: "?wu ! j = (if ts ! j = SAsleep \<and> j \<in> W then SDec OK else ts ! j)" if "j < length ts" for j
    using that by (auto simp: wake_up_nth sem_sleeper_def split: sem_pc.splits)
  have wi: "?wu ! i = PostWake c" using nth [OF i(1)] c by simp
  have sl: "sleepers sem_sleeper ts = {j. j < length ts \<and> ts ! j = SAsleep}"
    by (simp add: sleepers_def sem_sleeper_None)
  have fin: "finite (sleepers sem_sleeper ts)" by (simp add: sl)
  have "sem_pc_ok (?wu ! j)" if "j < length ts" for j using p nth that by simp
  then have "\<forall>pc\<in>set ?wu. sem_pc_ok pc" by (auto simp: in_set_conv_nth)
  then have p': "\<forall>pc\<in>set (?wu[i := pc']). sem_pc_ok pc"
    using set_update_subset_insert [of ?wu i pc'] c by auto
  have rest: "if negative (sem_val s) then unat (low31 (sem_val s)) \<le> tally sem_active (?wu[i := pc'])
      else PostWake 0x7fffffff \<in> set (?wu[i := pc'])" if a: "SAsleep \<in> set (?wu[i := pc'])"
  proof -
    obtain j where j: "j < length ts" "j \<noteq> i" "?wu ! j = SAsleep"
      using a c i(1) by (auto simp: in_set_conv_nth nth_list_update split: if_splits)
    then have jW: "ts ! j = SAsleep" "j \<notin> W" using nth [OF j(1)] by (auto split: if_splits)
    then have jn: "j \<in> sleepers sem_sleeper ts" using j by (simp add: sl)
    have "W \<noteq> sleepers sem_sleeper ts" using jW jn by blast
    then have lt: "card W < card (sleepers sem_sleeper ts)" using W(1) fin by (simp add: psubset_card_mono psubsetI)
    have "card (sleepers sem_sleeper ts) \<le> card {..<length ts}" by (rule card_mono) (auto simp: sl)
    then have small: "card (sleepers sem_sleeper ts) < 2 ^ 31" using n by simp
    have m: "card W = m" "m < 0x7fffffff" using W(2) lt small by auto
    have "sem_pc_ok (ts ! i)" using p i by simp
    then have "c = 1" using c m by (auto)
    then have one: "card W = 1" using m c by simp
    have "tally sem_active ?wu = tally sem_active ts + card W"
      using W(1) by (rule tally_woken) (auto simp: sem_sleeper_iff)
    then have eq: "tally sem_active (?wu[i := pc']) = tally sem_active ts"
      using one tally_less [of i ?wu sem_active pc'] i wi c by simp
    have "PostWake 0x7fffffff \<in> set (?wu[i := pc'])" if wa: "PostWake 0x7fffffff \<in> set ts"
    proof -
      obtain l where l: "l < length ts" "ts ! l = PostWake 0x7fffffff" using wa by (auto simp: in_set_conv_nth)
      then have "l \<noteq> i" using c \<open>c = 1\<close> by auto
      then show ?thesis using l nth [OF l(1)] by (auto simp: in_set_conv_nth intro!: exI [of _ l])
    qed
    moreover have "SAsleep \<in> set ts" using jW j by (metis nth_mem)
    ultimately show ?thesis using w eq by (auto split: if_splits)
  qed
  show ?thesis using v p' rest by (simp add: sem_inv_def)
qed

interpretation sem: threads_invariant "sem_local ev" sem_sleeper sem_waker "\<lambda>n. n < 2 ^ 31" "sem_inv v0" for ev v0
  by unfold_locales (auto intro: sem_local_inv sem_wake_inv)

lemma sem_start_inv:
  assumes "sem_init v = Inr s0"
  shows "sem_inv (unat v) (s0, replicate n SIdle)"
proof -
  have v: "unat v \<le> 0x7fffffff" using assms by (simp add: sem_init_def SEM_VALUE_MAX_def word_le_nat_alt not_less split: if_splits)
  then have "unat (low31 v) = unat v" by (simp add: unat_low31)
  then show ?thesis using assms by (auto simp: sem_inv_def sem_init_def split: if_splits)
qed

section \<open>Properties\<close>

text \<open>
  C38.  The semaphore counts: for any number of threads (fewer than 2^31) and any interleaving of
  posts, trials, timed waits, timeouts, signals and cancellations, the value is the initial value
  plus the successful posts minus the successful waits, so no wait succeeds without a token; and
  when a token is available while a thread sleeps, some thread is about to wake a sleeper or will
  look at the value again before it sleeps: no post is lost.
\<close>

theorem sem_tokens:
  assumes "sem_init v = Inr s0" "sem_reach ev s0 n (s, ts)" "n < 2 ^ 31"
  shows "unat (sem_getvalue s) + takes s = unat v + posts s \<and>
    (sem_getvalue s \<noteq> 0 \<and> SAsleep \<in> set ts \<longrightarrow> (\<exists>pc\<in>set ts. sem_active pc))"
proof -
  have inv: "unat (low31 (sem_val s)) + takes s = unat v + posts s"
    "SAsleep \<in> set ts \<longrightarrow> (if negative (sem_val s) then unat (low31 (sem_val s)) \<le> tally sem_active ts
       else PostWake 0x7fffffff \<in> set ts)"
    using sem.keeps_reach [OF assms(2) sem_start_inv [OF assms(1)]] assms(3) by (simp_all add: sem_inv_def)
  have "\<exists>pc\<in>set ts. sem_active pc" if "low31 (sem_val s) \<noteq> 0" "SAsleep \<in> set ts"
  proof (cases "negative (sem_val s)")
    case True
    then have "0 < tally sem_active ts" using inv(2) that sem_low31(2) [of "sem_val s"] by simp
    then show ?thesis unfolding tally_pos by (metis nth_mem)
  next
    case False
    then show ?thesis using inv(2) that by (intro bexI [of _ "PostWake 0x7fffffff"]) auto
  qed
  then show ?thesis using inv(1) by (simp add: sem_getvalue_def low31_SEM)
qed

text \<open>A thread waits on an empty semaphore and sleeps, and another posts.\<close>

definition sem_demo :: "(nat \<times> nat) list" where
  "sem_demo = [(0, 2), (0, 0)] @ replicate 201 (0, 0) @ [(0, 0), (0, 0), (0, 0), (0, 3), (1, 0), (1, 0), (1, 0), (1, 0)]"

lemma sem_demo_run:
  "run_schedule (sem_local True) sem_demo
     (\<lparr>sem_val = 0, sem_waiters = 0, posts = 0, takes = 0\<rparr>, replicate 2 SIdle) =
   Some (\<lparr>sem_val = 1, sem_waiters = 1, posts = 1, takes = 0\<rparr>, [SAsleep, PostWake 0x7fffffff])"
  by code_simp

theorem sem_tokens_witness:
  "unat (sem_getvalue \<lparr>sem_val = 1, sem_waiters = 1, posts = 1, takes = 0\<rparr>) + 0 = unat (0 :: u32) + 1 \<and>
   (\<exists>pc\<in>set [SAsleep, PostWake 0x7fffffff]. sem_active pc)"
  using sem_tokens [OF _ run_schedule_reach [OF sem_demo_run reach_start], of 0]
  by (simp add: sem_init_def)

end
