(* ===== verification/Musl_Mutex.thy ===== *)
theory Musl_Mutex
  imports Futex_Threads
begin

text \<open>
  The mutex of musl (\<^verbatim>\<open>pthread_mutex_*.c\<close>) for the types normal, recursive and error-checking,
  private to a process and neither robust nor priority-inheriting (bits 4, 8 and 128 of the type are
  clear, so the branches that test them are not taken; the list of held mutexes, which only the
  kernel reads and only for process-shared ones, is left out).  Each access to the lock word, the
  waiter count or the recursion count is one step.  A thread has its kernel id and, as a ghost, the
  number of times it holds the mutex.
\<close>

unbundle bit_operations_syntax

datatype mutex_type = PTHREAD_MUTEX_NORMAL | PTHREAD_MUTEX_RECURSIVE | PTHREAD_MUTEX_ERRORCHECK

record mutex =
  m_type :: mutex_type
  m_lock :: u32
  m_waiters :: u32
  m_count :: u32

datatype mutex_call = MTry | MFirst | MLoop

datatype mutex_pc =
    MIdle
  | MFailed errno
  | LockCas
  | TimedCas
  | TryNormal mutex_call
  | TryOwner mutex_call
  | TryCount mutex_call
  | TryOwnerCas mutex_call u32
  | MSpinLock nat
  | MSpinWaiters nat
  | MReload
  | MInc u32
  | MMark u32
  | MWait u32
  | MAsleep
  | MDec errno
  | MUnlock
  | UnOwner u32
  | UnCount u32
  | UnSwap u32
  | MWake

record mutex_thread =
  th_tid :: u32
  th_depth :: nat
  th_pc :: mutex_pc

text \<open>The attribute's type, 0 (normal) when there is no attribute.\<close>

definition pthread_mutex_init :: "mutex_type option \<Rightarrow> mutex" where
  "pthread_mutex_init a =
     \<lparr>m_type = (case a of None \<Rightarrow> PTHREAD_MUTEX_NORMAL | Some t \<Rightarrow> t), m_lock = 0, m_waiters = 0, m_count = 0\<rparr>"

definition goto :: "mutex_thread \<Rightarrow> mutex_pc \<Rightarrow> mutex_thread" where
  "goto th pc = th\<lparr>th_pc := pc\<rparr>"

text \<open>A call that returns 0 with the mutex.\<close>

definition acquired :: "mutex_thread \<Rightarrow> mutex_thread" where
  "acquired th = th\<lparr>th_depth := Suc (th_depth th), th_pc := MIdle\<rparr>"

section \<open>Trying\<close>

text \<open>The low 30 bits of the lock word are the owner; \<^verbatim>\<open>EBUSY\<close> is 16, the word of a held normal mutex.\<close>

definition owner :: "u32 \<Rightarrow> u32" where
  "owner w = w AND 0x3fffffff"

definition EBUSY_word :: u32 where
  "EBUSY_word = 16"

text \<open>Where a failed trial takes its caller: out of the call, into the spin loop, or to the loop that sleeps.\<close>

definition try_fails :: "mutex_call \<Rightarrow> errno \<Rightarrow> mutex_pc" where
  "try_fails c r =
     (if r \<noteq> EBUSY \<or> c = MTry then MFailed r else if c = MFirst then MSpinLock 100 else MReload)"

definition trylock_pc :: "mutex \<Rightarrow> mutex_call \<Rightarrow> mutex_pc" where
  "trylock_pc m c = (if m_type m = PTHREAD_MUTEX_NORMAL then TryNormal c else TryOwner c)"

definition trylock_normal :: "mutex_call \<Rightarrow> mutex \<Rightarrow> mutex_thread \<Rightarrow> mutex \<times> mutex_thread" where
  "trylock_normal c m th =
     (let old = m_lock m;
          m = (if old = 0 then m\<lparr>m_lock := EBUSY_word\<rparr> else m)
      in (m, if old AND EBUSY_word = 0 then acquired th else goto th (try_fails c EBUSY)))"

definition trylock_owner :: "mutex_call \<Rightarrow> mutex \<Rightarrow> mutex_thread \<Rightarrow> mutex_pc" where
  "trylock_owner c m th =
     (let old = m_lock m; own = owner old
      in if own = th_tid th \<and> m_type m = PTHREAD_MUTEX_RECURSIVE then TryCount c
         else if own = 0x3fffffff then try_fails c ENOTRECOVERABLE
         else if own \<noteq> 0 \<or> old \<noteq> 0 then try_fails c EBUSY
         else TryOwnerCas c old)"

definition trylock_count :: "mutex_call \<Rightarrow> mutex \<Rightarrow> mutex_thread \<Rightarrow> mutex \<times> mutex_thread" where
  "trylock_count c m th =
     (if m_count m \<ge> 0x7fffffff then (m, goto th (try_fails c EAGAIN))
      else (m\<lparr>m_count := m_count m + 1\<rparr>, acquired th))"

definition trylock_owner_cas :: "mutex_call \<Rightarrow> u32 \<Rightarrow> mutex \<Rightarrow> mutex_thread \<Rightarrow> mutex \<times> mutex_thread" where
  "trylock_owner_cas c old m th =
     (let tid = th_tid th OR (old AND 0x40000000)
      in if m_lock m = old then (m\<lparr>m_lock := tid\<rparr>, acquired th)
         else (m, goto th (try_fails c EBUSY)))"

section \<open>Locking and unlocking\<close>

text \<open>The fast paths of \<^verbatim>\<open>pthread_mutex_lock\<close> and \<^verbatim>\<open>pthread_mutex_timedlock\<close>: one compare-and-swap each.\<close>

definition cas_or :: "mutex_pc \<Rightarrow> mutex \<Rightarrow> mutex_thread \<Rightarrow> mutex \<times> mutex_thread" where
  "cas_or pc m th =
     (if m_lock m = 0 then (m\<lparr>m_lock := EBUSY_word\<rparr>, acquired th) else (m, goto th pc))"

definition timedlock_pc :: "mutex \<Rightarrow> mutex_pc" where
  "timedlock_pc m = (if m_type m = PTHREAD_MUTEX_NORMAL then TimedCas else trylock_pc m MFirst)"

definition lock_pc :: "mutex \<Rightarrow> mutex_pc" where
  "lock_pc m = (if m_type m = PTHREAD_MUTEX_NORMAL then LockCas else timedlock_pc m)"

definition spin_on_lock :: "nat \<Rightarrow> mutex \<Rightarrow> mutex_pc" where
  "spin_on_lock spins m = (if spins = 0 \<or> m_lock m = 0 then trylock_pc m MLoop else MSpinWaiters (spins - 1))"

definition spin_on_waiters :: "nat \<Rightarrow> mutex \<Rightarrow> mutex_pc" where
  "spin_on_waiters spins m = (if m_waiters m \<noteq> 0 then trylock_pc m MLoop else MSpinLock spins)"

definition lock_reload :: "mutex \<Rightarrow> mutex_thread \<Rightarrow> mutex_pc" where
  "lock_reload m th =
     (let r = m_lock m; own = owner r
      in if own = 0 \<and> r = 0 then trylock_pc m MLoop
         else if m_type m = PTHREAD_MUTEX_ERRORCHECK \<and> own = th_tid th then MFailed EDEADLK
         else MInc r)"

definition lock_mark :: "u32 \<Rightarrow> mutex \<Rightarrow> mutex_thread \<Rightarrow> mutex \<times> mutex_thread" where
  "lock_mark r m th =
     (let t = r OR 0x80000000
      in (if m_lock m = r then m\<lparr>m_lock := t\<rparr> else m, goto th (MWait t)))"

definition lock_wait :: "bool \<Rightarrow> u32 \<Rightarrow> mutex \<Rightarrow> mutex_pc list" where
  "lock_wait ev t m =
     [MDec EINVAL, MDec ETIMEDOUT, if m_lock m = t then MAsleep else MDec (timedwait_result ev EAGAIN)]"

definition lock_sleep_ends :: "bool \<Rightarrow> mutex_pc list" where
  "lock_sleep_ends ev = map (\<lambda>r. MDec (timedwait_result ev r)) [OK, EINTR, ETIMEDOUT]"

definition lock_dec :: "errno \<Rightarrow> mutex \<Rightarrow> mutex_thread \<Rightarrow> mutex \<times> mutex_thread" where
  "lock_dec r m th =
     (m\<lparr>m_waiters := m_waiters m - 1\<rparr>, goto th (if r \<noteq> OK \<and> r \<noteq> EINTR then MFailed r else trylock_pc m MLoop))"

definition unlock_waiters :: "mutex \<Rightarrow> mutex_pc" where
  "unlock_waiters m =
     (let waiters = m_waiters m
      in if m_type m = PTHREAD_MUTEX_NORMAL then UnSwap waiters else UnOwner waiters)"

definition unlock_owner :: "u32 \<Rightarrow> mutex \<Rightarrow> mutex_thread \<Rightarrow> mutex_pc" where
  "unlock_owner waiters m th =
     (if owner (m_lock m) \<noteq> th_tid th then MFailed EPERM
      else if m_type m = PTHREAD_MUTEX_RECURSIVE then UnCount waiters
      else UnSwap waiters)"

definition unlock_count :: "u32 \<Rightarrow> mutex \<Rightarrow> mutex_thread \<Rightarrow> mutex \<times> mutex_thread" where
  "unlock_count waiters m th =
     (if m_count m \<noteq> 0
      then (m\<lparr>m_count := m_count m - 1\<rparr>, th\<lparr>th_depth := th_depth th - 1, th_pc := MIdle\<rparr>)
      else (m, goto th (UnSwap waiters)))"

definition unlock_swap :: "u32 \<Rightarrow> mutex \<Rightarrow> mutex_thread \<Rightarrow> mutex \<times> mutex_thread" where
  "unlock_swap waiters m th =
     (let cont = m_lock m
      in (m\<lparr>m_lock := 0\<rparr>,
          th\<lparr>th_depth := th_depth th - 1, th_pc := if waiters \<noteq> 0 \<or> negative cont then MWake else MIdle\<rparr>))"

text \<open>
  A thread between calls may lock, try, lock with a deadline, and unlock; only unlocking a normal
  mutex it does not hold is excluded, because POSIX leaves that undefined.
\<close>

definition mutex_calls :: "mutex \<Rightarrow> mutex_thread \<Rightarrow> mutex_pc list" where
  "mutex_calls m th =
     [lock_pc m, trylock_pc m MTry, timedlock_pc m] @
     (if m_type m = PTHREAD_MUTEX_NORMAL \<and> th_depth th = 0 then [] else [MUnlock])"

fun mutex_at :: "bool \<Rightarrow> mutex \<Rightarrow> mutex_thread \<Rightarrow> mutex_pc \<Rightarrow> (mutex \<times> mutex_thread) list" where
  "mutex_at ev m th MIdle = map (\<lambda>pc. (m, goto th pc)) (mutex_calls m th)"
| "mutex_at ev m th (MFailed e) = [(m, goto th MIdle)]"
| "mutex_at ev m th LockCas = [cas_or (timedlock_pc m) m th]"
| "mutex_at ev m th TimedCas = [cas_or (trylock_pc m MFirst) m th]"
| "mutex_at ev m th (TryNormal c) = [trylock_normal c m th]"
| "mutex_at ev m th (TryOwner c) = [(m, goto th (trylock_owner c m th))]"
| "mutex_at ev m th (TryCount c) = [trylock_count c m th]"
| "mutex_at ev m th (TryOwnerCas c old) = [trylock_owner_cas c old m th]"
| "mutex_at ev m th (MSpinLock n) = [(m, goto th (spin_on_lock n m))]"
| "mutex_at ev m th (MSpinWaiters n) = [(m, goto th (spin_on_waiters n m))]"
| "mutex_at ev m th MReload = [(m, goto th (lock_reload m th))]"
| "mutex_at ev m th (MInc r) = [(m\<lparr>m_waiters := m_waiters m + 1\<rparr>, goto th (MMark r))]"
| "mutex_at ev m th (MMark r) = [lock_mark r m th]"
| "mutex_at ev m th (MWait t) = map (\<lambda>pc. (m, goto th pc)) (lock_wait ev t m)"
| "mutex_at ev m th MAsleep = map (\<lambda>pc. (m, goto th pc)) (lock_sleep_ends ev)"
| "mutex_at ev m th (MDec r) = [lock_dec r m th]"
| "mutex_at ev m th MUnlock = [(m, goto th (unlock_waiters m))]"
| "mutex_at ev m th (UnOwner waiters) = [(m, goto th (unlock_owner waiters m th))]"
| "mutex_at ev m th (UnCount waiters) = [unlock_count waiters m th]"
| "mutex_at ev m th (UnSwap waiters) = [unlock_swap waiters m th]"
| "mutex_at ev m th MWake = []"

definition mutex_local :: "bool \<Rightarrow> mutex \<Rightarrow> mutex_thread \<Rightarrow> (mutex \<times> mutex_thread) list" where
  "mutex_local ev m th = mutex_at ev m th (th_pc th)"

definition mutex_sleeper :: "mutex_thread \<Rightarrow> mutex_thread option" where
  "mutex_sleeper th = (if th_pc th = MAsleep then Some (goto th (MDec OK)) else None)"

definition mutex_waker :: "mutex_thread \<Rightarrow> (nat \<times> mutex_thread) option" where
  "mutex_waker th = (if th_pc th = MWake then Some (1, goto th MIdle) else None)"

abbreviation "mutex_reach ev a tids \<equiv>
  threads_reach (mutex_local ev) mutex_sleeper mutex_waker
    (pthread_mutex_init a, map (\<lambda>tid. \<lparr>th_tid = tid, th_depth = 0, th_pc = MIdle\<rparr>) tids)"

section \<open>Who holds the mutex\<close>

text \<open>Thread ids of the kernel: distinct, positive and below the mask of the owner bits.\<close>

definition kernel_ids :: "u32 list \<Rightarrow> bool" where
  "kernel_ids tids \<longleftrightarrow> distinct tids \<and> (\<forall>t\<in>set tids. 0 < unat t \<and> unat t < 0x3fffffff)"

text \<open>What the low bits of the lock word are while a thread holds the mutex.\<close>

definition tag :: "mutex \<Rightarrow> u32 \<Rightarrow> u32" where
  "tag m t = (if m_type m = PTHREAD_MUTEX_NORMAL then EBUSY_word else t)"

text \<open>
  Nobody holds it, or exactly one thread does, as often as the recursion count says; \<open>tids\<close> and
  \<open>ds\<close> are the ids and the depths of the threads.
\<close>

definition mutex_held :: "mutex \<Rightarrow> u32 list \<Rightarrow> nat list \<Rightarrow> bool" where
  "mutex_held m tids ds \<longleftrightarrow>
     m_lock m = 0 \<and> m_count m = 0 \<and> ds = replicate (length tids) 0 \<or>
     (\<exists>i<length tids. low31 (m_lock m) = tag m (tids ! i) \<and>
        ds = (replicate (length tids) 0)[i := Suc (unat (m_count m))])"

fun mutex_counted :: "mutex_pc \<Rightarrow> bool" where
  "mutex_counted (MMark r) \<longleftrightarrow> True"
| "mutex_counted (MWait t) \<longleftrightarrow> True"
| "mutex_counted MAsleep \<longleftrightarrow> True"
| "mutex_counted (MDec r) \<longleftrightarrow> True"
| "mutex_counted _ \<longleftrightarrow> False"

text \<open>What a thread knows at each place; \<open>d\<close> is its depth.\<close>

fun mutex_pc_ok :: "mutex_type \<Rightarrow> nat \<Rightarrow> mutex_pc \<Rightarrow> bool" where
  "mutex_pc_ok ty d LockCas \<longleftrightarrow> ty = PTHREAD_MUTEX_NORMAL"
| "mutex_pc_ok ty d TimedCas \<longleftrightarrow> ty = PTHREAD_MUTEX_NORMAL"
| "mutex_pc_ok ty d (TryNormal c) \<longleftrightarrow> ty = PTHREAD_MUTEX_NORMAL"
| "mutex_pc_ok ty d (TryOwner c) \<longleftrightarrow> ty \<noteq> PTHREAD_MUTEX_NORMAL"
| "mutex_pc_ok ty d (TryCount c) \<longleftrightarrow> ty = PTHREAD_MUTEX_RECURSIVE \<and> 0 < d"
| "mutex_pc_ok ty d (TryOwnerCas c old) \<longleftrightarrow> ty \<noteq> PTHREAD_MUTEX_NORMAL \<and> old = 0 \<and> (ty = PTHREAD_MUTEX_RECURSIVE \<longrightarrow> d = 0)"
| "mutex_pc_ok ty d (MSpinLock n) \<longleftrightarrow> (ty = PTHREAD_MUTEX_RECURSIVE \<longrightarrow> d = 0)"
| "mutex_pc_ok ty d (MSpinWaiters n) \<longleftrightarrow> (ty = PTHREAD_MUTEX_RECURSIVE \<longrightarrow> d = 0)"
| "mutex_pc_ok ty d MReload \<longleftrightarrow> (ty = PTHREAD_MUTEX_RECURSIVE \<longrightarrow> d = 0)"
| "mutex_pc_ok ty d (MInc r) \<longleftrightarrow> low31 r \<noteq> 0 \<and> (ty \<noteq> PTHREAD_MUTEX_NORMAL \<longrightarrow> d = 0)"
| "mutex_pc_ok ty d (MMark r) \<longleftrightarrow> low31 r \<noteq> 0 \<and> (ty \<noteq> PTHREAD_MUTEX_NORMAL \<longrightarrow> d = 0)"
| "mutex_pc_ok ty d (MWait t) \<longleftrightarrow> negative t \<and> (ty \<noteq> PTHREAD_MUTEX_NORMAL \<longrightarrow> d = 0)"
| "mutex_pc_ok ty d MAsleep \<longleftrightarrow> (ty \<noteq> PTHREAD_MUTEX_NORMAL \<longrightarrow> d = 0)"
| "mutex_pc_ok ty d (MDec r) \<longleftrightarrow> r \<in> {OK, EINTR, EINVAL, ETIMEDOUT} \<and> (ty \<noteq> PTHREAD_MUTEX_NORMAL \<longrightarrow> d = 0)"
| "mutex_pc_ok ty d MUnlock \<longleftrightarrow> (ty = PTHREAD_MUTEX_NORMAL \<longrightarrow> 0 < d)"
| "mutex_pc_ok ty d (UnOwner w) \<longleftrightarrow> ty \<noteq> PTHREAD_MUTEX_NORMAL"
| "mutex_pc_ok ty d (UnCount w) \<longleftrightarrow> ty = PTHREAD_MUTEX_RECURSIVE \<and> 0 < d"
| "mutex_pc_ok ty d (UnSwap w) \<longleftrightarrow> d = 1"
| "mutex_pc_ok ty d _ \<longleftrightarrow> True"

abbreviation "thread_ok m th \<equiv> mutex_pc_ok (m_type m) (th_depth th) (th_pc th)"

definition mutex_inv :: "u32 list \<Rightarrow> mutex \<times> mutex_thread list \<Rightarrow> bool" where
  "mutex_inv tids x \<longleftrightarrow>
     (case x of (m, ts) \<Rightarrow>
        map th_tid ts = tids \<and> mutex_held m tids (map th_depth ts) \<and>
        (m_count m \<noteq> 0 \<longrightarrow> m_type m = PTHREAD_MUTEX_RECURSIVE) \<and>
        m_waiters m = of_nat (tally (\<lambda>th. mutex_counted (th_pc th)) ts) \<and> (\<forall>th\<in>set ts. thread_ok m th))"

text \<open>What the invariant tells the thread that steps.\<close>

definition mutex_view :: "mutex \<Rightarrow> mutex_thread \<Rightarrow> bool" where
  "mutex_view m th \<longleftrightarrow>
     (0 < th_depth th \<longrightarrow> m_lock m \<noteq> 0 \<and> th_depth th = Suc (unat (m_count m))) \<and>
     (m_type m \<noteq> PTHREAD_MUTEX_NORMAL \<longrightarrow> (owner (m_lock m) = th_tid th \<longleftrightarrow> 0 < th_depth th)) \<and>
     (m_lock m \<noteq> 0 \<longrightarrow> low31 (m_lock m) \<noteq> 0 \<and> owner (m_lock m) \<noteq> 0x3fffffff) \<and>
     (m_type m = PTHREAD_MUTEX_NORMAL \<and> m_lock m \<noteq> 0 \<longrightarrow> m_lock m AND EBUSY_word \<noteq> 0) \<and>
     (m_count m \<noteq> 0 \<longrightarrow> m_type m = PTHREAD_MUTEX_RECURSIVE) \<and>
     0 < unat (th_tid th) \<and> unat (th_tid th) < 0x3fffffff"

lemma owner_low31: "owner w = low31 w AND 0x3fffffff" and busy_low31: "w AND EBUSY_word = low31 w AND EBUSY_word"
  by (simp_all add: owner_def low31_def EBUSY_word_def and.assoc)

lemma owner_small:
  assumes "unat t < 0x3fffffff"
  shows "t AND 0x3fffffff = (t :: u32)"
proof -
  have "(0x3fffffff :: u32) = mask 30" by code_simp
  then have "unat (t AND 0x3fffffff) = unat t mod 2 ^ 30"
    by (simp only: take_bit_eq_mask [symmetric] unsigned_take_bit_eq) (simp add: take_bit_eq_mod)
  then show ?thesis using assms by (simp add: word_eq_unat)
qed

lemma low31_small: "unat t < 2 ^ 31 \<Longrightarrow> low31 t = t"
  by (simp add: word_eq_unat unat_low31)

lemma tag_small:
  assumes "kernel_ids tids" "i < length tids"
  shows "0 < unat (tag m (tids ! i))" "unat (tag m (tids ! i)) < 0x3fffffff" "low31 (tag m (tids ! i)) = tag m (tids ! i)"
proof -
  show s: "0 < unat (tag m (tids ! i))" "unat (tag m (tids ! i)) < 0x3fffffff"
    using assms by (auto simp: kernel_ids_def tag_def EBUSY_word_def)
  then show "low31 (tag m (tids ! i)) = tag m (tids ! i)" by (intro low31_small) simp
qed

lemma held_view:
  assumes held: "mutex_held m tids ds" and ids: "kernel_ids tids" and k: "k < length tids"
    and th: "th_tid th = tids ! k" "th_depth th = ds ! k" and c: "m_count m \<noteq> 0 \<longrightarrow> m_type m = PTHREAD_MUTEX_RECURSIVE"
  shows "mutex_view m th"
proof -
  have t: "0 < unat (tids ! k)" "unat (tids ! k) < 0x3fffffff" using ids k by (auto simp: kernel_ids_def)
  from held consider "m_lock m = 0" "m_count m = 0" "ds ! k = 0"
    | i where "i < length tids" "low31 (m_lock m) = tag m (tids ! i)" "ds ! k = (if k = i then Suc (unat (m_count m)) else 0)"
    using k by (auto simp: mutex_held_def nth_list_update)
  then show ?thesis
  proof cases
    case 1
    have "owner 0 \<noteq> tids ! k" using t(1) by (auto simp: owner_def)
    then show ?thesis using 1 th t c by (simp add: mutex_view_def)
  next
    case 2
    note s = tag_small [OF ids 2(1), of m]
    have own: "owner (m_lock m) = tag m (tids ! i)" unfolding owner_low31 2(2) using s(2) by (rule owner_small)
    have nz: "m_lock m \<noteq> 0" using s(1) 2(2) by (auto simp: low31_def)
    have "tids ! i = tids ! k \<longleftrightarrow> i = k" using ids k 2(1) by (simp add: kernel_ids_def nth_eq_iff_index_eq)
    moreover have "low31 (m_lock m) \<noteq> 0" "owner (m_lock m) \<noteq> 0x3fffffff" using s own 2(2) by auto
    moreover have "m_lock m AND EBUSY_word \<noteq> 0" if "m_type m = PTHREAD_MUTEX_NORMAL"
      using that 2(2) busy_low31 [of "m_lock m"] by (simp add: tag_def EBUSY_word_def)
    ultimately show ?thesis using 2 th t c own nz by (auto simp: mutex_view_def tag_def)
  qed
qed

text \<open>What a step does to the lock word, the recursion count and the depth.\<close>

inductive mutex_effect :: "mutex \<Rightarrow> mutex_thread \<Rightarrow> mutex \<Rightarrow> mutex_thread \<Rightarrow> bool" where
  Keep: "m_lock m' = m_lock m \<Longrightarrow> m_count m' = m_count m \<Longrightarrow> th_depth th' = th_depth th \<Longrightarrow> mutex_effect m th m' th'"
| Acquire: "m_lock m = 0 \<Longrightarrow> m_lock m' = tag m (th_tid th) \<Longrightarrow> m_count m' = m_count m \<Longrightarrow> th_depth th' = Suc (th_depth th) \<Longrightarrow>
    mutex_effect m th m' th'"
| Nest: "0 < th_depth th \<Longrightarrow> m_lock m' = m_lock m \<Longrightarrow> unat (m_count m') = Suc (unat (m_count m)) \<Longrightarrow>
    th_depth th' = Suc (th_depth th) \<Longrightarrow> mutex_effect m th m' th'"
| Marked: "low31 (m_lock m) \<noteq> 0 \<Longrightarrow> m_lock m' = m_lock m OR 0x80000000 \<Longrightarrow> m_count m' = m_count m \<Longrightarrow>
    th_depth th' = th_depth th \<Longrightarrow> mutex_effect m th m' th'"
| Unnest: "0 < th_depth th \<Longrightarrow> m_lock m' = m_lock m \<Longrightarrow> unat (m_count m) = Suc (unat (m_count m')) \<Longrightarrow>
    th_depth th' = th_depth th - 1 \<Longrightarrow> mutex_effect m th m' th'"
| Release: "th_depth th = 1 \<Longrightarrow> m_lock m' = 0 \<Longrightarrow> m_count m' = m_count m \<Longrightarrow> th_depth th' = 0 \<Longrightarrow> mutex_effect m th m' th'"

lemmas mutex_defs = mutex_local_def goto_def acquired_def try_fails_def trylock_pc_def trylock_normal_def trylock_owner_def
  trylock_count_def trylock_owner_cas_def cas_or_def timedlock_pc_def lock_pc_def spin_on_lock_def spin_on_waiters_def
  lock_reload_def lock_mark_def lock_wait_def lock_sleep_ends_def lock_dec_def unlock_waiters_def unlock_owner_def
  unlock_count_def unlock_swap_def mutex_calls_def Let_def

lemma count_next:
  "w < 0x7fffffff \<Longrightarrow> unat (w + 1) = Suc (unat (w :: u32))" "w \<noteq> 0 \<Longrightarrow> unat w = Suc (unat (w - 1 :: u32))"
proof -
  show "unat (w + 1) = Suc (unat w)" if "w < 0x7fffffff"
    using that unat_mult_add_small [of w 1 1] by (simp add: word_less_nat_alt)
  show "unat w = Suc (unat (w - 1))" if "w \<noteq> 0"
    using that unat_minus_one [of w] by (simp add: unat_gt_0)
qed

lemma mutex_local_kept: "(m', th') \<in> set (mutex_local ev m th) \<Longrightarrow> m_type m' = m_type m \<and> th_tid th' = th_tid th"
  by (cases "th_pc th") (auto simp: mutex_defs split: if_splits)

lemma mutex_local_effect:
  assumes st: "(m', th') \<in> set (mutex_local ev m th)" and ok: "thread_ok m th" and v: "mutex_view m th"
  shows "mutex_effect m th m' th'"
proof (cases "th_pc th")
  case (TryCount c)
  then show ?thesis using st ok by (auto simp: mutex_defs not_le count_next intro: Keep Nest split: if_splits)
next
  case (UnCount w)
  then show ?thesis using st ok by (auto simp: mutex_defs count_next(2) intro: Keep Unnest split: if_splits)
next
  case (UnSwap w)
  then show ?thesis using st ok by (auto simp: mutex_defs intro: Release)
next
  case (MMark r)
  then show ?thesis using st ok by (auto simp: mutex_defs intro: Keep Marked split: if_splits)
next
  case LockCas
  then show ?thesis using st ok by (auto simp: mutex_defs tag_def intro: Keep Acquire split: if_splits)
next
  case TimedCas
  then show ?thesis using st ok by (auto simp: mutex_defs tag_def intro: Keep Acquire split: if_splits)
next
  case (TryNormal c)
  then show ?thesis using st ok v by (auto simp: mutex_defs tag_def mutex_view_def intro: Keep Acquire split: if_splits)
next
  case (TryOwnerCas c old)
  then show ?thesis using st ok by (auto simp: mutex_defs tag_def intro: Keep Acquire split: if_splits)
qed (use st in \<open>auto simp: mutex_defs intro!: Keep split: if_splits\<close>)

lemma owner_0 [simp]: "owner 0 = 0"
  by (simp add: owner_def)

lemma mutex_local_ok:
  assumes st: "(m', th') \<in> set (mutex_local ev m th)" and ok: "thread_ok m th" and v: "mutex_view m th"
  shows "mutex_pc_ok (m_type m) (th_depth th') (th_pc th')"
  using assms by (cases "th_pc th"; cases "m_type m")
    (auto simp: mutex_defs mutex_view_def set31 timedwait_result_def split: if_splits)

lemma mutex_local_counted:
  assumes "(m', th') \<in> set (mutex_local ev m th)"
  shows "m_waiters m' = m_waiters m \<and> mutex_counted (th_pc th') = mutex_counted (th_pc th) \<or>
    m_waiters m' = m_waiters m + 1 \<and> mutex_counted (th_pc th') \<and> \<not> mutex_counted (th_pc th) \<or>
    m_waiters m' = m_waiters m - 1 \<and> \<not> mutex_counted (th_pc th') \<and> mutex_counted (th_pc th)"
  using assms by (cases "th_pc th") (auto simp: mutex_defs split: if_splits)

lemma replicate_update: "(replicate n x)[i := x] = replicate n x"
  by (cases "i < n") (simp_all add: list_update_same_conv list_update_beyond)

lemma mutex_effect_held:
  assumes held: "mutex_held m tids ds" and ids: "kernel_ids tids" and k: "k < length tids"
    and th: "th_tid th = tids ! k" "th_depth th = ds ! k" and eff: "mutex_effect m th m' th'" and ty: "m_type m' = m_type m"
  shows "mutex_held m' tids (ds[k := th_depth th'])"
proof -
  let ?zs = "replicate (length tids) (0 :: nat)"
  have tag: "tag m' t = tag m t" for t using ty by (simp add: tag_def)
  have "tag m (tids ! i) \<noteq> 0" if "i < length tids" for i using tag_small(1) [OF ids that, of m] by auto
  then have free: "ds = ?zs \<and> m_count m = 0" if "m_lock m = 0"
    using held that by (fastforce simp: mutex_held_def low31_def)
  have mine: "low31 (m_lock m) = tag m (tids ! k)" "ds = ?zs[k := Suc (unat (m_count m))]" if "0 < ds ! k"
    using held that k by (auto simp: mutex_held_def nth_list_update split: if_splits)
  from eff show ?thesis
  proof cases
    case Keep
    have "ds[k := th_depth th'] = ds" using Keep th(2) by simp
    then show ?thesis using held Keep unfolding mutex_held_def tag by simp
  next
    case Acquire
    then show ?thesis using free tag_small(3) [OF ids k] th k unfolding mutex_held_def tag by (auto intro!: exI [of _ k])
  next
    case Nest
    then show ?thesis using mine th k unfolding mutex_held_def tag by (auto intro!: exI [of _ k])
  next
    case Marked
    have "ds[k := th_depth th'] = ds" using Marked th(2) by simp
    then show ?thesis using held Marked set31(1) [of "m_lock m"] unfolding mutex_held_def tag by (auto simp: low31_def)
  next
    case Unnest
    then show ?thesis using mine th k unfolding mutex_held_def tag by (auto intro!: exI [of _ k])
  next
    case Release
    then have "m_count m = 0" using mine th k by (simp add: unat_eq_zero)
    then show ?thesis using Release mine th k unfolding mutex_held_def by (simp add: replicate_update)
  qed
qed

lemma mutex_inv_view:
  assumes "mutex_inv tids (m, ts)" "kernel_ids tids" "k < length ts"
  shows "mutex_view m (ts ! k)"
proof -
  have l: "map th_tid ts = tids" "mutex_held m tids (map th_depth ts)" "m_count m \<noteq> 0 \<longrightarrow> m_type m = PTHREAD_MUTEX_RECURSIVE"
    using assms(1) by (simp_all add: mutex_inv_def)
  have "length tids = length ts" using l(1) by auto
  then show ?thesis using l assms(3) by (intro held_view [OF l(2) assms(2), of k]) auto
qed

lemma mutex_local_inv:
  assumes inv: "mutex_inv tids (m, ts)" and ids: "kernel_ids tids" and k: "k < length ts"
    and st: "(m', th') \<in> set (mutex_local ev m (ts ! k))"
  shows "mutex_inv tids (m', ts[k := th'])"
proof -
  let ?c = "\<lambda>th. mutex_counted (th_pc th)"
  have l: "map th_tid ts = tids" and held: "mutex_held m tids (map th_depth ts)"
    and rc: "m_count m \<noteq> 0 \<longrightarrow> m_type m = PTHREAD_MUTEX_RECURSIVE"
    and w: "m_waiters m = of_nat (tally ?c ts)" and p: "\<forall>th\<in>set ts. thread_ok m th"
    using inv by (simp_all add: mutex_inv_def)
  have len: "length tids = length ts" using l by auto
  have at: "th_tid (ts ! k) = tids ! k" "th_depth (ts ! k) = map th_depth ts ! k" using k l by auto
  note kept = mutex_local_kept [OF st] and v = mutex_inv_view [OF inv ids k]
  have ok: "thread_ok m (ts ! k)" using p k by simp
  have "map th_tid (ts[k := th']) = tids"
    using kept k l at by (metis list_update_id map_update)
  moreover have "mutex_held m' tids (map th_depth (ts[k := th']))"
    using mutex_effect_held [OF held ids _ at mutex_local_effect [OF st ok v]] kept k len by (simp add: map_update)
  moreover have "m_count m' \<noteq> 0 \<longrightarrow> m_type m' = PTHREAD_MUTEX_RECURSIVE"
    using st ok rc by (cases "th_pc (ts ! k)") (auto simp: mutex_defs split: if_splits)
  moreover have "m_waiters m' = of_nat (tally ?c (ts[k := th']))"
  proof -
    have "0 < tally ?c ts" if "?c (ts ! k)" using tally_memberI [of k ts ?c] k that by blast
    then show ?thesis
      using mutex_local_counted [OF st] w tally_same [OF k, of ?c th'] tally_more [OF k, of ?c th'] tally_less [OF k, of ?c th']
      by (auto simp: of_nat_diff)
  qed
  moreover have "\<forall>th\<in>set (ts[k := th']). thread_ok m' th"
    using p mutex_local_ok [OF st ok v] kept set_update_subset_insert [of ts k th'] by auto
  ultimately show ?thesis by (simp add: mutex_inv_def)
qed

lemma mutex_sleeper_iff: "mutex_sleeper th = Some th' \<longleftrightarrow> th_pc th = MAsleep \<and> th' = goto th (MDec OK)"
  "mutex_sleeper th = None \<longleftrightarrow> th_pc th \<noteq> MAsleep"
  by (auto simp: mutex_sleeper_def)

lemma mutex_waker_iff: "mutex_waker th = Some (n, th') \<longleftrightarrow> th_pc th = MWake \<and> n = 1 \<and> th' = goto th MIdle"
  by (auto simp: mutex_waker_def)

text \<open>The threads after a wake-up: only places change.\<close>

lemma mutex_woken_nth:
  assumes "k < length ts" "mutex_waker (ts ! k) = Some (n, th')" "j < length ts"
  shows "(wake_up mutex_sleeper W ts)[k := th'] ! j =
    (if j = k then goto (ts ! j) MIdle else if th_pc (ts ! j) = MAsleep \<and> j \<in> W then goto (ts ! j) (MDec OK) else ts ! j)"
  using assms by (auto simp: wake_up_nth mutex_waker_iff mutex_sleeper_def nth_list_update)

lemma mutex_wake_inv:
  assumes inv: "mutex_inv tids (m, ts)" and k: "k < length ts" "mutex_waker (ts ! k) = Some (n, th')"
  shows "mutex_inv tids (m, (wake_up mutex_sleeper W ts)[k := th'])"
proof -
  let ?ts = "(wake_up mutex_sleeper W ts)[k := th']"
  let ?c = "\<lambda>th. mutex_counted (th_pc th)"
  note nth = mutex_woken_nth [OF k, of _ W]
  have "map th_tid ?ts = map th_tid ts" "map th_depth ?ts = map th_depth ts"
    using nth by (auto intro!: nth_equalityI simp: goto_def)
  moreover have "tally ?c ?ts = tally ?c ts"
  proof -
    have "wake_up mutex_sleeper W ts ! k = ts ! k" using k by (auto simp: wake_up_nth mutex_waker_iff mutex_sleeper_def)
    then have "tally ?c ?ts = tally ?c (wake_up mutex_sleeper W ts)"
      using k by (intro tally_same) (auto simp: mutex_waker_iff goto_def)
    also have "\<dots> = tally ?c ts" by (rule tally_wake_up) (auto simp: mutex_sleeper_iff goto_def)
    finally show ?thesis .
  qed
  moreover have "\<forall>th\<in>set ?ts. thread_ok m th"
  proof -
    have p: "thread_ok m (ts ! j)" if "j < length ts" for j using inv that by (simp add: mutex_inv_def)
    have "thread_ok m (?ts ! j)" if "j < length ts" for j
      using p [OF that] nth [OF that] by (auto simp: goto_def)
    then show ?thesis by (auto simp: in_set_conv_nth)
  qed
  ultimately show ?thesis using inv by (simp add: mutex_inv_def)
qed

interpretation mutex_word: threads_invariant "mutex_local ev" mutex_sleeper mutex_waker "\<lambda>_. kernel_ids tids" "mutex_inv tids" for ev tids
  by unfold_locales (auto intro: mutex_local_inv mutex_wake_inv)

section \<open>No wake-up is lost\<close>

text \<open>A thread that is about to wake a sleeper, or awake in the loop and trying again before it can sleep or give up.\<close>

fun mutex_retrying :: "mutex_pc \<Rightarrow> bool" where
  "mutex_retrying MWake \<longleftrightarrow> True"
| "mutex_retrying (TryNormal c) \<longleftrightarrow> c = MLoop"
| "mutex_retrying (TryOwner c) \<longleftrightarrow> c = MLoop"
| "mutex_retrying (TryOwnerCas c old) \<longleftrightarrow> c = MLoop"
| "mutex_retrying MReload \<longleftrightarrow> True"
| "mutex_retrying (MDec r) \<longleftrightarrow> r = OK \<or> r = EINTR"
| "mutex_retrying _ \<longleftrightarrow> False"

text \<open>A holder that has read a waiter count of 0 on its way to release the mutex.\<close>

definition saw_none :: "mutex_thread \<Rightarrow> bool" where
  "saw_none th \<longleftrightarrow> 0 < th_depth th \<and> th_pc th \<in> {UnOwner 0, UnCount 0, UnSwap 0}"

definition mutex_wakes :: "mutex \<times> mutex_thread list \<Rightarrow> bool" where
  "mutex_wakes x \<longleftrightarrow>
     (case x of (m, ts) \<Rightarrow> (\<exists>th\<in>set ts. th_pc th = MAsleep) \<longrightarrow>
        ((\<exists>th\<in>set ts. saw_none th) \<longrightarrow> negative (m_lock m)) \<and>
        (m_lock m = 0 \<longrightarrow> (\<exists>th\<in>set ts. mutex_retrying (th_pc th))))"

lemma marked_nonzero: "w OR 0x80000000 \<noteq> (0 :: u32)"
  using set31(2) [of w] by (auto simp: negative_iff)

lemma mutex_local_asleep:
  assumes "(m', th') \<in> set (mutex_local ev m th)" "thread_ok m th" "th_pc th' = MAsleep"
  shows "m_lock m' = m_lock m \<and> negative (m_lock m)"
  using assms by (cases "th_pc th") (auto simp: mutex_defs split: if_splits)

lemma mutex_local_retrying:
  assumes "(m', th') \<in> set (mutex_local ev m th)" "mutex_view m th" "m_lock m = 0" "m_lock m' = 0"
    "thread_ok m th" "mutex_retrying (th_pc th)"
  shows "mutex_retrying (th_pc th')"
  using assms by (cases "th_pc th") (auto simp: mutex_defs mutex_view_def EBUSY_word_def split: if_splits)

lemma mutex_local_release:
  assumes "(m', th') \<in> set (mutex_local ev m th)" "mutex_view m th" "thread_ok m th" "m_lock m \<noteq> 0" "m_lock m' = 0"
  shows "\<exists>w. th_pc th = UnSwap w \<and> th_depth th = 1 \<and> (w \<noteq> 0 \<or> negative (m_lock m) \<longrightarrow> th_pc th' = MWake)"
  using assms marked_nonzero [of "m_lock m"]
  by (cases "th_pc th") (auto simp: mutex_defs mutex_view_def EBUSY_word_def split: if_splits)

lemma mutex_local_saw_none:
  assumes "(m', th') \<in> set (mutex_local ev m th)" "saw_none th'"
  shows "m_lock m' = m_lock m \<and> (m_waiters m = 0 \<or> saw_none th)"
  using assms by (cases "th_pc th") (auto simp: mutex_defs saw_none_def split: if_splits)

text \<open>While one thread holds the mutex, a step of another keeps bit 31 of the word.\<close>

lemma mutex_negative_kept:
  assumes inv: "mutex_inv tids (m, ts)" and ids: "kernel_ids tids" and k: "k < length ts" and j: "j < length ts" "j \<noteq> k"
    and d: "0 < th_depth (ts ! j)" and st: "(m', th') \<in> set (mutex_local ev m (ts ! k))" and neg: "negative (m_lock m)"
  shows "negative (m_lock m')"
proof -
  have l: "length tids = length ts" and held: "mutex_held m tids (map th_depth ts)" and ok: "thread_ok m (ts ! k)"
    using inv k by (auto simp: mutex_inv_def)
  have "map th_depth ts ! j \<noteq> replicate (length tids) 0 ! j" using d j(1) l by simp
  then obtain i where "map th_depth ts = (replicate (length tids) 0)[i := Suc (unat (m_count m))]"
    using held unfolding mutex_held_def by auto
  then have "map th_depth ts ! x = (if x = i then Suc (unat (m_count m)) else 0)" if "x < length ts" for x
    using that l by (simp add: nth_list_update)
  from this [OF k] this [OF j(1)] have "th_depth (ts ! k) = 0" using k j d by (auto split: if_splits)
  with mutex_local_effect [OF st ok mutex_inv_view [OF inv ids k]] show ?thesis
    using neg set31(2) by cases (auto simp: negative_iff)
qed

lemma mutex_local_wakes:
  assumes inv: "mutex_inv tids (m, ts)" "mutex_wakes (m, ts)" and ids: "kernel_ids tids" and n: "length ts < 2 ^ 32"
    and k: "k < length ts" and st: "(m', th') \<in> set (mutex_local ev m (ts ! k))"
  shows "mutex_wakes (m', ts[k := th'])"
proof (cases "\<exists>th\<in>set (ts[k := th']). th_pc th = MAsleep")
  case asleep: True
  let ?c = "\<lambda>th. mutex_counted (th_pc th)"
  have ok: "thread_ok m (ts ! k)" and w: "m_waiters m = of_nat (tally ?c ts)" using inv(1) k by (simp_all add: mutex_inv_def)
  note v = mutex_inv_view [OF inv(1) ids k]
  show ?thesis
  proof (cases "th_pc th' = MAsleep")
    case True
    then have "negative (m_lock m')" using mutex_local_asleep [OF st ok] by simp
    then show ?thesis by (auto simp: mutex_wakes_def negative_iff)
  next
    case False
    then obtain th0 where th0: "th0 \<in> set ts" "th_pc th0 = MAsleep"
      using asleep set_update_subset_insert [of ts k th'] by auto
    then obtain i0 where "i0 < length ts" "?c (ts ! i0)" by (auto simp: in_set_conv_nth)
    then have pos: "0 < tally ?c ts" by (rule tally_memberI)
    have "tally ?c ts < 2 ^ 32" using n tally_le [of ?c ts] by simp
    then have nz: "m_waiters m \<noteq> 0" using pos w unat_of_nat_small [of "tally ?c ts", where 'a = 32] by auto
    have old: "\<exists>th\<in>set ts. saw_none th \<Longrightarrow> negative (m_lock m)" "m_lock m = 0 \<Longrightarrow> \<exists>th\<in>set ts. mutex_retrying (th_pc th)"
      using inv(2) th0 by (auto simp: mutex_wakes_def)
    have "negative (m_lock m')" if s: "th \<in> set (ts[k := th'])" "saw_none th" for th
    proof -
      obtain j where j: "j < length ts" "th = ts[k := th'] ! j" using s(1) by (auto simp: in_set_conv_nth)
      show ?thesis
      proof (cases "j = k")
        case True
        then have "m_lock m' = m_lock m" "saw_none (ts ! k)" using mutex_local_saw_none [OF st] j s(2) nz by auto
        then show ?thesis using old(1) k by (metis nth_mem)
      next
        case False
        then have "saw_none (ts ! j)" using j s(2) by simp
        moreover from this have "negative (m_lock m)" using old(1) j(1) nth_mem by blast
        ultimately show ?thesis
          using mutex_negative_kept [OF inv(1) ids k j(1) False _ st] by (simp add: saw_none_def)
      qed
    qed
    moreover have "\<exists>th\<in>set (ts[k := th']). mutex_retrying (th_pc th)" if z: "m_lock m' = 0"
    proof (cases "m_lock m = 0")
      case True
      then obtain j where j: "j < length ts" "mutex_retrying (th_pc (ts ! j))" using old(2) by (auto simp: in_set_conv_nth)
      then have "mutex_retrying (th_pc (ts[k := th'] ! j))"
        using mutex_local_retrying [OF st v True z ok] k by (cases "j = k") auto
      then show ?thesis using j(1) by (metis length_list_update nth_mem)
    next
      case False
      then obtain u where u: "th_pc (ts ! k) = UnSwap u" "th_depth (ts ! k) = 1"
        "u \<noteq> 0 \<or> negative (m_lock m) \<longrightarrow> th_pc th' = MWake"
        using mutex_local_release [OF st v ok _ z] by blast
      have "negative (m_lock m)" if "u = 0" using old(1) u that k by (metis insertCI nth_mem saw_none_def zero_less_one)
      then show ?thesis using u(3) k by (auto intro!: bexI [of _ th'] set_update_memI)
    qed
    ultimately show ?thesis by (auto simp: mutex_wakes_def)
  qed
qed (auto simp: mutex_wakes_def)

lemma mutex_wake_wakes:
  assumes inv: "mutex_wakes (m, ts)" and k: "k < length ts" "mutex_waker (ts ! k) = Some (n, th')"
    and W: "W \<subseteq> sleepers mutex_sleeper ts" "card W = min n (card (sleepers mutex_sleeper ts))"
  shows "mutex_wakes (m, (wake_up mutex_sleeper W ts)[k := th'])"
proof (cases "\<exists>th\<in>set ((wake_up mutex_sleeper W ts)[k := th']). th_pc th = MAsleep")
  case asleep: True
  let ?ts = "(wake_up mutex_sleeper W ts)[k := th']"
  note nth = mutex_woken_nth [OF k, of _ W]
  obtain j where j: "j < length ts" "th_pc (?ts ! j) = MAsleep" using asleep by (auto simp: in_set_conv_nth)
  then have s: "th_pc (ts ! j) = MAsleep" using nth [OF j(1)] by (auto simp: goto_def split: if_splits)
  then have "j \<in> sleepers mutex_sleeper ts" using j by (simp add: sleepers_def mutex_sleeper_iff)
  moreover have "finite (sleepers mutex_sleeper ts)" by (simp add: sleepers_def)
  ultimately have "0 < card (sleepers mutex_sleeper ts)" by (auto simp: card_gt_0_iff)
  then have "W \<noteq> {}" using W(2) k(2) by (auto simp: mutex_waker_iff)
  then obtain l where "l \<in> W" "l < length ts" "th_pc (ts ! l) = MAsleep" using W(1) by (auto simp: sleepers_def mutex_sleeper_iff)
  moreover from this have "l \<noteq> k" using k(2) by (auto simp: mutex_waker_iff)
  ultimately have "mutex_retrying (th_pc (?ts ! l))" "l < length ?ts" using nth [of l] by (simp_all add: goto_def)
  then have "\<exists>th\<in>set ?ts. mutex_retrying (th_pc th)" by (meson nth_mem)
  moreover have "negative (m_lock m)" if sn: "\<exists>th\<in>set ?ts. saw_none th"
  proof -
    obtain i where i: "i < length ts" "saw_none (?ts ! i)" using sn by (auto simp: in_set_conv_nth)
    then have "saw_none (ts ! i)" using nth [OF i(1)] by (auto simp: saw_none_def goto_def split: if_splits)
    then show ?thesis using inv i(1) j(1) s unfolding mutex_wakes_def by (metis (mono_tags, lifting) case_prod_conv nth_mem)
  qed
  ultimately show ?thesis by (auto simp: mutex_wakes_def)
qed (auto simp: mutex_wakes_def)

interpretation mutex_wakeups: threads_invariant "mutex_local ev" mutex_sleeper mutex_waker
    "\<lambda>n. kernel_ids tids \<and> n < 2 ^ 32" "\<lambda>x. mutex_inv tids x \<and> mutex_wakes x" for ev tids
  by unfold_locales (auto intro: mutex_local_inv mutex_wake_inv mutex_local_wakes mutex_wake_wakes)

lemma mutex_start:
  "mutex_inv tids (pthread_mutex_init a, map (\<lambda>tid. \<lparr>th_tid = tid, th_depth = 0, th_pc = MIdle\<rparr>) tids)"
  "mutex_wakes (pthread_mutex_init a, map (\<lambda>tid. \<lparr>th_tid = tid, th_depth = 0, th_pc = MIdle\<rparr>) tids)"
  by (auto simp: mutex_inv_def mutex_wakes_def pthread_mutex_init_def mutex_held_def tally_def o_def
      map_replicate_const filter_empty_conv)

text \<open>The ways a step can make a call fail.\<close>

lemma mutex_local_fails:
  assumes st: "(m', th') \<in> set (mutex_local ev m th)" and ok: "thread_ok m th" and v: "mutex_view m th"
    and e: "th_pc th' = MFailed e"
  shows "e = EPERM \<and> th_depth th = 0 \<or> e = EDEADLK \<and> m_type m = PTHREAD_MUTEX_ERRORCHECK \<and> 0 < th_depth th \<or>
    e = EAGAIN \<and> m_type m = PTHREAD_MUTEX_RECURSIVE \<and> 0 < th_depth th \<and> 0x7fffffff \<le> m_count m \<or>
    e \<in> {EBUSY, EINVAL, ETIMEDOUT}"
proof (cases "th_pc th")
  case (TryOwner c)
  have "owner (m_lock m) \<noteq> 0x3fffffff" using v owner_0 unfolding mutex_view_def by (cases "m_lock m = 0") simp_all
  then show ?thesis using st e TryOwner by (auto simp: mutex_defs split: if_splits)
next
  case MReload
  have "m_type m \<noteq> PTHREAD_MUTEX_NORMAL \<Longrightarrow> owner (m_lock m) = th_tid th \<Longrightarrow> 0 < th_depth th" using v by (simp add: mutex_view_def)
  then show ?thesis using st e MReload by (auto simp: mutex_defs split: if_splits)
next
  case (UnOwner w)
  have "owner (m_lock m) \<noteq> th_tid th \<Longrightarrow> th_depth th = 0" using v ok UnOwner by (simp add: mutex_view_def)
  then show ?thesis using st e UnOwner by (auto simp: mutex_defs split: if_splits)
qed (use st ok e in \<open>auto simp: mutex_defs split: if_splits\<close>)

lemma mutex_held_tally:
  assumes "mutex_held m tids (map th_depth ts)" "kernel_ids tids" "map th_tid ts = tids"
  shows "tally (\<lambda>th. 0 < th_depth th) ts \<le> 1 \<and> (m_lock m = 0 \<longleftrightarrow> tally (\<lambda>th. 0 < th_depth th) ts = 0)"
proof -
  have l: "length tids = length ts" using assms(3) by auto
  have t: "tally (\<lambda>th. 0 < th_depth th) ts = length (filter (\<lambda>d. 0 < d) (map th_depth ts))"
    by (simp add: tally_def filter_map o_def)
  from assms(1) consider "m_lock m = 0" "map th_depth ts = replicate (length tids) 0"
    | i where "i < length tids" "low31 (m_lock m) = tag m (tids ! i)"
        "map th_depth ts = (replicate (length tids) 0)[i := Suc (unat (m_count m))]"
    unfolding mutex_held_def by auto
  then show ?thesis
  proof cases
    case 1
    then show ?thesis unfolding t by simp
  next
    case 2
    have "m_lock m \<noteq> 0" using 2(1,2) tag_small(1) [OF assms(2), of i m] by (auto simp: low31_def)
    moreover have "length (filter (\<lambda>d. 0 < d) (map th_depth ts)) = 1"
      unfolding 2(3) using 2(1) by (simp add: upd_conv_take_nth_drop)
    ultimately show ?thesis unfolding t by simp
  qed
qed

section \<open>Example runs\<close>

text \<open>
  A thread locks a recursive mutex twice, a second one spins, marks the word and sleeps; then the
  first unlocks twice and is about to wake it.  In the last run the second thread unlocks an
  error-checking mutex the first one holds.
\<close>

abbreviation "mutex_start_with a \<equiv>
  (pthread_mutex_init a, map (\<lambda>tid. \<lparr>th_tid = tid, th_depth = 0, th_pc = MIdle\<rparr>) [101, 102])"

definition nest_schedule :: "(nat \<times> nat) list" where
  "nest_schedule = replicate 6 (0, 0) @ replicate 203 (1, 0) @ replicate 4 (1, 0) @ [(1, 2)]"

definition release_schedule :: "(nat \<times> nat) list" where
  "release_schedule = [(0, 3), (0, 0), (0, 0), (0, 0), (0, 3), (0, 0), (0, 0), (0, 0), (0, 0)]"

definition nested :: "mutex \<times> mutex_thread list" where
  "nested =
     (\<lparr>m_type = PTHREAD_MUTEX_RECURSIVE, m_lock = 0x80000065, m_waiters = 1, m_count = 1\<rparr>,
      [\<lparr>th_tid = 101, th_depth = 2, th_pc = MIdle\<rparr>, \<lparr>th_tid = 102, th_depth = 0, th_pc = MAsleep\<rparr>])"

definition released :: "mutex \<times> mutex_thread list" where
  "released =
     (\<lparr>m_type = PTHREAD_MUTEX_RECURSIVE, m_lock = 0, m_waiters = 1, m_count = 0\<rparr>,
      [\<lparr>th_tid = 101, th_depth = 0, th_pc = MWake\<rparr>, \<lparr>th_tid = 102, th_depth = 0, th_pc = MAsleep\<rparr>])"

definition intruding :: "mutex \<times> mutex_thread list" where
  "intruding =
     (\<lparr>m_type = PTHREAD_MUTEX_ERRORCHECK, m_lock = 101, m_waiters = 0, m_count = 0\<rparr>,
      [\<lparr>th_tid = 101, th_depth = 1, th_pc = MIdle\<rparr>, \<lparr>th_tid = 102, th_depth = 0, th_pc = UnOwner 0\<rparr>])"

lemma nest_run:
  "run_schedule (mutex_local True) nest_schedule (mutex_start_with (Some PTHREAD_MUTEX_RECURSIVE)) = Some nested"
  by code_simp

lemma release_run: "run_schedule (mutex_local True) release_schedule nested = Some released"
  by code_simp

lemma intrude_run:
  "run_schedule (mutex_local True) [(0, 0), (0, 0), (0, 0), (1, 3), (1, 0)] (mutex_start_with (Some PTHREAD_MUTEX_ERRORCHECK)) =
     Some intruding"
  by code_simp

lemmas nested_reach = run_schedule_reach [OF nest_run reach_start]
lemmas released_reach = run_schedule_reach [OF release_run nested_reach]
lemmas intruding_reach = run_schedule_reach [OF intrude_run reach_start]

lemma demo_ids: "kernel_ids [101, 102]"
  by (simp add: kernel_ids_def)

section \<open>Properties\<close>

text \<open>
  C33.  The mutex excludes: whatever the interleaving of any number of threads that lock, try, lock with
  a deadline and unlock a normal, recursive or error-checking mutex, at most one thread holds it,
  the lock word is zero exactly when nobody does, a recursive owner holds it once more than the
  recursion count says, the owner bits of a recursive or error-checking mutex are the holder's
  thread id, and no thread sleeps on such a mutex while it holds it.
\<close>

theorem mutex_exclusion:
  assumes "mutex_reach ev a tids (m, ts)" "kernel_ids tids"
  shows "tally (\<lambda>th. 0 < th_depth th) ts \<le> 1 \<and> (m_lock m = 0 \<longleftrightarrow> tally (\<lambda>th. 0 < th_depth th) ts = 0) \<and>
    (\<forall>th\<in>set ts. 0 < th_depth th \<longrightarrow> th_depth th = Suc (unat (m_count m)) \<and>
       (m_type m \<noteq> PTHREAD_MUTEX_NORMAL \<longrightarrow> owner (m_lock m) = th_tid th \<and> th_pc th \<noteq> MAsleep))"
proof -
  have inv: "mutex_inv tids (m, ts)" using mutex_word.keeps_reach [OF assms(1) mutex_start(1)] assms(2) by blast
  have v: "mutex_view m th" if "th \<in> set ts" for th
    using mutex_inv_view [OF inv assms(2)] that by (auto simp: in_set_conv_nth)
  have ok: "\<forall>th\<in>set ts. thread_ok m th" using inv by (simp add: mutex_inv_def)
  show ?thesis
  proof (intro conjI ballI impI)
    show "tally (\<lambda>th. 0 < th_depth th) ts \<le> 1" "m_lock m = 0 \<longleftrightarrow> tally (\<lambda>th. 0 < th_depth th) ts = 0"
      using mutex_held_tally [of m tids ts] inv assms(2) by (simp_all add: mutex_inv_def)
  qed (use v ok in \<open>fastforce simp: mutex_view_def\<close>)+
qed

theorem mutex_exclusion_witness:
  "tally (\<lambda>th. 0 < th_depth th) (snd nested) \<le> 1 \<and>
   th_depth (hd (snd nested)) = Suc (unat (m_count (fst nested))) \<and> owner (m_lock (fst nested)) = th_tid (hd (snd nested))"
  using mutex_exclusion [OF nested_reach [unfolded nested_def] demo_ids] by (simp add: nested_def)

text \<open>
  C34.  No wake-up of a mutex is lost: with fewer than 2^32 threads, when nobody holds the mutex and a
  thread sleeps waiting for it, some thread is about to wake a sleeper or is awake and tries to take
  the mutex again before it sleeps, although an unlock wakes one thread only, reads the waiter count
  before it stores zero, and timeouts and signals may end any sleep.
\<close>

theorem mutex_no_lost_wakeup:
  assumes "mutex_reach ev a tids (m, ts)" "kernel_ids tids" "length tids < 2 ^ 32"
    and "\<exists>th\<in>set ts. th_pc th = MAsleep" "\<forall>th\<in>set ts. th_depth th = 0"
  shows "\<exists>th\<in>set ts. mutex_retrying (th_pc th)"
proof -
  have inv: "mutex_inv tids (m, ts)" "mutex_wakes (m, ts)"
    using mutex_wakeups.keeps_reach [OF assms(1), of tids] mutex_start assms(2,3) by simp_all
  have "tally (\<lambda>th. 0 < th_depth th) ts = 0" using assms(5) by (simp add: tally_def filter_empty_conv)
  then have "m_lock m = 0" using mutex_held_tally [of m tids ts] inv(1) assms(2) by (simp add: mutex_inv_def)
  then show ?thesis using inv(2) assms(4) by (simp add: mutex_wakes_def)
qed

theorem mutex_no_lost_wakeup_witness: "\<exists>th\<in>set (snd released). mutex_retrying (th_pc th)"
  using mutex_no_lost_wakeup [OF released_reach [unfolded released_def] demo_ids] by (simp add: released_def)

text \<open>
  C35.  The errors of a mutex are truthful: in every reachable system a step that makes a call fail with
  \<^verbatim>\<open>EPERM\<close> is that of a thread that does not hold the mutex, with \<^verbatim>\<open>EDEADLK\<close> that of a thread that holds
  the error-checking mutex it locks, with \<^verbatim>\<open>EAGAIN\<close> that of a thread that holds the recursive mutex
  2^31 times; \<^verbatim>\<open>ENOTRECOVERABLE\<close> never appears; and an unlock of a recursive or error-checking mutex
  by a thread that does not hold it fails with \<^verbatim>\<open>EPERM\<close>.
\<close>

theorem mutex_errors:
  assumes "mutex_reach ev a tids (m, ts)" "kernel_ids tids" "th \<in> set ts" "(m', th') \<in> set (mutex_local ev m th)"
  shows "(th_pc th' = MFailed EPERM \<longrightarrow> th_depth th = 0) \<and>
    (th_pc th' = MFailed EDEADLK \<longrightarrow> m_type m = PTHREAD_MUTEX_ERRORCHECK \<and> 0 < th_depth th) \<and>
    (th_pc th' = MFailed EAGAIN \<longrightarrow> m_type m = PTHREAD_MUTEX_RECURSIVE \<and> 2 ^ 31 \<le> th_depth th) \<and>
    th_pc th' \<noteq> MFailed ENOTRECOVERABLE \<and>
    (th_pc th = UnOwner w \<and> th_depth th = 0 \<longrightarrow> m' = m \<and> th_pc th' = MFailed EPERM)"
proof -
  have inv: "mutex_inv tids (m, ts)" using mutex_word.keeps_reach [OF assms(1) mutex_start(1)] assms(2) by blast
  have v: "mutex_view m th" using mutex_inv_view [OF inv assms(2)] assms(3) by (auto simp: in_set_conv_nth)
  have ok: "thread_ok m th" using inv assms(3) by (simp add: mutex_inv_def)
  have d: "0 < th_depth th \<Longrightarrow> th_depth th = Suc (unat (m_count m))" using v by (simp add: mutex_view_def)
  have c: "2 ^ 31 \<le> Suc (unat (m_count m))" if "0x7fffffff \<le> m_count m" using that by (simp add: word_le_nat_alt)
  have "m' = m \<and> th_pc th' = MFailed EPERM" if u: "th_pc th = UnOwner w" "th_depth th = 0"
  proof -
    have "owner (m_lock m) \<noteq> th_tid th" using v ok u by (simp add: mutex_view_def)
    then show ?thesis using assms(4) u by (simp add: mutex_defs)
  qed
  then show ?thesis using mutex_local_fails [OF assms(4) ok v] d c by auto
qed

theorem mutex_errors_witness:
  "th_pc (snd (hd (mutex_local True (fst intruding) (snd intruding ! 1)))) = MFailed EPERM"
proof -
  let ?th = "\<lparr>th_tid = 102, th_depth = 0, th_pc = UnOwner 0\<rparr>"
  obtain m' th' where st: "mutex_local True (fst intruding) ?th = [(m', th')]" by (simp add: mutex_local_def)
  then have "th_pc th' = MFailed EPERM"
    using mutex_errors [OF intruding_reach [unfolded intruding_def] demo_ids, of ?th m' th' 0] by (simp add: intruding_def)
  moreover have "snd intruding ! 1 = ?th" by (simp add: intruding_def)
  ultimately show ?thesis using st by simp
qed

end
