(* ===== verification/Musl_Once.thy ===== *)
theory Musl_Once
  imports Futex_Threads
begin

text \<open>
  \<^verbatim>\<open>pthread_once\<close> of musl (\<^verbatim>\<open>pthread_once.c\<close> and the waiting of \<^verbatim>\<open>__wait.c\<close>): threads that call it with
  one control word and the same routine.  Each access to the word is one step; the routine itself is
  one step that either completes or is cancelled.  \<open>inits\<close> is a ghost that counts the completed runs
  of the routine.
\<close>

record once =
  control :: u32
  inits :: nat

datatype once_pc =
    OIdle
  | OReturned
  | OExited
  | OLoad
  | OCas
  | OInit
  | OFinish
  | OUndo
  | OMark
  | OSpin nat
  | OCheck
  | OFutex
  | OAsleep
  | OWake u32 bool

definition PTHREAD_ONCE_INIT :: once where
  "PTHREAD_ONCE_INIT = \<lparr>control = 0, inits = 0\<rparr>"

text \<open>The call first looks at the word; then the loop tries to claim it.\<close>

definition once_load :: "once \<Rightarrow> once_pc" where
  "once_load s = (if control s = 2 then OReturned else OCas)"

definition once_full :: "once \<Rightarrow> once \<times> once_pc" where
  "once_full s =
     (let old = control s; s = (if old = 0 then s\<lparr>control := 1\<rparr> else s)
      in (s, if old = 0 then OInit else if old = 1 then OMark else if old = 3 then OSpin 100
             else if old = 2 then OReturned else OCas))"

text \<open>After the routine, and in the cleanup handler when it is cancelled; \<open>-1\<close> wakes \<^verbatim>\<open>INT_MAX\<close> threads.\<close>

definition once_swap :: "u32 \<Rightarrow> bool \<Rightarrow> once \<Rightarrow> once \<times> once_pc" where
  "once_swap v ret s =
     (s\<lparr>control := v, inits := (if ret then inits s + 1 else inits s)\<rparr>,
      if control s = 3 then OWake 0x7fffffff ret else if ret then OReturned else OExited)"

definition once_finish :: "once \<Rightarrow> once \<times> once_pc" where
  "once_finish s = once_swap 2 True s"

definition once_undo :: "once \<Rightarrow> once \<times> once_pc" where
  "once_undo s = once_swap 0 False s"

definition once_mark :: "once \<Rightarrow> once" where
  "once_mark s = (if control s = 1 then s\<lparr>control := 3\<rparr> else s)"

text \<open>\<^verbatim>\<open>__wait\<close> for the value 3 and without a waiter count: spin a hundred times, then sleep while it lasts.\<close>

definition wait_spin :: "nat \<Rightarrow> once \<Rightarrow> once_pc" where
  "wait_spin spins s = (if spins = 0 then OCheck else if control s = 3 then OSpin (spins - 1) else OCas)"

definition wait_check :: "once \<Rightarrow> once_pc" where
  "wait_check s = (if control s = 3 then OFutex else OCas)"

definition wait_futex :: "once \<Rightarrow> once_pc" where
  "wait_futex s = (if control s = 3 then OAsleep else OCheck)"

fun once_local :: "once \<Rightarrow> once_pc \<Rightarrow> (once \<times> once_pc) list" where
  "once_local s OIdle = [(s, OLoad)]"
| "once_local s OReturned = [(s, OLoad)]"
| "once_local s OExited = []"
| "once_local s OLoad = [(s, once_load s)]"
| "once_local s OCas = [once_full s]"
| "once_local s OInit = [(s, OFinish), (s, OUndo)]"
| "once_local s OFinish = [once_finish s]"
| "once_local s OUndo = [once_undo s]"
| "once_local s OMark = [(once_mark s, OSpin 100)]"
| "once_local s (OSpin n) = [(s, wait_spin n s)]"
| "once_local s OCheck = [(s, wait_check s)]"
| "once_local s OFutex = [(s, wait_futex s)]"
| "once_local s OAsleep = [(s, OCheck)]"
| "once_local s (OWake n ret) = []"

definition once_sleeper :: "once_pc \<Rightarrow> once_pc option" where
  "once_sleeper pc = (if pc = OAsleep then Some OCheck else None)"

definition once_waker :: "once_pc \<Rightarrow> (nat \<times> once_pc) option" where
  "once_waker pc = (case pc of OWake n ret \<Rightarrow> Some (unat n, if ret then OReturned else OExited) | _ \<Rightarrow> None)"

abbreviation "once_reach n \<equiv>
  threads_reach once_local once_sleeper once_waker (PTHREAD_ONCE_INIT, replicate n OIdle)"

section \<open>The invariant\<close>

text \<open>The thread that runs the routine, up to the swap after it; the callers that know it has completed.\<close>

fun initialising :: "once_pc \<Rightarrow> bool" where
  "initialising OInit \<longleftrightarrow> True"
| "initialising OFinish \<longleftrightarrow> True"
| "initialising OUndo \<longleftrightarrow> True"
| "initialising _ \<longleftrightarrow> False"

fun informed :: "once_pc \<Rightarrow> bool" where
  "informed OReturned \<longleftrightarrow> True"
| "informed (OWake n ret) \<longleftrightarrow> ret"
| "informed _ \<longleftrightarrow> False"

fun once_pc_ok :: "once_pc \<Rightarrow> bool" where
  "once_pc_ok (OWake n ret) \<longleftrightarrow> n = 0x7fffffff"
| "once_pc_ok _ \<longleftrightarrow> True"

fun waking :: "once_pc \<Rightarrow> bool" where
  "waking (OWake n ret) \<longleftrightarrow> True"
| "waking _ \<longleftrightarrow> False"

definition once_word :: "once \<Rightarrow> nat \<Rightarrow> bool" where
  "once_word s k \<longleftrightarrow>
     control s = 0 \<and> k = 0 \<and> inits s = 0 \<or> control s \<in> {1, 3} \<and> k = 1 \<and> inits s = 0 \<or> control s = 2 \<and> k = 0 \<and> inits s = 1"

definition once_inv :: "once \<times> once_pc list \<Rightarrow> bool" where
  "once_inv x \<longleftrightarrow>
     (case x of (s, ts) \<Rightarrow>
        once_word s (tally initialising ts) \<and> (\<forall>pc\<in>set ts. once_pc_ok pc \<and> (informed pc \<longrightarrow> control s = 2)) \<and>
        (OAsleep \<in> set ts \<longrightarrow> control s = 3 \<or> (\<exists>pc\<in>set ts. waking pc)))"

lemmas once_defs = once_load_def once_full_def once_swap_def once_finish_def once_undo_def once_mark_def wait_spin_def
  wait_check_def wait_futex_def Let_def

text \<open>What a step does to the word and to the thread that initialises.\<close>

inductive once_effect :: "once \<Rightarrow> once_pc \<Rightarrow> once \<Rightarrow> once_pc \<Rightarrow> bool" where
  Keep: "initialising pc' = initialising pc \<Longrightarrow> (informed pc' \<Longrightarrow> control s = 2) \<Longrightarrow>
    (pc' = OAsleep \<Longrightarrow> control s = 3) \<Longrightarrow> once_effect s pc s pc'"
| Claim: "control s = 0 \<Longrightarrow> once_effect s OCas (s\<lparr>control := 1\<rparr>) OInit"
| Finish: "(control s = 3 \<Longrightarrow> waking pc') \<Longrightarrow> \<not> initialising pc' \<Longrightarrow> pc' \<noteq> OAsleep \<Longrightarrow>
    once_effect s OFinish (s\<lparr>control := 2, inits := inits s + 1\<rparr>) pc'"
| Undo: "(control s = 3 \<Longrightarrow> waking pc') \<Longrightarrow> \<not> initialising pc' \<Longrightarrow> pc' \<noteq> OAsleep \<Longrightarrow> \<not> informed pc' \<Longrightarrow>
    once_effect s OUndo (s\<lparr>control := 0\<rparr>) pc'"
| Mark: "control s = 1 \<Longrightarrow> once_effect s OMark (s\<lparr>control := 3\<rparr>) (OSpin 100)"

lemma once_local_effect: "(s', pc') \<in> set (once_local s pc) \<Longrightarrow> once_effect s pc s' pc' \<and> once_pc_ok pc'"
proof (cases pc)
  case OCas
  assume "(s', pc') \<in> set (once_local s pc)"
  then show ?thesis using OCas Claim [of s] by (auto simp: once_defs intro: Keep)
next
  case OMark
  assume "(s', pc') \<in> set (once_local s pc)"
  then show ?thesis using OMark Mark [of s] by (auto simp: once_defs intro: Keep)
next
  case OFinish
  assume "(s', pc') \<in> set (once_local s pc)"
  then show ?thesis using OFinish Finish [of s pc'] by (auto simp: once_defs)
next
  case OUndo
  assume "(s', pc') \<in> set (once_local s pc)"
  then show ?thesis using OUndo Undo [of s pc'] by (auto simp: once_defs)
qed (auto simp: once_defs intro!: Keep)

lemma once_local_inv:
  assumes inv: "once_inv (s, ts)" and i: "i < length ts" and st: "(s', pc') \<in> set (once_local s (ts ! i))"
  shows "once_inv (s', ts[i := pc'])"
proof -
  have w: "once_word s (tally initialising ts)" and p: "\<forall>pc\<in>set ts. once_pc_ok pc \<and> (informed pc \<longrightarrow> control s = 2)"
    and a: "OAsleep \<in> set ts \<longrightarrow> control s = 3 \<or> (\<exists>pc\<in>set ts. waking pc)"
    using inv by (simp_all add: once_inv_def)
  have nw: "\<not> waking (ts ! i)" using st by (cases "ts ! i") auto
  have keep: "\<exists>pc\<in>set (ts[i := pc']). waking pc" if "\<exists>pc\<in>set ts. waking pc"
    using that nw by (metis in_set_conv_nth length_list_update nth_list_update_neq)
  have mine: "pc' \<in> set (ts[i := pc'])" using i by (simp add: set_update_memI)
  have sub: "set (ts[i := pc']) \<subseteq> insert pc' (set ts)" by (rule set_update_subset_insert)
  have busy: "0 < tally initialising ts" if "initialising (ts ! i)" using i that by (rule tally_memberI)
  have asl: "OAsleep \<in> set ts" if "OAsleep \<in> set (ts[i := pc'])" "pc' \<noteq> OAsleep" using that sub by blast
  note same = tally_same [OF i, of initialising pc'] and more = tally_more [OF i, of initialising pc']
    and less = tally_less [OF i, of initialising pc'] and eff = once_local_effect [OF st]
  from eff have "once_word s' (tally initialising (ts[i := pc'])) \<and>
      (\<forall>pc\<in>set ts. informed pc \<longrightarrow> control s' = 2) \<and> (informed pc' \<longrightarrow> control s' = 2) \<and>
      (OAsleep \<in> set (ts[i := pc']) \<longrightarrow> control s' = 3 \<or> (\<exists>pc\<in>set (ts[i := pc']). waking pc))"
  proof (elim conjE once_effect.cases)
    fix pc0 pc1 s0
    assume "s = s0" "ts ! i = pc0" "s' = s0" "pc' = pc1" "initialising pc1 = initialising pc0"
      "informed pc1 \<Longrightarrow> control s0 = 2" "pc1 = OAsleep \<Longrightarrow> control s0 = 3"
    then show ?thesis using w p a same keep asl by (cases "pc' = OAsleep") auto
  next
    fix s0
    assume "s = s0" "ts ! i = OCas" "s' = s0\<lparr>control := 1\<rparr>" "pc' = OInit" "control s0 = 0"
    then show ?thesis using w p a more keep asl by (auto simp: once_word_def)
  next
    fix s0 pc1
    assume e: "s = s0" "ts ! i = OFinish" "s' = s0\<lparr>control := 2, inits := inits s0 + 1\<rparr>" "pc' = pc1"
      "control s0 = 3 \<Longrightarrow> waking pc1" "\<not> initialising pc1" "pc1 \<noteq> OAsleep"
    then show ?thesis using w p a less busy keep asl mine by (auto simp: once_word_def)
  next
    fix s0 pc1
    assume e: "s = s0" "ts ! i = OUndo" "s' = s0\<lparr>control := 0\<rparr>" "pc' = pc1"
      "control s0 = 3 \<Longrightarrow> waking pc1" "\<not> initialising pc1" "pc1 \<noteq> OAsleep" "\<not> informed pc1"
    then show ?thesis using w p a less busy keep asl mine by (auto simp: once_word_def)
  next
    fix s0
    assume "s = s0" "ts ! i = OMark" "s' = s0\<lparr>control := 3\<rparr>" "pc' = OSpin 100" "control s0 = 1"
    then show ?thesis using w p same by (auto simp: once_word_def)
  qed
  then show ?thesis using p eff sub by (auto simp: once_inv_def)
qed

lemma once_sleepers: "sleepers once_sleeper ts = {j. j < length ts \<and> ts ! j = OAsleep}"
  by (auto simp: sleepers_def once_sleeper_def split: if_splits)

lemma once_wake_inv:
  assumes inv: "once_inv (s, ts)" and n: "length ts < 2 ^ 31" and i: "i < length ts" "once_waker (ts ! i) = Some (m, pc')"
    and W: "W \<subseteq> sleepers once_sleeper ts" "card W = min m (card (sleepers once_sleeper ts))"
  shows "once_inv (s, (wake_up once_sleeper W ts)[i := pc'])"
proof -
  let ?ts = "(wake_up once_sleeper W ts)[i := pc']"
  obtain c ret where u: "ts ! i = OWake c ret" "m = unat c" "pc' = (if ret then OReturned else OExited)"
    using i(2) by (auto simp: once_waker_def split: once_pc.splits)
  have w: "once_word s (tally initialising ts)" and p: "\<forall>pc\<in>set ts. once_pc_ok pc \<and> (informed pc \<longrightarrow> control s = 2)"
    using inv by (simp_all add: once_inv_def)
  have "c = 0x7fffffff" using p i(1) u(1) by (metis nth_mem once_pc_ok.simps(1))
  then have m: "m = 0x7fffffff" using u(2) by simp
  have fin: "finite (sleepers once_sleeper ts)" by (simp add: once_sleepers)
  have "card (sleepers once_sleeper ts) \<le> card {..<length ts}" by (rule card_mono) (auto simp: once_sleepers)
  then have "card W = card (sleepers once_sleeper ts)" using W(2) n m by simp
  then have all: "W = sleepers once_sleeper ts" using W(1) fin by (simp add: card_subset_eq)
  have nth: "?ts ! j = (if j = i then pc' else if ts ! j = OAsleep then OCheck else ts ! j)" if "j < length ts" for j
    using that i(1) all by (auto simp: nth_list_update wake_up_nth once_sleeper_def once_sleepers)
  have no: "OAsleep \<notin> set ?ts" using nth u(3) by (auto simp: in_set_conv_nth split: if_splits)
  have wi: "wake_up once_sleeper W ts ! i = OWake c ret" using i(1) u(1) by (simp add: wake_up_nth once_sleeper_def)
  have "tally initialising ?ts = tally initialising (wake_up once_sleeper W ts)"
    using i(1) wi u(3) by (intro tally_same) auto
  also have "\<dots> = tally initialising ts" by (rule tally_wake_up) (auto simp: once_sleeper_def split: if_splits)
  finally have t: "tally initialising ?ts = tally initialising ts" .
  have "once_pc_ok (?ts ! j) \<and> (informed (?ts ! j) \<longrightarrow> control s = 2)" if "j < length ts" for j
  proof -
    have "once_pc_ok (ts ! j) \<and> (informed (ts ! j) \<longrightarrow> control s = 2)" "ret \<longrightarrow> control s = 2"
      using p that i(1) u(1) nth_mem [of j ts] nth_mem [of i ts] by auto
    then show ?thesis using nth [OF that] u(3) by auto
  qed
  then have "\<forall>pc\<in>set ?ts. once_pc_ok pc \<and> (informed pc \<longrightarrow> control s = 2)" by (auto simp: in_set_conv_nth)
  then show ?thesis using w t no by (simp add: once_inv_def)
qed

interpretation once: threads_invariant once_local once_sleeper once_waker "\<lambda>n. n < 2 ^ 31" once_inv
  by unfold_locales (auto intro: once_local_inv once_wake_inv)

lemma once_start: "once_inv (PTHREAD_ONCE_INIT, replicate n OIdle)"
  by (auto simp: once_inv_def PTHREAD_ONCE_INIT_def once_word_def tally_def)

section \<open>Properties\<close>

text \<open>
  C39.  \<^verbatim>\<open>pthread_once\<close>: in every interleaving of fewer than 2^31 threads, with cancellations of the
  routine, the routine completes at most once, at most one thread is in it at any time and none
  after it has completed; a call that has returned finds it completed; and while a thread sleeps,
  another is in the routine or about to wake every sleeper.
\<close>

theorem once_once:
  assumes "once_reach n (s, ts)" "n < 2 ^ 31"
  shows "inits s + tally initialising ts \<le> 1 \<and> (OReturned \<in> set ts \<longrightarrow> inits s = 1) \<and>
    (OAsleep \<in> set ts \<longrightarrow> (\<exists>pc\<in>set ts. initialising pc \<or> waking pc))"
proof -
  have inv: "once_word s (tally initialising ts)" "\<forall>pc\<in>set ts. informed pc \<longrightarrow> control s = 2"
    "OAsleep \<in> set ts \<longrightarrow> control s = 3 \<or> (\<exists>pc\<in>set ts. waking pc)"
    using once.keeps_reach [OF assms(1) once_start] assms(2) by (auto simp: once_inv_def)
  have "inits s + tally initialising ts \<le> 1" using inv(1) unfolding once_word_def by linarith
  moreover have "OReturned \<in> set ts \<longrightarrow> inits s = 1"
    using inv(1,2) unfolding once_word_def by fastforce
  moreover have "\<exists>pc\<in>set ts. initialising pc" if "control s = 3"
  proof -
    have "0 < tally initialising ts" using inv(1) that unfolding once_word_def by auto
    then show ?thesis unfolding tally_pos by (metis nth_mem)
  qed
  ultimately show ?thesis using inv(3) by blast
qed

text \<open>The first thread runs the routine while the second marks the word and sleeps; then the first finishes.\<close>

definition once_demo :: "(nat \<times> nat) list" where
  "once_demo = replicate 3 (0, 0) @ replicate 107 (1, 0) @ [(0, 0), (0, 0)]"

lemma once_demo_run:
  "run_schedule once_local once_demo (PTHREAD_ONCE_INIT, replicate 2 OIdle) =
     Some (\<lparr>control = 2, inits = 1\<rparr>, [OWake 0x7fffffff True, OAsleep])"
  by code_simp

theorem once_once_witness:
  "1 + tally initialising [OWake 0x7fffffff True, OAsleep] \<le> 1 \<and>
   (\<exists>pc\<in>set [OWake 0x7fffffff True, OAsleep]. initialising pc \<or> waking pc)"
  using once_once [OF run_schedule_reach [OF once_demo_run reach_start]] by simp

end
