(* ===== verification/Musl_Utf8.thy ===== *)
theory Musl_Utf8
  imports C_Prelude
begin

text \<open>
  The multibyte conversions of musl (\<^verbatim>\<open>src/multibyte\<close>): the table-driven, restartable UTF-8
  decoder \<open>mbrtowc\<close>, \<open>mbtowc\<close>, the encoder \<open>wcrtomb\<close> and the functions on top of them.  A state is
  the 32-bit word the decoder keeps between calls: the bits decoded so far, and above them the
  bounds for the next byte, so that shifting a byte in also selects the bounds of the one after it.
  \<open>C_locale\<close> says that \<open>MB_CUR_MAX\<close> is 1.
\<close>

section \<open>The table\<close>

definition utf8_R :: "u32 \<Rightarrow> u32 \<Rightarrow> u32" where
  "utf8_R a b = push_bit 23 (if a = 0x80 then 0x40 - b else 0 - a)"

definition utf8_C :: "u32 \<Rightarrow> u32" where
  "utf8_C x = (if x < 2 then -1 else utf8_R 0x80 0xc0 OR x)"

definition utf8_D :: "u32 \<Rightarrow> u32" where
  "utf8_D x = utf8_C (x + 16)"

definition utf8_E :: "u32 \<Rightarrow> u32" where
  "utf8_E x =
     (if x = 0 then utf8_R 0xa0 0xc0 else if x = 0xd then utf8_R 0x80 0xa0 else utf8_R 0x80 0xc0) OR
     drop_bit 6 (utf8_R 0x80 0xc0) OR x"

definition utf8_F :: "u32 \<Rightarrow> u32" where
  "utf8_F x =
     (if x \<ge> 5 then 0 else if x = 0 then utf8_R 0x90 0xc0 else if x = 4 then utf8_R 0x80 0x90
      else utf8_R 0x80 0xc0) OR
     drop_bit 6 (utf8_R 0x80 0xc0) OR drop_bit 12 (utf8_R 0x80 0xc0) OR x"

definition bittab :: "u32 list" where
  "bittab =
     map utf8_C [0x2, 0x3, 0x4, 0x5, 0x6, 0x7] @
     map utf8_C [0x8, 0x9, 0xa, 0xb, 0xc, 0xd, 0xe, 0xf] @
     map utf8_D [0x0, 0x1, 0x2, 0x3, 0x4, 0x5, 0x6, 0x7] @
     map utf8_D [0x8, 0x9, 0xa, 0xb, 0xc, 0xd, 0xe, 0xf] @
     map utf8_E [0x0, 0x1, 0x2, 0x3, 0x4, 0x5, 0x6, 0x7] @
     map utf8_E [0x8, 0x9, 0xa, 0xb, 0xc, 0xd, 0xe, 0xf] @
     map utf8_F [0x0, 0x1, 0x2, 0x3, 0x4]"

text \<open>The bounds check of a byte against the upper six bits of the state.\<close>

definition OOB :: "u32 \<Rightarrow> byte \<Rightarrow> bool" where
  "OOB c b =
     (((drop_bit 3 (ucast b) - 0x10) OR (drop_bit 3 (ucast b) + signed_drop_bit 26 c)) AND NOT (7 :: u32) \<noteq> 0)"

definition CODEUNIT :: "byte \<Rightarrow> u32" where
  "CODEUNIT b = 0xdfff AND scast b"

definition IS_CODEUNIT :: "u32 \<Rightarrow> bool" where
  "IS_CODEUNIT c \<longleftrightarrow> c - 0xdf80 < 0x80"

section \<open>Decoding\<close>

text \<open>
  The results of the decoder: a number of bytes, \<open>(size_t)-2\<close> for a sequence that may still be
  completed and \<open>(size_t)-1\<close> with \<open>EILSEQ\<close>; with them the character stored and the new state.
\<close>

datatype mb_result = Count nat | Incomplete | Illegal

fun mbrtowc_loop :: "u32 \<Rightarrow> byte list \<Rightarrow> nat \<Rightarrow> mb_result \<times> u32 option \<times> u32" where
  "mbrtowc_loop c [] k = (Incomplete, None, c)"
| "mbrtowc_loop c (b # s) k =
     (let c = push_bit 6 c OR (ucast b - 0x80)
      in if c AND 0x80000000 = 0 then (Count (k + 1), Some c, 0)
         else case s of
             [] \<Rightarrow> (Incomplete, None, c)
           | b' # _ \<Rightarrow> if (ucast b' :: u32) - 0x80 \<ge> 0x40 then (Illegal, None, 0) else mbrtowc_loop c s (k + 1))"

definition mbrtowc_continue :: "u32 \<Rightarrow> byte list \<Rightarrow> nat \<Rightarrow> mb_result \<times> u32 option \<times> u32" where
  "mbrtowc_continue c s k =
     (case s of [] \<Rightarrow> (Incomplete, None, c)
      | b # _ \<Rightarrow> if OOB c b then (Illegal, None, 0) else mbrtowc_loop c s k)"

text \<open>\<open>mbrtowc\<close> on \<open>n\<close> bytes, and its answer when the source is a null pointer.\<close>

definition mbrtowc :: "bool \<Rightarrow> u32 \<Rightarrow> byte list \<Rightarrow> mb_result \<times> u32 option \<times> u32" where
  "mbrtowc C_locale c s =
     (case s of
        [] \<Rightarrow> (Incomplete, None, c)
      | b # s' \<Rightarrow>
          if c = 0
          then if b < 0x80 then (Count (if b \<noteq> 0 then 1 else 0), Some (ucast b), 0)
               else if C_locale then (Count 1, Some (CODEUNIT b), 0)
               else if (ucast b :: u32) - 0xc2 > 0xf4 - 0xc2 then (Illegal, None, 0)
               else mbrtowc_continue (bittab ! (unat b - 0xc2)) s' 1
          else mbrtowc_continue c s 0)"

definition mbrtowc_null :: "u32 \<Rightarrow> mb_result \<times> u32" where
  "mbrtowc_null c = (if c \<noteq> 0 then (Illegal, 0) else (Count 0, c))"

definition mbrlen :: "bool \<Rightarrow> u32 \<Rightarrow> byte list \<Rightarrow> mb_result \<times> u32" where
  "mbrlen C_locale c s = (case mbrtowc C_locale c s of (r, w, c') \<Rightarrow> (r, c'))"

definition mbsinit :: "u32 option \<Rightarrow> bool" where
  "mbsinit st = (case st of None \<Rightarrow> True | Some c \<Rightarrow> c = 0)"

text \<open>
  \<open>mbtowc\<close> decodes without a state.  Its reads are not checked against the number of bytes \<open>n\<close> one by
  one: \<open>Overread\<close> stands for a read at or after \<open>s[n]\<close>.
\<close>

datatype mbtowc_result = Read nat u32 | Ilseq | Overread

definition mbtowc_fourth :: "u32 \<Rightarrow> byte list \<Rightarrow> mbtowc_result" where
  "mbtowc_fourth c s =
     (case s of [] \<Rightarrow> Overread
      | b # _ \<Rightarrow> if (ucast b :: u32) - 0x80 \<ge> 0x40 then Ilseq else Read 4 (push_bit 6 c OR (ucast b - 0x80)))"

definition mbtowc_third :: "u32 \<Rightarrow> byte list \<Rightarrow> mbtowc_result" where
  "mbtowc_third c s =
     (case s of [] \<Rightarrow> Overread
      | b # t \<Rightarrow>
          if (ucast b :: u32) - 0x80 \<ge> 0x40 then Ilseq
          else let c = push_bit 6 c OR (ucast b - 0x80)
               in if c AND 0x80000000 = 0 then Read 3 c else mbtowc_fourth c t)"

definition mbtowc_second :: "u32 \<Rightarrow> byte list \<Rightarrow> mbtowc_result" where
  "mbtowc_second c s =
     (case s of [] \<Rightarrow> Overread
      | b # t \<Rightarrow>
          if OOB c b then Ilseq
          else let c = push_bit 6 c OR (ucast b - 0x80)
               in if c AND 0x80000000 = 0 then Read 2 c else mbtowc_third c t)"

definition mbtowc :: "bool \<Rightarrow> byte list \<Rightarrow> mbtowc_result" where
  "mbtowc C_locale s =
     (case s of [] \<Rightarrow> Ilseq
      | b # t \<Rightarrow>
          if b < 0x80 then Read (if b \<noteq> 0 then 1 else 0) (ucast b)
          else if C_locale then Read 1 (CODEUNIT b)
          else if (ucast b :: u32) - 0xc2 > 0xf4 - 0xc2 then Ilseq
          else let c = bittab ! (unat b - 0xc2); n = length s
               in if n < 4 \<and> push_bit (6 * n - 6) c AND 0x80000000 \<noteq> 0 then Ilseq else mbtowc_second c t)"

section \<open>Encoding\<close>

definition wcrtomb :: "bool \<Rightarrow> u32 \<Rightarrow> byte list option" where
  "wcrtomb C_locale wc =
     (if wc < 0x80 then Some [ucast wc]
      else if C_locale then (if \<not> IS_CODEUNIT wc then None else Some [ucast wc])
      else if wc < 0x800 then Some [ucast (0xc0 OR drop_bit 6 wc), ucast (0x80 OR (wc AND 0x3f))]
      else if wc < 0xd800 \<or> wc - 0xe000 < 0x2000 then
        Some [ucast (0xe0 OR drop_bit 12 wc), ucast (0x80 OR (drop_bit 6 wc AND 0x3f)), ucast (0x80 OR (wc AND 0x3f))]
      else if wc - 0x10000 < 0x100000 then
        Some [ucast (0xf0 OR drop_bit 18 wc), ucast (0x80 OR (drop_bit 12 wc AND 0x3f)),
              ucast (0x80 OR (drop_bit 6 wc AND 0x3f)), ucast (0x80 OR (wc AND 0x3f))]
      else None)"

definition btowc :: "bool \<Rightarrow> int \<Rightarrow> u32 option" where
  "btowc C_locale c =
     (let b = (word_of_int c :: byte)
      in if b < 128 then Some (ucast b) else if C_locale \<and> c \<noteq> -1 then Some (CODEUNIT b) else None)"

definition wctob :: "bool \<Rightarrow> u32 \<Rightarrow> byte option" where
  "wctob C_locale c =
     (if c < 128 then Some (ucast c) else if C_locale \<and> IS_CODEUNIT c then Some (ucast c) else None)"

text \<open>
  \<open>wcsrtombs\<close> on a wide string that ends with 0: measuring only, and with a destination of \<open>n\<close>
  bytes.  The result is the count with the bytes stored and the rest of the wide string,
  \<open>None\<close> for it when the terminator was stored (the source pointer becomes null).
\<close>

fun wcsrtombs_length :: "bool \<Rightarrow> u32 list \<Rightarrow> nat option" where
  "wcsrtombs_length C_locale [] = Some 0"
| "wcsrtombs_length C_locale (w # ws) =
     (if w = 0 then Some 0
      else if w \<ge> 0x80
      then (case wcrtomb C_locale w of None \<Rightarrow> None
            | Some bs \<Rightarrow> map_option ((+) (length bs)) (wcsrtombs_length C_locale ws))
      else map_option Suc (wcsrtombs_length C_locale ws))"

text \<open>
  The loop for fewer than four bytes of space, which encodes into a buffer first, and the loop before
  it, which has room for every character.
\<close>

fun wcsrtombs_last :: "bool \<Rightarrow> u32 list \<Rightarrow> nat \<Rightarrow> nat option \<times> byte list \<times> u32 list option" where
  "wcsrtombs_last C_locale [] n = (Some 0, [], Some [])"
| "wcsrtombs_last C_locale (w # ws) n =
     (if n = 0 then (Some 0, [], Some (w # ws))
      else if w - 1 \<ge> 0x7f
      then if w = 0 then (Some 0, [0], None)
           else (case wcrtomb C_locale w of
               None \<Rightarrow> (None, [], Some (w # ws))
             | Some bs \<Rightarrow>
                 if length bs > n then (Some 0, [], Some (w # ws))
                 else (case wcsrtombs_last C_locale ws (n - length bs) of
                     (r, out, rest) \<Rightarrow> (map_option ((+) (length bs)) r, bs @ out, rest)))
      else (case wcsrtombs_last C_locale ws (n - 1) of
          (r, out, rest) \<Rightarrow> (map_option Suc r, ucast w # out, rest)))"

fun wcsrtombs :: "bool \<Rightarrow> u32 list \<Rightarrow> nat \<Rightarrow> nat option \<times> byte list \<times> u32 list option" where
  "wcsrtombs C_locale [] n = wcsrtombs_last C_locale [] n"
| "wcsrtombs C_locale (w # ws) n =
     (if n < 4 then wcsrtombs_last C_locale (w # ws) n
      else if w - 1 \<ge> 0x7f
      then if w = 0 then (Some 0, [0], None)
           else (case wcrtomb C_locale w of
               None \<Rightarrow> (None, [], Some (w # ws))
             | Some bs \<Rightarrow>
                 (case wcsrtombs C_locale ws (n - length bs) of
                     (r, out, rest) \<Rightarrow> (map_option ((+) (length bs)) r, bs @ out, rest)))
      else (case wcsrtombs C_locale ws (n - 1) of
          (r, out, rest) \<Rightarrow> (map_option Suc r, ucast w # out, rest)))"

section \<open>States as numbers\<close>

lemma bit_odd: "bit (w :: 'w::len word) n \<longleftrightarrow> odd (uint w div 2 ^ n)"
  by (metis bit_iff_odd bit_uint_iff possible_bit_word bit_imp_possible_bit)

lemma or_low: "uint y < 2 ^ k \<Longrightarrow> push_bit k m OR y = push_bit k m + (y :: 'w::len word)"
proof -
  assume y: "uint y < 2 ^ k"
  have "\<not> bit y n" if "k \<le> n" for n
  proof -
    have "uint y < 2 ^ n" using y that by (meson less_le_trans one_le_numeral power_increasing)
    then have "uint y div 2 ^ n = 0" by simp
    then show ?thesis by (simp add: bit_odd)
  qed
  then have "push_bit k m AND y = 0" by (intro bit_word_eqI) (auto simp: bit_simps)
  then show ?thesis by (simp add: disjunctive_add_eq_or)
qed

definition cont :: "byte \<Rightarrow> bool" where
  "cont b \<longleftrightarrow> 0x80 \<le> uint b \<and> uint b < 0xc0"

lemma uint_byte: "0 \<le> uint (b :: byte)" "uint (b :: byte) < 256"
  using unsigned_less [of b, where ?'a = int] by simp_all

lemma uint_u32: "0 \<le> uint (c :: u32)" "uint (c :: u32) < 2 ^ 32"
  using unsigned_less [of c, where ?'a = int] by simp_all

lemma uint_wide: "uint (ucast (b :: byte) :: u32) = uint b"
  by (simp add: unsigned_ucast_eq take_bit_int_eq_self uint_byte less_trans [OF uint_byte(2)])

lemma uint_minus_80: "uint ((ucast b :: u32) - 0x80) = (uint (b :: byte) - 0x80) mod 2 ^ 32"
  by (simp add: uint_word_ariths uint_wide)

lemma cont_test: "(ucast b :: u32) - 0x80 \<ge> 0x40 \<longleftrightarrow> \<not> cont b"
proof -
  have "(uint b - 0x80) mod 2 ^ 32 \<ge> 0x40 \<longleftrightarrow> \<not> (0x80 \<le> uint b \<and> uint b < 0xc0)"
  proof (cases "0x80 \<le> uint b")
    case True
    then have "(uint b - 0x80) mod 2 ^ 32 = uint b - 0x80" using uint_byte [of b] by (intro mod_pos_pos_trivial) simp_all
    then show ?thesis using True by linarith
  next
    case False
    have "(uint b - 0x80) mod 2 ^ 32 = (uint b - 0x80 + 2 ^ 32) mod 2 ^ 32" by (rule mod_add_self2 [symmetric])
    also have "\<dots> = uint b - 0x80 + 2 ^ 32" using False uint_byte [of b] by (intro mod_pos_pos_trivial) simp_all
    finally show ?thesis using False uint_byte [of b] by simp
  qed
  then show ?thesis by (simp add: word_le_def uint_minus_80 cont_def)
qed

lemma shift_in:
  assumes "cont b"
  shows "uint (push_bit 6 c OR (ucast b - 0x80) :: u32) = (uint c * 64 + (uint b - 0x80)) mod 2 ^ 32"
proof -
  have b: "0 \<le> uint b - 0x80" "uint b - 0x80 < 64" using assms by (simp_all add: cont_def)
  then have u: "uint ((ucast b :: u32) - 0x80) = uint b - 0x80"
    unfolding uint_minus_80 by (intro mod_pos_pos_trivial) simp_all
  then have "push_bit 6 c OR (ucast b - 0x80) = push_bit 6 c + (ucast b - 0x80 :: u32)"
    using b by (intro or_low) simp
  then show ?thesis
    using u by (simp add: uint_word_ariths push_bit_eq_mult mod_simps)
qed

lemma top_bit: "bit c 31 \<longleftrightarrow> \<not> uint (c :: u32) < 2 ^ 31"
proof -
  have "uint c div 2 ^ 31 = (if uint c < 2 ^ 31 then 0 else 1)"
    using uint_u32 [of c] by (auto intro: int_div_pos_eq [of _ _ _ "uint c - 2 ^ 31"])
  then show ?thesis by (simp add: bit_odd)
qed

lemma high_bit: "c AND 0x80000000 = 0 \<longleftrightarrow> uint (c :: u32) < 2 ^ 31"
proof -
  have k: "bit (0x80000000 :: u32) n \<longleftrightarrow> n = 31" for n
  proof -
    have "(0x80000000 :: u32) = push_bit 31 1" by code_simp
    then show ?thesis by (auto simp only: bit_push_bit_iff bit_1_iff possible_bit_word) simp
  qed
  have "c AND 0x80000000 = 0 \<longleftrightarrow> \<not> bit c 31"
    unfolding bit_eq_iff [of "c AND 0x80000000" 0] bit_and_iff k by (auto dest: spec [of _ 31])
  then show ?thesis by (simp add: top_bit)
qed

text \<open>
  The state from which \<open>k\<close> more bytes are expected, with the value \<open>x\<close> so far and the upper six bits
  \<open>H\<close>: below them the bounds of the bytes after the next one.
\<close>

definition tail_bounds :: "nat \<Rightarrow> int" where
  "tail_bounds k = (if k = 1 then 0 else if k = 2 then 0x03000000 else 0x030C0000)"

definition expects :: "nat \<Rightarrow> int \<Rightarrow> int \<Rightarrow> u32 \<Rightarrow> bool" where
  "expects k H x c \<longleftrightarrow>
     uint c = H * 2 ^ 26 + tail_bounds k + x \<and> 32 \<le> H \<and> H < 64 \<and> 1 \<le> k \<and> k \<le> 3 \<and> 0 \<le> x \<and>
     x < (if k = 1 then 2 ^ 15 else if k = 2 then 2 ^ 9 else 2 ^ 3)"

lemma expects_last:
  assumes "expects 1 H x c" "cont b"
  shows "uint (push_bit 6 c OR (ucast b - 0x80) :: u32) = x * 64 + (uint b - 0x80)"
proof -
  have "uint c * 64 + (uint b - 0x80) = x * 64 + (uint b - 0x80) + H * 2 ^ 32"
    using assms by (simp add: expects_def tail_bounds_def)
  then have "(uint c * 64 + (uint b - 0x80)) mod 2 ^ 32 = (x * 64 + (uint b - 0x80)) mod 2 ^ 32"
    by (simp only: mod_mult_self1)
  also have "\<dots> = x * 64 + (uint b - 0x80)"
    using assms by (intro mod_pos_pos_trivial) (simp_all add: expects_def cont_def)
  finally show ?thesis using assms(2) by (simp add: shift_in)
qed

lemma expects_more:
  assumes "expects (Suc k) H x c" "k \<noteq> 0" "cont b"
  shows "expects k 48 (x * 64 + (uint b - 0x80)) (push_bit 6 c OR (ucast b - 0x80))"
proof -
  let ?d = "uint b - 0x80"
  have k: "k = 1 \<or> k = 2" using assms by (auto simp: expects_def)
  have d: "0 \<le> ?d" "?d < 64" using assms(3) by (simp_all add: cont_def)
  have x: "0 \<le> x" "x < (if k = 1 then 2 ^ 9 else 2 ^ 3)"
    and c: "uint c = H * 2 ^ 26 + tail_bounds (Suc k) + x" using assms(1) k by (auto simp: expects_def)
  have "uint c * 64 + ?d = (48 * 2 ^ 26 + tail_bounds k + (x * 64 + ?d)) + H * 2 ^ 32"
    using c k by (auto simp: tail_bounds_def)
  then have "(uint c * 64 + ?d) mod 2 ^ 32 = (48 * 2 ^ 26 + tail_bounds k + (x * 64 + ?d)) mod 2 ^ 32"
    by (simp only: mod_mult_self1)
  also have "\<dots> = 48 * 2 ^ 26 + tail_bounds k + (x * 64 + ?d)"
    using k d x by (intro mod_pos_pos_trivial) (auto simp: tail_bounds_def split: if_splits)
  finally have "uint (push_bit 6 c OR (ucast b - 0x80) :: u32) = 48 * 2 ^ 26 + tail_bounds k + (x * 64 + ?d)"
    using assms(3) by (simp add: shift_in)
  then show ?thesis using k d x by (auto simp: expects_def split: if_splits)
qed

lemma expects_high: "expects k H x c \<Longrightarrow> \<not> uint c < 2 ^ 31"
  by (auto simp: expects_def tail_bounds_def split: if_splits)

lemma expects_nonzero: "expects k H x c \<Longrightarrow> c \<noteq> 0"
  using expects_high by fastforce

section \<open>The decoder's loop\<close>

definition extend_value :: "int \<Rightarrow> byte list \<Rightarrow> int" where
  "extend_value x bs = foldl (\<lambda>x b. x * 64 + (uint b - 0x80)) x bs"

lemma extend_value_simps [simp]:
  "extend_value x [] = x" "extend_value x (b # bs) = extend_value (x * 64 + (uint b - 0x80)) bs"
  by (simp_all add: extend_value_def)

lemma mbrtowc_loop_done:
  assumes "expects 1 H x c" "cont b"
  shows "mbrtowc_loop c (b # s) n = (Count (n + 1), Some (word_of_int (x * 64 + (uint b - 0x80))), 0)"
proof -
  let ?c = "push_bit 6 c OR (ucast b - 0x80) :: u32"
  note v = expects_last [OF assms]
  have "?c = word_of_int (x * 64 + (uint b - 0x80))" unfolding v [symmetric] by simp
  moreover have "?c AND 0x80000000 = 0" unfolding high_bit v using assms by (simp add: expects_def cont_def)
  ultimately show ?thesis by (simp add: Let_def)
qed

lemma mbrtowc_loop_more:
  assumes "expects (Suc k) H x c" "k \<noteq> 0" "cont b"
  shows "mbrtowc_loop c (b # s) n =
    (let c' = push_bit 6 c OR (ucast b - 0x80)
     in case s of [] \<Rightarrow> (Incomplete, None, c')
        | b' # _ \<Rightarrow> if cont b' then mbrtowc_loop c' s (n + 1) else (Illegal, None, 0))"
proof -
  let ?c = "push_bit 6 c OR (ucast b - 0x80) :: u32"
  have "?c AND 0x80000000 \<noteq> 0" unfolding high_bit using expects_high [OF expects_more [OF assms]] .
  then show ?thesis by (simp add: Let_def cont_test split: list.split)
qed

declare mbrtowc_loop.simps(2) [simp del]

lemma mbrtowc_loop_count:
  assumes "expects k H x c" "length bs = k" "list_all cont bs"
  shows "mbrtowc_loop c (bs @ rest) n = (Count (n + k), Some (word_of_int (extend_value x bs)), 0)"
  using assms
proof (induction bs arbitrary: k H x c n)
  case Nil
  then show ?case by (simp add: expects_def)
next
  case (Cons b bs)
  show ?case
  proof (cases bs)
    case Nil
    then show ?thesis using Cons.prems by (simp add: mbrtowc_loop_done)
  next
    case (Cons b' bs')
    note e = expects_more [of "length bs" H x c b]
    have ex: "expects (Suc (length bs)) H x c" "length bs \<noteq> 0" "cont b" "cont b'" "list_all cont bs"
      using Cons.prems Cons by auto
    note ih = Cons.IH [OF e [OF ex(1-3)] refl ex(5), of "n + 1"]
    show ?thesis
      using ih ex Cons Cons.prems(2) by (simp add: mbrtowc_loop_more [OF ex(1-3)] Let_def)
  qed
qed

text \<open>A byte that is not a continuation byte stops the loop.\<close>

lemma mbrtowc_loop_illegal:
  assumes "expects k H x c" "list_all cont bs" "bs \<noteq> []" "length bs < k" "\<not> cont b"
  shows "mbrtowc_loop c (bs @ b # s) n = (Illegal, None, 0)"
  using assms
proof (induction bs arbitrary: k H x c n)
  case Nil
  then show ?case by simp
next
  case (Cons b' bs)
  then obtain j where k: "k = Suc j" "j \<noteq> 0" by (cases k) auto
  have ex: "expects (Suc j) H x c" "j \<noteq> 0" "cont b'" using Cons.prems k by auto
  show ?case
  proof (cases bs)
    case Nil
    then show ?thesis using Cons.prems by (simp add: mbrtowc_loop_more [OF ex] Let_def)
  next
    case (Cons b'' bs')
    then have "length bs < j" "list_all cont bs" "bs \<noteq> []" "cont b''" using Cons.prems k by auto
    then show ?thesis
      using Cons.IH [OF expects_more [OF ex], of "n + 1"] Cons Cons.prems(5)
      by (simp add: mbrtowc_loop_more [OF ex] Let_def)
  qed
qed

section \<open>Lead bytes and bounds\<close>

text \<open>
  The bytes that may follow a lead byte, from the six bits of the state above: all continuation
  bytes, or only those that exclude overlong forms, surrogates and values from 110000.
\<close>

definition next_ok :: "int \<Rightarrow> byte \<Rightarrow> bool" where
  "next_ok H b \<longleftrightarrow>
     (if H = 44 then 0xa0 \<le> uint b \<and> uint b < 0xc0
      else if H = 46 then 0x90 \<le> uint b \<and> uint b < 0xc0
      else if H = 52 then 0x80 \<le> uint b \<and> uint b < 0xa0
      else if H = 54 then 0x80 \<le> uint b \<and> uint b < 0x90
      else 0x80 \<le> uint b \<and> uint b < 0xc0)"

lemma next_ok_cont: "next_ok H b \<Longrightarrow> cont b"
  by (auto simp: next_ok_def cont_def split: if_splits)

lemma next_ok_48: "next_ok 48 b \<longleftrightarrow> cont b"
  by (simp add: next_ok_def cont_def)

definition bound_check :: "int \<Rightarrow> int \<Rightarrow> bool" where
  "bound_check off q = (((word_of_int q - 0x10) OR (word_of_int q + word_of_int off)) AND NOT (7 :: u32) \<noteq> 0)"

lemma bound_check_table:
  "list_all (\<lambda>H. list_all (\<lambda>q. bound_check (H - 64) q = (\<not> next_ok H (word_of_int (q * 8)))) [0..31])
     [44, 46, 48, 52, 54]"
  by code_simp

lemma eighth_range: "0 \<le> uint (b :: byte) div 8 \<and> uint b div 8 \<le> 31"
  using uint_byte [of b] by linarith

lemma next_ok_eighth: "next_ok H (word_of_int (uint b div 8 * 8)) \<longleftrightarrow> next_ok H b"
proof -
  have "uint (word_of_int (uint b div 8 * 8) :: byte) = uint b div 8 * 8"
    unfolding uint_word_of_int using eighth_range [of b] by (intro mod_pos_pos_trivial) simp_all
  then show ?thesis by (auto simp: next_ok_def)
qed

lemma eighth: "drop_bit 3 (ucast b :: u32) = word_of_int (uint (b :: byte) div 8)"
proof (rule word_uint_eqI)
  have "uint (drop_bit 3 (ucast b :: u32)) = uint b div 8"
    by (simp add: drop_bit_eq_div uint_div uint_wide)
  also have "\<dots> = uint (word_of_int (uint b div 8) :: u32)"
    unfolding uint_word_of_int using eighth_range [of b] by (intro mod_pos_pos_trivial [symmetric]) simp_all
  finally show "uint (drop_bit 3 (ucast b :: u32)) = uint (word_of_int (uint b div 8) :: u32)" .
qed

lemma bound_check_next:
  assumes H: "H \<in> {44, 46, 48, 52, 54}"
  shows "bound_check (H - 64) (uint b div 8) \<longleftrightarrow> \<not> next_ok H b"
proof -
  have "uint b div 8 \<in> set [0..31]" using eighth_range [of b] by (simp only: set_upto atLeastAtMost_iff)
  then have "bound_check (H - 64) (uint b div 8) = (\<not> next_ok H (word_of_int (uint b div 8 * 8)))"
    using bound_check_table H unfolding list_all_iff set_simps by blast
  then show ?thesis by (simp only: next_ok_eighth)
qed

lemma upper_bits:
  assumes "expects k H x c"
  shows "signed_drop_bit 26 c = word_of_int (H - 64)"
proof -
  have r: "uint c = H * 2 ^ 26 + (tail_bounds k + x)" "0 \<le> tail_bounds k + x" "tail_bounds k + x < 2 ^ 26" "32 \<le> H"
    using assms by (auto simp: expects_def tail_bounds_def split: if_splits)
  have "sint c = uint c - 2 ^ 32"
  proof -
    have "bit c 31" unfolding top_bit by (rule expects_high [OF assms])
    then have "bit (uint c) 31" by (simp add: bit_uint_iff)
    moreover have "take_bit (Suc 31) (uint c) = uint c" using uint_u32 [of c] by (intro take_bit_int_eq_self) simp_all
    ultimately have "signed_take_bit 31 (uint c) = uint c - 2 ^ 32" by (simp add: signed_take_bit_eq_take_bit_minus)
    then show ?thesis by (simp add: sint_uint)
  qed
  then have "sint c div 2 ^ 26 = H - 64"
    using r by (intro int_div_pos_eq [of _ _ _ "tail_bounds k + x"]) simp_all
  then have "sint (signed_drop_bit 26 c) = H - 64" by (simp add: sint_signed_drop_bit_eq drop_bit_eq_div)
  then show ?thesis by (metis scast_eq scast_id)
qed

lemma OOB_next:
  assumes "expects k H x c" "H \<in> {44, 46, 48, 52, 54}"
  shows "OOB c b \<longleftrightarrow> \<not> next_ok H b"
  using bound_check_next [OF assms(2)] by (simp add: OOB_def upper_bits [OF assms(1)] bound_check_def eighth)

text \<open>What each lead byte starts: the number of bytes to come, their bounds and the first bits.\<close>

definition lead_count :: "int \<Rightarrow> nat" where
  "lead_count l = (if l < 0xe0 then 1 else if l < 0xf0 then 2 else 3)"

definition lead_bounds :: "int \<Rightarrow> int" where
  "lead_bounds l =
     (if l = 0xe0 then 44 else if l = 0xed then 52 else if l = 0xf0 then 46 else if l = 0xf4 then 54 else 48)"

definition lead_value :: "int \<Rightarrow> int" where
  "lead_value l = (if l < 0xe0 then l - 0xc0 else if l < 0xf0 then l - 0xe0 else l - 0xf0)"

lemma bittab_table:
  "list_all (\<lambda>l. expects (lead_count l) (lead_bounds l) (lead_value l) (bittab ! nat (l - 0xc2))) [0xc2..0xf4]"
  by code_simp

definition lead :: "byte \<Rightarrow> bool" where
  "lead b \<longleftrightarrow> 0xc2 \<le> uint b \<and> uint b \<le> 0xf4"

lemma bittab_lead:
  assumes "lead b"
  shows "expects (lead_count (uint b)) (lead_bounds (uint b)) (lead_value (uint b)) (bittab ! (unat b - 0xc2))"
proof -
  have "uint b \<in> set [0xc2..0xf4]" using assms by (simp only: lead_def set_upto atLeastAtMost_iff)
  then have "expects (lead_count (uint b)) (lead_bounds (uint b)) (lead_value (uint b)) (bittab ! nat (uint b - 0xc2))"
    using bittab_table unfolding list_all_iff by blast
  moreover have "nat (uint b - 0xc2) = unat b - 0xc2" by (simp add: nat_diff_distrib')
  ultimately show ?thesis by simp
qed

lemma lead_bounds_values: "lead_bounds l \<in> {44, 46, 48, 52, 54}"
  by (simp add: lead_bounds_def)

lemma lead_test: "(ucast b :: u32) - 0xc2 > 0xf4 - 0xc2 \<longleftrightarrow> \<not> lead b"
proof (cases "0xc2 \<le> uint b")
  case True
  then show ?thesis by (auto simp add: word_less_def uint_sub_if' uint_wide lead_def)
next
  case False
  moreover have "0 < 4294967052 + uint b" using uint_byte(1) [of b] by linarith
  ultimately show ?thesis by (simp add: word_less_def uint_sub_if' uint_wide lead_def)
qed

text \<open>
  Too few bytes leave a state that expects the others, and decoding the others from that state is
  decoding all of them at once.
\<close>

lemma mbrtowc_loop_short:
  assumes "expects k H x c" "length s < k" "list_all cont s" "s \<noteq> []"
  shows "\<exists>c' y. mbrtowc_loop c s n = (Incomplete, None, c') \<and> expects (k - length s) 48 y c' \<and>
    (\<forall>t. mbrtowc_loop c (s @ t) n = mbrtowc_continue c' t (n + length s))"
  using assms
proof (induction s arbitrary: k H x c n)
  case Nil
  then show ?case by simp
next
  case (Cons b s)
  then obtain j where k: "k = Suc j" "j \<noteq> 0" by (cases k) auto
  have ex: "expects (Suc j) H x c" "j \<noteq> 0" "cont b" using Cons.prems k by auto
  note e = expects_more [OF ex]
  show ?case
  proof (cases s)
    case Nil
    have "\<forall>t. mbrtowc_loop c (b # t) n = mbrtowc_continue (push_bit 6 c OR (ucast b - 0x80)) t (n + 1)"
      by (simp add: mbrtowc_loop_more [OF ex] Let_def mbrtowc_continue_def OOB_next [OF e] next_ok_48 split: list.split)
    then show ?thesis using Nil e k by (auto simp add: mbrtowc_loop_more [OF ex] Let_def)
  next
    case (Cons b' s')
    then have "length s < j" "list_all cont s" "s \<noteq> []" "cont b'" using Cons.prems k by auto
    then show ?thesis
      using Cons.IH [OF e, of "n + 1"] Cons k by (simp add: mbrtowc_loop_more [OF ex] Let_def)
  qed
qed

lemma continuation_cases:
  "(\<exists>bs rest. s = bs @ rest \<and> length bs = k \<and> list_all cont bs) \<or> (length s < k \<and> list_all cont s) \<or>
   (\<exists>bs b rest. s = bs @ b # rest \<and> length bs < k \<and> list_all cont bs \<and> \<not> cont b)"
proof -
  define bs where "bs = takeWhile cont s"
  have s: "s = bs @ dropWhile cont s" and bs: "list_all cont bs"
    by (simp_all add: bs_def list_all_iff) (meson set_takeWhileD)
  consider "k \<le> length bs" | "length bs < k" "dropWhile cont s = []"
    | b rest where "length bs < k" "dropWhile cont s = b # rest" 
    using not_le by (cases "dropWhile cont s") blast+
  then show ?thesis
  proof cases
    case 1
    then have "s = take k bs @ (drop k bs @ dropWhile cont s)" "length (take k bs) = k" "list_all cont (take k bs)"
      using s bs by (simp_all flip: append_assoc, simp add: list_all_iff) (meson in_set_takeD)
    then show ?thesis by blast
  next
    case 2
    then have "s = bs" using s by (metis append_Nil2)
    then show ?thesis using bs 2 by blast
  next
    case 3
    then have "\<not> cont b" by (metis hd_dropWhile list.distinct(1) list.sel(1))
    then show ?thesis using s bs 3 by metis
  qed
qed

lemma next_ok_hd: "next_ok H (hd s) \<Longrightarrow> s \<noteq> [] \<Longrightarrow> list_all cont (tl s) \<Longrightarrow> list_all cont s"
  by (cases s) (auto dest: next_ok_cont)

text \<open>How a call can go on from a state that expects \<open>k\<close> bytes.\<close>

lemma continue_cases:
  assumes "expects k H x c"
  obtains (empty) "s = []"
  | (bad) b t where "s = b # t" "\<not> next_ok H b"
  | (complete) bs rest where "s = bs @ rest" "length bs = k" "list_all cont bs" "next_ok H (hd bs)" "bs \<noteq> []"
  | (short) "s \<noteq> []" "length s < k" "list_all cont s" "next_ok H (hd s)"
  | (broken) bs b rest where "s = bs @ b # rest" "bs \<noteq> []" "length bs < k" "list_all cont bs" "next_ok H (hd bs)" "\<not> cont b"
proof -
  have k: "k \<noteq> 0" using assms by (simp add: expects_def)
  have hd: "bs \<noteq> [] \<and> next_ok H (hd bs)" if "s = bs @ b # rest" "next_ok H (hd s)" "\<not> cont b" for bs b rest
    using that by (cases bs) (auto dest: next_ok_cont)
  show ?thesis
  proof (cases "s = [] \<or> \<not> next_ok H (hd s)")
    case True
    then show ?thesis using empty bad by (cases s) auto
  next
    case False
    then show ?thesis
      using continuation_cases [of s k]
    proof (elim disjE exE conjE)
      fix bs rest
      assume a: "s = bs @ rest" "length bs = k" "list_all cont bs"
      with k have "bs \<noteq> []" by auto
      with a False show ?thesis by (intro complete [of bs rest]) auto
    next
      assume "length s < k" "list_all cont s"
      with False show ?thesis by (intro short) auto
    next
      fix bs b rest
      assume a: "s = bs @ b # rest" "length bs < k" "list_all cont bs" "\<not> cont b"
      with hd [OF a(1) _ a(4)] False show ?thesis by (intro broken [of bs b rest]) auto
    qed
  qed
qed

lemma continue_results:
  assumes e: "expects k H x c" and H: "H \<in> {44, 46, 48, 52, 54}"
  shows "mbrtowc_continue c [] n = (Incomplete, None, c)"
    and "\<not> next_ok H b \<Longrightarrow> mbrtowc_continue c (b # t) n = (Illegal, None, 0)"
    and "length bs = k \<Longrightarrow> list_all cont bs \<Longrightarrow> next_ok H (hd bs) \<Longrightarrow>
      mbrtowc_continue c (bs @ t) n = (Count (n + k), Some (word_of_int (extend_value x bs)), 0)"
    and "bs \<noteq> [] \<Longrightarrow> length bs < k \<Longrightarrow> list_all cont bs \<Longrightarrow> next_ok H (hd bs) \<Longrightarrow>
      mbrtowc_continue c (bs @ t) n = mbrtowc_loop c (bs @ t) n"
    and "bs \<noteq> [] \<Longrightarrow> length bs < k \<Longrightarrow> list_all cont bs \<Longrightarrow> next_ok H (hd bs) \<Longrightarrow> \<not> cont b \<Longrightarrow>
      mbrtowc_continue c (bs @ b # t) n = (Illegal, None, 0)"
proof -
  have hd: "bs \<noteq> [] \<Longrightarrow> next_ok H (hd bs) \<Longrightarrow> mbrtowc_continue c (bs @ t) n = mbrtowc_loop c (bs @ t) n" for bs t
    by (cases bs) (simp_all add: mbrtowc_continue_def OOB_next [OF e H])
  have k: "k \<noteq> 0" using e by (simp add: expects_def)
  show "mbrtowc_continue c [] n = (Incomplete, None, c)" by (simp add: mbrtowc_continue_def)
  show "\<not> next_ok H b \<Longrightarrow> mbrtowc_continue c (b # t) n = (Illegal, None, 0)"
    by (simp add: mbrtowc_continue_def OOB_next [OF e H])
  show "length bs = k \<Longrightarrow> list_all cont bs \<Longrightarrow> next_ok H (hd bs) \<Longrightarrow>
      mbrtowc_continue c (bs @ t) n = (Count (n + k), Some (word_of_int (extend_value x bs)), 0)"
    using hd [of bs t] mbrtowc_loop_count [OF e, of bs t n] k by auto
  show "bs \<noteq> [] \<Longrightarrow> length bs < k \<Longrightarrow> list_all cont bs \<Longrightarrow> next_ok H (hd bs) \<Longrightarrow>
      mbrtowc_continue c (bs @ t) n = mbrtowc_loop c (bs @ t) n" by (rule hd)
  show "bs \<noteq> [] \<Longrightarrow> length bs < k \<Longrightarrow> list_all cont bs \<Longrightarrow> next_ok H (hd bs) \<Longrightarrow> \<not> cont b \<Longrightarrow>
      mbrtowc_continue c (bs @ b # t) n = (Illegal, None, 0)"
    using hd [of bs "b # t"] mbrtowc_loop_illegal [OF e, of bs b t n] by simp
qed

text \<open>The states between calls, and what a call does to a split input.\<close>

definition mbstate :: "u32 \<Rightarrow> bool" where
  "mbstate c \<longleftrightarrow> c = 0 \<or> (\<exists>k H x. H \<in> {44, 46, 48, 52, 54} \<and> expects k H x c)"

fun consumed_before :: "nat \<Rightarrow> mb_result \<times> u32 option \<times> u32 \<Rightarrow> mb_result \<times> u32 option \<times> u32" where
  "consumed_before m (Count n, r) = (Count (m + n), r)"
| "consumed_before m (Incomplete, r) = (Incomplete, r)"
| "consumed_before m (Illegal, r) = (Illegal, r)"

lemma consumed_before_0 [simp]: "consumed_before 0 r = r"
  by (cases "(0 :: nat, r)" rule: consumed_before.cases) simp_all

lemma loop_consumed: "mbrtowc_loop c s (m + n) = consumed_before m (mbrtowc_loop c s n)"
proof (induction c s n rule: mbrtowc_loop.induct)
  case (2 c b s k)
  then show ?case by (cases s) (simp_all add: mbrtowc_loop.simps(2) Let_def)
qed simp

lemma continue_consumed: "mbrtowc_continue c s (m + n) = consumed_before m (mbrtowc_continue c s n)"
  by (simp add: mbrtowc_continue_def loop_consumed split: list.split)

lemma continue_append:
  assumes e: "expects k H x c" and H: "H \<in> {44, 46, 48, 52, 54}"
  shows "case mbrtowc_continue c s n of
      (Incomplete, w, c') \<Rightarrow> w = None \<and> c' \<noteq> 0 \<and> mbstate c' \<and> mbrtowc_continue c (s @ t) n = mbrtowc_continue c' t (n + length s)
    | r \<Rightarrow> mbrtowc_continue c (s @ t) n = r"
  using e
proof (cases rule: continue_cases [where s = s])
  case short
  obtain c' y where l: "mbrtowc_loop c s n = (Incomplete, None, c')" "expects (k - length s) 48 y c'"
    "\<forall>t. mbrtowc_loop c (s @ t) n = mbrtowc_continue c' t (n + length s)"
    using mbrtowc_loop_short [OF e short(2,3,1)] by blast
  moreover have "mbstate c'" "c' \<noteq> 0" using l(2) expects_nonzero by (auto simp: mbstate_def)
  ultimately show ?thesis
    using continue_results(4) [OF e H short(1,2,3,4), of t n] continue_results(4) [OF e H short(1,2,3,4), of "[]" n] by simp
next
  case empty
  then show ?thesis using e H expects_nonzero by (auto simp: continue_results(1) [OF e H] mbstate_def)
next
  case (bad b t')
  then show ?thesis by (simp add: continue_results(2) [OF e H])
next
  case (complete bs rest)
  then show ?thesis by (simp add: continue_results(3) [OF e H])
next
  case (broken bs b rest)
  then show ?thesis using continue_results(5) [OF e H broken(2-6)] by simp
qed

section \<open>Decoding in pieces\<close>

lemma mbrtowc_first:
  assumes "c = 0"
  shows "mbrtowc False c (b # t) =
    (if b < 0x80 then (Count (if b \<noteq> 0 then 1 else 0), Some (ucast b), 0)
     else if lead b then mbrtowc_continue (bittab ! (unat b - 0xc2)) t 1 else (Illegal, None, 0))"
  unfolding mbrtowc_def by (simp add: assms lead_test [simplified])

lemma mbrtowc_rest: "c \<noteq> 0 \<Longrightarrow> mbrtowc False c s = mbrtowc_continue c s 0"
  by (cases s) (simp_all add: mbrtowc_def mbrtowc_continue_def)

lemma mbrtowc_append:
  assumes "mbstate c"
  shows "case mbrtowc False c s of
      (Incomplete, w, c') \<Rightarrow> w = None \<and> mbstate c' \<and> mbrtowc False c (s @ t) = consumed_before (length s) (mbrtowc False c' t)
    | r \<Rightarrow> mbrtowc False c (s @ t) = r"
proof (cases "c = 0")
  case False
  then obtain k H x where e: "expects k H x c" "H \<in> {44, 46, 48, 52, 54}" using assms by (auto simp: mbstate_def)
  show ?thesis
    using continue_append [OF e, where s = s and n = 0 and t = t] continue_consumed [of _ t "length s" 0]
    by (auto simp: mbrtowc_rest [OF False] mbrtowc_rest split: mb_result.splits)
next
  case True
  show ?thesis
  proof (cases s)
    case Nil
    then show ?thesis using assms by (simp add: mbrtowc_def)
  next
    case (Cons b s')
    show ?thesis
    proof (cases "\<not> b < 0x80 \<and> lead b")
      case False
      then show ?thesis using Cons by (auto simp: mbrtowc_first [OF True])
    next
      case lead: True
      note e = bittab_lead [OF conjunct2 [OF lead]] lead_bounds_values [of "uint b"]
      show ?thesis
        using continue_append [OF e, where s = s' and n = 1 and t = t] continue_consumed [of _ t "length s" 0] lead Cons
        by (auto simp: mbrtowc_first [OF True] mbrtowc_rest split: mb_result.splits)
    qed
  qed
qed

text \<open>A stream that arrives in pieces, each given to the decoder with the state the last one left.\<close>

fun mbrtowc_pieces :: "u32 \<Rightarrow> byte list list \<Rightarrow> mb_result \<times> u32 option \<times> u32" where
  "mbrtowc_pieces c [] = (Incomplete, None, c)"
| "mbrtowc_pieces c (s # ss) =
     (case mbrtowc False c s of
        (Incomplete, w, c') \<Rightarrow> consumed_before (length s) (mbrtowc_pieces c' ss)
      | r \<Rightarrow> r)"

lemma mbrtowc_pieces_concat: "mbstate c \<Longrightarrow> mbrtowc_pieces c ss = mbrtowc False c (concat ss)"
proof (induction ss arbitrary: c)
  case Nil
  then show ?case by (simp add: mbrtowc_def)
next
  case (Cons s ss)
  then show ?case using mbrtowc_append [OF Cons.prems, where s = s and t = "concat ss"] by (auto split: mb_result.splits prod.splits)
qed

section \<open>The encoder\<close>

text \<open>UTF-8 as a function on code points: the reference for both directions.\<close>

definition utf8_encoding :: "int \<Rightarrow> int list option" where
  "utf8_encoding v =
     (if v < 0x80 then Some [v]
      else if v < 0x800 then Some [0xc0 + v div 64, 0x80 + v mod 64]
      else if v < 0xd800 \<or> 0xe000 \<le> v \<and> v < 0x10000
      then Some [0xe0 + v div 4096, 0x80 + v div 64 mod 64, 0x80 + v mod 64]
      else if 0x10000 \<le> v \<and> v < 0x110000
      then Some [0xf0 + v div 262144, 0x80 + v div 4096 mod 64, 0x80 + v div 64 mod 64, 0x80 + v mod 64]
      else None)"

lemma uint_shifts:
  "uint (drop_bit 6 w :: u32) = uint w div 64" "uint (drop_bit 12 w :: u32) = uint w div 4096"
  "uint (drop_bit 18 w :: u32) = uint w div 262144"
  by (simp_all add: drop_bit_eq_div uint_div)

lemma uint_low6: "uint (w AND 0x3f :: u32) = uint w mod 64"
proof -
  have "(0x3f :: u32) = mask 6" by code_simp
  then have "w AND 0x3f = take_bit 6 w" by (simp only: take_bit_eq_mask)
  then show ?thesis by (simp add: take_bit_eq_mod uint_mod)
qed

lemma tag_byte:
  assumes "push_bit k m = t" "uint y < 2 ^ k" "uint t + 2 ^ k \<le> 256"
  shows "(ucast (t OR y :: u32) :: byte) = word_of_int (uint t + uint y)"
proof -
  have "t OR y = t + y" using or_low [OF assms(2), of m] assms(1) by simp
  moreover have "uint (t + y) = uint t + uint y"
    using assms by (intro uint_add_lem [THEN iffD1]) (simp add: less_le_trans)
  ultimately have "uint (t OR y) = uint t + uint y" by simp
  then show ?thesis by (metis ucast_eq)
qed

lemma tag_bytes:
  "uint (y :: u32) < 32 \<Longrightarrow> (ucast (0xc0 OR y) :: byte) = word_of_int (0xc0 + uint y)"
  "uint y < 16 \<Longrightarrow> (ucast (0xe0 OR y) :: byte) = word_of_int (0xe0 + uint y)"
  "uint y < 16 \<Longrightarrow> (ucast (0xf0 OR y) :: byte) = word_of_int (0xf0 + uint y)"
  "(ucast (0x80 OR (y AND 0x3f)) :: byte) = word_of_int (0x80 + uint y mod 64)"
proof -
  have p: "push_bit 5 6 = (0xc0 :: u32)" "push_bit 4 0xe = (0xe0 :: u32)" "push_bit 4 0xf = (0xf0 :: u32)" "push_bit 6 2 = (0x80 :: u32)"
    by code_simp+
  show "uint y < 32 \<Longrightarrow> (ucast (0xc0 OR y) :: byte) = word_of_int (0xc0 + uint y)"
    using tag_byte [OF p(1), of y] by simp
  show "uint y < 16 \<Longrightarrow> (ucast (0xe0 OR y) :: byte) = word_of_int (0xe0 + uint y)"
    using tag_byte [OF p(2), of y] by simp
  show "uint y < 16 \<Longrightarrow> (ucast (0xf0 OR y) :: byte) = word_of_int (0xf0 + uint y)"
    using tag_byte [OF p(3), of y] by simp
  show "(ucast (0x80 OR (y AND 0x3f)) :: byte) = word_of_int (0x80 + uint y mod 64)"
    using tag_byte [OF p(4), of "y AND 0x3f"] by (simp add: uint_low6)
qed

lemma wcrtomb_tests:
  "(wc :: u32) - 0xe000 < 0x2000 \<longleftrightarrow> 0xe000 \<le> uint wc \<and> uint wc < 0x10000"
  "wc - 0x10000 < 0x100000 \<longleftrightarrow> 0x10000 \<le> uint wc \<and> uint wc < 0x110000"
proof -
  have n: "\<not> 4294901760 + uint wc < 0" "\<not> 4293853184 + uint wc < 0" using uint_u32(1) [of wc] by linarith+
  show "wc - 0xe000 < 0x2000 \<longleftrightarrow> 0xe000 \<le> uint wc \<and> uint wc < 0x10000"
    using n uint_u32(2) [of wc] by (auto simp: word_less_def uint_sub_if')
  show "wc - 0x10000 < 0x100000 \<longleftrightarrow> 0x10000 \<le> uint wc \<and> uint wc < 0x110000"
    using n uint_u32(2) [of wc] by (auto simp: word_less_def uint_sub_if')
qed

lemma wcrtomb_utf8: "wcrtomb False wc = map_option (map word_of_int) (utf8_encoding (uint wc))"
proof -
  let ?v = "uint wc"
  note w = wcrtomb_def [unfolded wcrtomb_tests] utf8_encoding_def word_less_def
  consider "?v < 0x80" | "0x80 \<le> ?v" "?v < 0x800" | "0x800 \<le> ?v" "?v < 0xd800 \<or> 0xe000 \<le> ?v \<and> ?v < 0x10000"
    | "0xd800 \<le> ?v" "?v < 0xe000" | "0x10000 \<le> ?v" "?v < 0x110000" | "0x110000 \<le> ?v" by linarith
  then show ?thesis
  proof cases
    case 1
    then show ?thesis by (simp add: w)
  next
    case 2
    then have "?v div 64 < 32" by linarith
    then show ?thesis using 2 by (simp add: w tag_bytes uint_shifts)
  next
    case 3
    then have "?v div 4096 < 16" by linarith
    then show ?thesis using 3 by (simp add: w tag_bytes uint_shifts)
  next
    case 5
    then have "?v div 262144 < 16" by linarith
    then show ?thesis using 5 by (simp add: w tag_bytes uint_shifts)
  qed (simp_all add: w)
qed

section \<open>The two directions\<close>

lemma mbrtowc_lead:
  assumes "lead b" "length bs = lead_count (uint b)" "list_all cont bs" "next_ok (lead_bounds (uint b)) (hd bs)"
  shows "mbrtowc False 0 (b # bs @ t) =
    (Count (1 + length bs), Some (word_of_int (extend_value (lead_value (uint b)) bs)), 0)"
proof -
  have "\<not> b < 0x80" using assms(1) by (simp add: lead_def word_less_def)
  then show ?thesis
    using assms continue_results(3) [OF bittab_lead [OF assms(1)] lead_bounds_values assms(2-4), of t 1]
    by (simp add: mbrtowc_first)
qed

lemma mbrtowc_count:
  assumes "mbrtowc False 0 s = (Count n, w, c)"
  obtains (ascii) b t where "s = b # t" "b < 0x80" "w = Some (ucast b)" "n = (if b \<noteq> 0 then 1 else 0)" "c = 0"
  | (multibyte) b bs t where "s = b # bs @ t" "lead b" "length bs = lead_count (uint b)" "list_all cont bs"
      "next_ok (lead_bounds (uint b)) (hd bs)" "n = 1 + length bs" "c = 0"
      "w = Some (word_of_int (extend_value (lead_value (uint b)) bs))"
proof -
  obtain b t where s: "s = b # t" using assms by (cases s) (auto simp: mbrtowc_def)
  show ?thesis
  proof (cases "b < 0x80")
    case True
    then show ?thesis using assms s by (intro ascii) (auto simp: mbrtowc_first)
  next
    case False
    then have l: "lead b" and m: "mbrtowc_continue (bittab ! (unat b - 0xc2)) t 1 = (Count n, w, c)"
      using assms s by (auto simp: mbrtowc_first split: if_splits)
    note e = bittab_lead [OF l] and H = lead_bounds_values [of "uint b"]
    from e show ?thesis
    proof (cases rule: continue_cases [where s = t])
      case empty
      then show ?thesis using m continue_results(1) [OF e H] by simp
    next
      case (bad b' t')
      then show ?thesis using m continue_results(2) [OF e H] by simp
    next
      case (complete bs rest)
      then show ?thesis
        using m continue_results(3) [OF e H complete(2-4), of rest 1] s l by (intro multibyte [of b bs rest]) auto
    next
      case short
      then show ?thesis
        using m mbrtowc_loop_short [OF e short(2,3,1), of 1] continue_results(4) [OF e H short(1-4), of "[]" 1] by auto
    next
      case (broken bs b' rest)
      then show ?thesis using m continue_results(5) [OF e H broken(2-6), of rest 1] by simp
    qed
  qed
qed

lemma uint_byte_of: "0 \<le> i \<Longrightarrow> i < 256 \<Longrightarrow> uint (word_of_int i :: byte) = i"
  by (simp add: uint_word_of_int)

lemma digit_values:
  "v div 64 * 64 + v mod 64 = (v :: int)"
  "(v div 4096 * 64 + v div 64 mod 64) * 64 + v mod 64 = v"
  "((v div 262144 * 64 + v div 4096 mod 64) * 64 + v div 64 mod 64) * 64 + v mod 64 = v"
proof -
  have q: "v div 4096 = v div 64 div 64" "v div 262144 = v div 64 div 64 div 64"
    by (simp_all flip: zdiv_zmult2_eq)
  show "v div 64 * 64 + v mod 64 = v" by (rule div_mult_mod_eq)
  show "(v div 4096 * 64 + v div 64 mod 64) * 64 + v mod 64 = v" unfolding q by (simp only: div_mult_mod_eq)
  show "((v div 262144 * 64 + v div 4096 mod 64) * 64 + v div 64 mod 64) * 64 + v mod 64 = v"
    unfolding q by (simp only: div_mult_mod_eq)
qed

lemma mod_64: "0 \<le> (v :: int) mod 64" "v mod 64 < 64"
  by simp_all

text \<open>The bytes with given digits, for values in the ranges of the standard.\<close>

lemmas lead_defs = lead_def lead_count_def lead_bounds_def lead_value_def next_ok_def cont_def

lemma decode_2:
  assumes "v = p * 64 + d" "0 \<le> d" "d < 64" "0x80 \<le> v" "v < 0x800" "uint b = 0xc0 + p" "uint b1 = 0x80 + d"
  shows "mbrtowc False 0 (b # b1 # t) = (Count 2, Some (word_of_int v), 0)"
proof -
  have "2 \<le> p" "p < 32" using assms by linarith+
  then show ?thesis using mbrtowc_lead [of b "[b1]" t] assms by (simp add: lead_defs)
qed

lemma decode_3:
  assumes v: "v = (p * 64 + d) * 64 + e" and d: "0 \<le> d" "d < 64" "0 \<le> e" "e < 64"
    and r: "0x800 \<le> v" "v < 0xd800 \<or> 0xe000 \<le> v \<and> v < 0x10000"
    and b: "uint b = 0xe0 + p" "uint b1 = 0x80 + d" "uint b2 = 0x80 + e"
  shows "mbrtowc False 0 (b # b1 # b2 # t) = (Count 3, Some (word_of_int v), 0)"
proof -
  have v': "v = p * 4096 + d * 64 + e" "v < 0x10000" using v r(2) by auto
  then have p: "0 \<le> p" "p < 16" using d r(1) by linarith+
  have "p = 0 \<Longrightarrow> 32 \<le> d" using v'(1) d r(1) by linarith
  moreover have "p = 13 \<Longrightarrow> d < 32" using v'(1) d r(2) by linarith
  ultimately have "next_ok (lead_bounds (uint b)) b1" using p b d by (simp add: lead_bounds_def next_ok_def)
  then show ?thesis
    using mbrtowc_lead [of b "[b1, b2]" t] p v d b by (simp add: lead_def lead_count_def lead_value_def cont_def)
qed

lemma decode_4:
  assumes v: "v = ((p * 64 + d) * 64 + e) * 64 + f" and d: "0 \<le> d" "d < 64" "0 \<le> e" "e < 64" "0 \<le> f" "f < 64"
    and r: "0x10000 \<le> v" "v < 0x110000"
    and b: "uint b = 0xf0 + p" "uint b1 = 0x80 + d" "uint b2 = 0x80 + e" "uint b3 = 0x80 + f"
  shows "mbrtowc False 0 (b # b1 # b2 # b3 # t) = (Count 4, Some (word_of_int v), 0)"
proof -
  have v': "v = p * 262144 + d * 4096 + e * 64 + f" using v by simp
  then have p: "0 \<le> p" "p \<le> 4" using d r by linarith+
  have "p = 0 \<Longrightarrow> 16 \<le> d" using v' d r(1) by linarith
  moreover have "p = 4 \<Longrightarrow> d < 16" using v' d r(2) by linarith
  ultimately have "next_ok (lead_bounds (uint b)) b1" using p b d by (simp add: lead_bounds_def next_ok_def)
  then show ?thesis
    using mbrtowc_lead [of b "[b1, b2, b3]" t] p v d b by (simp add: lead_def lead_count_def lead_value_def cont_def)
qed

lemma decode_1:
  assumes "0 \<le> v" "v < 0x80"
  shows "mbrtowc False 0 (word_of_int v # t) = (Count (if v = 0 then 0 else 1), Some (word_of_int v), 0)"
proof -
  let ?b = "word_of_int v :: byte"
  have u: "uint ?b = v" using assms by (intro uint_byte_of) simp_all
  have "?b < 0x80" unfolding word_less_def u using assms by simp
  moreover have "(ucast ?b :: u32) = word_of_int v" unfolding ucast_eq u ..
  moreover have "?b = 0 \<longleftrightarrow> v = 0" unfolding word_uint_eq_iff u by simp
  ultimately show ?thesis by (simp add: mbrtowc_first)
qed

lemma decode_encoding:
  assumes "utf8_encoding v = Some bs" "0 \<le> v"
  shows "mbrtowc False 0 (map word_of_int bs @ t) = (Count (if v = 0 then 0 else length bs), Some (word_of_int v), 0)"
proof -
  note d = digit_values [symmetric] mod_64
  have u: "uint (word_of_int (0x80 + i mod 64) :: byte) = 0x80 + i mod 64" for i :: int
    using mod_64 [of i] by (intro uint_byte_of) simp_all
  consider (1) "v < 0x80" "bs = [v]"
    | (2) "0x80 \<le> v" "v < 0x800" "bs = [0xc0 + v div 64, 0x80 + v mod 64]"
    | (3) "0x800 \<le> v" "v < 0xd800 \<or> 0xe000 \<le> v \<and> v < 0x10000"
        "bs = [0xe0 + v div 4096, 0x80 + v div 64 mod 64, 0x80 + v mod 64]"
    | (4) "0x10000 \<le> v" "v < 0x110000"
        "bs = [0xf0 + v div 262144, 0x80 + v div 4096 mod 64, 0x80 + v div 64 mod 64, 0x80 + v mod 64]"
    using assms(1) by (auto simp: utf8_encoding_def not_less split: if_splits)
  then show ?thesis
  proof cases
    case 1
    then show ?thesis using decode_1 [of v t] assms(2) by simp
  next
    case 2
    have "0 \<le> v div 64" "v div 64 < 32" using 2 by linarith+
    then show ?thesis using 2 decode_2 [OF d(1,4,5) 2(1,2) uint_byte_of u, of t] by simp
  next
    case 3
    have "0 \<le> v div 4096" "v div 4096 < 16" using 3 by linarith+
    then show ?thesis using 3 decode_3 [OF d(2,4,5,4,5) 3(1,2) uint_byte_of u u, of t] by simp
  next
    case 4
    have "0 \<le> v div 262144" "v div 262144 < 16" using 4 by linarith+
    then show ?thesis using 4 decode_4 [OF d(3,4,5,4,5,4,5) 4(1,2) uint_byte_of u u u, of t] by simp
  qed
qed

lemma digits_unique:
  assumes "0 \<le> d" "d < (64 :: int)"
  shows "(q * 64 + d) div 64 = q" "(q * 64 + d) mod 64 = d"
  using assms by simp_all

lemma encoding_2:
  assumes "v = p * 64 + d" "0 \<le> d" "d < 64" "2 \<le> p" "p < 32"
  shows "utf8_encoding v = Some [0xc0 + p, 0x80 + d]"
  using assms digits_unique [OF assms(2,3), of p] by (simp add: utf8_encoding_def)

lemma encoding_3:
  assumes v: "v = (p * 64 + d) * 64 + e" and d: "0 \<le> d" "d < 64" "0 \<le> e" "e < 64"
    and p: "0 \<le> p" "p < 16" "p = 0 \<Longrightarrow> 32 \<le> d" "p = 13 \<Longrightarrow> d < 32"
  shows "utf8_encoding v = Some [0xe0 + p, 0x80 + d, 0x80 + e]"
proof -
  have v': "v = p * 4096 + d * 64 + e" using v by simp
  have "0x800 \<le> v" using v' d p(1,3) by (cases "p = 0") linarith+
  moreover have "v < 0xd800 \<or> 0xe000 \<le> v \<and> v < 0x10000"
    using v' d p(1,2,4) by (cases "p < 13"; cases "p = 13") linarith+
  moreover have "v div 64 = p * 64 + d" "v mod 64 = e" unfolding v using digits_unique [OF d(3,4)] by blast+
  moreover have "v div 4096 = v div 64 div 64" by (simp flip: zdiv_zmult2_eq)
  ultimately show ?thesis using digits_unique [OF d(1,2), of p] by (simp add: utf8_encoding_def)
qed

lemma encoding_4:
  assumes v: "v = ((p * 64 + d) * 64 + e) * 64 + f" and d: "0 \<le> d" "d < 64" "0 \<le> e" "e < 64" "0 \<le> f" "f < 64"
    and p: "0 \<le> p" "p \<le> 4" "p = 0 \<Longrightarrow> 16 \<le> d" "p = 4 \<Longrightarrow> d < 16"
  shows "utf8_encoding v = Some [0xf0 + p, 0x80 + d, 0x80 + e, 0x80 + f]"
proof -
  have v': "v = p * 262144 + d * 4096 + e * 64 + f" using v by simp
  have "0x10000 \<le> v" using v' d p(1,3) by (cases "p = 0") linarith+
  moreover have "v < 0x110000" using v' d p(2,4) by (cases "p = 4") linarith+
  moreover have q: "v div 64 = (p * 64 + d) * 64 + e" "v mod 64 = f" unfolding v using digits_unique [OF d(5,6)] by blast+
  moreover have "v div 64 mod 64 = e" unfolding q using digits_unique [OF d(3,4)] by blast
  moreover have r: "v div 4096 = p * 64 + d"
  proof -
    have "v div 4096 = v div 64 div 64" by (simp flip: zdiv_zmult2_eq)
    also have "\<dots> = p * 64 + d" unfolding q using digits_unique [OF d(3,4)] by blast
    finally show ?thesis .
  qed
  moreover have "v div 4096 mod 64 = d" unfolding r using digits_unique [OF d(1,2)] by blast
  moreover have "v div 262144 = p"
  proof -
    have "v div 262144 = v div 4096 div 64" by (simp flip: zdiv_zmult2_eq)
    also have "\<dots> = p" unfolding r using digits_unique [OF d(1,2)] by blast
    finally show ?thesis .
  qed
  ultimately show ?thesis by (simp only: utf8_encoding_def) simp
qed

text \<open>Every byte sequence the decoder accepts is the encoding of its value.\<close>

lemma encoding_decoded:
  assumes "lead b" "length bs = lead_count (uint b)" "list_all cont bs" "next_ok (lead_bounds (uint b)) (hd bs)"
  shows "utf8_encoding (extend_value (lead_value (uint b)) bs) = Some (uint b # map uint bs)"
proof -
  consider (1) b1 where "uint b < 0xe0" "bs = [b1]" | (2) b1 b2 where "\<not> uint b < 0xe0" "uint b < 0xf0" "bs = [b1, b2]"
    | (3) b1 b2 b3 where "\<not> uint b < 0xe0" "\<not> uint b < 0xf0" "bs = [b1, b2, b3]"
    using assms(2) by (auto simp: lead_count_def length_Suc_conv numeral_2_eq_2 numeral_3_eq_3 split: if_splits)
  then show ?thesis
  proof cases
    case 1
    then show ?thesis using assms encoding_2 [OF refl, of "uint b1 - 0x80" "uint b - 0xc0"] by (simp add: lead_def lead_value_def cont_def)
  next
    case 2
    have "uint b - 0xe0 = 0 \<Longrightarrow> 32 \<le> uint b1 - 0x80" "uint b - 0xe0 = 13 \<Longrightarrow> uint b1 - 0x80 < 32"
      using assms(4) 2 by (simp_all add: next_ok_def lead_bounds_def)
    then show ?thesis
      using 2 assms(1,3) encoding_3 [OF refl, of "uint b1 - 0x80" "uint b2 - 0x80" "uint b - 0xe0"]
      by (simp add: lead_def lead_value_def cont_def)
  next
    case 3
    have "uint b - 0xf0 = 0 \<Longrightarrow> 16 \<le> uint b1 - 0x80" "uint b - 0xf0 = 4 \<Longrightarrow> uint b1 - 0x80 < 16"
      using assms(4) 3 by (simp_all add: next_ok_def lead_bounds_def)
    then show ?thesis
      using 3 assms(1,3) encoding_4 [OF refl, of "uint b1 - 0x80" "uint b2 - 0x80" "uint b3 - 0x80" "uint b - 0xf0"]
      by (simp add: lead_def lead_value_def cont_def)
  qed
qed

lemma utf8_encoding_bound: "utf8_encoding v = Some bs \<Longrightarrow> v < 0x110000"
  by (auto simp: utf8_encoding_def split: if_splits)

lemma uint_u32_of: "0 \<le> i \<Longrightarrow> i < 2 ^ 32 \<Longrightarrow> uint (word_of_int i :: u32) = i"
  by (simp add: uint_word_of_int)

lemma extend_value_nonneg: "0 \<le> x \<Longrightarrow> list_all cont bs \<Longrightarrow> 0 \<le> extend_value x bs"
  by (induction bs arbitrary: x) (simp_all add: cont_def)

lemma wcrtomb_decoded:
  assumes "mbrtowc False 0 s = (Count n, Some wc, c)"
  shows "c = 0 \<and> wcrtomb False wc = Some (take (max 1 n) s)"
  using assms
proof (cases rule: mbrtowc_count)
  case (ascii b t)
  then have "uint wc = uint b" "uint b < 0x80" by (simp_all add: uint_wide word_less_def)
  then have "wcrtomb False wc = Some [b]" by (simp add: wcrtomb_utf8 utf8_encoding_def)
  then show ?thesis using ascii by simp
next
  case (multibyte b bs t)
  let ?v = "extend_value (lead_value (uint b)) bs"
  note enc = encoding_decoded [OF multibyte(2-5)]
  have "0 \<le> lead_value (uint b)" using multibyte(2) by (simp add: lead_def lead_value_def)
  then have "uint wc = ?v"
    using multibyte(4,8) extend_value_nonneg utf8_encoding_bound [OF enc] by (simp add: uint_u32_of)
  then have "wcrtomb False wc = Some (b # bs)" using enc by (simp add: wcrtomb_utf8 comp_def)
  then show ?thesis using multibyte by simp
qed

lemma decode_wcrtomb:
  assumes "wcrtomb False wc = Some bs"
  shows "mbrtowc False 0 (bs @ t) = (Count (if wc = 0 then 0 else length bs), Some wc, 0)"
proof -
  obtain cs where "utf8_encoding (uint wc) = Some cs" "bs = map word_of_int cs"
    using assms by (auto simp: wcrtomb_utf8)
  moreover have "uint wc = 0 \<longleftrightarrow> wc = 0" by (simp add: word_uint_eq_iff)
  ultimately show ?thesis using decode_encoding [of "uint wc" cs t] uint_u32 [of wc] by simp
qed

lemma wcrtomb_fails: "wcrtomb False wc = None \<longleftrightarrow> 0xd800 \<le> wc \<and> wc < 0xe000 \<or> 0x110000 \<le> wc"
  by (auto simp: wcrtomb_utf8 utf8_encoding_def word_less_def word_le_def)

section \<open>The stateless decoder\<close>

text \<open>
  The test before the reads of \<open>mbtowc\<close>: shifted past the bytes there are, the state has its high bit
  exactly when it expects more than those.
\<close>

lemma uint_push6: "uint w * 64 < 2 ^ 32 \<Longrightarrow> uint (push_bit 6 w :: u32) = uint w * 64"
  by (simp add: push_bit_eq_mult uint_word_ariths)

lemma last_clear:
  assumes "expects 1 H x c" "cont b"
  shows "(push_bit 6 c OR (ucast b - 0x80)) AND 0x80000000 = 0"
  unfolding high_bit expects_last [OF assms] using assms by (simp add: expects_def cont_def)

lemma more_not_clear:
  assumes "expects (Suc k) H x c" "k \<noteq> 0" "cont b"
  shows "(push_bit 6 c OR (ucast b - 0x80)) AND 0x80000000 \<noteq> 0"
  unfolding high_bit using expects_high [OF expects_more [OF assms]] .

lemma expects_shift:
  assumes "expects k H x c" "m \<le> 2"
  shows "push_bit (6 * m) c AND 0x80000000 \<noteq> 0 \<longleftrightarrow> m < k"
  using assms
proof (induction m arbitrary: k H x c)
  case 0
  then show ?case using expects_high [of k H x c] by (simp add: high_bit expects_def)
next
  case (Suc m)
  have s: "push_bit (6 * Suc m) c = push_bit (6 * m) (push_bit 6 c)" by (simp add: add.commute)
  have z: "push_bit 6 c OR (ucast (0x80 :: byte) - 0x80) = (push_bit 6 c :: u32)" "cont (0x80 :: byte)"
    by (simp_all add: cont_def)
  show ?case
  proof (cases "k = 1")
    case True
    then have u: "uint (push_bit 6 c) = x * 64" using Suc.prems expects_last [of H x c "0x80"] z by simp
    have "uint (push_bit (6 * m) (push_bit 6 c)) < 2 ^ 31"
    proof -
      have "m = 0 \<or> m = 1" using Suc.prems(2) by auto
      moreover have "uint (push_bit 6 (push_bit 6 c)) = x * 4096"
        using Suc.prems(1) True u uint_push6 [of "push_bit 6 c"] by (simp add: expects_def)
      ultimately show ?thesis using Suc.prems(1) True u by (auto simp: expects_def)
    qed
    then show ?thesis using True unfolding s high_bit by simp
  next
    case False
    then obtain j where j: "k = Suc j" "j \<noteq> 0" using Suc.prems by (cases k) (auto simp: expects_def)
    then have "expects j 48 (x * 64) (push_bit 6 c)" using Suc.prems(1) expects_more [of j H x c "0x80"] z by simp
    then show ?thesis using Suc.IH [of j 48 "x * 64" "push_bit 6 c"] Suc.prems(2) j unfolding s by simp
  qed
qed

lemma mbtowc_third_reads:
  assumes e: "expects (Suc k) H x c" and k: "k \<noteq> 0" and b: "cont b1" and n: "k \<le> length t"
  shows "mbtowc_third (push_bit 6 c OR (ucast b1 - 0x80)) t =
    (case mbrtowc_loop c (b1 # t) 1 of (Count n, Some w, _) \<Rightarrow> Read n w | _ \<Rightarrow> Ilseq)"
proof -
  obtain b2 t2 where t: "t = b2 # t2" using n k by (cases t) auto
  note e1 = expects_more [OF e k b] and l = mbrtowc_loop_more [OF e k b, of t 1]
  show ?thesis
  proof (cases "cont b2")
    case False
    then show ?thesis using l t by (simp add: mbtowc_third_def cont_test Let_def)
  next
    case b2: True
    show ?thesis
    proof (cases "k = 1")
      case True
      with e1 have e1: "expects 1 48 (x * 64 + (uint b1 - 0x80)) (push_bit 6 c OR (ucast b1 - 0x80))" by simp
      show ?thesis
        using b2 last_clear [OF e1 b2] l t
        by (simp add: mbtowc_third_def cont_test Let_def mbrtowc_loop.simps(2) [of _ b2])
    next
      case False
      then have "k = Suc 1" using k e by (auto simp: expects_def)
      with e1 have e1: "expects (Suc 1) 48 (x * 64 + (uint b1 - 0x80)) (push_bit 6 c OR (ucast b1 - 0x80))" by simp
      obtain b3 t3 where t2: "t2 = b3 # t3" using n t \<open>k = Suc 1\<close> by (cases t2) auto
      note e2 = expects_more [OF e1 one_neq_zero b2] and l2 = mbrtowc_loop_more [OF e1 one_neq_zero b2, of t2 "Suc (Suc 0)"]
      show ?thesis
      proof (cases "cont b3")
        case True
        then show ?thesis
          using b2 more_not_clear [OF e1 one_neq_zero b2] last_clear [OF e2 True] l l2 t t2
          by (simp add: mbtowc_third_def mbtowc_fourth_def cont_test Let_def mbrtowc_loop.simps(2) [of _ b3])
      next
        case False
        then show ?thesis
          using b2 more_not_clear [OF e1 one_neq_zero b2] l l2 t t2
          by (simp add: mbtowc_third_def mbtowc_fourth_def cont_test Let_def)
      qed
    qed
  qed
qed

lemma mbtowc_second_reads:
  assumes e: "expects k H x c" and H: "H \<in> {44, 46, 48, 52, 54}" and n: "k \<le> length s"
  shows "mbtowc_second c s =
    (case mbrtowc_continue c s 1 of (Count n, Some w, _) \<Rightarrow> Read n w | _ \<Rightarrow> Ilseq)"
proof -
  have k: "k \<noteq> 0" using e by (simp add: expects_def)
  obtain b1 t where s: "s = b1 # t" using n k by (cases s) auto
  show ?thesis
  proof (cases "OOB c b1")
    case True
    then show ?thesis by (simp add: s mbtowc_second_def mbrtowc_continue_def)
  next
    case False
    then have b: "cont b1" using OOB_next [OF e H] next_ok_cont by blast
    show ?thesis
    proof (cases "k = 1")
      case True
      with e have e: "expects 1 H x c" by simp
      show ?thesis
        using False last_clear [OF e b] by (simp add: s mbtowc_second_def mbrtowc_continue_def mbrtowc_loop.simps(2) Let_def)
    next
      case k1: False
      then obtain j where j: "k = Suc j" "j \<noteq> 0" using k by (cases k) auto
      have e: "expects (Suc j) H x c" using e j by simp
      show ?thesis
        using False more_not_clear [OF e j(2) b] mbtowc_third_reads [OF e j(2) b, of t] n j s
        by (simp add: mbtowc_second_def mbrtowc_continue_def Let_def)
    qed
  qed
qed

lemma mbtowc_reads:
  "mbtowc False s = (case mbrtowc False 0 s of (Count n, Some w, _) \<Rightarrow> Read n w | _ \<Rightarrow> Ilseq)"
proof (cases s)
  case Nil
  then show ?thesis by (simp add: mbtowc_def mbrtowc_def)
next
  case (Cons b t)
  show ?thesis
  proof (cases "\<not> b < 0x80 \<and> lead b")
    case False
    then show ?thesis using Cons lead_test [of b] by (auto simp: mbtowc_def mbrtowc_first)
  next
    case l: True
    let ?c = "bittab ! (unat b - 0xc2)"
    note e = bittab_lead [OF conjunct2 [OF l]]
    have "6 * length s - 6 = 6 * length t" using Cons by simp
    then have guard: "length s < 4 \<and> push_bit (6 * length s - 6) ?c AND 0x80000000 \<noteq> 0 \<longleftrightarrow> length t < lead_count (uint b)"
      using expects_shift [OF e, of "length t"] Cons by (auto simp: lead_count_def)
    show ?thesis
    proof (cases "length t < lead_count (uint b)")
      case True
      have "\<nexists>n w c. mbrtowc False 0 s = (Count n, w, c)"
      proof
        assume "\<exists>n w c. mbrtowc False 0 s = (Count n, w, c)"
        then obtain n w c where "mbrtowc False 0 s = (Count n, w, c)" by blast
        then show False using Cons l True by (cases rule: mbrtowc_count) auto
      qed
      then have "(case mbrtowc False 0 s of (Count n, Some w, _) \<Rightarrow> Read n w | _ \<Rightarrow> Ilseq) = Ilseq"
        by (auto split: prod.split mb_result.split)
      then show ?thesis using Cons l lead_test [of b] guard True by (simp add: mbtowc_def Let_def)
    next
      case False
      then show ?thesis
        using Cons l lead_test [of b] guard mbtowc_second_reads [OF e lead_bounds_values, of t]
        by (auto simp add: mbtowc_def Let_def mbrtowc_first)
    qed
  qed
qed

section \<open>Round trip\<close>

text \<open>
  C40. UTF-8 in both directions.  What \<open>wcrtomb\<close> writes, \<open>mbrtowc\<close> reads back, whatever follows; what
  \<open>mbrtowc\<close> accepts is exactly what \<open>wcrtomb\<close> writes for the character it delivers (no overlong
  form, no surrogate, nothing from 110000 on), and the state is initial again; a sequence cut at any
  points and given to \<open>mbrtowc\<close> piece by piece has the result of the whole; only surrogates and
  values from 110000 on have no encoding; and \<open>mbtowc\<close> answers as \<open>mbrtowc\<close> does from the initial
  state, with an incomplete sequence illegal, and never reads past the bytes it is given.
\<close>

theorem utf8_roundtrip:
  "(\<forall>wc bs rest. wcrtomb False wc = Some bs \<longrightarrow>
      mbrtowc False 0 (bs @ rest) = (Count (if wc = 0 then 0 else length bs), Some wc, 0)) \<and>
   (\<forall>s n wc c. mbrtowc False 0 s = (Count n, Some wc, c) \<longrightarrow> c = 0 \<and> wcrtomb False wc = Some (take (max 1 n) s)) \<and>
   (\<forall>ss. mbrtowc_pieces 0 ss = mbrtowc False 0 (concat ss)) \<and>
   (\<forall>wc. wcrtomb False wc = None \<longleftrightarrow> 0xd800 \<le> wc \<and> wc < 0xe000 \<or> 0x110000 \<le> wc) \<and>
   (\<forall>s. mbtowc False s = (case mbrtowc False 0 s of (Count n, Some w, _) \<Rightarrow> Read n w | _ \<Rightarrow> Ilseq))"
  using decode_wcrtomb wcrtomb_decoded mbrtowc_pieces_concat [of 0] wcrtomb_fails mbtowc_reads
  by (simp add: mbstate_def)

theorem utf8_roundtrip_witness:
  "mbrtowc False 0 ([0xe2, 0x82, 0xac] @ [0x41]) = (Count 3, Some 0x20ac, 0) \<and>
   wcrtomb False 0x20ac = Some (take 3 [0xe2, 0x82, 0xac, 0x41]) \<and>
   mbrtowc_pieces 0 [[0xe2], [], [0x82, 0xac, 0x41]] = (Count 3, Some 0x20ac, 0)"
proof -
  have e: "wcrtomb False 0x20ac = Some [0xe2, 0x82, 0xac]" by code_simp
  have d: "mbrtowc False 0 ([0xe2, 0x82, 0xac] @ [0x41]) = (Count 3, Some 0x20ac, 0)"
    using conjunct1 [OF utf8_roundtrip, rule_format, OF e, of "[0x41]"] by simp
  moreover have "wcrtomb False 0x20ac = Some (take 3 [0xe2, 0x82, 0xac, 0x41])"
    using conjunct1 [OF conjunct2 [OF utf8_roundtrip], rule_format, OF d] by simp
  moreover have "mbrtowc_pieces 0 [[0xe2], [], [0x82, 0xac, 0x41]] = (Count 3, Some 0x20ac, 0)"
    using conjunct1 [OF conjunct2 [OF conjunct2 [OF utf8_roundtrip]], rule_format, of "[[0xe2], [], [0x82, 0xac, 0x41]]"] d
    by simp
  ultimately show ?thesis by blast
qed

section \<open>Whole strings and single bytes\<close>

lemma wcrtomb_length: "wcrtomb C_locale wc = Some bs \<Longrightarrow> 1 \<le> length bs \<and> length bs \<le> 4"
  by (auto simp: wcrtomb_def split: if_splits)

text \<open>The test \<open>**ws - 1u >= 0x7fu\<close> singles out the terminator and what needs the encoder.\<close>

lemma ascii_test: "w - 1 \<ge> 0x7f \<longleftrightarrow> w = 0 \<or> (w :: u32) \<ge> 0x80"
proof (cases "w = 0")
  case False
  then have "1 \<le> uint w" using uint_u32(1) [of w] by (metis uint_0_iff int_one_le_iff_zero_less order_le_less)
  then have "uint (w - 1) = uint w - 1" by (simp add: uint_sub_if')
  then show ?thesis using False by (auto simp add: word_le_def)
qed simp

lemma wcrtomb_ascii: "\<not> w \<ge> 0x80 \<Longrightarrow> wcrtomb C_locale w = Some [ucast w]"
  by (simp add: wcrtomb_def not_le)

definition encodings :: "bool \<Rightarrow> u32 list \<Rightarrow> byte list" where
  "encodings C_locale ws = concat (map (the \<circ> wcrtomb C_locale) ws)"

lemma wcsrtombs_last_full:
  assumes "0 \<notin> set ws" "list_all (\<lambda>w. wcrtomb C_locale w \<noteq> None) ws" "length (encodings C_locale ws) < n"
  shows "wcsrtombs_last C_locale (ws @ [0]) n = (Some (length (encodings C_locale ws)), encodings C_locale ws @ [0], None)"
  using assms
proof (induction ws arbitrary: n)
  case Nil
  then show ?case by (simp add: encodings_def)
next
  case (Cons w ws)
  then obtain bs where bs: "wcrtomb C_locale w = Some bs" by auto
  have "wcsrtombs_last C_locale (ws @ [0]) (n - length bs) =
      (Some (length (encodings C_locale ws)), encodings C_locale ws @ [0], None)"
    using Cons bs by (intro Cons.IH) (auto simp: encodings_def)
  then show ?case
    using Cons.prems bs wcrtomb_ascii [of w C_locale] by (cases "w \<ge> 0x80") (auto simp: ascii_test encodings_def)
qed

lemma wcsrtombs_full:
  assumes "0 \<notin> set ws" "list_all (\<lambda>w. wcrtomb C_locale w \<noteq> None) ws" "length (encodings C_locale ws) < n"
  shows "wcsrtombs C_locale (ws @ [0]) n = (Some (length (encodings C_locale ws)), encodings C_locale ws @ [0], None)"
  using assms
proof (induction ws arbitrary: n)
  case Nil
  then show ?case by (simp add: encodings_def)
next
  case (Cons w ws)
  then obtain bs where bs: "wcrtomb C_locale w = Some bs" by auto
  have ih: "wcsrtombs C_locale (ws @ [0]) (n - length bs) =
      (Some (length (encodings C_locale ws)), encodings C_locale ws @ [0], None)"
    using Cons bs by (intro Cons.IH) (auto simp: encodings_def)
  show ?case
  proof (cases "n < 4")
    case True
    then show ?thesis using wcsrtombs_last_full [OF Cons.prems] by simp
  next
    case False
    then show ?thesis
      using Cons.prems ih bs wcrtomb_ascii [of w C_locale] by (cases "w \<ge> 0x80") (auto simp: ascii_test encodings_def)
  qed
qed

lemma wcsrtombs_length_full:
  assumes "0 \<notin> set ws" "list_all (\<lambda>w. wcrtomb C_locale w \<noteq> None) ws"
  shows "wcsrtombs_length C_locale (ws @ [0]) = Some (length (encodings C_locale ws))"
  using assms
proof (induction ws)
  case (Cons w ws)
  then show ?case using wcrtomb_ascii [of w C_locale] by (cases "w \<ge> 0x80") (auto simp: encodings_def)
qed (simp add: encodings_def)

text \<open>Single bytes: \<open>btowc\<close> and \<open>wctob\<close> are inverse where they answer, in both locales.\<close>

lemma wctob_btowc: "btowc C_locale (uint b) = Some w \<Longrightarrow> wctob C_locale w = Some b"
proof -
  assume w: "btowc C_locale (uint b) = Some w"
  have "list_all (\<lambda>l. list_all (\<lambda>i. case btowc l i of None \<Rightarrow> True | Some w \<Rightarrow> wctob l w = Some (word_of_int i)) [0..255])
      [False, True]" by code_simp
  moreover have "uint b \<in> set [0..255]" unfolding set_upto atLeastAtMost_iff using uint_byte [of b] by linarith
  moreover have "C_locale \<in> set [False, True]" by simp
  ultimately have "case btowc C_locale (uint b) of None \<Rightarrow> True | Some w \<Rightarrow> wctob C_locale w = Some (word_of_int (uint b))"
    unfolding list_all_iff by blast
  then show ?thesis using w by simp
qed

end
