(* ===== verification/Smoothsort.thy ===== *)
theory Smoothsort
  imports C_Prelude "HOL-Library.Multiset"
begin

text \<open>
  Smoothsort on lists: the algorithm behind musl's \<^verbatim>\<open>qsort\<close>, with elements in place of
  blocks of bytes, swaps in place of cycled paths and lists of orders in place of bit strings.
  A Leonardo tree of order \<open>k\<close> occupies \<open>leo k\<close> neighbouring positions with its root last; the
  root's children are a tree of order \<open>k - 2\<close> just before it and one of order \<open>k - 1\<close> before
  that.  A forest is a row of trees, written as the list of their orders from right to left.
\<close>

section \<open>The algorithm\<close>

fun leo :: "nat \<Rightarrow> nat" where
  "leo 0 = 1"
| "leo (Suc 0) = 1"
| "leo (Suc (Suc k)) = leo (Suc k) + leo k + 1"

definition swap :: "'a list \<Rightarrow> nat \<Rightarrow> nat \<Rightarrow> 'a list" where
  "swap xs i j = xs[i := xs ! j, j := xs ! i]"

text \<open>Moving the root of the tree of order \<open>k\<close> at \<open>h\<close> down to its place.\<close>

fun sift_down :: "('a \<Rightarrow> 'a \<Rightarrow> int) \<Rightarrow> 'a list \<Rightarrow> nat \<Rightarrow> nat \<Rightarrow> 'a list" where
  "sift_down cmp xs h 0 = xs"
| "sift_down cmp xs h (Suc 0) = xs"
| "sift_down cmp xs h (Suc (Suc k)) =
     (let rt = h - 1; lf = h - 1 - leo k
      in if cmp (xs ! h) (xs ! lf) \<ge> 0 \<and> cmp (xs ! h) (xs ! rt) \<ge> 0 then xs
         else if cmp (xs ! lf) (xs ! rt) \<ge> 0 then sift_down cmp (swap xs h lf) lf (Suc k)
         else sift_down cmp (swap xs h rt) rt k)"

text \<open>Moving the root at \<open>h\<close> left along the roots of the forest, then down.\<close>

definition outranked :: "('a \<Rightarrow> 'a \<Rightarrow> int) \<Rightarrow> 'a list \<Rightarrow> nat \<Rightarrow> nat \<Rightarrow> bool" where
  "outranked cmp xs h k \<longleftrightarrow>
     1 < k \<and> (let s = h - leo k in cmp (xs ! (h - 1)) (xs ! s) \<ge> 0 \<or> cmp (xs ! (h - 1 - leo (k - 2))) (xs ! s) \<ge> 0)"

fun trinkle_left :: "('a \<Rightarrow> 'a \<Rightarrow> int) \<Rightarrow> 'a list \<Rightarrow> nat \<Rightarrow> nat list \<Rightarrow> bool \<Rightarrow> 'a list" where
  "trinkle_left cmp xs h [] trusty = xs"
| "trinkle_left cmp xs h [k] trusty = (if trusty then xs else sift_down cmp xs h k)"
| "trinkle_left cmp xs h (k # o1 # os) trusty =
     (let s = h - leo k
      in if cmp (xs ! s) (xs ! h) \<le> 0 \<or> (\<not> trusty \<and> outranked cmp xs h k)
         then (if trusty then xs else sift_down cmp xs h k)
         else trinkle_left cmp (swap xs h s) s (o1 # os) False)"

text \<open>The first phase adds one position per step; \<open>high\<close> is the last position of the array.\<close>

definition grow_forest :: "nat list \<Rightarrow> nat list" where
  "grow_forest ks =
     (case ks of
        k # o1 # os \<Rightarrow> if o1 = Suc k then Suc (Suc k) # os else if k = 1 then 0 # ks else 1 # ks
      | [k] \<Rightarrow> if k = 1 then 0 # ks else 1 # ks
      | [] \<Rightarrow> [])"

definition adjacent :: "nat list \<Rightarrow> bool" where
  "adjacent ks = (case ks of k # o1 # os \<Rightarrow> o1 = Suc k | _ \<Rightarrow> False)"

definition settle :: "('a \<Rightarrow> 'a \<Rightarrow> int) \<Rightarrow> nat \<Rightarrow> 'a list \<Rightarrow> nat \<Rightarrow> nat list \<Rightarrow> 'a list" where
  "settle cmp high xs h ks =
     (if \<not> adjacent ks \<and> leo (hd ks - 1) \<ge> high - h then trinkle_left cmp xs h ks False
      else sift_down cmp xs h (hd ks))"

function build :: "('a \<Rightarrow> 'a \<Rightarrow> int) \<Rightarrow> nat \<Rightarrow> 'a list \<Rightarrow> nat \<Rightarrow> nat list \<Rightarrow> 'a list \<times> nat list" where
  "build cmp high xs h ks =
     (if h < high then build cmp high (settle cmp high xs h ks) (Suc h) (grow_forest ks)
      else (trinkle_left cmp xs h ks False, ks))"
  by pat_completeness auto
termination by (relation "measure (\<lambda>(cmp, high, xs, h, ks). high - h)") auto

declare build.simps [simp del]

text \<open>The second phase takes the last position off the forest, splitting its tree.\<close>

fun shrink_forest :: "nat list \<Rightarrow> nat list" where
  "shrink_forest [] = []"
| "shrink_forest (k # os) = (if k \<le> 1 then os else (k - 2) # (k - 1) # os)"

definition expose :: "('a \<Rightarrow> 'a \<Rightarrow> int) \<Rightarrow> 'a list \<Rightarrow> nat \<Rightarrow> nat list \<Rightarrow> 'a list" where
  "expose cmp xs h ks =
     (case ks of [] \<Rightarrow> xs
      | k # os \<Rightarrow>
          if k \<le> 1 then xs
          else let xs = trinkle_left cmp xs (h - 1 - leo (k - 2)) ((k - 1) # os) True
               in trinkle_left cmp xs (h - 1) ((k - 2) # (k - 1) # os) True)"

fun dequeue :: "('a \<Rightarrow> 'a \<Rightarrow> int) \<Rightarrow> 'a list \<Rightarrow> nat \<Rightarrow> nat list \<Rightarrow> 'a list" where
  "dequeue cmp xs 0 ks = xs"
| "dequeue cmp xs (Suc h) ks = dequeue cmp (expose cmp xs (Suc h) ks) h (shrink_forest ks)"

definition smoothsort :: "('a \<Rightarrow> 'a \<Rightarrow> int) \<Rightarrow> 'a list \<Rightarrow> 'a list" where
  "smoothsort cmp xs =
     (if xs = [] then xs
      else case build cmp (length xs - 1) xs 0 [1] of (ys, ks) \<Rightarrow> dequeue cmp ys (length xs - 1) ks)"

lemma smoothsort_example: "smoothsort (\<lambda>a b. a - b) [5, 3, 9, 1, 1, 7, 8, 2, 6, 0, 4 :: int] = [0, 1, 1, 2, 3, 4, 5, 6, 7, 8, 9]"
  by code_simp

section \<open>Leonardo numbers and rearrangements\<close>

lemma leo_pos: "0 < leo k"
  by (induction k rule: leo.induct) simp_all

lemma leo_0: "leo k \<noteq> 0"
  using leo_pos [of k] by simp

lemma leo_Suc: "leo k \<le> leo (Suc k)"
  by (cases k) simp_all

lemma leo_mono: "i \<le> j \<Longrightarrow> leo i \<le> leo j"
  using leo_Suc by (rule lift_Suc_mono_le)

lemma leo_step: "1 < k \<Longrightarrow> leo k = leo (k - 1) + leo (k - 2) + 1"
  by (cases k rule: leo.cases) simp_all

text \<open>\<open>ys\<close> is \<open>xs\<close> with the elements at the positions in \<open>A\<close> rearranged.\<close>

definition rearranged :: "nat set \<Rightarrow> 'a list \<Rightarrow> 'a list \<Rightarrow> bool" where
  "rearranged A xs ys \<longleftrightarrow>
     length ys = length xs \<and> mset ys = mset xs \<and> (\<forall>i. i \<notin> A \<longrightarrow> ys ! i = xs ! i) \<and>
     (\<forall>i\<in>A. \<exists>j\<in>A. ys ! i = xs ! j) \<and> (\<forall>i\<in>A. \<exists>j\<in>A. xs ! i = ys ! j)"

lemma rearranged_refl [simp]: "rearranged A xs xs"
  by (auto simp: rearranged_def)

lemma rearranged_trans: "rearranged A xs ys \<Longrightarrow> rearranged A ys zs \<Longrightarrow> rearranged A xs zs"
  unfolding rearranged_def by metis

lemma rearranged_mono: "rearranged A xs ys \<Longrightarrow> A \<subseteq> B \<Longrightarrow> rearranged B xs ys"
  unfolding rearranged_def by (metis subsetD)

lemma length_swap [simp]: "length (swap xs i j) = length xs"
  by (simp add: swap_def)

lemma length_sift_down [simp]: "length (sift_down cmp xs h k) = length xs"
  by (induction cmp xs h k rule: sift_down.induct) (simp_all add: Let_def)

lemma length_trinkle_left [simp]: "length (trinkle_left cmp xs h ks trusty) = length xs"
  by (induction cmp xs h ks trusty rule: trinkle_left.induct) (simp_all add: Let_def)

lemma length_settle [simp]: "length (settle cmp high xs h ks) = length xs"
  by (simp add: settle_def)

lemma length_expose [simp]: "length (expose cmp xs h ks) = length xs"
  by (simp add: expose_def Let_def split: list.split)

lemma swap_nth: "i < length xs \<Longrightarrow> j < length xs \<Longrightarrow> swap xs i j ! k = (if k = i then xs ! j else if k = j then xs ! i else xs ! k)"
  by (auto simp: swap_def nth_list_update)

lemma rearranged_swap:
  assumes "i < length xs" "j < length xs" "i \<in> A" "j \<in> A"
  shows "rearranged A xs (swap xs i j)"
proof -
  have "mset (swap xs i j) = mset xs" using assms by (simp add: swap_def mset_swap)
  moreover have "\<exists>m\<in>A. xs ! l = swap xs i j ! m" if "l \<in> A" for l
    using assms that by (intro bexI [of _ "if l = i then j else if l = j then i else l"]) (auto simp: swap_nth)
  ultimately show ?thesis using assms by (auto simp: rearranged_def swap_nth)
qed

lemma rearrangedD:
  "rearranged A xs ys \<Longrightarrow> length ys = length xs"
  "rearranged A xs ys \<Longrightarrow> mset ys = mset xs"
  "rearranged A xs ys \<Longrightarrow> i \<notin> A \<Longrightarrow> ys ! i = xs ! i"
  "rearranged A xs ys \<Longrightarrow> i \<in> A \<Longrightarrow> \<exists>j\<in>A. ys ! i = xs ! j"
  "rearranged A xs ys \<Longrightarrow> i \<in> A \<Longrightarrow> \<exists>j\<in>A. xs ! i = ys ! j"
  by (auto simp: rearranged_def)

text \<open>The positions of the tree of order \<open>k\<close> with root \<open>h\<close>.\<close>

definition span :: "nat \<Rightarrow> nat \<Rightarrow> nat set" where
  "span h k = {i. h < i + leo k \<and> i \<le> h}"

lemma span_root [simp]: "h \<in> span h k"
  using leo_pos [of k] by (simp add: span_def)

text \<open>The children of a tree lie side by side before its root.\<close>

lemma span_split:
  assumes "leo (Suc (Suc k)) \<le> Suc h"
  shows "span h (Suc (Suc k)) = insert h (span (h - 1) k \<union> span (h - 1 - leo k) (Suc k))"
    and "h \<notin> span (h - 1) k" "h \<notin> span (h - 1 - leo k) (Suc k)" "span (h - 1) k \<inter> span (h - 1 - leo k) (Suc k) = {}"
    and "leo k \<le> Suc (h - 1)" "leo (Suc k) \<le> Suc (h - 1 - leo k)" "0 < h"
  using assms leo_pos [of k] leo_pos [of "Suc k"] by (auto simp: span_def)

section \<open>Comparators\<close>

text \<open>
  What the standard asks of the function given to \<^verbatim>\<open>qsort\<close>: it is consistent, that is, its
  results define a total preorder.
\<close>

locale comparator =
  fixes cmp :: "'a \<Rightarrow> 'a \<Rightarrow> int"
  assumes flip: "cmp a b < 0 \<longleftrightarrow> 0 < cmp b a"
    and trans: "cmp a b \<le> 0 \<Longrightarrow> cmp b c \<le> 0 \<Longrightarrow> cmp a c \<le> 0"
begin

lemma ge_iff: "0 \<le> cmp a b \<longleftrightarrow> cmp b a \<le> 0"
  using flip [of a b] by linarith

lemma not_le: "\<not> cmp a b \<le> 0 \<Longrightarrow> cmp b a \<le> 0"
  using flip [of b a] by linarith

lemma total: "cmp a b \<le> 0 \<or> cmp b a \<le> 0"
  using not_le by blast

lemma refl [simp]: "cmp a a \<le> 0"
  using total by blast

end

text \<open>The heap order within one tree, also without its root.\<close>

fun heap :: "('a \<Rightarrow> 'a \<Rightarrow> int) \<Rightarrow> 'a list \<Rightarrow> nat \<Rightarrow> nat \<Rightarrow> bool" where
  "heap cmp xs h 0 \<longleftrightarrow> True"
| "heap cmp xs h (Suc 0) \<longleftrightarrow> True"
| "heap cmp xs h (Suc (Suc k)) \<longleftrightarrow>
     cmp (xs ! (h - 1)) (xs ! h) \<le> 0 \<and> cmp (xs ! (h - 1 - leo k)) (xs ! h) \<le> 0 \<and>
     heap cmp xs (h - 1) k \<and> heap cmp xs (h - 1 - leo k) (Suc k)"

definition kids :: "('a \<Rightarrow> 'a \<Rightarrow> int) \<Rightarrow> 'a list \<Rightarrow> nat \<Rightarrow> nat \<Rightarrow> bool" where
  "kids cmp xs h k \<longleftrightarrow> k \<le> 1 \<or> heap cmp xs (h - 1) (k - 2) \<and> heap cmp xs (h - 1 - leo (k - 2)) (k - 1)"

lemma heap_kids: "heap cmp xs h k \<Longrightarrow> kids cmp xs h k"
  by (cases k rule: leo.cases) (simp_all add: kids_def)

lemma kids_small [simp]: "k \<le> 1 \<Longrightarrow> kids cmp xs h k"
  by (simp add: kids_def)

lemma heap_small [simp]: "k \<le> 1 \<Longrightarrow> heap cmp xs h k"
  by (cases k rule: leo.cases) simp_all

lemma heap_cong: "leo k \<le> Suc h \<Longrightarrow> (\<And>i. i \<in> span h k \<Longrightarrow> ys ! i = xs ! i) \<Longrightarrow> heap cmp ys h k = heap cmp xs h k"
proof (induction k arbitrary: h rule: leo.induct)
  case (3 k)
  note s = span_split [OF "3.prems"(1)]
  have "heap cmp ys (h - 1) k = heap cmp xs (h - 1) k" "heap cmp ys (h - 1 - leo k) (Suc k) = heap cmp xs (h - 1 - leo k) (Suc k)"
    using 3 s by blast+
  moreover have "ys ! h = xs ! h" "ys ! (h - 1) = xs ! (h - 1)" "ys ! (h - 1 - leo k) = xs ! (h - 1 - leo k)"
    using "3.prems"(2) s(1) span_root by blast+
  ultimately show ?case by simp
qed simp_all

lemma heap_outside: "rearranged A xs ys \<Longrightarrow> A \<inter> span h k = {} \<Longrightarrow> leo k \<le> Suc h \<Longrightarrow> heap cmp ys h k = heap cmp xs h k"
  using heap_cong rearrangedD(3) by (metis disjoint_iff)

lemma kids_cong:
  assumes "leo k \<le> Suc h" "\<And>i. i \<in> span h k \<Longrightarrow> i \<noteq> h \<Longrightarrow> ys ! i = xs ! i"
  shows "kids cmp ys h k = kids cmp xs h k"
proof (cases k rule: leo.cases)
  case (3 j)
  have "leo (Suc (Suc j)) \<le> Suc h" using assms(1) 3 by simp
  note s = span_split [OF this]
  have "heap cmp ys (h - 1) j = heap cmp xs (h - 1) j"
    using s(1,2,5) assms(2) unfolding 3 by (intro heap_cong) blast+
  moreover have "heap cmp ys (h - 1 - leo j) (Suc j) = heap cmp xs (h - 1 - leo j) (Suc j)"
    using s(1,3,6) assms(2) unfolding 3 by (intro heap_cong) blast+
  ultimately show ?thesis using 3 by (simp add: kids_def)
qed simp_all

context comparator
begin

lemma heap_root: "heap cmp xs h k \<Longrightarrow> leo k \<le> Suc h \<Longrightarrow> i \<in> span h k \<Longrightarrow> cmp (xs ! i) (xs ! h) \<le> 0"
proof (induction k arbitrary: h rule: leo.induct)
  case (3 k)
  note s = span_split [OF "3.prems"(2)]
  have kids: "cmp (xs ! (h - 1)) (xs ! h) \<le> 0" "cmp (xs ! (h - 1 - leo k)) (xs ! h) \<le> 0"
    "heap cmp xs (h - 1) k" "heap cmp xs (h - 1 - leo k) (Suc k)" using "3.prems"(1) by simp_all
  consider "i = h" | "i \<in> span (h - 1) k" | "i \<in> span (h - 1 - leo k) (Suc k)" using "3.prems"(3) s(1) by blast
  then show ?case
  proof cases
    case 2
    then show ?thesis using "3.IH"(2) [OF kids(3) s(5)] trans kids(1) by blast
  next
    case 3
    then show ?thesis using "3.IH"(1) [OF kids(4) s(6)] trans kids(2) by blast
  qed simp
qed (auto simp: span_def less_Suc_eq_le dest: antisym)

end

section \<open>Sifting\<close>

text \<open>The root of a subtree whose old root was swapped with a smaller element from outside.\<close>

context comparator
begin

lemma swapped_below:
  assumes "heap cmp xs c j" "leo j \<le> Suc c" "h \<notin> span c j" "h < length xs" "c < length xs"
    and "rearranged (span c j) (swap xs h c) ys" "cmp (xs ! h) (xs ! c) \<le> 0" "i \<in> span c j"
  shows "cmp (ys ! i) (xs ! c) \<le> 0"
proof -
  obtain l where l: "l \<in> span c j" "ys ! i = swap xs h c ! l" using rearrangedD(4) [OF assms(6,8)] by blast
  then show ?thesis using assms heap_root [OF assms(1,2) l(1)] by (auto simp: swap_nth)
qed

lemma kids_swapped:
  assumes "heap cmp xs c j" "leo j \<le> Suc c" "h \<notin> span c j" "h < length xs" "c < length xs"
  shows "kids cmp (swap xs h c) c j"
proof -
  have "kids cmp (swap xs h c) c j = kids cmp xs c j" using assms by (intro kids_cong) (auto simp: swap_nth)
  then show ?thesis using heap_kids [OF assms(1)] by simp
qed

lemma sift_down_heap:
  assumes "kids cmp xs h k" "leo k \<le> Suc h" "h < length xs"
  shows "rearranged (span h k) xs (sift_down cmp xs h k) \<and> heap cmp (sift_down cmp xs h k) h k"
  using assms
proof (induction k arbitrary: xs h rule: leo.induct)
  case (3 k)
  let ?rt = "h - 1" and ?lf = "h - 1 - leo k"
  note s = span_split [OF "3.prems"(2)]
  have kids: "heap cmp xs ?rt k" "heap cmp xs ?lf (Suc k)" using "3.prems"(1) by (simp_all add: kids_def)
  have len: "?rt < length xs" "?lf < length xs" using "3.prems"(3) by linarith+
  have sub: "span ?rt k \<subseteq> span h (Suc (Suc k))" "span ?lf (Suc k) \<subseteq> span h (Suc (Suc k))" using s(1) by blast+
  have dis: "?rt \<notin> span ?lf (Suc k)" "?lf \<notin> span ?rt k" using s(4) span_root by blast+
  have ne: "?rt \<noteq> h" "?lf \<noteq> h" "?rt \<noteq> ?lf" using dis s(2,3) span_root by metis+
  have rin: "h \<in> span h (Suc (Suc k))" "?rt \<in> span h (Suc (Suc k))" "?lf \<in> span h (Suc (Suc k))" using sub span_root by blast+
  show ?case
  proof (cases "cmp (xs ! h) (xs ! ?lf) \<ge> 0 \<and> cmp (xs ! h) (xs ! ?rt) \<ge> 0")
    case True
    then show ?thesis using kids by (simp add: ge_iff)
  next
    case big: False
    show ?thesis
    proof (cases "cmp (xs ! ?lf) (xs ! ?rt) \<ge> 0")
      case True
      let ?xs = "swap xs h ?lf"
      define ys where "ys = sift_down cmp ?xs ?lf (Suc k)"
      have ih: "rearranged (span ?lf (Suc k)) ?xs ys" "heap cmp ys ?lf (Suc k)"
        using "3.IH"(1) [OF kids_swapped [OF kids(2) s(6,3) "3.prems"(3) len(2)] s(6)] len unfolding ys_def by simp_all
      have x: "cmp (xs ! h) (xs ! ?lf) \<le> 0" using big True trans by (auto simp: ge_iff dest: not_le)
      have v: "ys ! h = xs ! ?lf" "ys ! ?rt = xs ! ?rt"
        using rearrangedD(3) [OF ih(1)] s(3) dis(1) "3.prems"(3) len ne by (simp_all add: swap_nth)
      have "heap cmp ?xs ?rt k = heap cmp xs ?rt k"
        using s(2) dis(2) len "3.prems"(3) by (intro heap_cong [OF s(5)]) (auto simp: swap_nth)
      then have "heap cmp ys ?rt k" using kids(1) heap_outside [OF ih(1) _ s(5)] s(4) by blast
      then have "heap cmp ys h (Suc (Suc k))"
        using v ih(2) True swapped_below [OF kids(2) s(6,3) "3.prems"(3) len(2) ih(1) x span_root] by (simp add: ge_iff)
      moreover have "rearranged (span h (Suc (Suc k))) xs ys"
        using rearranged_trans [OF rearranged_swap [OF "3.prems"(3) len(2) rin(1,3)] rearranged_mono [OF ih(1) sub(2)]] .
      moreover have "sift_down cmp xs h (Suc (Suc k)) = ys" using big True by (auto simp add: ys_def Let_def)
      ultimately show ?thesis by simp
    next
      case False
      let ?xs = "swap xs h ?rt"
      define ys where "ys = sift_down cmp ?xs ?rt k"
      have ih: "rearranged (span ?rt k) ?xs ys" "heap cmp ys ?rt k"
        using "3.IH"(2) [OF kids_swapped [OF kids(1) s(5,2) "3.prems"(3) len(1)] s(5)] len unfolding ys_def by simp_all
      have lr: "cmp (xs ! ?lf) (xs ! ?rt) \<le> 0" using False by simp
      have x: "cmp (xs ! h) (xs ! ?rt) \<le> 0" using big lr trans by (auto simp: ge_iff dest: not_le)
      have v: "ys ! h = xs ! ?rt" "ys ! ?lf = xs ! ?lf"
        using rearrangedD(3) [OF ih(1)] s(2) dis(2) "3.prems"(3) len ne by (simp_all add: swap_nth)
      have "heap cmp ?xs ?lf (Suc k) = heap cmp xs ?lf (Suc k)"
        using s(3) dis(1) len "3.prems"(3) by (intro heap_cong [OF s(6)]) (auto simp: swap_nth)
      then have "heap cmp ys ?lf (Suc k)" using kids(2) heap_outside [OF ih(1) s(4) s(6)] by blast
      then have "heap cmp ys h (Suc (Suc k))"
        using v ih(2) lr swapped_below [OF kids(1) s(5,2) "3.prems"(3) len(1) ih(1) x span_root] by simp
      moreover have "rearranged (span h (Suc (Suc k))) xs ys"
        using rearranged_trans [OF rearranged_swap [OF "3.prems"(3) len(1) rin(1,2)] rearranged_mono [OF ih(1) sub(1)]] .
      moreover have "sift_down cmp xs h (Suc (Suc k)) = ys" using big False by (auto simp add: ys_def Let_def)
      ultimately show ?thesis by simp
    qed
  qed
qed simp_all

end

section \<open>Forests\<close>

text \<open>
  A row of trees that ends at \<open>h\<close>: every tree a heap and the roots in ascending order.  Its orders
  ascend to the left with gaps, except that the first two may be neighbours, and its size is \<open>h + 1\<close>.
\<close>

fun forest :: "('a \<Rightarrow> 'a \<Rightarrow> int) \<Rightarrow> 'a list \<Rightarrow> nat \<Rightarrow> nat list \<Rightarrow> bool" where
  "forest cmp xs h [] \<longleftrightarrow> True"
| "forest cmp xs h (k # os) \<longleftrightarrow>
     heap cmp xs h k \<and> (os \<noteq> [] \<longrightarrow> cmp (xs ! (h - leo k)) (xs ! h) \<le> 0) \<and> forest cmp xs (h - leo k) os"

definition fits :: "nat \<Rightarrow> nat list \<Rightarrow> bool" where
  "fits h ks \<longleftrightarrow> sum_list (map leo ks) = Suc h"

lemma fits_Cons:
  assumes "fits h (k # os)"
  shows "leo k \<le> Suc h" "os = [] \<longleftrightarrow> leo k = Suc h" "os \<noteq> [] \<Longrightarrow> fits (h - leo k) os \<and> leo k \<le> h"
proof -
  have s: "leo k + sum_list (map leo os) = Suc h" using assms by (simp add: fits_def)
  have "os \<noteq> [] \<Longrightarrow> 0 < sum_list (map leo os)" by (cases os) (simp_all add: leo_pos)
  then show "leo k \<le> Suc h" "os = [] \<longleftrightarrow> leo k = Suc h" "os \<noteq> [] \<Longrightarrow> fits (h - leo k) os \<and> leo k \<le> h"
    using s by (auto simp: fits_def leo_0)
qed

lemma span_left: "span h k \<inter> {..h - leo k} = {}" "h \<notin> {..h - leo k}" if "leo k \<le> h"
  using that leo_pos [of k] by (auto simp: span_def)

lemma span_below: "span h k \<subseteq> {..h}"
  by (auto simp: span_def)

lemma forest_cong:
  assumes "fits h ks" "\<And>i. i \<le> h \<Longrightarrow> ys ! i = xs ! i"
  shows "forest cmp ys h ks = forest cmp xs h ks"
  using assms
proof (induction ks arbitrary: h)
  case (Cons k os)
  note f = fits_Cons [OF Cons.prems(1)]
  have "heap cmp ys h k = heap cmp xs h k" using Cons.prems(2) span_below by (intro heap_cong [OF f(1)]) blast
  moreover have "os \<noteq> [] \<longrightarrow> forest cmp ys (h - leo k) os = forest cmp xs (h - leo k) os"
    using Cons f(3) by simp
  ultimately show ?case using Cons.prems(2) by (cases os) simp_all
qed simp

lemma forest_outside: "rearranged A xs ys \<Longrightarrow> A \<inter> {..h} = {} \<Longrightarrow> fits h ks \<Longrightarrow> forest cmp ys h ks = forest cmp xs h ks"
  using forest_cong rearrangedD(3) by (metis atMost_iff disjoint_iff)

context comparator
begin

lemma forest_last:
  assumes "forest cmp xs h ks" "fits h ks" "i \<le> h"
  shows "cmp (xs ! i) (xs ! h) \<le> 0"
  using assms
proof (induction ks arbitrary: h)
  case (Cons k os)
  note f = fits_Cons [OF Cons.prems(2)]
  show ?case
  proof (cases "i \<in> span h k")
    case True
    then show ?thesis using heap_root [OF _ f(1)] Cons.prems(1) by auto
  next
    case False
    then have "i \<le> h - leo k" "os \<noteq> []" using Cons.prems(3) f by (auto simp: span_def)
    then show ?thesis using Cons.IH [of "h - leo k"] Cons.prems(1) f(3) trans by auto
  qed
qed (simp add: fits_def)

text \<open>The end of a trinkle: sifting, or nothing when the tree is trusted.\<close>

lemma trinkle_end:
  assumes "fits h (k # os)" "h < length xs" "if trusty then heap cmp xs h k else kids cmp xs h k"
    and "os \<noteq> [] \<Longrightarrow> forest cmp xs (h - leo k) os"
    and "os \<noteq> [] \<Longrightarrow> cmp (xs ! (h - leo k)) (xs ! h) \<le> 0 \<or> (\<not> trusty \<and> outranked cmp xs h k)"
  shows "let ys = (if trusty then xs else sift_down cmp xs h k)
    in rearranged {..h} xs ys \<and> forest cmp ys h (k # os)"
proof (cases trusty)
  case True
  then show ?thesis using assms by (cases os) simp_all
next
  case False
  note f = fits_Cons [OF assms(1)]
  define ys where "ys = sift_down cmp xs h k"
  have sd: "rearranged (span h k) xs ys" "heap cmp ys h k"
    using sift_down_heap [of xs h k] assms(2,3) False f(1) by (simp_all add: ys_def)
  have below: "cmp (xs ! i) (ys ! h) \<le> 0" if "i \<in> span h k" for i
    using rearrangedD(5) [OF sd(1) that] heap_root [OF sd(2) f(1)] by metis
  have "forest cmp ys (h - leo k) os \<and> cmp (ys ! (h - leo k)) (ys ! h) \<le> 0" if "os \<noteq> []"
  proof -
    have l: "fits (h - leo k) os" "leo k \<le> h" using f(3) that by simp_all
    note left = span_left [OF l(2)]
    have same: "ys ! (h - leo k) = xs ! (h - leo k)" using rearrangedD(3) [OF sd(1)] left(1) by blast
    have "cmp (xs ! (h - leo k)) (ys ! h) \<le> 0"
      using assms(5) [OF that]
    proof
      assume "\<not> trusty \<and> outranked cmp xs h k"
      then obtain j where j: "k = Suc (Suc j)" by (cases k rule: leo.cases) (auto simp: outranked_def)
      then have "h - 1 \<in> span h k" "h - 1 - leo j \<in> span h k" using span_split(1) f(1) span_root by blast+
      then show ?thesis using \<open>\<not> trusty \<and> outranked cmp xs h k\<close> j below trans by (auto simp: outranked_def Let_def ge_iff)
    qed (use below trans span_root in blast)
    then show ?thesis using same forest_outside [OF sd(1) left(1) l(1)] assms(4) [OF that] by simp
  qed
  then have "forest cmp ys h (k # os)" using sd(2) by (cases os) simp_all
  then show ?thesis using False rearranged_mono [OF sd(1) span_below] by (simp add: ys_def)
qed

text \<open>One swap along the roots: the tree left behind is a heap below its new root.\<close>

lemma trinkle_swap:
  assumes "fits h (k # os)" "os \<noteq> []" "h < length xs" "if trusty then heap cmp xs h k else kids cmp xs h k"
    and "cmp (xs ! h) (xs ! (h - leo k)) \<le> 0" "trusty \<or> \<not> outranked cmp xs h k"
  shows "heap cmp (swap xs h (h - leo k)) h k"
proof (cases k rule: leo.cases)
  case (3 j)
  let ?s = "h - leo k" and ?ys = "swap xs h (h - leo k)"
  note f = fits_Cons [OF assms(1)]
  have lk: "leo k \<le> h" "?s < length xs" using f(3) assms(2,3) by simp_all
  note s = span_split [OF f(1) [unfolded 3], folded 3]
  have keep: "?ys ! i = xs ! i" if "i \<in> span h k" "i \<noteq> h" for i
    using that span_left(1) [OF lk(1)] assms(3) lk(2) by (auto simp: swap_nth)
  have in_h: "h - 1 \<in> span h k" "h - 1 - leo j \<in> span h k" using s(1) span_root by blast+
  have ne_h: "h - 1 \<noteq> h" "h - 1 - leo j \<noteq> h" using s(7) by linarith+
  have "heap cmp ?ys h k \<longleftrightarrow> cmp (xs ! (h - 1)) (xs ! ?s) \<le> 0 \<and> cmp (xs ! (h - 1 - leo j)) (xs ! ?s) \<le> 0 \<and> kids cmp xs h k"
  proof -
    have "kids cmp ?ys h k = kids cmp xs h k" using keep by (intro kids_cong [OF f(1)]) blast
    then show ?thesis using keep in_h ne_h assms(3) lk(2) 3 by (auto simp: kids_def swap_nth)
  qed
  moreover have "cmp (xs ! (h - 1)) (xs ! ?s) \<le> 0 \<and> cmp (xs ! (h - 1 - leo j)) (xs ! ?s) \<le> 0"
  proof (cases trusty)
    case True
    then show ?thesis using assms(4,5) heap_root [OF _ f(1)] in_h(1,2) trans by simp blast
  next
    case False
    then show ?thesis using assms(6) 3 not_le by (auto simp: outranked_def Let_def ge_iff)
  qed
  ultimately show ?thesis using assms(4) heap_kids by (cases trusty) auto
qed simp_all

lemma trinkle_left_forest:
  assumes "fits h (k # os)" "h < length xs" "if trusty then heap cmp xs h k else kids cmp xs h k"
    and "os \<noteq> [] \<Longrightarrow> forest cmp xs (h - leo k) os"
  shows "rearranged {..h} xs (trinkle_left cmp xs h (k # os) trusty) \<and>
    forest cmp (trinkle_left cmp xs h (k # os) trusty) h (k # os)"
  using assms
proof (induction os arbitrary: xs h k trusty)
  case Nil
  then show ?case using trinkle_end [of h k "[]" xs trusty] by (simp add: Let_def split: if_splits)
next
  case (Cons o1 os)
  let ?s = "h - leo k" and ?stop = "cmp (xs ! (h - leo k)) (xs ! h) \<le> 0 \<or> (\<not> trusty \<and> outranked cmp xs h k)"
  note f = fits_Cons [OF Cons.prems(1)]
  have l: "fits ?s (o1 # os)" "leo k \<le> h" "?s < length xs" using f(3) Cons.prems(2) by auto
  show ?case
  proof (cases ?stop)
    case True
    then show ?thesis
      using trinkle_end [OF Cons.prems] by (simp add: Let_def)
  next
    case False
    define xs' where "xs' = swap xs h ?s"
    define ys where "ys = trinkle_left cmp xs' ?s (o1 # os) False"
    have x: "cmp (xs ! h) (xs ! ?s) \<le> 0" using False not_le by blast
    have fo: "forest cmp xs ?s (o1 # os)" using Cons.prems(4) by simp
    have same: "xs' ! i = xs ! i" if "i < ?s" for i
      using that l Cons.prems(2) by (auto simp: xs'_def swap_nth)
    note fs = fits_Cons [OF l(1)]
    have "kids cmp xs' ?s o1 = kids cmp xs ?s o1"
      using same by (intro kids_cong [OF fs(1)]) (auto simp: span_def)
    then have k: "kids cmp xs' ?s o1" using fo heap_kids by auto
    have "os \<noteq> [] \<Longrightarrow> forest cmp xs' (?s - leo o1) os"
    proof -
      assume o: "os \<noteq> []"
      then have "?s - leo o1 < ?s" using fs(3) leo_pos [of o1] by linarith
      then show ?thesis using same forest_cong [of "?s - leo o1" os xs' xs cmp] fs(3) [OF o] fo by simp
    qed
    then have ih: "rearranged {..?s} xs' ys" "forest cmp ys ?s (o1 # os)"
      using Cons.IH [OF l(1), of xs' False] k l(3) unfolding ys_def xs'_def by simp_all
    have hs: "?s < h" using l(2) leo_pos [of k] by linarith
    then have out: "ys ! h = xs ! ?s" using rearrangedD(3) [OF ih(1), of h] l(3) Cons.prems(2) by (simp add: xs'_def swap_nth)
    have "heap cmp xs' h k" unfolding xs'_def
      using False by (intro trinkle_swap [OF Cons.prems(1) _ Cons.prems(2,3) x]) auto
    then have "heap cmp ys h k" using heap_outside [OF ih(1) _ f(1)] span_left(1) [OF l(2)] by blast
    moreover have "cmp (ys ! ?s) (ys ! h) \<le> 0"
    proof -
      obtain j where j: "j \<le> ?s" "ys ! ?s = xs' ! j" using rearrangedD(4) [OF ih(1), of ?s] by auto
      then show ?thesis
        using forest_last [OF fo l(1)] x l(3) Cons.prems(2) out by (auto simp: xs'_def swap_nth)
    qed
    ultimately have "forest cmp ys h (k # o1 # os)" using ih(2) by simp
    moreover have "rearranged {..h} xs ys"
    proof -
      have "rearranged {..h} xs xs'" unfolding xs'_def using l(3) Cons.prems(2) by (intro rearranged_swap) auto
      then show ?thesis using rearranged_trans rearranged_mono [OF ih(1), of "{..h}"] hs by fastforce
    qed
    moreover have "trinkle_left cmp xs h (k # o1 # os) trusty = ys" using False by (auto simp add: ys_def xs'_def Let_def)
    ultimately show ?thesis by simp
  qed
qed

end

section \<open>Building the forest\<close>

fun gaps :: "nat list \<Rightarrow> bool" where
  "gaps (k # o1 # os) \<longleftrightarrow> k + 2 \<le> o1 \<and> gaps (o1 # os)"
| "gaps ks \<longleftrightarrow> True"

definition shape :: "nat list \<Rightarrow> bool" where
  "shape ks =
     (case ks of [] \<Rightarrow> False | [k] \<Rightarrow> k \<noteq> 0 | k # o1 # os \<Rightarrow> k < o1 \<and> (k = 0 \<longrightarrow> o1 = 1) \<and> gaps (o1 # os))"

lemma shape_cases:
  assumes "shape ks"
  obtains (single) k where "ks = [k]" "k \<noteq> 0"
  | (neighbours) k os where "ks = k # Suc k # os" "gaps (Suc k # os)"
  | (apart) k o1 os where "ks = k # o1 # os" "k \<noteq> 0" "k + 2 \<le> o1" "gaps (o1 # os)"
proof -
  consider k where "ks = [k]" "k \<noteq> 0" | k o1 os where "ks = k # o1 # os" "k < o1" "k = 0 \<longrightarrow> o1 = 1" "gaps (o1 # os)"
    using assms by (auto simp: shape_def split: list.splits)
  then show ?thesis
  proof cases
    case (2 k o1 os)
    then show ?thesis using neighbours apart by (cases "o1 = Suc k") auto
  qed (rule single)
qed

lemma adjacent_simps [simp]: "\<not> adjacent [k]" "adjacent (k # o1 # os) \<longleftrightarrow> o1 = Suc k"
  by (simp_all add: adjacent_def)

lemma gaps_above: "gaps (k # os) \<Longrightarrow> o1 \<in> set os \<Longrightarrow> k + 2 \<le> o1"
  by (induction os arbitrary: k) force+

lemma grow_forest_shape:
  assumes "shape ks"
  shows "shape (grow_forest ks)"
  using assms
proof (cases rule: shape_cases)
  case (neighbours k os)
  then show ?thesis by (cases os) (auto simp: grow_forest_def shape_def)
qed (auto simp: grow_forest_def shape_def)

lemma grow_forest_fits: "fits h ks \<Longrightarrow> fits (Suc h) (grow_forest ks)"
  by (auto simp: grow_forest_def fits_def split: list.splits)

text \<open>
  While the forest grows, a tree that will be absorbed by a later one need not respect the order of the
  roots.  A tree is final when there is no room behind it for a right sibling and a common root.
\<close>

fun settled :: "('a \<Rightarrow> 'a \<Rightarrow> int) \<Rightarrow> 'a list \<Rightarrow> nat \<Rightarrow> nat \<Rightarrow> nat list \<Rightarrow> bool" where
  "settled cmp xs high h [] \<longleftrightarrow> True"
| "settled cmp xs high h (k # os) \<longleftrightarrow>
     heap cmp xs h k \<and> (os \<noteq> [] \<and> high - h \<le> leo (k - 1) \<longrightarrow> cmp (xs ! (h - leo k)) (xs ! h) \<le> 0) \<and>
     settled cmp xs high (h - leo k) os"

lemma forest_settled: "forest cmp xs h ks \<Longrightarrow> settled cmp xs high h ks"
  by (induction ks arbitrary: h) auto

lemma settled_forest:
  assumes "settled cmp xs high h (k # os)" "gaps (k # os)" "k \<noteq> 0" "fits h (k # os)" "high - h \<le> leo (k - 1)"
  shows "forest cmp xs h (k # os)"
  using assms
proof (induction os arbitrary: h k)
  case (Cons o1 os)
  note f = fits_Cons [OF Cons.prems(4)]
  have "leo (Suc k) = leo k + leo (k - 1) + 1" using Cons.prems(3) by (cases k) simp_all
  moreover have "leo (Suc k) \<le> leo (o1 - 1)" using Cons.prems(2) by (intro leo_mono) auto
  ultimately have "high - (h - leo k) \<le> leo (o1 - 1)" using Cons.prems(5) by linarith
  then have "forest cmp xs (h - leo k) (o1 # os)" using Cons f(3) by (intro Cons.IH) simp_all
  then show ?case using Cons.prems(1,5) by simp
qed simp

lemma settled_cong:
  assumes "fits h ks" "\<And>i. i \<le> h \<Longrightarrow> ys ! i = xs ! i"
  shows "settled cmp ys high h ks = settled cmp xs high h ks"
  using assms
proof (induction ks arbitrary: h)
  case (Cons k os)
  note f = fits_Cons [OF Cons.prems(1)]
  have "heap cmp ys h k = heap cmp xs h k" using Cons.prems(2) span_below by (intro heap_cong [OF f(1)]) blast
  moreover have "os \<noteq> [] \<longrightarrow> settled cmp ys high (h - leo k) os = settled cmp xs high (h - leo k) os"
    using Cons f(3) by simp
  ultimately show ?case using Cons.prems(2) by (cases os) simp_all
qed simp

lemma settled_outside:
  "rearranged A xs ys \<Longrightarrow> A \<inter> {..h} = {} \<Longrightarrow> fits h ks \<Longrightarrow> settled cmp ys high h ks = settled cmp xs high h ks"
  using settled_cong rearrangedD(3) by (metis atMost_iff disjoint_iff)

text \<open>The state before the last tree is settled.\<close>

definition growing :: "('a \<Rightarrow> 'a \<Rightarrow> int) \<Rightarrow> 'a list \<Rightarrow> nat \<Rightarrow> nat \<Rightarrow> nat list \<Rightarrow> bool" where
  "growing cmp xs high h ks \<longleftrightarrow>
     shape ks \<and> fits h ks \<and> kids cmp xs h (hd ks) \<and>
     (tl ks \<noteq> [] \<longrightarrow> settled cmp xs high (h - leo (hd ks)) (tl ks))"

context comparator
begin

text \<open>When the last tree is final, everything before it is.\<close>

lemma growing_trinkle:
  assumes g: "growing cmp xs high h ks" and h: "h < length xs"
    and final: "high - h \<le> (if adjacent ks then 0 else leo (hd ks - 1))"
  shows "rearranged {..h} xs (trinkle_left cmp xs h ks False) \<and> forest cmp (trinkle_left cmp xs h ks False) h ks"
proof -
  obtain k os where ks: "ks = k # os" using g by (cases ks) (auto simp: growing_def shape_def)
  note f = fits_Cons [of h k os]
  have "forest cmp xs (h - leo k) os" if o: "os \<noteq> []"
  proof -
    obtain o1 os' where os: "os = o1 # os'" using o by (cases os) auto
    have sh: "k < o1" "k = 0 \<longrightarrow> o1 = 1" "gaps (o1 # os')" using g ks os by (auto simp: growing_def shape_def)
    have "high - (h - leo k) \<le> leo (o1 - 1)"
    proof (cases "o1 = Suc k")
      case True
      then show ?thesis using final ks os by simp
    next
      case False
      then have "leo (Suc k) \<le> leo (o1 - 1)" "k \<noteq> 0" using sh by (auto intro!: leo_mono)
      moreover have "leo (Suc k) = leo k + leo (k - 1) + 1" using \<open>k \<noteq> 0\<close> by (cases k) simp_all
      ultimately show ?thesis using final ks os False by simp
    qed
    then show ?thesis
      unfolding os using g ks os sh f(3) by (intro settled_forest) (auto simp: growing_def)
  qed
  then show ?thesis using g h ks trinkle_left_forest [of h k os xs False] by (simp add: growing_def)
qed

lemma growing_sift:
  assumes g: "growing cmp xs high h (k # os)" and h: "h < length xs"
  shows "rearranged {..h} xs (sift_down cmp xs h k) \<and> heap cmp (sift_down cmp xs h k) h k \<and>
    (os \<noteq> [] \<longrightarrow> settled cmp (sift_down cmp xs h k) high (h - leo k) os)"
proof -
  have f: "fits h (k # os)" using g by (simp add: growing_def)
  note fc = fits_Cons [OF f]
  have s: "rearranged (span h k) xs (sift_down cmp xs h k)" "heap cmp (sift_down cmp xs h k) h k"
    using sift_down_heap [of xs h k] g h fc(1) by (simp_all add: growing_def)
  then show ?thesis
    using settled_outside [OF s(1)] span_left(1) fc(3) g rearranged_mono [OF s(1) span_below] by (simp add: growing_def)
qed

text \<open>One step of the first phase.\<close>

lemma growing_joins:
  assumes "heap cmp ys h k" "settled cmp ys high (h - leo k) (Suc k # os)" "shape (k # Suc k # os)" "fits h (k # Suc k # os)"
  shows "growing cmp ys high (Suc h) (Suc (Suc k) # os)"
proof -
  have f: "leo k + leo (Suc k) \<le> Suc h" using assms(4) by (simp add: fits_def)
  have "shape (Suc (Suc k) # os)" "fits (Suc h) (Suc (Suc k) # os)"
    using grow_forest_shape [OF assms(3)] grow_forest_fits [OF assms(4)] by (simp_all add: grow_forest_def)
  moreover have "Suc h - leo (Suc (Suc k)) = h - leo k - leo (Suc k)" by simp
  ultimately show ?thesis using assms(1,2) by (simp add: growing_def kids_def)
qed

lemma growing_adds:
  assumes "settled cmp ys high h ks" "\<not> adjacent ks" "shape ks" "fits h ks"
  shows "growing cmp ys high (Suc h) (grow_forest ks)"
proof -
  have "grow_forest ks = (if hd ks = 1 then 0 else 1) # ks"
    using assms(2,3) by (cases rule: shape_cases [OF assms(3)]) (auto simp: grow_forest_def)
  then show ?thesis
    using grow_forest_shape [OF assms(3)] grow_forest_fits [OF assms(4)] assms(1) by (simp add: growing_def)
qed

lemma growing_settle:
  assumes g: "growing cmp xs high h ks" and h: "h < high" "high < length xs"
  shows "rearranged {..h} xs (settle cmp high xs h ks) \<and> growing cmp (settle cmp high xs h ks) high (Suc h) (grow_forest ks)"
proof -
  let ?ys = "settle cmp high xs h ks"
  have sh: "shape ks" "fits h ks" using g by (simp_all add: growing_def)
  obtain k os where ks: "ks = k # os" using sh(1) by (cases ks) (auto simp: shape_def)
  have hl: "h < length xs" using h by simp
  note sift = growing_sift [OF g [unfolded ks] hl]
  show ?thesis
  proof (cases "adjacent ks")
    case True
    then obtain os' where os: "os = Suc k # os'" using ks by (cases os) (auto simp: adjacent_def)
    have "?ys = sift_down cmp xs h k" using True ks by (simp add: settle_def)
    moreover have "grow_forest ks = Suc (Suc k) # os'" using ks os by (simp add: grow_forest_def)
    ultimately show ?thesis
      using sift growing_joins [of ?ys h k high os'] sh ks os by simp
  next
    case apart: False
    show ?thesis
    proof (cases "leo (k - 1) \<ge> high - h")
      case True
      then have "?ys = trinkle_left cmp xs h ks False" using apart ks by (simp add: settle_def)
      then show ?thesis
        using growing_trinkle [OF g hl] True apart ks growing_adds [OF forest_settled apart sh] by simp
    next
      case False
      then have ys: "?ys = sift_down cmp xs h k" using ks by (simp add: settle_def)
      then have "settled cmp ?ys high h ks" using sift False ks by (cases os) auto
      then show ?thesis using growing_adds [OF _ apart sh] sift ys by simp
    qed
  qed
qed

lemma build_forest:
  assumes "growing cmp xs high h ks" "h \<le> high" "high < length xs"
  shows "case build cmp high xs h ks of (ys, ls) \<Rightarrow>
    length ys = length xs \<and> mset ys = mset xs \<and> shape ls \<and> fits high ls \<and> forest cmp ys high ls"
  using assms
proof (induction "high - h" arbitrary: xs h ks)
  case 0
  then have h: "h = high" by simp
  have b: "build cmp high xs h ks = (trinkle_left cmp xs high ks False, ks)" unfolding h by (subst build.simps) simp
  have "rearranged {..high} xs (trinkle_left cmp xs high ks False) \<and> forest cmp (trinkle_left cmp xs high ks False) high ks"
    using growing_trinkle [of xs high high ks] "0.prems" h by simp
  then show ?case
    using rearrangedD(1,2) "0.prems"(1) unfolding b [unfolded h] h growing_def prod.case by blast
next
  case (Suc d)
  then have h: "h < high" by simp
  note st = growing_settle [OF Suc.prems(1) h Suc.prems(3)]
  then have len: "length (settle cmp high xs h ks) = length xs" "mset (settle cmp high xs h ks) = mset xs"
    using rearrangedD(1,2) by blast+
  have "build cmp high xs h ks = build cmp high (settle cmp high xs h ks) (Suc h) (grow_forest ks)"
    using h by (subst build.simps) simp
  then show ?case
    using Suc.hyps(1) [of "Suc h" "settle cmp high xs h ks" "grow_forest ks"] Suc.hyps(2) Suc.prems(3) h st len
    by auto
qed

end

section \<open>Taking the forest apart\<close>

lemma shrink_forest_shape:
  assumes "shape ks" "ks \<noteq> [1]"
  shows "shape (shrink_forest ks)"
proof -
  obtain k os where ks: "ks = k # os" using assms(1) by (cases ks) (auto simp: shape_def)
  show ?thesis
  proof (cases "k \<le> 1")
    case True
    then have "os \<noteq> []" using assms ks by (auto simp: shape_def split: list.splits)
    then obtain o1 os' where os: "os = o1 # os'" by (cases os) auto
    then show ?thesis using assms(1) ks True by (cases os') (auto simp: shape_def)
  next
    case False
    then show ?thesis using assms(1) ks by (cases os) (auto simp: shape_def)
  qed
qed

lemma shrink_forest_fits:
  assumes "fits (Suc h) ks"
  shows "fits h (shrink_forest ks)"
proof -
  obtain k os where ks: "ks = k # os" using assms by (cases ks) (auto simp: fits_def)
  show ?thesis
  proof (cases k rule: leo.cases)
    case (3 j)
    then show ?thesis using assms ks by (simp add: fits_def)
  qed (use assms ks in \<open>simp_all add: fits_def\<close>)
qed

text \<open>What is behind the forest is in order, and not below anything in the forest.\<close>

definition taken :: "('a \<Rightarrow> 'a \<Rightarrow> int) \<Rightarrow> 'a list \<Rightarrow> nat \<Rightarrow> bool" where
  "taken cmp xs h \<longleftrightarrow> (\<forall>i j. i < j \<and> h < j \<and> j < length xs \<longrightarrow> cmp (xs ! i) (xs ! j) \<le> 0)"

context comparator
begin

lemma taken_rearranged:
  assumes "taken cmp xs h" "rearranged A xs ys" "A \<subseteq> {..h}"
  shows "taken cmp ys h"
  unfolding taken_def
proof (intro allI impI)
  fix i j
  assume a: "i < j \<and> h < j \<and> j < length ys"
  have len: "length ys = length xs" using rearrangedD(1) [OF assms(2)] .
  have j: "ys ! j = xs ! j" using a assms(3) by (intro rearrangedD(3) [OF assms(2)]) auto
  show "cmp (ys ! i) (ys ! j) \<le> 0"
  proof (cases "i \<in> A")
    case True
    then obtain l where "l \<in> A" "ys ! i = xs ! l" using rearrangedD(4) [OF assms(2)] by blast
    then show ?thesis using assms(1,3) a j len by (auto simp: taken_def)
  next
    case False
    then show ?thesis using rearrangedD(3) [OF assms(2) False] assms(1) a j len by (auto simp: taken_def)
  qed
qed

lemma taken_next:
  assumes "taken cmp xs (Suc h)" "forest cmp xs (Suc h) ks" "fits (Suc h) ks" "rearranged {..h} xs ys"
  shows "taken cmp ys h"
proof -
  have "taken cmp xs h"
    unfolding taken_def
  proof (intro allI impI)
    fix i j
    assume a: "i < j \<and> h < j \<and> j < length xs"
    show "cmp (xs ! i) (xs ! j) \<le> 0"
    proof (cases "j = Suc h")
      case True
      then show ?thesis using forest_last [OF assms(2,3), of i] a by simp
    next
      case False
      then show ?thesis using assms(1) a by (simp add: taken_def)
    qed
  qed
  then show ?thesis using assms(4) by (rule taken_rearranged) simp
qed

lemma expose_forest:
  assumes "forest cmp xs (Suc h) ks" "fits (Suc h) ks" "Suc h < length xs"
  shows "rearranged {..h} xs (expose cmp xs (Suc h) ks) \<and> forest cmp (expose cmp xs (Suc h) ks) h (shrink_forest ks)"
proof -
  obtain k os where ks: "ks = k # os" using assms(2) by (cases ks) (auto simp: fits_def)
  note f = fits_Cons [OF assms(2) [unfolded ks]]
  have fits: "fits h (shrink_forest ks)" using assms(2) by (rule shrink_forest_fits)
  show ?thesis
  proof (cases k rule: leo.cases)
    case (3 j)
    let ?lf = "h - leo j"
    define ys where "ys = trinkle_left cmp xs ?lf (Suc j # os) True"
    have hp: "heap cmp xs h j" "heap cmp xs ?lf (Suc j)" using assms(1) ks 3 by simp_all
    have fr: "fits h (j # Suc j # os)" using fits ks 3 by simp
    note fl = fits_Cons(3) [OF fr, simplified]
    have pos: "Suc h - leo k = ?lf - leo (Suc j)" using 3 by simp
    have "os \<noteq> [] \<Longrightarrow> forest cmp xs (?lf - leo (Suc j)) os" using assms(1) ks pos by simp
    then have t1: "rearranged {..?lf} xs ys" "forest cmp ys ?lf (Suc j # os)"
      using trinkle_left_forest [of ?lf "Suc j" os xs True] fl hp(2) assms(3) unfolding ys_def by simp_all
    have "heap cmp ys h j"
      using heap_outside [OF t1(1)] span_left(1) [of j h] fl hp(1) fits_Cons(1) [OF fr] by blast
    then have t2: "rearranged {..h} ys (trinkle_left cmp ys h (j # Suc j # os) True)"
        "forest cmp (trinkle_left cmp ys h (j # Suc j # os) True) h (j # Suc j # os)"
      using trinkle_left_forest [OF fr, of ys True] t1 assms(3) rearrangedD(1) [OF t1(1)] by simp_all
    have "rearranged {..h} xs (trinkle_left cmp ys h (j # Suc j # os) True)"
      using rearranged_trans [OF rearranged_mono [OF t1(1)] t2(1)] by simp
    moreover have "expose cmp xs (Suc h) ks = trinkle_left cmp ys h (j # Suc j # os) True"
      using ks 3 by (simp add: expose_def ys_def)
    ultimately show ?thesis using t2(2) ks 3 by simp
  qed (use assms(1) ks in \<open>simp_all add: expose_def\<close>)
qed

lemma dequeue_sorted:
  assumes "forest cmp xs h ks" "fits h ks" "h < length xs" "taken cmp xs h"
  shows "mset (dequeue cmp xs h ks) = mset xs \<and> taken cmp (dequeue cmp xs h ks) 0"
  using assms
proof (induction h arbitrary: xs ks)
  case (Suc h)
  let ?ys = "expose cmp xs (Suc h) ks"
  have e: "rearranged {..h} xs ?ys" "forest cmp ?ys h (shrink_forest ks)"
    using expose_forest [OF Suc.prems(1-3)] by simp_all
  have "taken cmp ?ys h" by (rule taken_next [OF Suc.prems(4,1,2) e(1)])
  then have "mset (dequeue cmp ?ys h (shrink_forest ks)) = mset ?ys \<and> taken cmp (dequeue cmp ?ys h (shrink_forest ks)) 0"
    using Suc.IH [OF e(2) shrink_forest_fits [OF Suc.prems(2)]] Suc.prems(3) rearrangedD(1) [OF e(1)] by simp
  then show ?case using rearrangedD(2) [OF e(1)] by simp
qed simp

lemma smoothsort_sorts:
  "mset (smoothsort cmp xs) = mset xs \<and> sorted_wrt (\<lambda>a b. cmp a b \<le> 0) (smoothsort cmp xs)"
proof (cases "xs = []")
  case False
  let ?n = "length xs - 1"
  obtain ys ks where b: "build cmp ?n xs 0 [1] = (ys, ks)" by fastforce
  have "growing cmp xs ?n 0 [1]" by (simp add: growing_def shape_def fits_def)
  then have f: "length ys = length xs" "mset ys = mset xs" "fits ?n ks" "forest cmp ys ?n ks"
    using build_forest [of xs ?n 0 "[1]"] False b by simp_all
  have "taken cmp ys ?n" using f(1) by (auto simp: taken_def)
  then have d: "mset (dequeue cmp ys ?n ks) = mset ys" "taken cmp (dequeue cmp ys ?n ks) 0"
    using dequeue_sorted [OF f(4,3)] f(1) False by simp_all
  then have "sorted_wrt (\<lambda>a b. cmp a b \<le> 0) (dequeue cmp ys ?n ks)" by (auto simp: taken_def sorted_wrt_iff_nth_less)
  then show ?thesis using d f(2) b False by (simp add: smoothsort_def)
qed (simp add: smoothsort_def)

end

section \<open>The elements compared\<close>

text \<open>Every comparison is between two elements of the array, so that only what \<open>cmp\<close> says of these
  matters.\<close>

lemma set_swap [simp]: "i < length xs \<Longrightarrow> j < length xs \<Longrightarrow> set (swap xs i j) = set xs"
  using rearrangedD(2) [OF rearranged_swap [of i xs j UNIV]] by (metis UNIV_I set_mset_mset)

definition agree :: "('a \<Rightarrow> 'a \<Rightarrow> int) \<Rightarrow> ('a \<Rightarrow> 'a \<Rightarrow> int) \<Rightarrow> 'a set \<Rightarrow> bool" where
  "agree cmp cmp' A \<longleftrightarrow> (\<forall>a\<in>A. \<forall>b\<in>A. cmp a b = cmp' a b)"

lemma agree_nth: "agree cmp cmp' (set xs) \<Longrightarrow> i < length xs \<Longrightarrow> j < length xs \<Longrightarrow> cmp (xs ! i) (xs ! j) = cmp' (xs ! i) (xs ! j)"
  by (simp add: agree_def)

lemma sift_down_agree:
  "agree cmp cmp' (set xs) \<Longrightarrow> h < length xs \<Longrightarrow>
   sift_down cmp xs h k = sift_down cmp' xs h k \<and> set (sift_down cmp' xs h k) = set xs"
proof (induction cmp xs h k rule: sift_down.induct)
  case (3 cmp xs h k)
  have l: "h - 1 < length xs" "h - 1 - leo k < length xs" using "3.prems"(2) by simp_all
  show ?case
    using 3 l agree_nth [OF "3.prems"(1) _ l(1)] agree_nth [OF "3.prems"(1) _ l(2)] by (simp add: Let_def)
qed simp_all

lemma trinkle_left_agree:
  "agree cmp cmp' (set xs) \<Longrightarrow> h < length xs \<Longrightarrow>
   trinkle_left cmp xs h ks trusty = trinkle_left cmp' xs h ks trusty \<and> set (trinkle_left cmp' xs h ks trusty) = set xs"
proof (induction cmp xs h ks trusty rule: trinkle_left.induct)
  case (2 cmp xs h k trusty)
  then show ?case by (simp add: sift_down_agree)
next
  case (3 cmp xs h k o1 os trusty)
  have l: "h - leo k < length xs" "h - 1 < length xs" "h - 1 - leo (k - 2) < length xs" using "3.prems"(2) by simp_all
  have "outranked cmp xs h k = outranked cmp' xs h k"
    using l agree_nth [OF "3.prems"(1) _ l(1)] by (simp add: outranked_def Let_def)
  then show ?case
    using 3 l agree_nth [OF "3.prems"(1) l(1)] by (simp add: Let_def sift_down_agree)
qed simp

lemma settle_agree:
  assumes "agree cmp cmp' (set xs)" "h < length xs"
  shows "settle cmp high xs h ks = settle cmp' high xs h ks \<and> set (settle cmp' high xs h ks) = set xs"
  using trinkle_left_agree [OF assms] sift_down_agree [OF assms] by (simp add: settle_def)

lemma build_agree:
  "agree cmp cmp' (set xs) \<Longrightarrow> h \<le> high \<Longrightarrow> high < length xs \<Longrightarrow>
   build cmp high xs h ks = build cmp' high xs h ks \<and> set (fst (build cmp' high xs h ks)) = set xs \<and>
   length (fst (build cmp' high xs h ks)) = length xs"
proof (induction "high - h" arbitrary: xs h ks)
  case 0
  then show ?case using trinkle_left_agree [OF "0.prems"(1), of h] by (simp add: build.simps)
next
  case (Suc d)
  let ?ys = "settle cmp' high xs h ks"
  have s: "settle cmp high xs h ks = ?ys" "set ?ys = set xs"
    using settle_agree [OF Suc.prems(1), of h] Suc.prems Suc.hyps(2) by simp_all
  have "h < high" "d = high - Suc h" using Suc.hyps(2) by simp_all
  then show ?case using Suc.hyps(1) [of "Suc h" ?ys "grow_forest ks"] Suc.prems s by (simp add: build.simps [of _ _ _ h])
qed

lemma expose_agree:
  assumes "agree cmp cmp' (set xs)" "h < length xs"
  shows "expose cmp xs h ks = expose cmp' xs h ks \<and> set (expose cmp' xs h ks) = set xs"
proof (cases ks)
  case (Cons k os)
  let ?ys = "trinkle_left cmp' xs (h - 1 - leo (k - 2)) ((k - 1) # os) True"
  have s: "trinkle_left cmp xs (h - 1 - leo (k - 2)) ((k - 1) # os) True = ?ys" "set ?ys = set xs"
    using trinkle_left_agree [OF assms(1)] assms(2) by simp_all
  then show ?thesis
    using trinkle_left_agree [of cmp cmp' ?ys "h - 1" "(k - 2) # (k - 1) # os" True] assms Cons by (simp add: expose_def Let_def)
qed (simp add: expose_def)

lemma dequeue_agree:
  "agree cmp cmp' (set xs) \<Longrightarrow> h < length xs \<Longrightarrow> dequeue cmp xs h ks = dequeue cmp' xs h ks"
proof (induction cmp xs h ks rule: dequeue.induct)
  case (2 cmp xs h ks)
  then show ?case using expose_agree [OF "2.prems", of ks] by simp
qed simp

lemma smoothsort_agree:
  assumes "agree cmp cmp' (set xs)"
  shows "smoothsort cmp xs = smoothsort cmp' xs"
proof (cases "xs = []")
  case False
  have b: "build cmp (length xs - 1) xs 0 [1] = build cmp' (length xs - 1) xs 0 [1]"
    "set (fst (build cmp' (length xs - 1) xs 0 [1])) = set xs" "length (fst (build cmp' (length xs - 1) xs 0 [1])) = length xs"
    using build_agree [OF assms, of 0 "length xs - 1" "[1]"] False by simp_all
  then show ?thesis using dequeue_agree [of cmp cmp' "fst (build cmp' (length xs - 1) xs 0 [1])" "length xs - 1"] False assms
    by (simp add: smoothsort_def case_prod_beta)
qed (simp add: smoothsort_def)

end
