(* ===== verification/Musl_Qsort.thy ===== *)
theory Musl_Qsort
  imports Smoothsort "HOL-Library.Monad_Syntax"
begin

text \<open>
  \<^verbatim>\<open>qsort\<close> and \<^verbatim>\<open>bsearch\<close> of musl (\<^verbatim>\<open>src/stdlib\<close>).  The array is a list of bytes and a
  pointer into it an offset; \<open>None\<close> stands for a pointer outside the array, an index outside one of the
  function's own arrays, a shift that C leaves undefined, or a loop that never ends.  The comparison
  function is a parameter applied to the bytes of two elements.  Sizes are natural numbers, with the
  wrap-around of \<^verbatim>\<open>size_t\<close> written out where they are computed.
\<close>

section \<open>Counting trailing zeros\<close>

definition debruijn64 :: "nat list" where
  "debruijn64 =
     [0, 1, 2, 53, 3, 7, 54, 27] @ [4, 38, 41, 8, 34, 55, 48, 28] @
     [62, 5, 39, 46, 44, 42, 22, 9] @ [24, 35, 59, 56, 49, 18, 29, 11] @
     [63, 52, 6, 26, 37, 40, 33, 47] @ [61, 45, 43, 21, 23, 58, 17, 10] @
     [51, 25, 36, 32, 60, 20, 57, 16] @ [50, 31, 19, 15, 30, 14, 13, 12]"

definition a_ctz_64 :: "u64 \<Rightarrow> nat" where
  "a_ctz_64 x = debruijn64 ! unat (drop_bit 58 ((x AND - x) * 0x022fdd63cc95386d))"

section \<open>The bit string of the forest\<close>

text \<open>Two words, the low one first; a shift by 0 or by at least 128 is undefined.\<close>

type_synonym tree_bits = "u64 \<times> u64"

definition pntz :: "tree_bits \<Rightarrow> nat" where
  "pntz p =
     (let r = a_ctz_64 (fst p - 1)
      in if r \<noteq> 0 then r
         else let r = 64 + a_ctz_64 (snd p) in if r \<noteq> 64 then r else 0)"

definition shl :: "tree_bits \<Rightarrow> nat \<Rightarrow> tree_bits option" where
  "shl p n =
     (let (n, p) = (if n \<ge> 64 then (n - 64, (0, fst p)) else (n, p))
      in if n = 0 \<or> n \<ge> 64 then None
         else Some (push_bit n (fst p), push_bit n (snd p) OR drop_bit (64 - n) (fst p)))"

definition shr :: "tree_bits \<Rightarrow> nat \<Rightarrow> tree_bits option" where
  "shr p n =
     (let (n, p) = (if n \<ge> 64 then (n - 64, (snd p, 0)) else (n, p))
      in if n = 0 \<or> n \<ge> 64 then None
         else Some (drop_bit n (fst p) OR push_bit (64 - n) (snd p), drop_bit n (snd p)))"

section \<open>Moving elements\<close>

definition block :: "byte list \<Rightarrow> nat \<Rightarrow> nat \<Rightarrow> byte list option" where
  "block m a l = (if a + l \<le> length m then Some (take l (drop a m)) else None)"

definition put_block :: "byte list \<Rightarrow> nat \<Rightarrow> byte list \<Rightarrow> byte list option" where
  "put_block m a bs = (if a + length bs \<le> length m then Some (mem_write a bs m) else None)"

definition ptr_sub :: "nat \<Rightarrow> nat \<Rightarrow> nat option" where
  "ptr_sub a d = (if d \<le> a then Some (a - d) else None)"

definition array_at :: "nat list \<Rightarrow> nat \<Rightarrow> nat option" where
  "array_at a i = (if i < length a then Some (a ! i) else None)"

definition AR_SIZE :: nat where
  "AR_SIZE = 14 * 8 + 1"

definition LP_SIZE :: nat where
  "LP_SIZE = 12 * 8"

text \<open>The inner loop of \<open>cycle\<close>: each block from the next one, the last from the buffer.\<close>

fun cycle_blocks :: "nat \<Rightarrow> byte list \<Rightarrow> nat list \<Rightarrow> byte list \<Rightarrow> byte list option" where
  "cycle_blocks l m [] tmp = Some m"
| "cycle_blocks l m [a] tmp = put_block m a tmp"
| "cycle_blocks l m (a # b # ar) tmp =
     do { x \<leftarrow> block m b l; m \<leftarrow> put_block m a x; cycle_blocks l m (b # ar) tmp }"

function cycle_loop :: "nat \<Rightarrow> byte list \<Rightarrow> nat list \<Rightarrow> byte list option" where
  "cycle_loop width m ar =
     (if width = 0 then Some m
      else let l = (if 256 < width then 256 else width)
           in do { tmp \<leftarrow> block m (hd ar) l;
                   m \<leftarrow> cycle_blocks l m ar tmp;
                   cycle_loop (width - l) m (map ((+) l) ar) })"
  by pat_completeness auto
termination by (relation "measure fst") auto

declare cycle_loop.simps [simp del]

definition cycle :: "nat \<Rightarrow> byte list \<Rightarrow> nat list \<Rightarrow> byte list option" where
  "cycle width m ar =
     (if length ar < 2 then Some m
      else if length ar \<ge> AR_SIZE then None
      else cycle_loop width m ar)"

definition ar_push :: "nat list \<Rightarrow> nat \<Rightarrow> nat list option" where
  "ar_push ar a = (if length ar < AR_SIZE then Some (ar @ [a]) else None)"

section \<open>Sifting and trinkling\<close>

function sift_loop ::
    "(byte list \<Rightarrow> byte list \<Rightarrow> int) \<Rightarrow> nat \<Rightarrow> nat list \<Rightarrow> byte list \<Rightarrow> nat list \<Rightarrow> nat \<Rightarrow> nat \<Rightarrow> nat list option" where
  "sift_loop cmp width lp m ar head pshift =
     (if pshift \<le> 1 then Some ar
      else do {
        rt \<leftarrow> ptr_sub head width;
        d \<leftarrow> array_at lp (pshift - 2);
        lf \<leftarrow> ptr_sub rt d;
        x \<leftarrow> block m (hd ar) width;
        l \<leftarrow> block m lf width;
        r \<leftarrow> block m rt width;
        if cmp x l \<ge> 0 \<and> cmp x r \<ge> 0 then Some ar
        else if cmp l r \<ge> 0 then do { ar \<leftarrow> ar_push ar lf; sift_loop cmp width lp m ar lf (pshift - 1) }
        else do { ar \<leftarrow> ar_push ar rt; sift_loop cmp width lp m ar rt (pshift - 2) } })"
  by pat_completeness auto
termination by (relation "measure (\<lambda>(cmp, width, lp, m, ar, head, pshift). pshift)") auto

declare sift_loop.simps [simp del]

definition sift ::
    "(byte list \<Rightarrow> byte list \<Rightarrow> int) \<Rightarrow> nat \<Rightarrow> nat list \<Rightarrow> byte list \<Rightarrow> nat \<Rightarrow> nat \<Rightarrow> byte list option" where
  "sift cmp width lp m head pshift =
     do { ar \<leftarrow> sift_loop cmp width lp m [head] head pshift; cycle width m ar }"

text \<open>Whether a child of the current root is not below the stepson.\<close>

definition kid_above ::
    "(byte list \<Rightarrow> byte list \<Rightarrow> int) \<Rightarrow> nat \<Rightarrow> nat list \<Rightarrow> byte list \<Rightarrow> nat \<Rightarrow> nat \<Rightarrow> bool \<Rightarrow> byte list \<Rightarrow> bool option" where
  "kid_above cmp width lp m head pshift trusty s =
     (if \<not> trusty \<and> 1 < pshift
      then do {
        rt \<leftarrow> ptr_sub head width;
        d \<leftarrow> array_at lp (pshift - 2);
        lf \<leftarrow> ptr_sub rt d;
        r \<leftarrow> block m rt width;
        l \<leftarrow> block m lf width;
        Some (cmp r s \<ge> 0 \<or> cmp l s \<ge> 0) }
      else Some False)"

partial_function (option) trinkle_loop ::
    "(byte list \<Rightarrow> byte list \<Rightarrow> int) \<Rightarrow> nat \<Rightarrow> nat list \<Rightarrow> byte list \<Rightarrow> nat list \<Rightarrow> nat \<Rightarrow> tree_bits \<Rightarrow> nat \<Rightarrow> bool \<Rightarrow>
     (nat list \<times> nat \<times> nat \<times> bool) option" where
  "trinkle_loop cmp width lp m ar head p pshift trusty =
     (if p = (1, 0) then Some (ar, head, pshift, trusty)
      else do {
        d \<leftarrow> array_at lp pshift;
        stepson \<leftarrow> ptr_sub head d;
        s \<leftarrow> block m stepson width;
        x \<leftarrow> block m (hd ar) width;
        if cmp s x \<le> 0 then Some (ar, head, pshift, trusty)
        else do {
          above \<leftarrow> kid_above cmp width lp m head pshift trusty s;
          if above then Some (ar, head, pshift, trusty)
          else do {
            ar \<leftarrow> ar_push ar stepson;
            let trail = pntz p;
            p \<leftarrow> shr p trail;
            trinkle_loop cmp width lp m ar stepson p (pshift + trail) False } } })"

declare trinkle_loop.simps [code]

definition trinkle ::
    "(byte list \<Rightarrow> byte list \<Rightarrow> int) \<Rightarrow> nat \<Rightarrow> nat list \<Rightarrow> byte list \<Rightarrow> nat \<Rightarrow> tree_bits \<Rightarrow> nat \<Rightarrow> bool \<Rightarrow> byte list option" where
  "trinkle cmp width lp m head p pshift trusty =
     do { (ar, head, pshift, trusty) \<leftarrow> trinkle_loop cmp width lp m [head] head p pshift trusty;
          if trusty then Some m
          else do { m \<leftarrow> cycle width m ar; sift cmp width lp m head pshift } }"

section \<open>Sorting\<close>

text \<open>The Leonardo numbers, scaled by the width; entries beyond those are not initialised.\<close>

function leonardo_numbers :: "nat \<Rightarrow> nat \<Rightarrow> nat list \<Rightarrow> nat list option" where
  "leonardo_numbers bytesize width lp =
     (if length lp \<ge> LP_SIZE then None
      else let i = length lp; x = (lp ! (i - 2) + lp ! (i - 1) + width) mod 2 ^ 64
           in if x < bytesize then leonardo_numbers bytesize width (lp @ [x]) else Some (lp @ [x]))"
  by pat_completeness auto
termination by (relation "measure (\<lambda>(bytesize, width, lp). LP_SIZE - length lp)") auto

declare leonardo_numbers.simps [simp del]

definition grow_step ::
    "(byte list \<Rightarrow> byte list \<Rightarrow> int) \<Rightarrow> nat \<Rightarrow> nat list \<Rightarrow> nat \<Rightarrow> byte list \<Rightarrow> nat \<Rightarrow> tree_bits \<Rightarrow> nat \<Rightarrow>
     (byte list \<times> tree_bits \<times> nat) option" where
  "grow_step cmp width lp high m head p pshift =
     (if fst p AND 3 = 3
      then do {
        m \<leftarrow> sift cmp width lp m head pshift;
        p \<leftarrow> shr p 2;
        Some (m, p, pshift + 2) }
      else do {
        d \<leftarrow> (if pshift = 0 then None else array_at lp (pshift - 1));
        m \<leftarrow> (if d \<ge> high - head then trinkle cmp width lp m head p pshift False
              else sift cmp width lp m head pshift);
        if pshift = 1 then do { p \<leftarrow> shl p 1; Some (m, p, 0) }
        else do { p \<leftarrow> shl p (pshift - 1); Some (m, p, 1) } })"

partial_function (option) grow_loop ::
    "(byte list \<Rightarrow> byte list \<Rightarrow> int) \<Rightarrow> nat \<Rightarrow> nat list \<Rightarrow> nat \<Rightarrow> byte list \<Rightarrow> nat \<Rightarrow> tree_bits \<Rightarrow> nat \<Rightarrow>
     (byte list \<times> nat \<times> tree_bits \<times> nat) option" where
  "grow_loop cmp width lp high m head p pshift =
     (if head < high
      then do {
        (m, p, pshift) \<leftarrow> grow_step cmp width lp high m head p pshift;
        grow_loop cmp width lp high m (head + width) (fst p OR 1, snd p) pshift }
      else Some (m, head, p, pshift))"

declare grow_loop.simps [code]

definition shrink_step ::
    "(byte list \<Rightarrow> byte list \<Rightarrow> int) \<Rightarrow> nat \<Rightarrow> nat list \<Rightarrow> byte list \<Rightarrow> nat \<Rightarrow> tree_bits \<Rightarrow> nat \<Rightarrow>
     (byte list \<times> tree_bits \<times> nat) option" where
  "shrink_step cmp width lp m head p pshift =
     (if pshift \<le> 1
      then do { let trail = pntz p; p \<leftarrow> shr p trail; Some (m, p, pshift + trail) }
      else do {
        p \<leftarrow> shl p 2;
        let pshift = pshift - 2;
        p \<leftarrow> shr (fst p XOR 7, snd p) 1;
        d \<leftarrow> array_at lp pshift;
        a \<leftarrow> ptr_sub head d;
        lf \<leftarrow> ptr_sub a width;
        m \<leftarrow> trinkle cmp width lp m lf p (pshift + 1) True;
        p \<leftarrow> shl p 1;
        let p = (fst p OR 1, snd p);
        rt \<leftarrow> ptr_sub head width;
        m \<leftarrow> trinkle cmp width lp m rt p pshift True;
        Some (m, p, pshift) })"

partial_function (option) shrink_loop ::
    "(byte list \<Rightarrow> byte list \<Rightarrow> int) \<Rightarrow> nat \<Rightarrow> nat list \<Rightarrow> byte list \<Rightarrow> nat \<Rightarrow> tree_bits \<Rightarrow> nat \<Rightarrow> byte list option" where
  "shrink_loop cmp width lp m head p pshift =
     (if pshift \<noteq> 1 \<or> p \<noteq> (1, 0)
      then do {
        (m, p, pshift) \<leftarrow> shrink_step cmp width lp m head p pshift;
        head \<leftarrow> ptr_sub head width;
        shrink_loop cmp width lp m head p pshift }
      else Some m)"

declare shrink_loop.simps [code]

definition qsort_r :: "(byte list \<Rightarrow> byte list \<Rightarrow> int) \<Rightarrow> byte list \<Rightarrow> nat \<Rightarrow> nat \<Rightarrow> byte list option" where
  "qsort_r cmp base nel width =
     (let bytesize = width * nel mod 2 ^ 64
      in if bytesize = 0 then Some base
         else do {
           high \<leftarrow> ptr_sub bytesize width;
           lp \<leftarrow> leonardo_numbers bytesize width [width, width];
           (m, head, p, pshift) \<leftarrow> grow_loop cmp width lp high base 0 (1, 0) 1;
           m \<leftarrow> trinkle cmp width lp m head p pshift False;
           shrink_loop cmp width lp m head p pshift })"

text \<open>
  The comparison function of \<open>qsort_r\<close> stands for the C function together with its argument
  \<^verbatim>\<open>arg\<close>; \<^verbatim>\<open>qsort\<close> passes an adapter, with the two-argument comparison function as \<^verbatim>\<open>arg\<close>.
\<close>

definition wrapper_cmp :: "byte list \<Rightarrow> byte list \<Rightarrow> (byte list \<Rightarrow> byte list \<Rightarrow> int) \<Rightarrow> int" where
  "wrapper_cmp v1 v2 cmp = cmp v1 v2"

definition qsort :: "(byte list \<Rightarrow> byte list \<Rightarrow> int) \<Rightarrow> byte list \<Rightarrow> nat \<Rightarrow> nat \<Rightarrow> byte list option" where
  "qsort cmp base nel width = qsort_r (\<lambda>v1 v2. wrapper_cmp v1 v2 cmp) base nel width"

section \<open>Searching\<close>

function bsearch_from ::
    "(byte list \<Rightarrow> byte list \<Rightarrow> int) \<Rightarrow> byte list \<Rightarrow> byte list \<Rightarrow> nat \<Rightarrow> nat \<Rightarrow> nat \<Rightarrow> nat option option" where
  "bsearch_from cmp key m base nel width =
     (if nel = 0 then Some None
      else let mid = base + width * (nel div 2)
           in do {
             x \<leftarrow> block m mid width;
             let sign = cmp key x;
             if sign < 0 then bsearch_from cmp key m base (nel div 2) width
             else if sign > 0 then bsearch_from cmp key m (mid + width) (nel - (nel div 2 + 1)) width
             else Some (Some mid) })"
  by pat_completeness auto
termination by (relation "measure (\<lambda>(cmp, key, m, base, nel, width). nel)") auto

declare bsearch_from.simps [simp del]

definition bsearch :: "(byte list \<Rightarrow> byte list \<Rightarrow> int) \<Rightarrow> byte list \<Rightarrow> byte list \<Rightarrow> nat \<Rightarrow> nat \<Rightarrow> nat option option" where
  "bsearch cmp key m nel width = bsearch_from cmp key m 0 nel width"

section \<open>Bit strings and orders\<close>

text \<open>The bit string of a forest, shifted so that its last tree has the lowest bit.\<close>

fun bits :: "nat \<Rightarrow> nat list \<Rightarrow> nat" where
  "bits s [] = 0"
| "bits s (k # ks) = 2 ^ (k - s) + bits s ks"

fun ascending :: "nat list \<Rightarrow> bool" where
  "ascending (k # o1 # os) \<longleftrightarrow> k < o1 \<and> ascending (o1 # os)"
| "ascending ks \<longleftrightarrow> True"

lemma ascending_above: "ascending (k # ks) \<Longrightarrow> o1 \<in> set ks \<Longrightarrow> k < o1"
  by (induction ks arbitrary: k) force+

lemma ascending_tl: "ascending (k # ks) \<Longrightarrow> ascending ks"
  by (cases ks) simp_all

lemma bits_shift: "\<forall>o1\<in>set ks. r + s \<le> o1 \<Longrightarrow> bits s ks = 2 ^ r * bits (r + s) ks"
  by (induction ks) (auto simp: algebra_simps simp flip: power_add)

lemma bits_bound: "ascending (k # ks) \<Longrightarrow> s \<le> k \<Longrightarrow> \<forall>o1\<in>set (k # ks). o1 \<le> n \<Longrightarrow> bits s (k # ks) \<le> 2 ^ Suc (n - s) - 2 ^ (k - s)"
proof (induction ks arbitrary: k)
  case Nil
  then have "(2::nat) ^ (k - s) \<le> 2 ^ (n - s)" by (intro power_increasing) auto
  then show ?case unfolding bits.simps power_Suc by linarith
next
  case (Cons o1 ks)
  have "bits s (o1 # ks) \<le> 2 ^ Suc (n - s) - 2 ^ (o1 - s)" using Cons by (intro Cons.IH) auto
  moreover have "(2::nat) ^ Suc (k - s) \<le> 2 ^ (o1 - s)" using Cons.prems by (intro power_increasing) auto
  moreover have "(2::nat) ^ (o1 - s) \<le> 2 ^ Suc (n - s)" using Cons.prems by (intro power_increasing) auto
  ultimately show ?case unfolding bits.simps(2) [of s k] power_Suc by linarith
qed

lemma bits_small:
  assumes "ascending (k # ks)" "s \<le> k" "\<forall>o1\<in>set (k # ks). o1 \<le> n" "n - s < m"
  shows "bits s (k # ks) < 2 ^ m"
proof -
  have "bits s (k # ks) < 2 ^ Suc (n - s)"
    using bits_bound [OF assms(1-3)] by (rule le_less_trans) simp
  also have "\<dots> \<le> 2 ^ m" using assms(4) by (intro power_increasing) auto
  finally show ?thesis .
qed

text \<open>The words that hold such a bit string: with orders below 64 the upper word stays 0.\<close>

definition coded :: "tree_bits \<Rightarrow> nat list \<Rightarrow> bool" where
  "coded p ks \<longleftrightarrow> p = (of_nat (bits (hd ks) ks), 0) \<and> ks \<noteq> [] \<and> ascending ks \<and> (\<forall>k\<in>set ks. k < 64)"

lemma coded_unat: "coded p (k # ks) \<Longrightarrow> unat (fst p) = bits k (k # ks) \<and> snd p = 0 \<and> bits k (k # ks) < 2 ^ 64"
proof -
  assume c: "coded p (k # ks)"
  then have "bits k (k # ks) < 2 ^ 64"
    by (intro bits_small [where n = 63]) (auto simp: coded_def)
  moreover have "p = (of_nat (bits k (k # ks)), 0)" using c unfolding coded_def list.sel by blast
  moreover have "unat (of_nat b :: u64) = b" if "b < 2 ^ 64" for b :: nat using that by (intro unat_of_nat_small) simp
  ultimately show ?thesis by (simp only: fst_conv snd_conv)
qed

lemma bits_head: "ascending (k # ks) \<Longrightarrow> bits k (k # ks) = 1 + 2 * bits (Suc k) ks"
  using bits_shift [of ks 1 k] ascending_above [of k ks] by (auto simp: Suc_le_eq)

lemma bits_next:
  "ascending (k # o1 # os) \<Longrightarrow> bits k (k # o1 # os) = 1 + 2 ^ (o1 - k) * bits o1 (o1 # os)"
  using bits_shift [of "o1 # os" "o1 - k" k] ascending_above [of o1 os] by (auto dest: ascending_tl simp: less_imp_le)

lemma word_nat_eqI: "unat v = unat w \<Longrightarrow> v = (w :: u64)"
  by (rule unsigned_word_eqI [where 'a = nat])

lemma coded_one: "coded p (k # ks) \<Longrightarrow> p = (1, 0) \<longleftrightarrow> ks = []"
proof -
  assume c: "coded p (k # ks)"
  note u = coded_unat [OF c]
  have "ks \<noteq> [] \<Longrightarrow> bits k (k # ks) \<noteq> 1"
    using bits_next [of k "hd ks" "tl ks"] c by (cases ks) (auto simp: coded_def)
  moreover have "p = (1, 0) \<longleftrightarrow> unat (fst p) = 1"
    using u by (cases p) (auto simp: word_nat_eqI)
  ultimately show ?thesis using u by (cases "ks = []") auto
qed

lemma coded_adjacent: "coded p (k # ks) \<Longrightarrow> fst p AND 3 = 3 \<longleftrightarrow> adjacent (k # ks)"
proof -
  assume c: "coded p (k # ks)"
  note u = coded_unat [OF c]
  have asc: "ascending (k # ks)" using c by (simp add: coded_def)
  have "(3 :: u64) = mask 2" by code_simp
  then have "fst p AND 3 = take_bit 2 (fst p)" by (simp only: take_bit_eq_mask)
  then have "unat (fst p AND 3) = unat (fst p) mod 4" by (simp add: take_bit_eq_mod unat_mod)
  then have "fst p AND 3 = 3 \<longleftrightarrow> bits k (k # ks) mod 4 = 3"
    using u word_nat_eqI [of "fst p AND 3" 3] by auto
  also have "\<dots> \<longleftrightarrow> odd (bits (Suc k) ks)" unfolding bits_head [OF asc] by presburger
  also have "\<dots> \<longleftrightarrow> adjacent (k # ks)"
  proof (cases ks)
    case (Cons o1 os)
    have o: "Suc k \<le> o1" "ascending (o1 # os)" using asc Cons by auto
    have "bits (Suc k) (o1 # os) = 2 ^ (o1 - Suc k) * bits o1 (o1 # os)"
      using bits_shift [of "o1 # os" "o1 - Suc k" "Suc k"] ascending_above [OF o(2)] o by (auto simp: less_imp_le)
    moreover have "odd (bits o1 (o1 # os))" using bits_head [OF o(2)] by simp
    ultimately show ?thesis using Cons o by auto
  qed simp
  finally show ?thesis .
qed

lemma low_bit_odd:
  fixes y :: u64
  assumes "odd y"
  shows "y AND - y = 1"
proof -
  have "NOT y + 1 = NOT y OR 1"
    using assms by (intro disjunctive_add_eq_or bit_word_eqI) (auto simp: bit_and_iff bit_not_iff bit_1_iff bit_0)
  then have "- y = NOT y OR 1" by (simp add: minus_eq_not_plus_1)
  then have "y AND - y = y AND 1" by (auto simp add: bit_eq_iff bit_and_iff bit_or_iff bit_not_iff)
  then show ?thesis using assms by (simp add: and_one_eq odd_iff_mod_2_eq_one)
qed

lemma low_bit:
  fixes y :: u64
  assumes "odd y"
  shows "push_bit j y AND - push_bit j y = push_bit j 1"
proof -
  have "- push_bit j y = push_bit j (- y)" by (simp add: push_bit_eq_mult)
  then show ?thesis using low_bit_odd [OF assms] by (simp flip: push_bit_and)
qed

lemma debruijn_table: "list_all (\<lambda>j. debruijn64 ! unat (drop_bit 58 (push_bit j 1 * (0x022fdd63cc95386d :: u64))) = j) [0..<64]"
  by code_simp

lemma a_ctz_64_power:
  assumes "j < 64" "odd (m :: nat)"
  shows "a_ctz_64 (of_nat (2 ^ j * m)) = j"
proof -
  have "of_nat (2 ^ j * m) = push_bit j (of_nat m :: u64)" by (simp add: push_bit_eq_mult)
  moreover have "odd (of_nat m :: u64)" using assms(2) by (elim oddE) simp
  ultimately have "a_ctz_64 (of_nat (2 ^ j * m)) = debruijn64 ! unat (drop_bit 58 (push_bit j 1 * (0x022fdd63cc95386d :: u64)))"
    unfolding a_ctz_64_def using low_bit by metis
  then show ?thesis using debruijn_table assms(1) by (simp add: list_all_iff)
qed

lemma drop_of_nat: "B < 2 ^ 64 \<Longrightarrow> drop_bit n (of_nat B :: u64) = of_nat (B div 2 ^ n)"
proof -
  assume B: "B < 2 ^ 64"
  have "B div 2 ^ n < 2 ^ 64" using B by (rule le_less_trans [OF div_le_dividend])
  moreover have "unat (of_nat b :: u64) = b" if "b < 2 ^ 64" for b :: nat using that by (intro unat_of_nat_small) simp
  moreover have "unat (drop_bit n w) = unat w div 2 ^ n" for w :: u64
    unfolding unsigned_drop_bit_eq using unat_lt [of w] by (simp add: take_bit_nat_eq_self drop_bit_eq_div)
  ultimately show ?thesis using B by (intro word_nat_eqI) (simp only:)
qed

lemma shr_nat: "0 < n \<Longrightarrow> n < 64 \<Longrightarrow> B < 2 ^ 64 \<Longrightarrow> shr (of_nat B, 0) n = Some (of_nat (B div 2 ^ n), 0)"
  using drop_of_nat [of B n] by (simp add: shr_def)

lemma shl_nat:
  assumes "0 < n" "n < 64" "B * 2 ^ n < 2 ^ 64"
  shows "shl (of_nat B, 0) n = Some (of_nat (B * 2 ^ n), 0)"
proof -
  have "(2::nat) ^ 64 = 2 ^ (64 - n) * 2 ^ n" using assms(2) by (simp flip: power_add)
  then have b: "B < 2 ^ (64 - n)" using assms(3) by (metis mult_less_cancel2)
  then have "B < 2 ^ 64" by (rule less_le_trans) (rule power_increasing, simp_all)
  then have "drop_bit (64 - n) (of_nat B :: u64) = 0" using b by (simp add: drop_of_nat)
  moreover have "push_bit n (of_nat B :: u64) = of_nat (B * 2 ^ n)" by (simp add: push_bit_eq_mult)
  ultimately show ?thesis using assms(1,2) by (simp add: shl_def)
qed

lemma or_one: "(of_nat (2 * b) :: u64) OR 1 = of_nat (2 * b + 1)"
proof -
  have "(of_nat (2 * b) :: u64) AND 1 = 0" by (simp add: and_one_eq flip: even_iff_mod_2_eq_zero)
  then have "(of_nat (2 * b) :: u64) OR 1 = of_nat (2 * b) + 1" by (simp only: disjunctive_add_eq_or)
  then show ?thesis by simp
qed

lemma xor_seven: "(of_nat (4 * (2 * q + 1)) :: u64) XOR 7 = of_nat (8 * q + 3)"
proof -
  define y :: u64 where "y = push_bit 3 (of_nat q)"
  have c: "(4 :: u64) = push_bit 2 1" "(7 :: u64) = mask 3" "(3 :: u64) = mask 2" by code_simp+
  have b: "bit (4 :: u64) n \<longleftrightarrow> n = 2" "bit (7 :: u64) n \<longleftrightarrow> n < 3" "bit (3 :: u64) n \<longleftrightarrow> n < 2" for n
    unfolding c by (auto simp only: bit_push_bit_iff bit_1_iff bit_mask_iff possible_bit_word) simp_all
  have y: "\<not> bit y n" if "n < 3" for n using that by (simp add: y_def bit_push_bit_iff)
  have "y AND 4 = 0" "y AND 3 = 0"
    by (rule bit_word_eqI, use y in \<open>auto simp: bit_and_iff b simp del: bit_numeral_word_iff\<close>)+
  then have "y + 4 = y OR 4" "y + 3 = y OR 3" by (simp_all only: disjunctive_add_eq_or)
  moreover have "(y OR 4) XOR 7 = y OR 3"
  proof (rule bit_word_eqI)
    fix n
    show "bit ((y OR 4) XOR 7) n = bit (y OR 3) n"
      unfolding bit_or_iff bit_xor_iff b using y [of n] by auto
  qed
  moreover have "of_nat (4 * (2 * q + 1)) = y + 4" "of_nat (8 * q + 3) = y + 3" by (simp_all add: y_def push_bit_eq_mult)
  ultimately show ?thesis by simp
qed

text \<open>The steps of the bit string follow those of the forest.\<close>

lemma coded_pair: "coded p (k # ks) \<Longrightarrow> p = (of_nat (bits k (k # ks)), 0)"
  unfolding coded_def list.sel by blast

lemma codedI: "ascending (k # ks) \<Longrightarrow> \<forall>k\<in>set (k # ks). k < 64 \<Longrightarrow> coded (of_nat (bits k (k # ks)), 0) (k # ks)"
  unfolding coded_def list.sel by blast

lemma coded_next:
  assumes "coded p (k # o1 # os)"
  shows "pntz p = o1 - k" "\<exists>p'. shr p (o1 - k) = Some p' \<and> coded p' (o1 # os)"
proof -
  have asc: "ascending (k # o1 # os)" "\<forall>j\<in>set (k # o1 # os). j < 64" using assms unfolding coded_def by blast+
  then have o: "k < o1" "ascending (o1 # os)" "0 < o1 - k" "o1 - k < 64" by auto
  note p = coded_pair [OF assms] and u = coded_unat [OF assms]
  have b: "bits k (k # o1 # os) = 1 + 2 ^ (o1 - k) * bits o1 (o1 # os)" by (rule bits_next [OF asc(1)])
  have "odd (bits o1 (o1 # os))" using bits_head [OF o(2)] by simp
  then have "a_ctz_64 (of_nat (2 ^ (o1 - k) * bits o1 (o1 # os))) = o1 - k" by (rule a_ctz_64_power [OF o(4)])
  moreover have "fst p - 1 = of_nat (2 ^ (o1 - k) * bits o1 (o1 # os))" unfolding p b by simp
  ultimately show "pntz p = o1 - k" using o(3) by (simp add: pntz_def Let_def)
  have "bits k (k # o1 # os) div 2 ^ (o1 - k) = bits o1 (o1 # os)" 
  proof -
    have "(1 + 2 ^ d * m) div 2 ^ d = m" if "0 < d" for m d :: nat
    proof -
      have "(1::nat) < 2 ^ d" using that one_less_power [of "2::nat" d] by linarith
      then have "(1 + 2 ^ d * m) div 2 ^ d = m + 1 div 2 ^ d" by (intro div_mult_self2) simp
      then show ?thesis using \<open>1 < 2 ^ d\<close> by simp
    qed
    then show ?thesis unfolding b using o(3) by blast
  qed
  then have "shr p (o1 - k) = Some (of_nat (bits o1 (o1 # os)), 0)"
    unfolding p using shr_nat [OF o(3,4) u [THEN conjunct2, THEN conjunct2]] by simp
  then show "\<exists>p'. shr p (o1 - k) = Some p' \<and> coded p' (o1 # os)" using codedI [OF o(2)] asc(2) by simp
qed

lemma coded_add:
  assumes "coded p (k # os)" "j < k"
  shows "\<exists>p'. shl p (k - j) = Some p' \<and> coded (fst p' OR 1, snd p') (j # k # os)"
proof -
  have asc: "ascending (j # k # os)" "\<forall>j\<in>set (j # k # os). j < 64" using assms unfolding coded_def by auto
  have n: "0 < k - j" "k - j < 64" using assms(2) asc(2) by auto
  have b: "bits j (j # k # os) = 1 + 2 ^ (k - j) * bits k (k # os)" by (rule bits_next [OF asc(1)])
  have "bits j (j # k # os) < 2 ^ 64" using asc by (intro bits_small [where n = 63]) auto
  then have "bits k (k # os) * 2 ^ (k - j) < 2 ^ 64" unfolding b by (simp add: mult.commute)
  then have "shl p (k - j) = Some (of_nat (bits k (k # os) * 2 ^ (k - j)), 0)"
    unfolding coded_pair [OF assms(1)] by (rule shl_nat [OF n])
  moreover have "(of_nat (bits k (k # os) * 2 ^ (k - j)) :: u64) OR 1 = of_nat (bits j (j # k # os))"
  proof -
    have "bits k (k # os) * 2 ^ (k - j) = 2 * (bits k (k # os) * 2 ^ (k - j - 1))"
      using n(1) by (cases "k - j") (simp_all add: ac_simps)
    then show ?thesis unfolding b using or_one by (metis add.commute mult.commute)
  qed
  ultimately show ?thesis using codedI [OF asc] by simp
qed

lemma coded_join:
  assumes "coded p (k # Suc k # os)" "gaps (Suc k # os)" "k + 2 < 64"
  shows "\<exists>p'. shr p 2 = Some p' \<and> coded (fst p' OR 1, snd p') (Suc (Suc k) # os)"
proof -
  have c: "ascending (k # Suc k # os)" "\<forall>j\<in>set (k # Suc k # os). j < 64" using assms(1) unfolding coded_def by blast+
  have above: "k + 3 \<le> o1" if "o1 \<in> set os" for o1 using gaps_above [OF assms(2) that] by simp
  have asc: "ascending (Suc (Suc k) # os)" "\<forall>j\<in>set (Suc (Suc k) # os). j < 64"

  proof -
    have "ascending os" using ascending_tl [OF ascending_tl [OF c(1)]] .
    then show "ascending (Suc (Suc k) # os)" using above [of "hd os"] by (cases os) simp_all
    show "\<forall>j\<in>set (Suc (Suc k) # os). j < 64" using c(2) assms(3) by simp
  qed
  have e: "bits (k + 2) os = 2 * bits (k + 3) os" using bits_shift [of os 1 "k + 2"] above by (simp add: numeral_3_eq_3)
  have "bits k os = 2 ^ 2 * bits (2 + k) os" using above by (intro bits_shift) (auto dest!: above)
  then have "bits k (k # Suc k # os) div 2 ^ 2 = bits (k + 2) os" by (simp add: add.commute)
  then have "shr p 2 = Some (of_nat (bits (k + 2) os), 0)"
    unfolding coded_pair [OF assms(1)] using shr_nat [of 2 "bits k (k # Suc k # os)"] coded_unat [OF assms(1)] by simp
  moreover have "(of_nat (bits (k + 2) os) :: u64) OR 1 = of_nat (bits (Suc (Suc k)) (Suc (Suc k) # os))"

  proof -
    have "bits (Suc (Suc k)) (Suc (Suc k) # os) = 2 * bits (k + 3) os + 1" using e by simp
    then show ?thesis using or_one [of "bits (k + 3) os"] by (simp only: e)
  qed
  ultimately show ?thesis using codedI [OF asc] by simp
qed

lemma coded_split:
  assumes "coded p (k # os)" "2 \<le> k"
  shows "\<exists>p1 p2. shl p 2 = Some p1 \<and> shr (fst p1 XOR 7, snd p1) 1 = Some p2 \<and> coded p2 ((k - 1) # os)"
proof -
  have c: "ascending (k # os)" "\<forall>j\<in>set (k # os). j < 64" using assms(1) unfolding coded_def by blast+
  have asc: "ascending ((k - 1) # os)" "\<forall>j\<in>set ((k - 1) # os). j < 64" using c assms(2) by (cases os, auto)+
  define q where "q = bits (Suc k) os"
  have b: "bits k (k # os) = 2 * q + 1" using bits_head [OF c(1)] by (simp add: q_def)
  have "bits (k - 2) (k # os) = 2 ^ 2 * bits (2 + (k - 2)) (k # os)"

  proof (rule bits_shift)
    show "\<forall>o1\<in>set (k # os). 2 + (k - 2) \<le> o1" using assms(2) by (auto dest: ascending_above [OF c(1)])
  qed
  then have "bits (k - 2) (k # os) = 4 * bits k (k # os)" using assms(2) by (simp only: le_add_diff_inverse) simp
  then have "bits (k - 2) (k # os) = 4 * (2 * q + 1)" by (simp only: b)
  moreover have "bits (k - 2) (k # os) < 2 ^ 64" using c by (intro bits_small [where n = 63]) auto
  ultimately have lt: "(2 * q + 1) * 2 ^ 2 < 2 ^ 64" by simp
  have s1: "shl p 2 = Some (of_nat ((2 * q + 1) * 2 ^ 2), 0)"
    unfolding coded_pair [OF assms(1)] b by (rule shl_nat [OF _ _ lt]) simp_all
  have x: "(of_nat ((2 * q + 1) * 2 ^ 2) :: u64) XOR 7 = of_nat (8 * q + 3)" using xor_seven [of q] by (simp add: ac_simps)
  have s2: "shr (of_nat (8 * q + 3), 0) 1 = Some (of_nat ((8 * q + 3) div 2 ^ 1), 0)"
    using lt by (intro shr_nat) simp_all
  have "bits k os = 2 * q" using bits_shift [of os 1 k] ascending_above [OF c(1)] by (auto simp: q_def Suc_le_eq)
  moreover have "bits (k - 1) os = 2 * bits k os"
    using bits_shift [of os 1 "k - 1"] ascending_above [OF c(1)] assms(2) by (auto simp: less_imp_le)
  ultimately have "(8 * q + 3) div 2 ^ 1 = bits (k - 1) ((k - 1) # os)" by simp
  then show ?thesis using s1 s2 x codedI [OF asc] by simp
qed

section \<open>Elements in memory\<close>

text \<open>The memory holds the elements \<open>xs\<close> of width \<open>w\<close>.\<close>

definition holds_elems :: "nat \<Rightarrow> 'a list list \<Rightarrow> 'a list \<Rightarrow> bool" where
  "holds_elems w xs m \<longleftrightarrow> m = concat xs \<and> (\<forall>x\<in>set xs. length x = w)"

lemma length_holds: "holds_elems w xs m \<Longrightarrow> length m = length xs * w"
  unfolding holds_elems_def by (induction xs arbitrary: m) auto

lemma elem_length: "holds_elems w xs m \<Longrightarrow> i < length xs \<Longrightarrow> length (xs ! i) = w"
  by (simp add: holds_elems_def)

lemma holds_split:
  assumes "holds_elems w xs m" "i < length xs"
  shows "m = concat (take i xs) @ xs ! i @ concat (drop (Suc i) xs)" "length (concat (take i xs)) = i * w"
proof -
  show "m = concat (take i xs) @ xs ! i @ concat (drop (Suc i) xs)"
    using assms id_take_nth_drop [OF assms(2)] unfolding holds_elems_def by (metis concat.simps(2) concat_append)
  have "holds_elems w (take i xs) (concat (take i xs))" using assms(1) by (auto simp: holds_elems_def dest: in_set_takeD)
  then show "length (concat (take i xs)) = i * w" using length_holds assms(2) by fastforce
qed

lemma block_part:
  assumes "holds_elems w xs m" "i < length xs" "off + l \<le> w"
  shows "block m (i * w + off) l = Some (take l (drop off (xs ! i)))"
proof -
  note s = holds_split [OF assms(1,2)] and e = elem_length [OF assms(1,2)]
  have "i * w + off + l \<le> length m"
    using length_holds [OF assms(1)] mult_le_mono1 [of "Suc i" "length xs" w] assms(2,3) by simp
  moreover have "take l (drop (i * w + off) m) = take l (drop off (xs ! i))"
    unfolding s(1) using s(2) e assms(3) by simp
  ultimately show ?thesis by (simp add: block_def)
qed

lemma block_elem: "holds_elems w xs m \<Longrightarrow> i < length xs \<Longrightarrow> block m (i * w) w = Some (xs ! i)"
  using block_part [of w xs m i 0 w] elem_length [of w xs m i] by simp

lemma put_part:
  assumes "holds_elems w xs m" "i < length xs" "off + length bs \<le> w"
  shows "\<exists>m'. put_block m (i * w + off) bs = Some m' \<and> holds_elems w (xs[i := mem_write off bs (xs ! i)]) m'"
proof -
  note s = holds_split [OF assms(1,2)] and e = elem_length [OF assms(1,2)]
  let ?x = "mem_write off bs (xs ! i)"
  have "i * w + off + length bs \<le> length m"
    using length_holds [OF assms(1)] mult_le_mono1 [of "Suc i" "length xs" w] assms(2,3) by simp
  moreover have "concat (xs[i := ?x]) = concat (take i xs) @ ?x @ concat (drop (Suc i) xs)"
    using assms(2) by (simp add: upd_conv_take_nth_drop)
  moreover have "mem_write (i * w + off) bs m = concat (take i xs) @ ?x @ concat (drop (Suc i) xs)"
    unfolding s(1) using s(2) e assms(3) by (simp add: mem_write_def)
  moreover have "length ?x = w" using e assms(3) by (simp add: mem_write_def)
  ultimately show ?thesis
    using assms(1,2) by (auto simp: put_block_def holds_elems_def dest!: set_update_subset_insert [THEN subsetD])
qed

section \<open>Cycling a path\<close>

text \<open>Every position of the path receives the element of the next one, the last that of the first.\<close>

fun cycled :: "'a list \<Rightarrow> nat list \<Rightarrow> 'a list" where
  "cycled xs (a # b # ar) = cycled (swap xs a b) (b # ar)"
| "cycled xs ar = xs"

lemma length_cycled [simp]: "length (cycled xs ar) = length xs"
  by (induction xs ar rule: cycled.induct) simp_all

lemma cycled_nth_both:
  assumes "distinct ar" "\<forall>a\<in>set ar. a < length xs"
  shows "(\<forall>j. j \<notin> set ar \<longrightarrow> cycled xs ar ! j = xs ! j) \<and>
    (\<forall>i<length ar. cycled xs ar ! (ar ! i) = xs ! (if Suc i < length ar then ar ! Suc i else hd ar))"
  using assms
proof (induction xs ar rule: cycled.induct)
  case (1 xs a b ar)
  have sw: "swap xs a b ! k = (if k = a then xs ! b else if k = b then xs ! a else xs ! k)" for k
    using "1.prems" by (intro swap_nth) simp_all
  have ih: "j \<notin> set (b # ar) \<Longrightarrow> cycled (swap xs a b) (b # ar) ! j = swap xs a b ! j"
    "i < length (b # ar) \<Longrightarrow> cycled (swap xs a b) (b # ar) ! ((b # ar) ! i) =
       swap xs a b ! (if Suc i < length (b # ar) then (b # ar) ! Suc i else b)" for i j
    using "1.IH" "1.prems" by simp_all
  have "cycled xs (a # b # ar) ! ((a # b # ar) ! i) = xs ! (if Suc i < length (a # b # ar) then (a # b # ar) ! Suc i else a)"
    if i: "i < length (a # b # ar)" for i
  proof (cases i)
    case 0
    then show ?thesis using ih(1) [of a] sw "1.prems" by simp
  next
    case (Suc k)
    have "(b # ar) ! Suc k \<noteq> a" "(b # ar) ! Suc k \<noteq> b" if "Suc k < length (b # ar)"
      using "1.prems"(1) that nth_mem [of k ar] by auto
    then show ?thesis using ih(2) [of k] Suc sw i "1.prems"(1) by (cases "Suc k < length (b # ar)") auto
  qed
  then show ?case using ih(1) sw by simp
qed auto

lemma cycled_nth:
  assumes "distinct ar" "\<forall>a\<in>set ar. a < length xs"
  shows "j \<notin> set ar \<Longrightarrow> cycled xs ar ! j = xs ! j"
    and "i < length ar \<Longrightarrow> cycled xs ar ! (ar ! i) = xs ! (if Suc i < length ar then ar ! Suc i else hd ar)"
  using cycled_nth_both [OF assms] by blast+

lemma cycled_snoc: "ar \<noteq> [] \<Longrightarrow> cycled xs (ar @ [b]) = swap (cycled xs ar) (last ar) b"
  by (induction xs ar rule: cycled.induct) simp_all

lemma cycle_blocks_elems:
  assumes "holds_elems w zs m" "distinct ar" "\<forall>a\<in>set ar. a < length zs" "ar \<noteq> []" "off + l \<le> w" "length tmp = l"
  shows "\<exists>m' zs'. cycle_blocks l m (map (\<lambda>i. i * w + off) ar) tmp = Some m' \<and> holds_elems w zs' m' \<and>
    length zs' = length zs \<and> (\<forall>j. j \<notin> set ar \<longrightarrow> zs' ! j = zs ! j) \<and>
    (\<forall>i<length ar. zs' ! (ar ! i) =
       mem_write off (if Suc i < length ar then take l (drop off (zs ! (ar ! Suc i))) else tmp) (zs ! (ar ! i)))"
  using assms
proof (induction ar arbitrary: zs m)
  case (Cons a ar)
  show ?case
  proof (cases ar)
    case Nil
    obtain m' where "put_block m (a * w + off) tmp = Some m'" "holds_elems w (zs[a := mem_write off tmp (zs ! a)]) m'"
      using put_part [OF Cons.prems(1), of a off tmp] Cons.prems by auto
    then show ?thesis using Nil Cons.prems(3) by auto
  next
    case (Cons b ar')
    let ?x = "take l (drop off (zs ! b))" and ?f = "\<lambda>i. i * w + off"
    have b: "b < length zs" "a < length zs" "a \<noteq> b" using Cons.prems(2,3) Cons by auto
    have x: "block m (?f b) l = Some ?x" "length ?x = l"
      using block_part [OF Cons.prems(1) b(1) Cons.prems(5)] elem_length [OF Cons.prems(1) b(1)] Cons.prems(5) by simp_all
    let ?zs = "zs[a := mem_write off ?x (zs ! a)]"
    obtain m1 where m1: "put_block m (?f a) ?x = Some m1" "holds_elems w ?zs m1"
      using put_part [OF Cons.prems(1) b(2), of off ?x] x(2) Cons.prems(5) by auto
    obtain m' zs' where ih: "cycle_blocks l m1 (map ?f ar) tmp = Some m'" "holds_elems w zs' m'" "length zs' = length ?zs"
      "\<forall>j. j \<notin> set ar \<longrightarrow> zs' ! j = ?zs ! j"
      "\<forall>i<length ar. zs' ! (ar ! i) =
         mem_write off (if Suc i < length ar then take l (drop off (?zs ! (ar ! Suc i))) else tmp) (?zs ! (ar ! i))"
      using Cons.IH [OF m1(2)] Cons.prems(2-6) Cons by auto
    have same: "?zs ! (ar ! i) = zs ! (ar ! i)" if "i < length ar" for i
    proof -
      have "a \<noteq> ar ! i" using Cons.prems(2) nth_mem [OF that] by auto
      then show ?thesis by simp
    qed
    have "zs' ! ((a # ar) ! i) = mem_write off
        (if Suc i < length (a # ar) then take l (drop off (zs ! ((a # ar) ! Suc i))) else tmp) (zs ! ((a # ar) ! i))"
      if "i < length (a # ar)" for i
    proof (cases i)
      case 0
      then show ?thesis using ih(4) Cons.prems(2) b Cons by simp
    next
      case (Suc k)
      then show ?thesis using ih(5) same that by simp
    qed
    moreover have "zs' ! j = zs ! j" if "j \<notin> set (a # ar)" for j using ih(4) that by simp
    moreover have "cycle_blocks l m (map ?f (a # ar)) tmp = Some m'" using ih(1) x m1(1) Cons by simp
    moreover have "length zs' = length zs" using ih(3) by simp
    ultimately show ?thesis using ih(2) by blast
  qed
qed simp

text \<open>After \<open>n\<close> bytes each element of the path has the first \<open>n\<close> bytes of its successor.\<close>

lemma cycle_loop_elems:
  assumes "holds_elems w xs m0" "distinct ar" "\<forall>a\<in>set ar. a < length xs" "ar \<noteq> []"
    and "holds_elems w zs m" "length zs = length xs" "n \<le> w"
    and "\<forall>j<length xs. zs ! j = take n (cycled xs ar ! j) @ drop n (xs ! j)"
  shows "\<exists>m'. cycle_loop (w - n) m (map (\<lambda>i. i * w + n) ar) = Some m' \<and> holds_elems w (cycled xs ar) m'"
  using assms(5-8)
proof (induction "w - n" arbitrary: n zs m rule: less_induct)
  case less
  let ?ys = "cycled xs ar" and ?f = "\<lambda>n i. i * w + n"
  have ylen: "length (?ys ! j) = w" if "j < length xs" for j
  proof (cases "j \<in> set ar")
    case True
    then obtain i where i: "i < length ar" "j = ar ! i" by (metis in_set_conv_nth)
    moreover have "hd ar < length xs" using assms(3,4) by simp
    ultimately show ?thesis
      using cycled_nth(2) [OF assms(2,3) i(1)] elem_length [OF assms(1)] assms(3) by (auto split: if_splits)
  next
    case False
    then show ?thesis using cycled_nth(1) [OF assms(2,3)] elem_length [OF assms(1)] that by simp
  qed
  show ?case
  proof (cases "w - n = 0")
    case True
    then have "n = w" using less.prems(3) by simp
    then have "zs = ?ys"
      using less.prems(2,4) ylen elem_length [OF assms(1)] by (intro nth_equalityI) simp_all
    then show ?thesis using True less.prems(1) by (simp add: cycle_loop.simps)
  next
    case False
    define l where "l = (if 256 < w - n then 256 else w - n)"
    have l: "0 < l" "n + l \<le> w" using False by (auto simp: l_def)
    let ?tmp = "take l (drop n (zs ! hd ar))"
    have h: "hd ar < length zs" using assms(3,4) less.prems(2) by simp
    have tmp: "block m (?f n (hd ar)) l = Some ?tmp" "length ?tmp = l"
      using block_part [OF less.prems(1) h l(2)] elem_length [OF less.prems(1) h] l(2) by simp_all
    obtain m1 zs1 where b: "cycle_blocks l m (map (?f n) ar) ?tmp = Some m1" "holds_elems w zs1 m1" "length zs1 = length zs"
      "\<forall>j. j \<notin> set ar \<longrightarrow> zs1 ! j = zs ! j"
      "\<forall>i<length ar. zs1 ! (ar ! i) =
         mem_write n (if Suc i < length ar then take l (drop n (zs ! (ar ! Suc i))) else ?tmp) (zs ! (ar ! i))"
      using cycle_blocks_elems [OF less.prems(1) assms(2) _ assms(4) l(2) tmp(2)] assms(3) less.prems(2) by auto
    have "zs1 ! j = take (n + l) (?ys ! j) @ drop (n + l) (xs ! j)" if j: "j < length xs" for j
    proof (cases "j \<in> set ar")
      case False
      then show ?thesis using b(4) less.prems(4) j cycled_nth(1) [OF assms(2,3) False] by simp
    next
      case True
      then obtain i where i: "i < length ar" "j = ar ! i" by (metis in_set_conv_nth)
      define src where "src = (if Suc i < length ar then ar ! Suc i else hd ar)"
      have src: "src < length xs" "?ys ! j = xs ! src" "zs1 ! j = mem_write n (take l (drop n (zs ! src))) (zs ! j)"
        using i b(5) assms(3,4) cycled_nth(2) [OF assms(2,3) i(1)] by (auto simp: src_def)
      have "take l (drop n (zs ! src)) = take l (drop n (?ys ! j))"
        using less.prems(3,4) src(1,2) ylen [OF src(1)] by simp
      then show ?thesis
        using src(3) less.prems(3,4) j ylen [OF j] elem_length [OF assms(1) j] l(2) by (simp add: mem_write_def take_add add.commute [of l n])
    qed
    then have "\<exists>m'. cycle_loop (w - (n + l)) m1 (map (?f (n + l)) ar) = Some m' \<and> holds_elems w ?ys m'"
      using less.hyps [of "n + l" zs1 m1] b(2,3) less.prems(2) l by simp
    moreover have "(+) l \<circ> ?f n = ?f (n + l)" by auto
    moreover have "w - n - l = w - (n + l)" by simp
    moreover have "hd (map (?f n) ar) = ?f n (hd ar)" using assms(4) by (rule hd_map)
    ultimately show ?thesis
      using False tmp(1) b(1) by (subst cycle_loop.simps) (simp add: l_def [symmetric] Let_def)
  qed
qed

lemma cycle_elems:
  assumes "holds_elems w xs m" "distinct ar" "\<forall>a\<in>set ar. a < length xs" "length ar < AR_SIZE"
  shows "\<exists>m'. cycle w m (map (\<lambda>i. i * w) ar) = Some m' \<and> holds_elems w (cycled xs ar) m'"
proof (cases "length ar < 2")
  case True
  then have "cycled xs ar = xs" by (cases "(xs, ar)" rule: cycled.cases) simp_all
  then show ?thesis using True assms(1) by (simp add: cycle_def)
next
  case False
  then have "ar \<noteq> []" by auto
  then show ?thesis
    using cycle_loop_elems [OF assms(1-3) _ assms(1), of 0] False assms(4) by (simp add: cycle_def)
qed

section \<open>Refinement of sifting\<close>

text \<open>The table of Leonardo numbers, as far as an array of \<open>n\<close> elements needs them.\<close>

definition leo_table :: "nat \<Rightarrow> nat \<Rightarrow> nat list \<Rightarrow> bool" where
  "leo_table w n lp \<longleftrightarrow> (\<forall>k. leo k \<le> n \<longrightarrow> array_at lp k = Some (leo k * w))"

text \<open>
  A path through the elements, seen as the array in which the first element of the path has already
  been moved to its end.
\<close>

definition on_path :: "'a list \<Rightarrow> nat list \<Rightarrow> nat \<Rightarrow> bool" where
  "on_path xs ar h \<longleftrightarrow> ar \<noteq> [] \<and> distinct ar \<and> last ar = h \<and> (\<forall>a\<in>set ar. h \<le> a \<and> a < length xs)"

lemma on_path_start: "h < length xs \<Longrightarrow> on_path xs [h] h"
  by (simp add: on_path_def)

lemma on_path_nth:
  assumes "on_path xs ar h"
  shows "cycled xs ar ! h = xs ! hd ar" "j < h \<Longrightarrow> cycled xs ar ! j = xs ! j"
proof -
  have p: "distinct ar" "\<forall>a\<in>set ar. a < length xs" using assms by (simp_all add: on_path_def)
  have "h = ar ! (length ar - 1)" "ar \<noteq> []" using assms by (auto simp: on_path_def last_conv_nth)
  then show "cycled xs ar ! h = xs ! hd ar" using cycled_nth(2) [OF p, of "length ar - 1"] by simp
  show "j < h \<Longrightarrow> cycled xs ar ! j = xs ! j"
    using cycled_nth(1) [OF p, of j] assms unfolding on_path_def by (meson not_le)
qed

lemma on_path_push:
  assumes "on_path xs ar h" "b < h"
  shows "on_path xs (ar @ [b]) b" "cycled xs (ar @ [b]) = swap (cycled xs ar) h b"
proof -
  have "b < length xs" using assms unfolding on_path_def by (meson last_in_set less_trans)
  then show "on_path xs (ar @ [b]) b" using assms by (auto simp: on_path_def less_imp_le intro: order_trans dest: not_le [THEN iffD2])
  show "cycled xs (ar @ [b]) = swap (cycled xs ar) h b" using assms cycled_snoc [of ar xs b] by (simp add: on_path_def)
qed

lemma ptr_sub_elems: "j + d = i \<Longrightarrow> ptr_sub (i * w) (d * w) = Some (j * w)"
  by (auto simp: ptr_sub_def add_mult_distrib)

lemma ptr_sub_elem: "Suc j = i \<Longrightarrow> ptr_sub (i * w) w = Some (j * w)"
  using ptr_sub_elems [of j 1 i w] by simp

lemma sift_loop_path:
  assumes "holds_elems w xs m" "leo_table w (length xs) lp" "on_path xs ar h" "leo k \<le> Suc h" "length ar + k < AR_SIZE"
  shows "\<exists>path. sift_loop cmp w lp m (map (\<lambda>i. i * w) ar) (h * w) k = Some (map (\<lambda>i. i * w) path) \<and>
    distinct path \<and> (\<forall>a\<in>set path. a < length xs) \<and> length path < AR_SIZE \<and>
    cycled xs path = sift_down cmp (cycled xs ar) h k"
  using assms(3-5)
proof (induction k arbitrary: ar h rule: leo.induct)
  case (3 k)
  let ?f = "\<lambda>i. i * w" and ?zs = "cycled xs ar"
  let ?rt = "h - 1" and ?lf = "h - 1 - leo k"
  note sp = span_split [OF "3.prems"(2)]
  have pos: "0 < h" "?rt < h" "?lf < h" "h < length xs" "hd ar < length xs"
    using "3.prems"(1) sp(7) by (auto simp: on_path_def)
  have kb: "leo k \<le> length xs" using "3.prems"(2) pos(4) by simp
  have ptr: "ptr_sub (h * w) w = Some (?f ?rt)" "array_at lp k = Some (leo k * w)" "ptr_sub (?f ?rt) (leo k * w) = Some (?f ?lf)"
    using pos(1) kb assms(2) sp(5,6) leo_pos [of "Suc k"] "3.prems"(2)
    by (auto simp: leo_table_def intro!: ptr_sub_elem ptr_sub_elems)
  have blk: "block m (hd (map ?f ar)) w = Some (?zs ! h)" "block m (?f ?lf) w = Some (?zs ! ?lf)" "block m (?f ?rt) w = Some (?zs ! ?rt)"
    using block_elem [OF assms(1)] on_path_nth [OF "3.prems"(1)] pos "3.prems"(1) by (auto simp: on_path_def hd_map)
  have push: "ar_push (map ?f ar) (?f b) = Some (map ?f (ar @ [b]))" for b using "3.prems"(3) by (simp add: ar_push_def)
  note unf = sift_loop.simps [of cmp w lp m "map ?f ar" "h * w" "Suc (Suc k)"]
  show ?case
  proof (cases "cmp (?zs ! h) (?zs ! ?lf) \<ge> 0 \<and> cmp (?zs ! h) (?zs ! ?rt) \<ge> 0")
    case True
    then have "sift_loop cmp w lp m (map ?f ar) (h * w) (Suc (Suc k)) = Some (map ?f ar)"
      unfolding unf using ptr blk by simp
    then show ?thesis using True "3.prems"(1,3) by (auto simp: on_path_def)
  next
    case big: False
    show ?thesis
    proof (cases "cmp (?zs ! ?lf) (?zs ! ?rt) \<ge> 0")
      case True
      have "sift_loop cmp w lp m (map ?f ar) (h * w) (Suc (Suc k)) =
          sift_loop cmp w lp m (map ?f (ar @ [?lf])) (?lf * w) (Suc k)"
        unfolding unf using ptr blk push big True by auto
      moreover have "sift_down cmp ?zs h (Suc (Suc k)) = sift_down cmp (cycled xs (ar @ [?lf])) ?lf (Suc k)"
        using big True on_path_push(2) [OF "3.prems"(1) pos(3)] by (auto simp: Let_def)
      ultimately show ?thesis
        using "3.IH"(1) [OF on_path_push(1) [OF "3.prems"(1) pos(3)] sp(6)] "3.prems"(3) by simp
    next
      case False
      have "sift_loop cmp w lp m (map ?f ar) (h * w) (Suc (Suc k)) =
          sift_loop cmp w lp m (map ?f (ar @ [?rt])) (?rt * w) k"
        unfolding unf using ptr blk push big False by auto
      moreover have "sift_down cmp ?zs h (Suc (Suc k)) = sift_down cmp (cycled xs (ar @ [?rt])) ?rt k"
        using big False on_path_push(2) [OF "3.prems"(1) pos(2)] by (auto simp: Let_def)
      ultimately show ?thesis
        using "3.IH"(2) [OF on_path_push(1) [OF "3.prems"(1) pos(2)] sp(5)] "3.prems"(3) by simp
    qed
  qed
qed (auto simp: sift_loop.simps on_path_def)

lemma sift_elems:
  assumes "holds_elems w xs m" "leo_table w (length xs) lp" "h < length xs" "leo k \<le> Suc h" "k < 64"
  shows "\<exists>m'. sift cmp w lp m (h * w) k = Some m' \<and> holds_elems w (sift_down cmp xs h k) m'"
proof -
  obtain path where p: "sift_loop cmp w lp m (map (\<lambda>i. i * w) [h]) (h * w) k = Some (map (\<lambda>i. i * w) path)"
    "distinct path" "\<forall>a\<in>set path. a < length xs" "length path < AR_SIZE" "cycled xs path = sift_down cmp (cycled xs [h]) h k"
    using sift_loop_path [OF assms(1,2) on_path_start [OF assms(3)] assms(4), of cmp] assms(5) by (auto simp: AR_SIZE_def)
  then show ?thesis using cycle_elems [OF assms(1) p(2-4)] by (simp add: sift_def)
qed

section \<open>Refinement of trinkling\<close>

lemma kid_above_elems:
  assumes "holds_elems w xs m" "leo_table w (length xs) lp" "h < length xs" "leo k \<le> Suc h" "zs ! (h - leo k) = s"
    and "\<And>j. j < h \<Longrightarrow> zs ! j = xs ! j"
  shows "kid_above cmp w lp m (h * w) k trusty s = Some (\<not> trusty \<and> outranked cmp zs h k)"
proof (cases k rule: leo.cases)
  case (3 j)
  let ?f = "\<lambda>i. i * w"
  note sp = span_split [OF assms(4) [unfolded 3]]
  have pos: "h - 1 < h" "h - 1 - leo j < h" "leo j \<le> length xs" using sp(5,7) assms(3) by simp_all
  have ptr: "ptr_sub (h * w) w = Some (?f (h - 1))" "array_at lp j = Some (leo j * w)"
      "ptr_sub (?f (h - 1)) (leo j * w) = Some (?f (h - 1 - leo j))"
    using pos sp(5,6) leo_pos [of "Suc j"] assms(2,4) 3
    by (auto simp: leo_table_def intro!: ptr_sub_elem ptr_sub_elems)
  have "block m (?f (h - 1)) w = Some (zs ! (h - 1))" "block m (?f (h - 1 - leo j)) w = Some (zs ! (h - 1 - leo j))"
    using block_elem [OF assms(1)] assms(3,6) pos by simp_all
  then show ?thesis using ptr assms(5) 3 by (auto simp: kid_above_def outranked_def Let_def)
qed (simp_all add: kid_above_def outranked_def)

lemma trinkle_loop_path:
  assumes "holds_elems w xs m" "leo_table w (length xs) lp" "on_path xs ar h" "coded p (k # os)" "fits h (k # os)"
    and "length ar + length os < AR_SIZE"
  shows "\<exists>path h' k' tr. trinkle_loop cmp w lp m (map (\<lambda>i. i * w) ar) (h * w) p k trusty =
      Some (map (\<lambda>i. i * w) path, h' * w, k', tr) \<and>
    distinct path \<and> (\<forall>a\<in>set path. a < length xs) \<and> length path < AR_SIZE \<and>
    h' < length xs \<and> leo k' \<le> Suc h' \<and> k' < 64 \<and> (tr \<longrightarrow> trusty \<and> path = ar) \<and>
    trinkle_left cmp (cycled xs ar) h (k # os) trusty = (if tr then cycled xs path else sift_down cmp (cycled xs path) h' k')"
  using assms(3-6)
proof (induction os arbitrary: ar h k p trusty)
  case Nil
  have "trinkle_loop cmp w lp m (map (\<lambda>i. i * w) ar) (h * w) p k trusty = Some (map (\<lambda>i. i * w) ar, h * w, k, trusty)"
    using coded_one [OF Nil.prems(2)] by (subst trinkle_loop.simps) simp
  moreover have "h < length xs" "k < 64" "leo k \<le> Suc h" using Nil.prems by (auto simp: on_path_def coded_def fits_def)
  ultimately show ?case using Nil.prems(1,4) by (intro exI [of _ ar] exI [of _ h] exI [of _ k] exI [of _ trusty]) (auto simp: on_path_def)
next
  case (Cons o1 os)
  let ?f = "\<lambda>i. i * w" and ?zs = "cycled xs ar" and ?s = "h - leo k"
  note f = fits_Cons [OF Cons.prems(3)]
  have pos: "?s < h" "leo k \<le> h" "h < length xs" "k < 64" "hd ar < length xs" "ar \<noteq> []" "fits ?s (o1 # os)"
    using f(3) leo_pos [of k] Cons.prems(1,2) by (auto simp: on_path_def coded_def)
  have kb: "leo k \<le> length xs" using pos(2,3) by simp
  have ptr: "array_at lp k = Some (leo k * w)" "ptr_sub (h * w) (leo k * w) = Some (?f ?s)"
    using kb assms(2) pos(2) by (auto simp: leo_table_def intro!: ptr_sub_elems)
  have blk: "block m (?f ?s) w = Some (?zs ! ?s)" "block m (hd (map ?f ar)) w = Some (?zs ! h)"
    using block_elem [OF assms(1)] on_path_nth [OF Cons.prems(1)] pos by (simp_all add: hd_map)
  have ka: "kid_above cmp w lp m (h * w) k trusty (?zs ! ?s) = Some (\<not> trusty \<and> outranked cmp ?zs h k)"
    using on_path_nth(2) [OF Cons.prems(1)] by (intro kid_above_elems [OF assms(1,2) pos(3) f(1)]) simp_all
  have p1: "p \<noteq> (1, 0)" using coded_one [OF Cons.prems(2)] by simp
  note unf = trinkle_loop.simps [of cmp w lp m "map ?f ar" "h * w" p k trusty]
  show ?case
  proof (cases "cmp (?zs ! ?s) (?zs ! h) \<le> 0 \<or> (\<not> trusty \<and> outranked cmp ?zs h k)")
    case True
    then have "trinkle_loop cmp w lp m (map ?f ar) (h * w) p k trusty = Some (map ?f ar, h * w, k, trusty)"
      unfolding unf using p1 ptr blk ka by auto
    moreover have "trinkle_left cmp ?zs h (k # o1 # os) trusty = (if trusty then ?zs else sift_down cmp ?zs h k)"
      using True by (simp add: Let_def)
    ultimately show ?thesis using pos f(1) Cons.prems(1,4)
      by (intro exI [of _ ar] exI [of _ h] exI [of _ k] exI [of _ trusty]) (simp add: on_path_def)
  next
    case False
    note push = on_path_push [OF Cons.prems(1) pos(1)] and next_p = coded_next [OF Cons.prems(2)]
    obtain p' where p': "shr p (o1 - k) = Some p'" "coded p' (o1 # os)" using next_p(2) by blast
    have ko: "k + (o1 - k) = o1" using Cons.prems(2) by (simp add: coded_def)
    have ap: "ar_push (map ?f ar) (?f ?s) = Some (map ?f (ar @ [?s]))" using Cons.prems(4) by (simp add: ar_push_def)
    have "trinkle_loop cmp w lp m (map ?f ar) (h * w) p k trusty =
        trinkle_loop cmp w lp m (map ?f (ar @ [?s])) (?s * w) p' o1 False"
      unfolding unf using p1 ptr blk ka False ap next_p(1) p'(1) ko by (auto simp: Let_def)
    moreover have "trinkle_left cmp ?zs h (k # o1 # os) trusty = trinkle_left cmp (cycled xs (ar @ [?s])) ?s (o1 # os) False"
      using False push(2) by (auto simp: Let_def)
    moreover obtain path h' k' tr where ih:
      "trinkle_loop cmp w lp m (map ?f (ar @ [?s])) (?s * w) p' o1 False = Some (map ?f path, h' * w, k', tr)"
      "distinct path" "\<forall>a\<in>set path. a < length xs" "length path < AR_SIZE" "h' < length xs" "leo k' \<le> Suc h'" "k' < 64"
      "\<not> tr"
      "trinkle_left cmp (cycled xs (ar @ [?s])) ?s (o1 # os) False = (if tr then cycled xs path else sift_down cmp (cycled xs path) h' k')"
    proof -
      have "length (ar @ [?s]) + length os < AR_SIZE" using Cons.prems(4) by simp
      then show ?thesis using that Cons.IH [OF push(1) p'(2) pos(7), of False] by blast
    qed
    ultimately show ?thesis by (intro exI [of _ path] exI [of _ h'] exI [of _ k'] exI [of _ tr]) simp
  qed
qed

lemma fits_length: "fits h ks \<Longrightarrow> length ks \<le> Suc h"
proof -
  have "length ks \<le> sum_list (map leo ks)"
  proof (induction ks)
    case (Cons k ks)
    then show ?case using leo_pos [of k] by simp
  qed simp
  then show "fits h ks \<Longrightarrow> length ks \<le> Suc h" by (simp add: fits_def)
qed

lemma coded_length: "coded p ks \<Longrightarrow> length ks \<le> 64"
proof -
  assume c: "coded p ks"
  have "distinct ks" if "ascending ks" for ks
    using that by (induction ks) (auto dest: ascending_tl ascending_above)
  then have "length ks = card (set ks)" using c by (simp add: coded_def distinct_card)
  also have "\<dots> \<le> card {..<64::nat}" using c by (intro card_mono) (auto simp: coded_def)
  finally show ?thesis by simp
qed

lemma trinkle_elems:
  assumes "holds_elems w xs m" "leo_table w (length xs) lp" "h < length xs" "coded p ks" "fits h ks" "k = hd ks"
  shows "\<exists>m'. trinkle cmp w lp m (h * w) p k trusty = Some m' \<and> holds_elems w (trinkle_left cmp xs h ks trusty) m'"
proof -
  obtain os where ks: "ks = k # os" using assms(4,6) by (cases ks) (auto simp: coded_def)
  obtain path h' k' tr where t:
    "trinkle_loop cmp w lp m (map (\<lambda>i. i * w) [h]) (h * w) p k trusty = Some (map (\<lambda>i. i * w) path, h' * w, k', tr)"
    "distinct path" "\<forall>a\<in>set path. a < length xs" "length path < AR_SIZE" "h' < length xs" "leo k' \<le> Suc h'" "k' < 64"
    "tr \<longrightarrow> trusty \<and> path = [h]"
    "trinkle_left cmp (cycled xs [h]) h (k # os) trusty = (if tr then cycled xs path else sift_down cmp (cycled xs path) h' k')"
    using trinkle_loop_path [OF assms(1,2) on_path_start [OF assms(3)], of p k os cmp trusty] assms(4,5) ks coded_length [OF assms(4)]
    by (auto simp: AR_SIZE_def)
  show ?thesis
  proof (cases tr)
    case True
    then show ?thesis using t assms(1) ks by (simp add: trinkle_def)
  next
    case False
    obtain m1 where m1: "cycle w m (map (\<lambda>i. i * w) path) = Some m1" "holds_elems w (cycled xs path) m1"
      using cycle_elems [OF assms(1) t(2-4)] by blast
    obtain m2 where "sift cmp w lp m1 (h' * w) k' = Some m2" "holds_elems w (sift_down cmp (cycled xs path) h' k') m2"
      using sift_elems [OF m1(2), of lp h' k' cmp] assms(2) t(5-7) by auto
    then show ?thesis using t m1(1) False ks by (simp add: trinkle_def)
  qed
qed

section \<open>Refinement of the two phases\<close>

lemma gaps_ascending: "gaps ks \<Longrightarrow> ascending ks"
  by (induction ks rule: gaps.induct) auto

lemma shape_ascending: "shape ks \<Longrightarrow> ascending ks"
  by (cases rule: shape_cases, assumption) (auto dest: gaps_ascending)

text \<open>Orders of a forest in an array of fewer than \<open>leo 64\<close> elements.\<close>

lemma fits_order: "fits h ks \<Longrightarrow> k \<in> set ks \<Longrightarrow> leo k \<le> Suc h"
  unfolding fits_def using member_le_sum_list [of "leo k" "map leo ks"] by auto

lemma order_64: "leo k < leo 64 \<Longrightarrow> k < 64"
  using leo_mono [of 64 k] by (cases "64 \<le> k") auto

lemma grow_step_elems:
  assumes "holds_elems w xs m" "leo_table w (length xs) lp" "0 < w" "length xs < leo 64"
    and "coded p ks" "shape ks" "fits h ks" "h < high" "high < length xs"
  shows "\<exists>m' p'. grow_step cmp w lp (high * w) m (h * w) p (hd ks) = Some (m', p', hd (grow_forest ks)) \<and>
    holds_elems w (settle cmp high xs h ks) m' \<and> coded (fst p' OR 1, snd p') (grow_forest ks)"
proof -
  obtain k os where ks: "ks = k # os" using assms(6) by (cases ks) (auto simp: shape_def)
  have h: "h < length xs" "leo k \<le> Suc h" "k < 64"
    using assms(5,8,9) fits_order [OF assms(7), of k] ks by (auto simp: coded_def)
  have cod: "coded p (k # os)" using assms(5) ks by simp
  obtain m' where sift: "sift cmp w lp m (h * w) k = Some m'" "holds_elems w (sift_down cmp xs h k) m'"
    using sift_elems [OF assms(1,2) h] by blast
  show ?thesis
  proof (cases "adjacent ks")
    case True
    then obtain os' where os: "os = Suc k # os'" "gaps (Suc k # os')"
      using assms(6) ks by (cases os) (auto simp: shape_def)
    have k2: "k + 2 < 64"
      using assms(4,8,9) fits_order [OF grow_forest_fits [OF assms(7)], of "Suc (Suc k)"] ks os
      by (intro order_64) (auto simp: grow_forest_def)
    obtain p' where "shr p 2 = Some p'" "coded (fst p' OR 1, snd p') (Suc (Suc k) # os')"
      using coded_join [of p k os'] cod os k2 by auto
    then show ?thesis
      using sift coded_adjacent [OF cod] True ks os by (simp add: grow_step_def settle_def grow_forest_def)
  next
    case False
    have k0: "k \<noteq> 0" using False assms(6) ks by (auto simp: shape_def split: list.splits)
    have gf: "grow_forest ks = (if k = 1 then 0 else 1) # ks"
      using False ks by (cases os) (auto simp: grow_forest_def)
    have lk: "array_at lp (k - 1) = Some (leo (k - 1) * w)"
      using assms(2) h leo_mono [of "k - 1" k] by (simp add: leo_table_def)
    have cmp_w: "leo (k - 1) * w \<ge> high * w - h * w \<longleftrightarrow> leo (k - 1) \<ge> high - h"
      using assms(3) by (simp flip: diff_mult_distrib)
    obtain m'' where tr: "trinkle cmp w lp m (h * w) p k False = Some m''" "holds_elems w (trinkle_left cmp xs h ks False) m''"
      using trinkle_elems [OF assms(1,2) h(1) assms(5,7), of k cmp False] ks by auto
    obtain p' where p': "shl p (k - (if k = 1 then 0 else 1)) = Some p'" "coded (fst p' OR 1, snd p') (grow_forest ks)"
      using coded_add [OF cod, of "if k = 1 then 0 else 1"] k0 gf ks by (auto split: if_splits)
    show ?thesis
      using p' sift tr cmp_w lk k0 False coded_adjacent [OF cod] ks gf
      by (cases "leo (k - 1) \<ge> high - h"; cases "k = 1") (simp_all add: grow_step_def settle_def)
  qed
qed

lemma grow_loop_elems:
  assumes "holds_elems w xs m" "leo_table w (length xs) lp" "0 < w" "length xs < leo 64"
    and "coded p ks" "shape ks" "fits h ks" "h \<le> high" "high < length xs"
  shows "\<exists>m' ys ls p'. grow_loop cmp w lp (high * w) m (h * w) p (hd ks) = Some (m', high * w, p', hd ls) \<and>
    holds_elems w ys m' \<and> length ys = length xs \<and> coded p' ls \<and> shape ls \<and> fits high ls \<and>
    build cmp high xs h ks = (trinkle_left cmp ys high ls False, ls)"
  using assms(1,2,4-9)
proof (induction "high - h" arbitrary: xs m h ks p)
  case 0
  then have "h = high" by simp
  then show ?case
    using 0 by (subst grow_loop.simps, subst build.simps) auto
next
  case (Suc d)
  then have h: "h < high" by simp
  let ?ys = "settle cmp high xs h ks"
  obtain m' p' where st: "grow_step cmp w lp (high * w) m (h * w) p (hd ks) = Some (m', p', hd (grow_forest ks))"
    "holds_elems w ?ys m'" "coded (fst p' OR 1, snd p') (grow_forest ks)"
    using grow_step_elems [OF Suc.prems(1,2) assms(3) Suc.prems(3-6) h Suc.prems(8)] by blast
  have "grow_loop cmp w lp (high * w) m (h * w) p (hd ks) =
      grow_loop cmp w lp (high * w) m' (Suc h * w) (fst p' OR 1, snd p') (hd (grow_forest ks))"
    using h assms(3) st(1) by (subst grow_loop.simps) (simp add: add.commute)
  moreover have "build cmp high xs h ks = build cmp high ?ys (Suc h) (grow_forest ks)"
    using h by (subst build.simps) simp
  ultimately show ?case
    using Suc.hyps(1) [of "Suc h" ?ys m' "(fst p' OR 1, snd p')" "grow_forest ks"] Suc.hyps(2) Suc.prems st h
      grow_forest_shape grow_forest_fits by simp
qed

lemma shrink_step_elems:
  assumes "holds_elems w xs m" "leo_table w (length xs) lp" "coded p ks" "fits (Suc h) ks" "Suc h < length xs"
  shows "\<exists>m' p'. shrink_step cmp w lp m (Suc h * w) p (hd ks) = Some (m', p', hd (shrink_forest ks)) \<and>
    holds_elems w (expose cmp xs (Suc h) ks) m' \<and> coded p' (shrink_forest ks)"
proof -
  obtain k os where ks: "ks = k # os" using assms(3) by (cases ks) (auto simp: coded_def)
  have cod: "coded p (k # os)" using assms(3) ks by simp
  note fs = shrink_forest_fits [OF assms(4)]
  show ?thesis
  proof (cases "k \<le> 1")
    case True
    then have "leo k = 1" by (cases k rule: leo.cases) auto
    then have "os \<noteq> []" using fits_Cons(2) [OF assms(4) [unfolded ks]] by simp
    then obtain o1 os' where os: "os = o1 # os'" by (cases os) auto
    note cod = cod [unfolded os]
    obtain p' where "shr p (o1 - k) = Some p'" "coded p' (o1 # os')" using coded_next(2) [OF cod] by blast
    moreover have "k + (o1 - k) = o1" using cod by (simp add: coded_def)
    ultimately show ?thesis
      using coded_next(1) [OF cod] assms(1) True ks os by (simp add: shrink_step_def expose_def)
  next
    case False
    define j where "j = k - 2"
    have k: "k = Suc (Suc j)" using False by (simp add: j_def)
    obtain p1 p2 where s: "shl p 2 = Some p1" "shr (fst p1 XOR 7, snd p1) 1 = Some p2" "coded p2 (Suc j # os)"
      using coded_split [OF cod] k by auto
    obtain p3 where s3: "shl p2 1 = Some p3" "coded (fst p3 OR 1, snd p3) (j # Suc j # os)"
      using coded_add [OF s(3), of j] by auto
    have ff: "fits h (j # Suc j # os)" using fs ks k by simp
    then have fl: "fits (h - leo j) (Suc j # os)" "leo j \<le> h" using fits_Cons(3) [OF ff] by simp_all
    have hl: "h < length xs" "h - leo j < length xs" "leo j \<le> length xs" using assms(5) fl(2) by linarith+
    have ptr: "array_at lp j = Some (leo j * w)" "ptr_sub (Suc h * w) (leo j * w) = Some ((Suc h - leo j) * w)"
        "ptr_sub ((Suc h - leo j) * w) w = Some ((h - leo j) * w)" "ptr_sub (Suc h * w) w = Some (h * w)"
      using hl(3) fl(2) assms(2) by (auto simp only: leo_table_def intro!: ptr_sub_elems ptr_sub_elem)
    let ?ys = "trinkle_left cmp xs (h - leo j) (Suc j # os) True"
    obtain m1 where m1: "trinkle cmp w lp m ((h - leo j) * w) p2 (Suc j) True = Some m1" "holds_elems w ?ys m1"
      using trinkle_elems [OF assms(1,2) hl(2) s(3) fl(1), of "Suc j" cmp True] by auto
    obtain m2 where m2: "trinkle cmp w lp m1 (h * w) (fst p3 OR 1, snd p3) j True = Some m2"
      "holds_elems w (trinkle_left cmp ?ys h (j # Suc j # os) True) m2"
      using trinkle_elems [OF m1(2), of lp h "(fst p3 OR 1, snd p3)" "j # Suc j # os" j cmp True] assms(2) hl(1) s3(2) ff by auto
    have "shrink_step cmp w lp m (Suc h * w) p k = Some (m2, (fst p3 OR 1, snd p3), j)"
      unfolding shrink_step_def using False s s3 ptr m1 m2 k by (simp del: mult_Suc)
    moreover have "expose cmp xs (Suc h) ks = trinkle_left cmp ?ys h (j # Suc j # os) True"
      using ks k by (simp add: expose_def)
    ultimately show ?thesis using m2(2) s3(2) ks k by simp
  qed
qed

lemma shrink_loop_elems:
  assumes "holds_elems w xs m" "leo_table w (length xs) lp" "coded p ks" "shape ks" "fits h ks" "h < length xs"
  shows "\<exists>m'. shrink_loop cmp w lp m (h * w) p (hd ks) = Some m' \<and> holds_elems w (dequeue cmp xs h ks) m'"
  using assms
proof (induction h arbitrary: xs m p ks)
  case 0
  obtain k os where ks: "ks = k # os" using "0.prems"(4) by (cases ks) (auto simp: shape_def)
  have "os = []" "leo k = 1"
    using fits_Cons [OF "0.prems"(5) [unfolded ks]] leo_pos [of k] by auto
  moreover from this have "k \<le> 1" by (cases k rule: leo.cases) (auto simp: leo_0)
  ultimately have "ks = [1]" using "0.prems"(4) ks by (auto simp: shape_def)
  then have "hd ks = 1" "p = (1, 0)" using coded_one [of p 1 "[]"] "0.prems"(3) by simp_all
  then show ?case using "0.prems"(1) by (subst shrink_loop.simps) simp
next
  case (Suc h)
  have ne: "ks \<noteq> [1]" using Suc.prems(5) by (auto simp: fits_def)
  have go: "hd ks \<noteq> 1 \<or> p \<noteq> (1, 0)"
    using ne Suc.prems(3) coded_one [of p "hd ks" "tl ks"] by (cases ks) (auto simp: coded_def)
  obtain m' p' where st: "shrink_step cmp w lp m (Suc h * w) p (hd ks) = Some (m', p', hd (shrink_forest ks))"
    "holds_elems w (expose cmp xs (Suc h) ks) m'" "coded p' (shrink_forest ks)"
    using shrink_step_elems [OF Suc.prems(1-3,5,6)] by blast
  have "ptr_sub (Suc h * w) w = Some (h * w)" by (rule ptr_sub_elem) simp
  then have "shrink_loop cmp w lp m (Suc h * w) p (hd ks) = shrink_loop cmp w lp m' (h * w) p' (hd (shrink_forest ks))"
    using go st(1) by (subst shrink_loop.simps) (simp del: mult_Suc)
  then show ?case
    using Suc.IH [OF st(2) _ st(3) shrink_forest_shape [OF Suc.prems(4) ne] shrink_forest_fits [OF Suc.prems(5)]] Suc.prems(2,6)
    by simp
qed

section \<open>The table of Leonardo numbers\<close>

lemma leonardo_numbers_table:
  assumes "0 < w" "n < leo 64" "n * w < 2 ^ 62" "0 < n" "2 \<le> i" "i \<le> 65" "\<forall>j<i. 2 \<le> j \<longrightarrow> leo j < n"
  shows "\<exists>lp. leonardo_numbers (n * w) w (map (\<lambda>k. leo k * w) [0..<i]) = Some lp \<and> leo_table w n lp"
  using assms(5-7)
proof (induction "LP_SIZE - i" arbitrary: i rule: less_induct)
  case less
  let ?lp = "map (\<lambda>k. leo k * w) [0..<i]"
  have small: "leo j * w < 2 ^ 62" if "j < i" for j
  proof -
    have "leo j \<le> n" using less.prems(3) that assms(4) by (cases j rule: leo.cases) auto
    then show ?thesis using assms(3) by (meson le_less_trans mult_le_mono1)
  qed
  have w: "w < 2 ^ 62" using small [of 0] less.prems(1) by simp
  have "leo i * w = ?lp ! (i - 2) + ?lp ! (i - 1) + w" using leo_step [of i] less.prems(1) by (simp add: algebra_simps)
  moreover have "?lp ! (i - 2) + ?lp ! (i - 1) + w < 2 ^ 64"
    using small [of "i - 2"] small [of "i - 1"] w less.prems(1) by simp
  ultimately have x: "(?lp ! (i - 2) + ?lp ! (i - 1) + w) mod 2 ^ 64 = leo i * w" by simp
  have snoc: "?lp @ [leo i * w] = map (\<lambda>k. leo k * w) [0..<Suc i]" by simp
  have lp: "\<not> length ?lp \<ge> LP_SIZE" using less.prems(2) by (simp add: LP_SIZE_def)
  have unf: "leonardo_numbers (n * w) w ?lp =
      (if length ?lp \<ge> LP_SIZE then None
       else if leo i * w < n * w then leonardo_numbers (n * w) w (?lp @ [leo i * w]) else Some (?lp @ [leo i * w]))"
    by (subst leonardo_numbers.simps) (simp only: Let_def length_map length_upt minus_nat.diff_0 x)
  show ?case
  proof (cases "leo i < n")
    case True
    then have "i < 64" using assms(2) by (intro order_64) simp
    then have "\<exists>lp. leonardo_numbers (n * w) w (map (\<lambda>k. leo k * w) [0..<Suc i]) = Some lp \<and> leo_table w n lp"
      using less.prems True by (intro less.hyps) (auto simp: LP_SIZE_def less_Suc_eq)
    moreover have "leonardo_numbers (n * w) w ?lp = leonardo_numbers (n * w) w (?lp @ [leo i * w])"
      unfolding unf using lp True assms(1) by simp
    ultimately show ?thesis unfolding snoc by simp
  next
    case False
    have "leonardo_numbers (n * w) w ?lp = Some (?lp @ [leo i * w])"
      unfolding unf using lp False assms(1) by simp
    moreover have "leo_table w n (?lp @ [leo i * w])"
      unfolding snoc leo_table_def
    proof (intro allI impI)
      fix k
      assume k: "leo k \<le> n"
      have "leo i < leo (Suc i)" using less.prems(1) leo_pos [of "i - 1"] by (cases i) auto
      then have "k < Suc i" using k False leo_mono [of "Suc i" k] by (cases "Suc i \<le> k") auto
      then show "array_at (map (\<lambda>k. leo k * w) [0..<Suc i]) k = Some (leo k * w)"
        by (auto simp: array_at_def nth_append less_Suc_eq)
    qed
    ultimately show ?thesis by blast
  qed
qed

lemma leo_iterated: "((\<lambda>(a, b). (b, a + b + 1)) ^^ n) (1, 1) = (int (leo n), int (leo (Suc n)))"
  by (induction n) simp_all

lemma leo_64: "leo 64 = 34335360355129"
proof -
  have "((\<lambda>(a, b). (b, a + b + 1)) ^^ 64) (1, 1) = (34335360355129 :: int, 55555780070575)" by code_simp
  then show ?thesis using leo_iterated [of 64] by simp
qed

section \<open>Sorting and searching\<close>

lemma qsort_r_smoothsort:
  assumes x: "\<forall>x\<in>set xs. length x = width" and n: "length xs < leo 64" and b: "length xs * width < 2 ^ 62"
    and pos: "xs \<noteq> []" "0 < width"
  shows "\<exists>m. qsort_r cmp (concat xs) (length xs) width = Some m \<and> holds_elems width (smoothsort cmp xs) m"
proof -
  let ?n = "length xs - 1"
  have m: "holds_elems width xs (concat xs)" using x by (simp add: holds_elems_def)
  have bytes: "width * length xs mod 2 ^ 64 = length xs * width" using b by (simp add: mult.commute)
  have high: "ptr_sub (length xs * width) width = Some (?n * width)" using pos by (intro ptr_sub_elem) simp
  have start: "map (\<lambda>k. leo k * width) [0..<2] = [width, width]" by (simp add: numeral_2_eq_2)
  obtain lp where lp: "leonardo_numbers (length xs * width) width [width, width] = Some lp" "leo_table width (length xs) lp"
    using leonardo_numbers_table [OF pos(2) n b, of 2] pos(1) unfolding start by auto
  have one: "coded (1, 0) [1]" "shape [1]" "fits 0 [1]" by (simp_all add: coded_def shape_def fits_def)
  obtain m1 ys ls p where g: "grow_loop cmp width lp (?n * width) (concat xs) (0 * width) (1, 0) (hd [1]) = Some (m1, ?n * width, p, hd ls)"
    "holds_elems width ys m1" "length ys = length xs" "coded p ls" "shape ls" "fits ?n ls"
    "build cmp ?n xs 0 [1] = (trinkle_left cmp ys ?n ls False, ls)"
    using grow_loop_elems [OF m lp(2) pos(2) n one, of ?n cmp] pos(1) by auto
  let ?zs = "trinkle_left cmp ys ?n ls False"
  have l: "?n < length ys" using g(3) pos(1) by simp
  obtain m2 where t: "trinkle cmp width lp m1 (?n * width) p (hd ls) False = Some m2" "holds_elems width ?zs m2"
    using trinkle_elems [OF g(2) _ l g(4,6), of lp "hd ls" cmp False] lp(2) g(3) by auto
  obtain m3 where d: "shrink_loop cmp width lp m2 (?n * width) p (hd ls) = Some m3" "holds_elems width (dequeue cmp ?zs ?n ls) m3"
    using shrink_loop_elems [OF t(2) _ g(4-6)] lp(2) g(3) l by auto
  have "smoothsort cmp xs = dequeue cmp ?zs ?n ls" using g(7) pos(1) by (simp add: smoothsort_def)
  moreover have "length xs * width \<noteq> 0" using pos by simp
  ultimately show ?thesis using bytes high lp(1) g(1) t(1) d by (simp add: qsort_r_def)
qed

lemma length_dequeue [simp]: "length (dequeue cmp xs h ks) = length xs"
  by (induction cmp xs h ks rule: dequeue.induct) simp_all

lemma length_build [simp]: "length (fst (build cmp high xs h ks)) = length xs"
proof (induction "high - h" arbitrary: xs h ks)
  case 0
  then show ?case by (subst build.simps) simp
next
  case (Suc d)
  then show ?case by (subst build.simps) simp
qed

lemma length_smoothsort [simp]: "length (smoothsort cmp xs) = length xs"
proof -
  obtain ys ks where b: "build cmp (length xs - 1) xs 0 [1] = (ys, ks)" by fastforce
  then have "length ys = length xs" using length_build [of cmp "length xs - 1" xs 0 "[1]"] by (simp only: fst_conv)
  then show ?thesis using b by (simp add: smoothsort_def)
qed

definition consistent :: "('a \<Rightarrow> 'a \<Rightarrow> int) \<Rightarrow> bool" where
  "consistent cmp \<longleftrightarrow> (\<forall>a b. cmp a b < 0 \<longleftrightarrow> 0 < cmp b a) \<and> (\<forall>a b c. cmp a b \<le> 0 \<longrightarrow> cmp b c \<le> 0 \<longrightarrow> cmp a c \<le> 0)"

lemma consistent_comparator: "consistent cmp \<Longrightarrow> comparator cmp"
  unfolding consistent_def by unfold_locales blast+

lemma consistent_sorts: "consistent cmp \<Longrightarrow> mset (smoothsort cmp xs) = mset xs \<and> sorted_wrt (\<lambda>a b. cmp a b \<le> 0) (smoothsort cmp xs)"
  by (rule comparator.smoothsort_sorts [OF consistent_comparator])

lemma qsort_smoothsort:
  assumes "\<forall>x\<in>set xs. length x = width" "length xs < leo 64" "length xs * width < 2 ^ 62"
  shows "\<exists>ys. qsort cmp (concat xs) (length xs) width = Some (concat ys) \<and> length ys = length xs \<and>
    (\<forall>y\<in>set ys. length y = width) \<and> (consistent cmp \<longrightarrow> mset ys = mset xs \<and> sorted_wrt (\<lambda>a b. cmp a b \<le> 0) ys)"
proof -
  have wr: "(\<lambda>v1 v2. wrapper_cmp v1 v2 cmp) = cmp" by (intro ext) (simp add: wrapper_cmp_def)
  show ?thesis
  proof (cases "xs \<noteq> [] \<and> 0 < width")
    case True
    then obtain m where "qsort_r cmp (concat xs) (length xs) width = Some m" "holds_elems width (smoothsort cmp xs) m"
      using qsort_r_smoothsort [OF assms] by blast
    then show ?thesis using consistent_sorts [of cmp xs] unfolding qsort_def wr holds_elems_def by (metis length_smoothsort)
  next
    case False
    have "sorted_wrt (\<lambda>a b. cmp a b \<le> 0) xs" if c: "consistent cmp"
    proof -
      have "cmp (xs ! i) (xs ! j) \<le> 0" if "i < j" "j < length xs" for i j
      proof -
        have "xs ! i = []" "xs ! j = []" using False that assms(1) by (auto simp: nth_mem)
        then show ?thesis using comparator.refl [OF consistent_comparator [OF c]] by simp
      qed
      then show ?thesis by (simp add: sorted_wrt_iff_nth_less)
    qed
    then show ?thesis using False assms(1) unfolding qsort_def wr by (intro exI [of _ xs]) (auto simp: qsort_r_def)
  qed
qed

lemma qsort_agree:
  assumes "\<forall>x\<in>set xs. length x = width" "length xs < leo 64" "length xs * width < 2 ^ 62"
    and "agree cmp cmp' (set xs)"
  shows "qsort cmp (concat xs) (length xs) width = qsort cmp' (concat xs) (length xs) width"
proof -
  have wr: "(\<lambda>v1 v2. wrapper_cmp v1 v2 c) = c" for c by (intro ext) (simp add: wrapper_cmp_def)
  show ?thesis
  proof (cases "xs \<noteq> [] \<and> 0 < width")
    case True
    have "qsort_r c (concat xs) (length xs) width = Some (concat (smoothsort c xs))" for c
      using qsort_r_smoothsort [OF assms(1-3), of c] True unfolding holds_elems_def by blast
    then show ?thesis using smoothsort_agree [OF assms(4)] unfolding qsort_def wr by simp
  qed (auto simp: qsort_def wr qsort_r_def)
qed

text \<open>
  The search keeps the range outside of which no element compares equal to the key; what it needs of
  the array is that the elements below the key come first and those above it last.
\<close>

definition partitioned :: "('a \<Rightarrow> 'a \<Rightarrow> int) \<Rightarrow> 'a \<Rightarrow> 'a list \<Rightarrow> bool" where
  "partitioned cmp key xs \<longleftrightarrow>
     (\<forall>i j. i < j \<longrightarrow> j < length xs \<longrightarrow> (cmp key (xs ! i) < 0 \<longrightarrow> cmp key (xs ! j) < 0) \<and> (0 < cmp key (xs ! j) \<longrightarrow> 0 < cmp key (xs ! i)))"

lemma partitioned_below:
  "partitioned cmp key xs \<Longrightarrow> cmp key (xs ! i) < 0 \<Longrightarrow> i \<le> j \<Longrightarrow> j < length xs \<Longrightarrow> cmp key (xs ! j) < 0"
  unfolding partitioned_def by (metis le_neq_implies_less)

lemma partitioned_above:
  "partitioned cmp key xs \<Longrightarrow> 0 < cmp key (xs ! j) \<Longrightarrow> i \<le> j \<Longrightarrow> j < length xs \<Longrightarrow> 0 < cmp key (xs ! i)"
  unfolding partitioned_def by (metis le_neq_implies_less)

text \<open>The result of a search among the elements from \<open>lo\<close> to below \<open>hi\<close>: the address of a match, if there is one.\<close>

fun found_in :: "('a \<Rightarrow> 'a \<Rightarrow> int) \<Rightarrow> 'a \<Rightarrow> 'a list \<Rightarrow> nat \<Rightarrow> nat \<Rightarrow> nat \<Rightarrow> nat option \<Rightarrow> bool" where
  "found_in cmp key xs w lo hi None \<longleftrightarrow> (\<forall>i\<in>{lo..<hi}. cmp key (xs ! i) \<noteq> 0)"
| "found_in cmp key xs w lo hi (Some a) \<longleftrightarrow> (\<exists>i\<in>{lo..<hi}. a = i * w \<and> cmp key (xs ! i) = 0)"

lemma found_in_widen:
  assumes "found_in cmp key xs w lo' hi' r" "lo \<le> lo'" "hi' \<le> hi"
    and "\<And>i. lo \<le> i \<Longrightarrow> i < hi \<Longrightarrow> i < lo' \<or> hi' \<le> i \<Longrightarrow> cmp key (xs ! i) \<noteq> 0"
  shows "found_in cmp key xs w lo hi r"
proof (cases r)
  case None
  have "cmp key (xs ! i) \<noteq> 0" if "lo \<le> i" "i < hi" for i
    using assms(1,4) None that by (cases "i < lo' \<or> hi' \<le> i") auto
  then show ?thesis using None by simp
next
  case (Some a)
  then obtain i where "lo' \<le> i" "i < hi'" "a = i * w" "cmp key (xs ! i) = 0" using assms(1) by auto
  then show ?thesis using Some assms(2,3) by (auto intro!: bexI [of _ i])
qed

lemma bsearch_from_range:
  assumes m: "holds_elems w xs m" and part: "partitioned cmp key xs" and n: "lo + n \<le> length xs"
  shows "\<exists>r. bsearch_from cmp key m (lo * w) n w = Some r \<and> found_in cmp key xs w lo (lo + n) r"
  using n
proof (induction n arbitrary: lo rule: less_induct)
  case (less n)
  show ?case
  proof (cases "n = 0")
    case True
    then show ?thesis by (subst bsearch_from.simps) simp
  next
    case False
    let ?h = "lo + n div 2" and ?n = "n - (n div 2 + 1)"
    let ?s = "cmp key (xs ! ?h)"
    have h: "?h < length xs" "?h < lo + n" "Suc ?h + ?n = lo + n" "?n < n" using False less.prems by auto
    have mid: "lo * w + w * (n div 2) = ?h * w" by (simp add: algebra_simps)
    have unf: "bsearch_from cmp key m (lo * w) n w =
        (if ?s < 0 then bsearch_from cmp key m (lo * w) (n div 2) w
         else if ?s > 0 then bsearch_from cmp key m (Suc ?h * w) ?n w
         else Some (Some (?h * w)))"
      using False block_elem [OF m h(1)] mid by (subst bsearch_from.simps) (simp add: add.commute)
    consider "?s < 0" | "?s > 0" | "?s = 0" by linarith
    then show ?thesis
    proof cases
      case 1
      obtain r where r: "bsearch_from cmp key m (lo * w) (n div 2) w = Some r" "found_in cmp key xs w lo ?h r"
        using less.IH [of "n div 2" lo] False h(1) by force
      have "found_in cmp key xs w lo (lo + n) r"
        using r(2) h partitioned_below [OF part 1] less.prems by (elim found_in_widen) fastforce+
      then show ?thesis using 1 r(1) unfolding unf by simp
    next
      case 2
      obtain r where r: "bsearch_from cmp key m (Suc ?h * w) ?n w = Some r" "found_in cmp key xs w (Suc ?h) (lo + n) r"
        using less.IH [OF h(4), of "Suc ?h"] less.prems unfolding h(3) by blast
      have "cmp key (xs ! i) \<noteq> 0" if "i \<le> ?h" for i using partitioned_above [OF part 2 that h(1)] by simp
      then have "found_in cmp key xs w lo (lo + n) r" using r(2) by (elim found_in_widen) auto
      then show ?thesis using 2 r(1) unfolding unf by simp
    next
      case 3
      then show ?thesis using h(2) unfolding unf by (auto intro!: bexI [of _ ?h])
    qed
  qed
qed

lemma consistent_partitioned:
  assumes "consistent cmp" "sorted_wrt (\<lambda>a b. cmp a b \<le> 0) xs"
  shows "partitioned cmp key xs"
  unfolding partitioned_def
proof (intro allI impI)
  fix i j
  assume "i < j" "j < length xs"
  then have le: "cmp (xs ! i) (xs ! j) \<le> 0" using assms(2) by (simp add: sorted_wrt_iff_nth_less)
  have flip: "cmp a b < 0 \<longleftrightarrow> 0 < cmp b a" and trans: "cmp a b \<le> 0 \<Longrightarrow> cmp b c \<le> 0 \<Longrightarrow> cmp a c \<le> 0" for a b c
    using assms(1) unfolding consistent_def by blast+
  have "cmp key (xs ! j) < 0" if "cmp key (xs ! i) < 0"
  proof (rule ccontr)
    assume "\<not> cmp key (xs ! j) < 0"
    then have "cmp (xs ! j) key \<le> 0" using flip [of key "xs ! j"] by linarith
    then show False using that le trans [of "xs ! i" "xs ! j" key] flip [of key "xs ! i"] by linarith
  qed
  moreover have "0 < cmp key (xs ! i)" if "0 < cmp key (xs ! j)"
  proof (rule ccontr)
    assume "\<not> 0 < cmp key (xs ! i)"
    then show False using that le trans [of key "xs ! i" "xs ! j"] by linarith
  qed
  ultimately show "(cmp key (xs ! i) < 0 \<longrightarrow> cmp key (xs ! j) < 0) \<and> (0 < cmp key (xs ! j) \<longrightarrow> 0 < cmp key (xs ! i))" by blast
qed

lemma bsearch_sorted:
  assumes "\<forall>x\<in>set xs. length x = width" "consistent cmp" "sorted_wrt (\<lambda>a b. cmp a b \<le> 0) xs"
  shows "\<exists>r. bsearch cmp key (concat xs) (length xs) width = Some r \<and> found_in cmp key xs width 0 (length xs) r"
  using bsearch_from_range [OF _ consistent_partitioned [OF assms(2,3)], of width "concat xs" 0 "length xs" key] assms(1)
  unfolding bsearch_def holds_elems_def mult_0 add_0 by blast

text \<open>
  C26.  \<open>qsort\<close> on an array of fewer than 34335360355129 elements and less than 2^62 bytes, whatever the
  comparison function: it returns, without touching a byte outside the array, an entry outside its
  Leonardo table or its path array, or shifting by an undefined amount.  With a comparison function
  that is consistent (antisymmetric in sign, and transitive) the array then holds the same elements
  in sorted order.  Elements may have any width, also more than the 256 bytes that are moved at once.
\<close>

theorem qsort_sorts:
  assumes "\<forall>x\<in>set xs. length x = width" "length xs < 34335360355129" "length xs * width < 2 ^ 62"
  shows "\<exists>ys. qsort cmp (concat xs) (length xs) width = Some (concat ys) \<and> length ys = length xs \<and>
    (\<forall>y\<in>set ys. length y = width) \<and> (consistent cmp \<longrightarrow> mset ys = mset xs \<and> sorted_wrt (\<lambda>a b. cmp a b \<le> 0) ys)"
  using assms(1) _ assms(3)
proof (rule qsort_smoothsort)
  show "length xs < leo 64" using assms(2) by (simp only: leo_64)
qed

text \<open>Comparing the first byte of two elements is consistent.\<close>

lemma byte_consistent: "consistent (\<lambda>a b. uint (hd a :: byte) - uint (hd b))"
  by (auto simp: consistent_def)

theorem qsort_sorts_witness:
  "qsort (\<lambda>a b. uint (hd a) - uint (hd b)) [3, 0, 1, 9, 2, 5] 3 2 = Some [1, 9, 2, 5, 3, 0]"
proof -
  let ?cmp = "\<lambda>a b. uint (hd a :: byte) - uint (hd b)"
  have len: "length [[3, 0], [1, 9], [2, 5 :: byte]] = 3" by simp
  obtain ys where ys: "qsort ?cmp (concat [[3, 0], [1, 9], [2, 5]]) 3 2 = Some (concat ys)"
    "mset ys = mset [[3, 0], [1, 9], [2, 5]]" "sorted_wrt (\<lambda>a b. ?cmp a b \<le> 0) ys"
    using qsort_sorts [of "[[3, 0], [1, 9], [2, 5]]" 2 ?cmp, unfolded len] byte_consistent by fastforce
  have "length ys = 3" using arg_cong [OF ys(2), of size] by simp
  then obtain a b c where abc: "ys = [a, b, c]" by (auto simp: length_Suc_conv eval_nat_numeral)
  have s: "set ys = {[3, 0], [1, 9], [2, 5]}" using arg_cong [OF ys(2), of set_mset] by simp
  have mem: "v = [3, 0] \<or> v = [1, 9] \<or> v = [2, 5]" if "v \<in> set ys" for v using that unfolding s by blast
  have all: "[3, 0] \<in> set ys" "[1, 9] \<in> set ys" "[2, 5] \<in> set ys" unfolding s by blast+
  have "a = [3, 0] \<or> a = [1, 9] \<or> a = [2, 5]" "b = [3, 0] \<or> b = [1, 9] \<or> b = [2, 5]" "c = [3, 0] \<or> c = [1, 9] \<or> c = [2, 5]"
    using abc by (intro mem; simp)+
  then have "ys = [[1, 9], [2, 5], [3, 0]]" unfolding abc by (elim disjE) (use ys(3) all abc in simp_all)
  then show ?thesis using ys(1) by simp
qed

end
