(* ===== verification/Spec2Isabelle.thy ===== *)
theory Spec2Isabelle
  imports Musl_Crypt Rux_Shell Musl_Tz Musl_Search Musl_Hsearch Toybox_Hash Musl_Rwlock Musl_Sem Musl_Mutex Musl_Once Musl_Utf8 Musl_Qsort
begin

text \<open>
  The C userland of Rux.

  Rux is an operating system for RISC-V.  Its kernel (\<^verbatim>\<open>src/kernel\<close>) is written in Rust; what
  it runs is a C userland: its own command shell (\<^verbatim>\<open>src/userspace/shell\<close>), the C library musl
  (\<^verbatim>\<open>src/toolchain/musl-1.2.5\<close>) every program is linked with, and the toybox commands
  (\<^verbatim>\<open>src/userspace/toybox/toybox\<close>).  This development models that C code: machine integers keep
  their width, buffers are byte lists with their real capacity, memory is byte-addressed and faults
  outside what is mapped, loops are recursions with termination proofs, errors are values.

  The parts and how they meet: the shell reads lines through the buffered streams of stdio, splits
  them with \<^verbatim>\<open>strtok\<close>, compares and copies with the string functions, and hands the rest to
  the kernel; a login checks passwords with \<^verbatim>\<open>crypt_r\<close>, whose schemes run the streaming hashes
  and scan the round count with \<^verbatim>\<open>strtoul\<close>; the toybox checksum commands have their own hash
  driver on top of reads and \<^verbatim>\<open>printf\<close>; every program shares the calendar, search, locking and
  multibyte functions of the library.

  \<^bold>\<open>Foundations\<close>
  \<^item> \<open>C_Prelude\<close>: machine words, buffers, block splitting and byte orders shared by all parts.
  \<^item> \<open>C_Memory\<close>: a byte-addressed memory with faults, little-endian word accesses, and the
    word-at-a-time scanning and copying loops with the zero-byte bit trick.
  \<^item> \<open>Hash_Stream\<close>: the contract of a streaming hash as locales: \<open>hash_ctx\<close> (a context
    that absorbs bytes) and, for Merkle-Damgaard hashes, \<open>md_update\<close>, \<open>md_pad\<close>,
    \<open>md_hash\<close>, each with its laws and the lemmas that follow from them.
  \<^item> \<open>Sha2_Spec\<close>: the reference definitions of FIPS 180-4.
  \<^item> \<open>Futex_Threads\<close>: threads that interleave at atomic accesses and sleep on a futex; the locale
    \<open>threads_invariant\<close> turns the preservation of an invariant by each access and each wake-up
    into an invariant of all reachable systems; \<^verbatim>\<open>__timedwait.c\<close>.

  \<^bold>\<open>Passwords\<close>
  \<^item> \<open>Musl_Sha256\<close>, \<open>Musl_Sha512\<close>, \<open>Musl_Md5\<close>: the contexts of
    \<^verbatim>\<open>crypt_sha256.c\<close>, \<^verbatim>\<open>crypt_sha512.c\<close> and \<^verbatim>\<open>crypt_md5.c\<close>, with their
    unrolled compression functions.  Shown: any division of a message into updates gives the digest
    of the standard; the interpretations of \<open>md_hash\<close> rest on these definitions.
  \<^item> \<open>Musl_Intscan\<close>: \<^verbatim>\<open>__intscan\<close>, \<^verbatim>\<open>strtol\<close>, \<^verbatim>\<open>strtoul\<close>: value,
    end position, saturation and errors.
  \<^item> \<open>Musl_Crypt\<close>: the three password schemes and \<^verbatim>\<open>crypt_r\<close>: parsing of settings,
    the rounds, the encoding of the digest, the self test, failures; \<open>hash_cycle\<close> and
    \<open>sha_crypt\<close> state the rounds once for all hashes.  The settings accepted and the strings
    returned are specified by a relation of their own (\<open>sha_setting\<close>, \<open>md5_setting\<close>, \<open>hash_text\<close>),
    not by the parsers.  The outcome of the built-in self test is a condition of the theorem about
    \<^verbatim>\<open>crypt_r\<close>, expressed by the specification; its thousand and more rounds are not evaluated.

  \<^bold>\<open>Strings and streams\<close>
  \<^item> \<open>Musl_Memops\<close>: \<^verbatim>\<open>memcpy\<close>, \<^verbatim>\<open>memmove\<close>, \<^verbatim>\<open>memset\<close> with every
    alignment path: they write exactly what they promise and touch nothing else.
  \<^item> \<open>Musl_String\<close>: searches, copies, comparisons, tokens: equal to list functions on the
    strings in memory, within the bounds of the buffers.
  \<^item> \<open>Musl_Stdio\<close>: streams of \<^verbatim>\<open>stdio_impl.h\<close> and their operations: what is written
    arrives in order, short writes and errors included; what is read is what the file delivers, and
    \<^verbatim>\<open>fgets\<close> returns lines.  \<open>appender\<close> is the contract of the writers.
  \<^item> \<open>Rux_Shell\<close>: \<^verbatim>\<open>shell.c\<close>, every function, from the input stream to the commands run.
    What a session shows is specified apart from the code (\<open>session_shows\<close>), with the kernel's
    answers new for every command; shown is that the shell returns and shows just that, as long as
    the writes of \<^verbatim>\<open>cat\<close> make progress.  The loop has fuel; more fuel than bytes of input is enough,
    because each line takes at least one.

  \<^bold>\<open>Time\<close>
  \<^item> \<open>Musl_Time\<close>: calendar and seconds in both directions, the ISO week, with the arithmetic and
    the narrowing of \<^verbatim>\<open>int\<close> written out.
  \<^item> \<open>Musl_Tz\<close>: the \<^verbatim>\<open>TZ\<close> string, its transition rules, the zone in effect, local time; a rule
    whose month is outside the table of months is a fault.  The two loops that look for the year are partial functions, shown to return.

  \<^bold>\<open>Search\<close>
  \<^item> \<open>Musl_Search\<close>: the balanced trees of \<^verbatim>\<open>tsearch\<close>; the height bound that makes the fixed
    path array of \<open>MAXH\<close> entries large enough; \<open>key_set\<close> is the contract of a set of keys, and the
    trees of every comparison by a linear order meet it (\<open>ordered_tree\<close>).  The immediate null answer
    to a null \<^verbatim>\<open>rootp\<close> is left out.
  \<^item> \<open>Musl_Hsearch\<close>: \<^verbatim>\<open>hsearch_r\<close>; the probe and growth loops are partial functions, shown
    to return because a slot stays free and the probe sequence visits all slots.
  \<^item> \<open>Smoothsort\<close>: the algorithm of \<^verbatim>\<open>qsort\<close> on lists, a forest of heaps whose sizes are Leonardo
    numbers, with the trees given by their orders; the locale \<open>comparator\<close> states what a comparison
    function owes, and in it the algorithm is shown to sort.
  \<^item> \<open>Musl_Qsort\<close>: \<^verbatim>\<open>stdlib/qsort.c\<close>, \<^verbatim>\<open>qsort_nr.c\<close> and \<^verbatim>\<open>bsearch.c\<close> on the bytes of the array:
    the forest as a string of bits in two words, the table of scaled Leonardo numbers, elements
    moved in pieces of 256 bytes.  Each function refines its counterpart in \<open>Smoothsort\<close>.  The bound
    of \<open>leo 64\<close> = 34335360355129 elements keeps all orders below 64, where the shifts are defined and
    the arrays long enough; 2^62 bytes keep the table from wrapping.  The loops that walk the forest
    are partial functions, shown to return for every comparison function.
  \<^item> Below in this theory: tables of terminated strings, sorted and searched with \<^verbatim>\<open>strcmp\<close> in
    place, whose order interprets \<open>comparator\<close>.

  \<^bold>\<open>Toybox\<close>
  \<^item> \<open>Toybox_Hash\<close>: \<^verbatim>\<open>lib/hash.c\<close> built without floating point on a little-endian machine: md5,
    sha1 and the sha2 family, shown to print the digests of RFC 1321 and FIPS 180-4.  The constant
    tables are taken with the bits the initialisers give them.  The loops over chunks and padding
    are partial functions, shown to return.  \<open>chunk_hash\<close> is the contract of the block
    functions.

  \<^bold>\<open>Threads and characters\<close>
  \<^item> \<open>Musl_Rwlock\<close>: \<^verbatim>\<open>pthread_rwlock_*.c\<close>, one step per shared access: exclusion for any number
    of threads, and no lost wake-up below 2^32 threads (the waiter count is a 32-bit word).  The
    process-shared attribute only selects the kind of futex and is not a part of the state.  A thread
    holds the lock at most once: read locks nested within one thread are not modelled.
  \<^item> \<open>Musl_Sem\<close>: \<^verbatim>\<open>sem_*.c\<close>, with cancellation: conservation of tokens and no lost post, below
    2^31 threads.
  \<^item> \<open>Musl_Mutex\<close>: \<^verbatim>\<open>pthread_mutex_*.c\<close> for normal, recursive and error-checking mutexes private to a
    process: exclusion, recursion count and owner, truthful errors, and no lost wake-up below 2^32
    threads; the thread ids are distinct, positive and below 0x3fffffff, as the kernel guarantees.  A
    normal mutex is unlocked only by the thread that holds it, as POSIX requires.
  \<^item> \<open>Musl_Once\<close>: \<^verbatim>\<open>pthread_once.c\<close> and \<^verbatim>\<open>__wait.c\<close>, with cancellation: one completed run of the routine,
    callers return only after it, and all sleepers are woken, below 2^31 threads.
  \<^item> \<open>Musl_Utf8\<close>: \<^verbatim>\<open>src/multibyte\<close>: the table-driven decoder, in one call or restarted, the
    decoder without a state and the encoder: mutually inverse on well-formed UTF-8, everything else
    refused.

  \<^bold>\<open>Not modelled.\<close>  Floating point (\<^verbatim>\<open>src/math\<close>) and the parts of \<^verbatim>\<open>printf\<close> and the integer
  scanner that need it; DES and blowfish, which are parameters of \<^verbatim>\<open>crypt_r\<close>; the allocators,
  whose results are parameters; the zoneinfo file reader; opening, seeking and closing of streams;
  robust, priority-inheriting and process-shared mutexes, condition variables, barriers and thread
  creation; the decoders of whole multibyte strings; regular expressions, the dynamic linker,
  network and system-call wrappers, which are mostly kernel interface; the toybox commands, which are input and output around the library; the
  kernel and the desktop, which are Rust.  The two-way string search of \<^verbatim>\<open>strstr\<close> and \<^verbatim>\<open>memmem\<close> is left
  out because its correctness rests on the critical factorisation theorem of word combinatorics,
  which the library does not have.
\<close>

section \<open>Sorting and searching strings\<close>

text \<open>The value \<^verbatim>\<open>strcmp\<close> returns for two strings: the difference of the first bytes that differ, the
  terminator included.\<close>

fun cmp_strings :: "byte list \<Rightarrow> byte list \<Rightarrow> int" where
  "cmp_strings [] [] = 0"
| "cmp_strings [] (b # bs) = - uint b"
| "cmp_strings (a # as) [] = uint a"
| "cmp_strings (a # as) (b # bs) = (if a = b then cmp_strings as bs else uint a - uint b)"

definition string_order :: "byte list \<Rightarrow> byte list \<Rightarrow> int" where
  "string_order l r = cmp_strings (cstr l 0) (cstr r 0)"

text \<open>
  A comparison function that is \<^verbatim>\<open>strcmp\<close> in place: whenever a memory holds at addresses \<open>a\<close> and \<open>b\<close>
  two fields that contain a zero byte, \<^verbatim>\<open>strcmp\<close> on these addresses returns what the function says
  of the contents of the fields.  (Of fields without a terminator nothing is said: there \<^verbatim>\<open>strcmp\<close>
  reads on behind the field.)
\<close>

definition strcmp_in_place :: "(byte list \<Rightarrow> byte list \<Rightarrow> int) \<Rightarrow> bool" where
  "strcmp_in_place cmp \<longleftrightarrow>
     (\<forall>m a b l r. block m a (length l) = Some l \<and> block m b (length r) = Some r \<and> 0 \<in> set l \<and> 0 \<in> set r \<longrightarrow>
        strcmp m a b = Some (cmp l r))"

lemma strcmp_value:
  "terminated m l \<Longrightarrow> terminated m r \<Longrightarrow> strcmp m l r = Some (cmp_strings (cstr m l) (cstr m r))"
proof (induction m l r rule: strcmp.induct)
  case (1 m l r)
  have l: "l < length m" and r: "r < length m" using "1.prems" terminated_lt by auto
  have c: "cstr m i = (if m ! i = 0 then [] else m ! i # cstr m (Suc i))" if "i < length m" for i
    using that by (simp add: cstr_def Cons_nth_drop_Suc [symmetric])
  have t: "terminated m (Suc i)" if "terminated m i" "i < length m" "m ! i \<noteq> 0" for i
    using that by (simp add: terminated_def Cons_nth_drop_Suc [symmetric])
  show ?case
  proof (cases "m ! l = m ! r \<and> m ! l \<noteq> 0")
    case True
    then have "strcmp m (Suc l) (Suc r) = Some (cmp_strings (cstr m (Suc l)) (cstr m (Suc r)))"
      using "1.IH" [of "m ! l" "m ! r"] "1.prems" l r t by auto
    then show ?thesis using True l r c [OF l] c [OF r] by (subst strcmp.simps) simp
  next
    case False
    then show ?thesis using l r c [OF l] c [OF r] by (subst strcmp.simps) auto
  qed
qed

lemma block_string:
  assumes "block m a (length l) = Some l" and "0 \<in> set l"
  shows "terminated m a" and "cstr m a = cstr l 0"
proof -
  have l: "take (length l) (drop a m) = l" using assms(1) by (simp add: block_def split: if_splits)
  then obtain q where q: "drop a m = l @ q" by (metis append_take_drop_id)
  show "terminated m a" using assms(2) q by (simp add: terminated_def)
  show "cstr m a = cstr l 0" using assms(2) q by (simp add: cstr_def takeWhile_append1)
qed

lemma string_order_in_place: "strcmp_in_place string_order"
  unfolding strcmp_in_place_def string_order_def using block_string strcmp_value by fastforce

lemma in_place_string_order:
  assumes "strcmp_in_place cmp" "0 \<in> set l" "0 \<in> set r"
  shows "cmp l r = string_order l r"
proof -
  have "block (l @ r) 0 (length l) = Some l" "block (l @ r) (length l) (length r) = Some r" by (simp_all add: block_def)
  then show ?thesis
    using assms string_order_in_place unfolding strcmp_in_place_def by (metis option.inject)
qed

lemma string_order_lex:
  "string_order l r = 0 \<longleftrightarrow> cstr l 0 = cstr r 0"
  "string_order l r < 0 \<longleftrightarrow> ord_class.lexordp (cstr l 0) (cstr r 0)"
proof -
  let ?m = "l @ 0 # r @ [0]"
  have t: "terminated ?m 0" "terminated ?m (Suc (length l))" by (auto simp: terminated_def)
  have c: "cstr ?m 0 = cstr l 0" "cstr ?m (Suc (length l)) = cstr r 0"
    by (simp_all add: cstr_def takeWhile_tail)
  show "string_order l r = 0 \<longleftrightarrow> cstr l 0 = cstr r 0"
    "string_order l r < 0 \<longleftrightarrow> ord_class.lexordp (cstr l 0) (cstr r 0)"
    using strcmp_spec [OF t] unfolding strcmp_value [OF t] string_order_def c by auto
qed

lemma string_order_pos: "0 < string_order l r \<longleftrightarrow> ord_class.lexordp (cstr r 0) (cstr l 0)"
  using string_order_lex [of l r] lexordp_linear [of "cstr l 0" "cstr r 0"] lexordp_antisym [of "cstr l 0" "cstr r 0"]
    lexordp_irreflexive' [of "cstr l 0"] by (cases "string_order l r" "0 :: int" rule: linorder_cases) auto

interpretation strings: comparator string_order
proof
  show "string_order a b < 0 \<longleftrightarrow> 0 < string_order b a" for a b
    by (simp add: string_order_lex(2) string_order_pos)
  show "string_order a c \<le> 0" if "string_order a b \<le> 0" "string_order b c \<le> 0" for a b c
    using that unfolding linorder_not_less [symmetric] string_order_pos
    by (metis lexordp_linear lexordp_trans)
qed

lemma string_order_consistent: "consistent string_order"
  unfolding consistent_def using strings.flip strings.trans by blast

lemma strings_searched:
  assumes "strcmp_in_place cmp" "\<forall>y\<in>set ys. length y = width \<and> 0 \<in> set y" "sorted_wrt (\<lambda>a b. string_order a b \<le> 0) ys"
    and "0 \<in> set pat"
  shows "\<exists>r. bsearch cmp pat (concat ys) (length ys) width = Some r \<and>
    (case r of None \<Rightarrow> \<forall>y\<in>set ys. cstr y 0 \<noteq> cstr pat 0
     | Some a \<Rightarrow> \<exists>y\<in>set ys. block (concat ys) a width = Some y \<and> cstr y 0 = cstr pat 0)"
proof -
  have m: "holds_elems width ys (concat ys)" using assms(2) by (simp add: holds_elems_def)
  have c: "cmp pat (ys ! i) = string_order pat (ys ! i)" if "i < length ys" for i
    using in_place_string_order [OF assms(1,4)] assms(2) that by simp
  have "partitioned string_order pat ys" by (rule consistent_partitioned [OF string_order_consistent assms(3)])
  then have "partitioned cmp pat ys" unfolding partitioned_def using c by simp
  then obtain r where r: "bsearch cmp pat (concat ys) (length ys) width = Some r" "found_in cmp pat ys width 0 (length ys) r"
    using bsearch_from_range [OF m, of cmp pat 0 "length ys"] unfolding bsearch_def mult_0 add_0 by blast
  show ?thesis
  proof (cases r)
    case None
    have "cstr pat 0 \<noteq> cstr (ys ! i) 0" if "i < length ys" for i
      using r(2) None that c string_order_lex(1) by simp
    then show ?thesis using r(1) None by (fastforce simp: in_set_conv_nth)
  next
    case (Some a)
    then obtain i where "i < length ys" "a = i * width" "cstr (ys ! i) 0 = cstr pat 0"
      using r(2) c by (auto simp: string_order_lex(1))
    then show ?thesis using r(1) Some block_elem [OF m, of i] nth_mem [of i ys] by auto
  qed
qed

text \<open>
  C27.  A table of strings in fields of fixed width, each with its terminator, sorted by \<^verbatim>\<open>qsort\<close>
  and searched by \<^verbatim>\<open>bsearch\<close>, both with \<^verbatim>\<open>strcmp\<close> on the fields in place: the sort returns, the
  table then holds the same fields in lexicographic order of their strings, and every search for a
  terminated string returns, with the address of a field that holds the string looked for, or with
  \<^verbatim>\<open>NULL\<close> when none does.
\<close>

theorem string_table:
  assumes "strcmp_in_place cmp" "\<forall>x\<in>set xs. length x = width \<and> 0 \<in> set x"
    and "length xs < 34335360355129" "length xs * width < 2 ^ 62"
  shows "\<exists>ys. qsort cmp (concat xs) (length xs) width = Some (concat ys) \<and> mset ys = mset xs \<and>
    sorted_wrt (\<lambda>a b. \<not> ord_class.lexordp (cstr b 0) (cstr a 0)) ys \<and>
    (\<forall>key. 0 \<in> set key \<longrightarrow> (\<exists>r. bsearch cmp key (concat ys) (length xs) width = Some r \<and>
       (case r of None \<Rightarrow> \<forall>x\<in>set xs. cstr x 0 \<noteq> cstr key 0
        | Some a \<Rightarrow> \<exists>x\<in>set xs. block (concat ys) a width = Some x \<and> cstr x 0 = cstr key 0)))"
proof -
  have n: "length xs < leo 64" using assms(3) by (simp only: leo_64)
  have x: "\<forall>x\<in>set xs. length x = width" using assms(2) by blast
  have "agree cmp string_order (set xs)" using in_place_string_order [OF assms(1)] assms(2) by (simp add: agree_def)
  note q = qsort_agree [OF x n assms(4) this]
  obtain ys where ys: "qsort string_order (concat xs) (length xs) width = Some (concat ys)" "length ys = length xs"
    "mset ys = mset xs" "sorted_wrt (\<lambda>a b. string_order a b \<le> 0) ys"
    using qsort_smoothsort [OF x n assms(4), of string_order] string_order_consistent by auto
  have s: "set ys = set xs" using ys(3) by (rule mset_eq_setD)
  have "sorted_wrt (\<lambda>a b. \<not> ord_class.lexordp (cstr b 0) (cstr a 0)) ys"
    using ys(4) by (simp add: linorder_not_less [symmetric] string_order_pos)
  moreover have "\<forall>y\<in>set ys. length y = width \<and> 0 \<in> set y" unfolding s by (rule assms(2))
  note strings_searched [OF assms(1) this ys(4), unfolded s ys(2)]
  ultimately show ?thesis using q ys(1,3) by auto
qed

theorem string_table_witness:
  "\<exists>m. qsort string_order [0x6c, 0x73, 0, 0, 0x63, 0x61, 0x74, 0, 0x70, 0x77, 0x64, 0] 3 4 = Some m \<and>
     (\<exists>a. bsearch string_order [0x63, 0x61, 0x74, 0, 7] m 3 4 = Some (Some a) \<and> block m a 4 = Some [0x63, 0x61, 0x74, 0]) \<and>
     bsearch string_order [0x63, 0x61, 0] m 3 4 = Some None"
proof -
  let ?xs = "[[0x6c, 0x73, 0, 0], [0x63, 0x61, 0x74, 0], [0x70, 0x77, 0x64, 0]] :: byte list list"
  have len: "length ?xs = 3" by simp
  obtain ys where m: "qsort string_order (concat ?xs) 3 4 = Some (concat ys)"
    "\<And>key. 0 \<in> set key \<Longrightarrow> \<exists>r. bsearch string_order key (concat ys) 3 4 = Some r \<and>
       (case r of None \<Rightarrow> \<forall>x\<in>set ?xs. cstr x 0 \<noteq> cstr key 0
        | Some a \<Rightarrow> \<exists>x\<in>set ?xs. block (concat ys) a 4 = Some x \<and> cstr x 0 = cstr key 0)"
    using string_table [OF string_order_in_place, of ?xs 4, unfolded len] by (auto simp del: concat.simps)
  have "\<exists>a. bsearch string_order [0x63, 0x61, 0x74, 0, 7] (concat ys) 3 4 = Some (Some a) \<and>
      block (concat ys) a 4 = Some [0x63, 0x61, 0x74, 0]"
    using m(2) [of "[0x63, 0x61, 0x74, 0, 7]"] by (auto simp: cstr_def split: option.splits)
  moreover have "bsearch string_order [0x63, 0x61, 0] (concat ys) 3 4 = Some None"
    using m(2) [of "[0x63, 0x61, 0]"] by (auto simp: cstr_def split: option.splits)
  ultimately show ?thesis using m(1) by simp
qed

end
